(* ===== verification/Prelude.thy ===== *)
theory Prelude
  imports Main "HOL-Library.Word" "HOL-Library.AList"
begin

text \<open>
  The shared base of the development: names for the machine types the Rust sources use, big- and
  little-endian byte encodings, hash maps as association lists, saturating and checked arithmetic,
  and the two generic interfaces that several components provide: a self-delimiting byte codec
  (\<open>wire_codec\<close>) and a state machine with an invariant (\<open>step_invariant\<close>).
\<close>

section \<open>Machine types\<close>

type_synonym u8 = "8 word"
type_synonym u16 = "16 word"
type_synonym u32 = "32 word"
type_synonym u64 = "64 word"
type_synonym bytes = "u8 list"

text \<open>
  \<open>std::time::Instant\<close> and \<open>Duration\<close> are natural numbers of nanoseconds: an instant counts from
  the start of the monotonic clock.
\<close>

type_synonym instant = nat
type_synonym duration = nat

definition from_secs :: "nat \<Rightarrow> duration" where
  "from_secs s = s * 1000000000"

named_theorems codec_simps \<open>rewriting the byte encoders and decoders\<close>
named_theorems hashmap_simps \<open>lookups in association-list hash maps\<close>

section \<open>Fixed-width integers as bytes\<close>

text \<open>\<open>to_be k n\<close> is the low \<open>k\<close> bytes of \<open>n\<close>, most significant first
  (\<open>to_be_bytes\<close> of a \<open>k\<close>-byte integer).\<close>

primrec to_be :: "nat \<Rightarrow> nat \<Rightarrow> bytes" where
  "to_be 0 n = []"
| "to_be (Suc k) n = to_be k (n div 256) @ [word_of_nat n]"

lemma to_be_numeral [simp]:
  "to_be (numeral k) n = to_be (pred_numeral k) (n div 256) @ [word_of_nat n]"
  by (simp add: numeral_eq_Suc [of k])

definition from_be :: "bytes \<Rightarrow> nat" where
  "from_be bs = foldl (\<lambda>acc b. acc * 256 + unat b) 0 bs"

definition to_le :: "nat \<Rightarrow> nat \<Rightarrow> bytes" where
  "to_le k n = rev (to_be k n)"

definition from_le :: "bytes \<Rightarrow> nat" where
  "from_le bs = from_be (rev bs)"

lemma length_to_be [simp]: "length (to_be k n) = k"
  by (induction k arbitrary: n) auto

lemma length_to_le [simp]: "length (to_le k n) = k"
  by (simp add: to_le_def)

lemma from_be_snoc [simp]: "from_be (bs @ [b]) = from_be bs * 256 + unat b"
  by (simp add: from_be_def)

lemma from_be_Nil [simp]: "from_be [] = 0"
  by (simp add: from_be_def)

lemma unat_byte_of_nat: "unat (word_of_nat n :: u8) = n mod 256"
  by (simp add: unat_of_nat)

lemma from_be_to_be [codec_simps]: "from_be (to_be k n) = n mod 256 ^ k"
proof (induction k arbitrary: n)
  case 0
  show ?case by simp
next
  case (Suc k)
  have "from_be (to_be (Suc k) n) = (n div 256) mod 256 ^ k * 256 + n mod 256"
    by (simp add: Suc.IH unat_byte_of_nat)
  also have "\<dots> = n mod (256 * 256 ^ k)"
    by (subst mod_mult2_eq) simp
  finally show ?case by simp
qed

lemma from_le_to_le [codec_simps]: "from_le (to_le k n) = n mod 256 ^ k"
  by (simp add: to_le_def from_le_def from_be_to_be)

lemma from_be_bound: "from_be bs < 256 ^ length bs"
proof (induction bs rule: rev_induct)
  case Nil
  show ?case by simp
next
  case (snoc b bs)
  have "unat b < 256" using unsigned_less [where w = b] by simp
  with snoc show ?case by simp
qed

lemma mult_256_u8: "(256 :: u8) * x = 0"
proof -
  have "(256 :: u8) = 0" by simp
  then show ?thesis by (simp only: mult_zero_left)
qed

lemma to_be_from_be: "length bs = k \<Longrightarrow> to_be k (from_be bs) = bs"
proof (induction bs arbitrary: k rule: rev_induct)
  case Nil
  then show ?case by simp
next
  case (snoc b bs)
  have "unat b < 256" using unsigned_less [where w = b] by simp
  with snoc show ?case by (auto simp: mult.commute [of _ 256] mult_256_u8 simp del: to_be_numeral)
qed

lemma from_be_to_be_exact: "n < 256 ^ k \<Longrightarrow> from_be (to_be k n) = n"
  by (simp add: from_be_to_be)

lemma unat_bound16: "unat (w :: u16) < 256 ^ 2"
  using unsigned_less [where w = w] by simp

lemma unat_bound32: "unat (w :: u32) < 256 ^ 4"
  using unsigned_less [where w = w] by simp

lemma unat_bound64: "unat (w :: u64) < 256 ^ 8"
  using unsigned_less [where w = w] by simp

lemma to_be_inj:
  assumes "to_be k m = to_be k n" and "m < 256 ^ k" and "n < 256 ^ k"
  shows "m = n"
  using arg_cong [OF assms(1), of from_be] assms(2,3) by (simp add: from_be_to_be)

section \<open>Checked and saturating arithmetic\<close>

definition saturating_add :: "'a::len word \<Rightarrow> 'a word \<Rightarrow> 'a word" where
  "saturating_add a b = (if unat a + unat b < 2 ^ LENGTH('a) then a + b else - 1)"

definition checked_add :: "'a::len word \<Rightarrow> 'a word \<Rightarrow> 'a word option" where
  "checked_add a b = (if unat a + unat b < 2 ^ LENGTH('a) then Some (a + b) else None)"

lemma checked_add_Some_iff:
  "checked_add a b = Some c \<longleftrightarrow> unat a + unat b < 2 ^ LENGTH('a) \<and> c = (a + b :: 'a::len word)"
  by (auto simp: checked_add_def)

lemma unat_plus_no_overflow:
  "unat a + unat b < 2 ^ LENGTH('a) \<Longrightarrow> unat (a + b :: 'a::len word) = unat a + unat b"
  by (rule unat_add_lem [THEN iffD1])

lemma unat_saturating_add:
  "unat (saturating_add a b :: 'a::len word) = min (unat a + unat b) (2 ^ LENGTH('a) - 1)"
  by (auto simp: saturating_add_def unat_plus_no_overflow min_def unsigned_minus_1_eq_mask mask_eq_exp_minus_1)

definition saturating_sub :: "'a::len word \<Rightarrow> 'a word \<Rightarrow> 'a word" where
  "saturating_sub a b = (if b \<le> a then a - b else 0)"

section \<open>Hash maps\<close>

text \<open>
  A \<open>HashMap\<close> is an association list with distinct keys. \<open>AList.update\<close> is \<open>insert\<close>,
  \<open>AList.delete\<close> is \<open>remove\<close>, \<open>map_of\<close> is \<open>get\<close>. The order of the list stands for the (unspecified)
  iteration order of the map.
\<close>

type_synonym ('k, 'v) hashmap = "('k \<times> 'v) list"

abbreviation hm_get :: "('k, 'v) hashmap \<Rightarrow> 'k \<Rightarrow> 'v option" where
  "hm_get \<equiv> map_of"

abbreviation hm_insert :: "'k \<Rightarrow> 'v \<Rightarrow> ('k, 'v) hashmap \<Rightarrow> ('k, 'v) hashmap" where
  "hm_insert \<equiv> AList.update"

abbreviation hm_remove :: "'k \<Rightarrow> ('k, 'v) hashmap \<Rightarrow> ('k, 'v) hashmap" where
  "hm_remove \<equiv> AList.delete"

declare map_of_eq_Some_iff [simp del] Some_eq_map_of_iff [simp del]

definition hm_contains :: "('k, 'v) hashmap \<Rightarrow> 'k \<Rightarrow> bool" where
  "hm_contains m k \<longleftrightarrow> hm_get m k \<noteq> None"

abbreviation hm_wf :: "('k, 'v) hashmap \<Rightarrow> bool" where
  "hm_wf m \<equiv> distinct (map fst m)"

lemma hm_get_insert [hashmap_simps, simp]:
  "hm_get (hm_insert k v m) k' = (if k' = k then Some v else hm_get m k')"
  by (simp add: update_conv')

lemma hm_get_remove [hashmap_simps, simp]:
  "hm_get (hm_remove k m) k' = (if k' = k then None else hm_get m k')"
  by (simp add: delete_conv')

lemma hm_contains_insert [hashmap_simps, simp]:
  "hm_contains (hm_insert k v m) k' \<longleftrightarrow> k' = k \<or> hm_contains m k'"
  by (simp add: hm_contains_def)

lemma hm_contains_remove [hashmap_simps, simp]:
  "hm_contains (hm_remove k m) k' \<longleftrightarrow> k' \<noteq> k \<and> hm_contains m k'"
  by (simp add: hm_contains_def)

lemma hm_contains_Nil [hashmap_simps, simp]: "\<not> hm_contains [] k"
  by (simp add: hm_contains_def)

lemma hm_wf_insert [simp]: "hm_wf m \<Longrightarrow> hm_wf (hm_insert k v m)"
  by (rule distinct_update)

lemma hm_wf_remove [simp]: "hm_wf m \<Longrightarrow> hm_wf (hm_remove k m)"
  by (rule distinct_delete)

lemma hm_wf_filter [simp]: "hm_wf m \<Longrightarrow> hm_wf (filter P m)"
  by (rule distinct_map_filter)

lemma hm_get_filter:
  "hm_wf m \<Longrightarrow> hm_get (filter P m) k =
     (case hm_get m k of None \<Rightarrow> None | Some v \<Rightarrow> if P (k, v) then Some v else None)"
  by (induction m) (auto simp: map_of_eq_None_iff image_iff split: option.splits)

definition hm_count :: "('v \<Rightarrow> bool) \<Rightarrow> ('k, 'v) hashmap \<Rightarrow> nat" where
  "hm_count P m = length (filter (\<lambda>(_, v). P v) m)"

lemma hm_count_simps [simp]:
  "hm_count P [] = 0" "hm_count P ((k, v) # m) = of_bool (P v) + hm_count P m"
  by (simp_all add: hm_count_def)

text \<open>How inserting and removing change a count, by what was there before.\<close>

lemma hm_count_insert:
  "hm_wf m \<Longrightarrow> hm_count P (hm_insert k v m) + (case hm_get m k of None \<Rightarrow> 0 | Some u \<Rightarrow> of_bool (P u)) =
     hm_count P m + of_bool (P v)"
  by (induction m) auto

lemma hm_remove_absent: "k \<notin> fst ` set m \<Longrightarrow> hm_remove k m = m"
  by (induction m) auto

lemma hm_count_remove:
  "hm_wf m \<Longrightarrow> hm_count P (hm_remove k m) + (case hm_get m k of None \<Rightarrow> 0 | Some u \<Rightarrow> of_bool (P u)) = hm_count P m"
  by (induction m) (auto simp: hm_remove_absent)

section \<open>Interface: a self-delimiting byte codec\<close>

text \<open>
  A codec on a byte stream: the decoder takes one value off the front of the stream and returns the
  rest. What a provider promises is that a decoder that meets an encoded value returns that value
  and leaves what follows untouched; from it follow unambiguity of concatenations and the
  round trip of whole streams.
\<close>

primrec decode_many :: "(bytes \<Rightarrow> ('a \<times> bytes) option) \<Rightarrow> nat \<Rightarrow> bytes \<Rightarrow> ('a list \<times> bytes) option" where
  "decode_many dec 0 bs = Some ([], bs)"
| "decode_many dec (Suc n) bs =
     (case dec bs of None \<Rightarrow> None
      | Some (x, rest) \<Rightarrow>
          (case decode_many dec n rest of None \<Rightarrow> None | Some (xs, rest') \<Rightarrow> Some (x # xs, rest')))"

locale wire_codec =
  fixes valid :: "'a \<Rightarrow> bool"
    and enc :: "'a \<Rightarrow> bytes"
    and dec :: "bytes \<Rightarrow> ('a \<times> bytes) option"
  assumes dec_enc: "valid x \<Longrightarrow> dec (enc x @ rest) = Some (x, rest)"
begin

lemma enc_unambiguous:
  assumes "valid x" and "valid y" and "enc x @ r = enc y @ s"
  shows "x = y \<and> r = s"
proof -
  have "Some (x, r) = dec (enc x @ r)" using dec_enc [OF assms(1)] by simp
  also have "\<dots> = dec (enc y @ s)" by (simp only: assms(3))
  also have "\<dots> = Some (y, s)" by (rule dec_enc [OF assms(2)])
  finally show ?thesis by simp
qed

lemma enc_inj: "valid x \<Longrightarrow> valid y \<Longrightarrow> enc x = enc y \<Longrightarrow> x = y"
  using enc_unambiguous [of x y "[]" "[]"] by simp

lemma stream_roundtrip:
  "(\<forall>x \<in> set xs. valid x) \<Longrightarrow>
     decode_many dec (length xs) (concat (map enc xs) @ rest) = Some (xs, rest)"
  by (induction xs) (simp_all add: dec_enc)

lemma stream_unambiguous:
  assumes "\<forall>x \<in> set xs. valid x" and "\<forall>y \<in> set ys. valid y"
    and "length xs = length ys" and "concat (map enc xs) = concat (map enc ys)"
  shows "xs = ys"
  using stream_roundtrip [OF assms(1), of "[]"] stream_roundtrip [OF assms(2), of "[]"] assms(3,4)
  by simp

end

section \<open>Interface: a state machine that keeps an invariant\<close>

text \<open>Every event that is allowed keeps the invariant; so does every run of allowed events.\<close>

locale guarded_invariant =
  fixes step :: "'s \<Rightarrow> 'e \<Rightarrow> 's"
    and inv :: "'s \<Rightarrow> bool"
    and allowed :: "'e \<Rightarrow> bool"
  assumes guarded_step: "inv s \<Longrightarrow> allowed e \<Longrightarrow> inv (step s e)"
begin

lemma guarded_run: "inv s \<Longrightarrow> list_all allowed es \<Longrightarrow> inv (foldl step s es)"
  by (induction es arbitrary: s) (simp_all add: guarded_step)

end

locale step_invariant =
  fixes step :: "'s \<Rightarrow> 'e \<Rightarrow> 's"
    and inv :: "'s \<Rightarrow> bool"
  assumes step_inv: "inv s \<Longrightarrow> inv (step s e)"

sublocale step_invariant \<subseteq> every: guarded_invariant step inv "\<lambda>_. True"
  by unfold_locales (rule step_inv)

context step_invariant
begin

lemma run_inv: "inv s \<Longrightarrow> inv (foldl step s es)"
  by (rule every.guarded_run) (simp_all add: list_all_iff)

end

text \<open>Runs whose every event meets a condition on the state it finds.\<close>

fun run_ok :: "('s \<Rightarrow> 'e \<Rightarrow> 's) \<Rightarrow> ('s \<Rightarrow> 'e \<Rightarrow> bool) \<Rightarrow> 's \<Rightarrow> 'e list \<Rightarrow> bool" where
  "run_ok step ok s [] = True"
| "run_ok step ok s (e # es) = (ok s e \<and> run_ok step ok (step s e) es)"

locale conditional_invariant =
  fixes step :: "'s \<Rightarrow> 'e \<Rightarrow> 's"
    and inv :: "'s \<Rightarrow> bool"
    and ok :: "'s \<Rightarrow> 'e \<Rightarrow> bool"
  assumes conditional_step: "inv s \<Longrightarrow> ok s e \<Longrightarrow> inv (step s e)"
begin

lemma conditional_run: "inv s \<Longrightarrow> run_ok step ok s es \<Longrightarrow> inv (foldl step s es)"
  by (induction es arbitrary: s) (simp_all add: conditional_step)

end

section \<open>Cutting into chunks\<close>

text \<open>\<open>chunks(n)\<close> of a slice.\<close>

fun chunks_of :: "nat \<Rightarrow> bytes \<Rightarrow> bytes list" where
  "chunks_of n bs = (if n = 0 \<or> bs = [] then [] else take n bs # chunks_of n (drop n bs))"

declare chunks_of.simps [simp del]

lemma concat_chunks_of: "n > 0 \<Longrightarrow> concat (chunks_of n bs) = bs"
  by (induction n bs rule: chunks_of.induct) (subst chunks_of.simps, simp)

lemma chunks_of_small [simp]:
  "chunks_of n [] = []" "0 < n \<Longrightarrow> bs \<noteq> [] \<Longrightarrow> length bs \<le> n \<Longrightarrow> chunks_of n bs = [bs]"
  by (subst chunks_of.simps, simp)+

end
