(* ===== verification/Errors.thy ===== *)
theory Errors
  imports Prelude
begin

text \<open>
  The error hierarchy of the transport crate (\<open>crates/transport/src/error.rs\<close>): one datatype per Rust
  enum, and \<open>SyncError\<close> as their sum. A Rust \<open>Result<T, E>\<close> is the sum \<open>E + T\<close>, with \<open>Inl\<close> the error.
\<close>

section \<open>Input and output errors of the standard library\<close>

datatype io_kind =
    UnexpectedEof | TimedOut | PermissionDenied | InvalidInput | InvalidData
  | NotFound | AlreadyExists | StorageFull | WriteZero | Interrupted | BrokenPipe | WouldBlock | OtherKind

datatype io_error = IoError (io_error_kind: io_kind) (io_error_message: string)

type_synonym 'a io_result = "io_error + 'a"

section \<open>Identity and crypto errors\<close>

datatype identity_error =
    Generate
  | Corrupt
  | UnsupportedIdentityVersion u16 u16

datatype crypto_error =
    CryptoWrongPin
  | CryptoRateLimited
  | HmacLength
  | Kdf
  | NonContributoryEcdh
  | Decrypt
  | Replay u64 u64
  | NonceExhausted
  | Rng

section \<open>Transport and protocol errors\<close>

datatype transport_error =
    Closed
  | FrameTooLarge u32
  | MalformedFrame
  | UnsupportedProtocolVersion u16 u16
  | TlsHandshake string
  | Iroh string
  | ConnectTimeout
  | TransportIo io_error

text \<open>The reasons a handshake is refused (\<open>PairingFailure\<close> of \<open>handshake.rs\<close>), in wire order.\<close>

datatype pairing_failure =
    WrongPin
  | RateLimited
  | UnsupportedVersion
  | Cancelled
  | PairingClosed
  | Revoked

datatype protocol_error =
    DecodeError string
  | EncodeError string
  | UnexpectedMessage string string
  | HandshakeComplete
  | Aborted string
  | PairingFailedError pairing_failure

datatype sync_error =
    SyncIdentity identity_error
  | SyncCrypto crypto_error
  | SyncTransport transport_error
  | SyncProtocol protocol_error
  | SyncIo io_error

type_synonym 'a sync_result = "sync_error + 'a"

end
