(* ===== verification/Frame_Codec.thy ===== *)
theory Frame_Codec
  imports Errors
begin

text \<open>
  The length-prefixed framing of \<open>crates/transport/src/frame.rs\<close>: a frame is a big-endian \<open>u32\<close> length
  that covers a big-endian \<open>u16\<close> protocol version and the payload. The sink is a byte buffer that
  may run out of room, the source a byte sequence that ends in end of file, in an error or in a
  peer that stays silent.
\<close>

section \<open>Protocol version\<close>

definition PROTOCOL_VERSION :: u16 where
  "PROTOCOL_VERSION = 11"

definition MIN_SUPPORTED_PROTOCOL_VERSION :: u16 where
  "MIN_SUPPORTED_PROTOCOL_VERSION = PROTOCOL_VERSION"

definition supports_protocol_version :: "u16 \<Rightarrow> bool" where
  "supports_protocol_version version \<longleftrightarrow>
     version \<ge> MIN_SUPPORTED_PROTOCOL_VERSION \<and> version \<le> PROTOCOL_VERSION"

definition validate_protocol_version :: "u16 \<Rightarrow> transport_error + unit" where
  "validate_protocol_version version =
     (if supports_protocol_version version then Inr ()
      else Inl (UnsupportedProtocolVersion PROTOCOL_VERSION version))"

lemma supports_protocol_version_iff [simp]:
  "supports_protocol_version v \<longleftrightarrow> v = PROTOCOL_VERSION"
  by (auto simp: supports_protocol_version_def MIN_SUPPORTED_PROTOCOL_VERSION_def)

section \<open>Writing a frame\<close>

definition MAX_FRAME_BYTES :: u32 where
  "MAX_FRAME_BYTES = 1024 * 1024"

lemma unat_MAX_FRAME_BYTES [simp]: "unat MAX_FRAME_BYTES = 1048576"
  by (simp add: MAX_FRAME_BYTES_def)

text \<open>
  A sink accepts bytes until its room is used up and then reports an error; \<open>None\<close> is a sink that
  never fails. What it accepted is sure to be on its way only after a flush that did not fail.
\<close>

record sink =
  written :: bytes
  buffered :: bytes
  room :: "nat option"
  flush_error :: "io_error option"

definition write_all :: "sink \<Rightarrow> bytes \<Rightarrow> sink \<times> io_error option" where
  "write_all w bs =
     (case room w of
        None \<Rightarrow> (w\<lparr>buffered := buffered w @ bs\<rparr>, None)
      | Some n \<Rightarrow>
          if length bs \<le> n then (w\<lparr>buffered := buffered w @ bs, room := Some (n - length bs)\<rparr>, None)
          else (w\<lparr>buffered := buffered w @ take n bs, room := Some 0\<rparr>,
                Some (IoError WriteZero ''write zero'')))"

definition flush_sink :: "sink \<Rightarrow> sink \<times> io_error option" where
  "flush_sink w =
     (case flush_error w of
        Some e \<Rightarrow> (w, Some e)
      | None \<Rightarrow> (w\<lparr>written := written w @ buffered w, buffered := []\<rparr>, None))"

definition write_frame :: "sink \<Rightarrow> u16 \<Rightarrow> bytes \<Rightarrow> sink \<times> (transport_error + unit)" where
  "write_frame w version payload =
     (let total = 2 + length payload in
      if total > unat MAX_FRAME_BYTES then (w, Inl (FrameTooLarge (word_of_nat total)))
      else case write_all w (to_be 4 (unat (word_of_nat total :: u32))) of
        (w1, Some e) \<Rightarrow> (w1, Inl (TransportIo e))
      | (w1, None) \<Rightarrow>
          (case write_all w1 (to_be 2 (unat version)) of
             (w2, Some e) \<Rightarrow> (w2, Inl (TransportIo e))
           | (w2, None) \<Rightarrow>
               (case write_all w2 payload of
                  (w3, Some e) \<Rightarrow> (w3, Inl (TransportIo e))
                | (w3, None) \<Rightarrow>
                    (case flush_sink w3 of
                       (w4, Some e) \<Rightarrow> (w4, Inl (TransportIo e))
                     | (w4, None) \<Rightarrow> (w4, Inr ())))))"

section \<open>Reading a frame\<close>

text \<open>
  A source holds the bytes that will arrive and what happens after the last one: the peer closes
  the stream, the stream fails, or nothing more ever comes. \<open>read_exact\<close> answers \<open>None\<close> when it
  would wait for ever.
\<close>

datatype stream_end = Eof | Failing io_error | Silent

record source =
  arriving :: bytes
  afterwards :: stream_end

definition read_exact :: "source \<Rightarrow> nat \<Rightarrow> (io_error + (bytes \<times> source)) option" where
  "read_exact r n =
     (if n \<le> length (arriving r)
      then Some (Inr (take n (arriving r), r\<lparr>arriving := drop n (arriving r)\<rparr>))
      else case afterwards r of
             Eof \<Rightarrow> Some (Inl (IoError UnexpectedEof ''early eof''))
           | Failing e \<Rightarrow> Some (Inl e)
           | Silent \<Rightarrow> None)"

text \<open>
  The header may be awaited for ever; the body is read under \<open>FRAME_BODY_TIMEOUT\<close>, so silence in the
  body is the \<open>TimedOut\<close> error.
\<close>

definition read_frame_body :: "source \<Rightarrow> nat \<Rightarrow> io_error + ((u16 \<times> bytes) \<times> source)" where
  "read_frame_body r len =
     (let timeout = Inl (IoError TimedOut ''frame body read timed out'') in
      case read_exact r 2 of
        None \<Rightarrow> timeout
      | Some (Inl e) \<Rightarrow> Inl e
      | Some (Inr (v, r1)) \<Rightarrow>
          (case read_exact r1 (len - 2) of
             None \<Rightarrow> timeout
           | Some (Inl e) \<Rightarrow> Inl e
           | Some (Inr (buf, r2)) \<Rightarrow> Inr ((word_of_nat (from_be v), buf), r2)))"

definition read_frame :: "source \<Rightarrow> (transport_error + ((u16 \<times> bytes) \<times> source)) option" where
  "read_frame r =
     (case read_exact r 4 of
        None \<Rightarrow> None
      | Some (Inl e) \<Rightarrow> Some (Inl (if io_error_kind e = UnexpectedEof then Closed else TransportIo e))
      | Some (Inr (hdr, r1)) \<Rightarrow>
          (let len = word_of_nat (from_be hdr) :: u32 in
           if len < 2 then Some (Inl MalformedFrame)
           else if len > MAX_FRAME_BYTES then Some (Inl (FrameTooLarge len))
           else case read_frame_body r1 (unat len) of
                  Inl e \<Rightarrow> Some (Inl (TransportIo e))
                | Inr res \<Rightarrow> Some (Inr res)))"

section \<open>The bytes of one frame\<close>

definition frame_bytes :: "u16 \<times> bytes \<Rightarrow> bytes" where
  "frame_bytes f = to_be 4 (2 + length (snd f)) @ to_be 2 (unat (fst f)) @ snd f"

definition frame_fits :: "u16 \<times> bytes \<Rightarrow> bool" where
  "frame_fits f \<longleftrightarrow> 2 + length (snd f) \<le> unat MAX_FRAME_BYTES"

definition decode_frame :: "bytes \<Rightarrow> ((u16 \<times> bytes) \<times> bytes) option" where
  "decode_frame bs =
     (case read_frame \<lparr>arriving = bs, afterwards = Eof\<rparr> of
        Some (Inr (f, r)) \<Rightarrow> Some (f, arriving r)
      | _ \<Rightarrow> None)"


section \<open>Writing and reading agree\<close>

lemma word32_of_frame_len:
  "n \<le> unat MAX_FRAME_BYTES \<Longrightarrow> unat (word_of_nat n :: u32) = n"
  by (simp add: unat_of_nat)

lemma unat_frame_total:
  "2 + length p \<le> unat MAX_FRAME_BYTES \<Longrightarrow> unat (2 + word_of_nat (length p) :: u32) = 2 + length p"
  using word32_of_frame_len [of "2 + length p"] by simp

lemma word16_be: "word_of_nat (from_be (to_be 2 (unat v))) = (v :: u16)"
  using unat_bound16 [of v] by (simp add: from_be_to_be_exact del: to_be_numeral)

lemma write_all_ok:
  assumes "write_all w bs = (w', None)"
  shows "written w' = written w \<and> buffered w' = buffered w @ bs"
  using assms by (auto simp: write_all_def split: option.splits if_splits)

text \<open>A write that succeeds, whatever the room of the sink, has put the whole frame on its way.\<close>

lemma write_frame_ok:
  assumes "write_frame w v p = (w', Inr ())"
  shows "frame_fits (v, p) \<and> written w' = written w @ buffered w @ frame_bytes (v, p)"
proof -
  have fits: "frame_fits (v, p)" using assms by (auto simp: write_frame_def frame_fits_def Let_def split: if_splits)
  obtain w1 w2 w3 where w: "write_all w (to_be 4 (unat (word_of_nat (2 + length p) :: u32))) = (w1, None)"
      "write_all w1 (to_be 2 (unat v)) = (w2, None)" "write_all w2 p = (w3, None)" "flush_sink w3 = (w', None)"
    using assms by (auto simp: write_frame_def Let_def split: if_splits prod.splits option.splits simp del: to_be_numeral of_nat_add add_2_eq_Suc)
  have "buffered w3 = buffered w @ frame_bytes (v, p)" "written w3 = written w"
    using write_all_ok [OF w(1)] write_all_ok [OF w(2)] write_all_ok [OF w(3)] fits
    by (simp_all add: frame_bytes_def frame_fits_def unat_frame_total [simplified] del: to_be_numeral)
  then show ?thesis using w(4) fits by (auto simp: flush_sink_def split: option.splits)
qed

lemma read_exact_append:
  "length bs = n \<Longrightarrow>
     read_exact \<lparr>arriving = bs @ rest, afterwards = e\<rparr> n =
       Some (Inr (bs, \<lparr>arriving = rest, afterwards = e\<rparr>))"
  by (simp add: read_exact_def)

lemma read_frame_of_frame_bytes:
  assumes "frame_fits f"
  shows "read_frame \<lparr>arriving = frame_bytes f @ rest, afterwards = e\<rparr> =
    Some (Inr (f, \<lparr>arriving = rest, afterwards = e\<rparr>))"
proof -
  obtain v p where f: "f = (v, p)" by (cases f)
  let ?len = "word_of_nat (2 + length p) :: u32"
  from assms have n: "unat ?len = 2 + length p"
    unfolding f frame_fits_def by (simp add: unat_frame_total [simplified])
  then have len: "\<not> ?len < 2" "\<not> ?len > MAX_FRAME_BYTES"
    using assms by (simp_all add: f frame_fits_def word_less_nat_alt)
  have hdr: "word_of_nat (from_be (to_be 4 (2 + length p))) = ?len"
    using assms by (subst from_be_to_be_exact) (simp_all add: f frame_fits_def)
  show ?thesis
    using word16_be [of v]
    by (simp add: f frame_bytes_def read_frame_def read_frame_body_def read_exact_append hdr
        len n Let_def del: of_nat_add to_be_numeral add_2_eq_Suc)
qed

lemma decode_frame_frame_bytes: "frame_fits f \<Longrightarrow> decode_frame (frame_bytes f @ rest) = Some (f, rest)"
  by (simp add: decode_frame_def read_frame_of_frame_bytes)

interpretation frames: wire_codec frame_fits frame_bytes decode_frame
  by unfold_locales (rule decode_frame_frame_bytes)

text \<open>
  C28. A frame that \<open>write_frame\<close> put on the stream is the frame that \<open>read_frame\<close> takes off it: same
  version, same payload, and every byte that follows is left for the next read, however the
  stream ends, and whatever the room of the sink was and whether its flush could have failed.
\<close>

theorem frame_roundtrip:
  assumes "write_frame \<lparr>written = [], buffered = [], room = capacity, flush_error = fault\<rparr> version payload = (w, Inr ())"
  shows "read_frame \<lparr>arriving = written w @ rest, afterwards = e\<rparr> =
    Some (Inr ((version, payload), \<lparr>arriving = rest, afterwards = e\<rparr>))"
  using write_frame_ok [OF assms] by (simp add: read_frame_of_frame_bytes)

theorem frame_roundtrip_witness:
  "write_frame \<lparr>written = [], buffered = [], room = Some 9, flush_error = None\<rparr> 11 [104, 105] =
      (\<lparr>written = [0, 0, 0, 4, 0, 11, 104, 105], buffered = [], room = Some 1, flush_error = None\<rparr>, Inr ()) \<and>
   read_frame \<lparr>arriving = [0, 0, 0, 4, 0, 11, 104, 105] @ [7], afterwards = Silent\<rparr> =
      Some (Inr ((11, [104, 105]), \<lparr>arriving = [7], afterwards = Silent\<rparr>))"
proof -
  have w: "write_frame \<lparr>written = [], buffered = [], room = Some 9, flush_error = None\<rparr> 11 [104, 105] =
      (\<lparr>written = [0, 0, 0, 4, 0, 11, 104, 105], buffered = [], room = Some 1, flush_error = None\<rparr>, Inr ())"
    by (simp add: write_frame_def write_all_def flush_sink_def Let_def)
  show ?thesis using w frame_roundtrip [OF w, of "[7]" Silent] by simp
qed

section \<open>What a reader accepts\<close>

lemma read_exact_Inr:
  "read_exact r n = Some (Inr (bs, r')) \<longleftrightarrow>
     n \<le> length (arriving r) \<and> bs = take n (arriving r) \<and> r' = r\<lparr>arriving := drop n (arriving r)\<rparr>"
  by (auto simp: read_exact_def split: stream_end.splits)

lemma read_frame_body_sound:
  assumes "read_frame_body r len = Inr ((v, p), r')" and "2 \<le> len"
  shows "arriving r = to_be 2 (unat v) @ p @ arriving r' \<and> length p = len - 2
    \<and> afterwards r' = afterwards r"
proof -
  from assms(1) obtain vb r1 where
      v: "read_exact r 2 = Some (Inr (vb, r1))" "v = word_of_nat (from_be vb)"
    and p: "read_exact r1 (len - 2) = Some (Inr (p, r'))"
    by (auto simp: read_frame_body_def Let_def split: option.splits sum.splits)
  from v(1) have vb: "length vb = 2" "arriving r = vb @ arriving r1" "afterwards r1 = afterwards r"
    by (auto simp: read_exact_Inr)
  have "from_be vb < 2 ^ 16" using from_be_bound [of vb] vb by simp
  then have "to_be 2 (unat v) = vb"
    using vb(1) by (simp add: v(2) unat_of_nat to_be_from_be del: to_be_numeral)
  with vb p show ?thesis by (auto simp: read_exact_Inr simp del: to_be_numeral)
qed

text \<open>
  Whatever \<open>read_frame\<close> returns is the canonical encoding of a frame within the cap: the bytes
  taken off the stream are exactly \<open>frame_bytes\<close> of the result, so the payload is at most
  \<open>MAX_FRAME_BYTES - 2\<close> bytes, nothing is skipped and nothing is read twice.
\<close>

theorem read_frame_sound:
  assumes "read_frame r = Some (Inr ((v, p), r'))"
  shows "arriving r = frame_bytes (v, p) @ arriving r' \<and> 2 + length p \<le> unat MAX_FRAME_BYTES
    \<and> afterwards r' = afterwards r"
proof -
  from assms obtain hdr r1 where h: "read_exact r 4 = Some (Inr (hdr, r1))"
    and b: "read_frame_body r1 (unat (word_of_nat (from_be hdr) :: u32)) = Inr ((v, p), r')"
    and len: "\<not> (word_of_nat (from_be hdr) :: u32) < 2"
      "\<not> (word_of_nat (from_be hdr) :: u32) > MAX_FRAME_BYTES"
    by (auto simp: read_frame_def Let_def split: option.splits sum.splits if_splits)
  from h have hdr: "length hdr = 4" "arriving r = hdr @ arriving r1" "afterwards r1 = afterwards r"
    by (auto simp: read_exact_Inr)
  then have n: "unat (word_of_nat (from_be hdr) :: u32) = from_be hdr"
    using from_be_bound [of hdr] by (simp add: unat_of_nat)
  with len have bnd: "2 \<le> from_be hdr" "from_be hdr \<le> unat MAX_FRAME_BYTES"
    by (simp_all add: word_less_nat_alt)
  from read_frame_body_sound [OF b] bnd n
  have "arriving r1 = to_be 2 (unat v) @ p @ arriving r'" "length p = from_be hdr - 2"
    "afterwards r' = afterwards r1" by auto
  moreover from this(2) bnd have "2 + length p = from_be hdr" by simp
  ultimately show ?thesis
    using hdr bnd by (simp add: frame_bytes_def to_be_from_be del: to_be_numeral add_2_eq_Suc)
qed

theorem read_frame_sound_witness:
  "\<exists>r'. read_frame \<lparr>arriving = [0, 0, 0, 3, 0, 11, 65, 66], afterwards = Eof\<rparr> = Some (Inr ((11, [65]), r'))
     \<and> [0, 0, 0, 3, 0, 11, 65, 66] = frame_bytes (11, [65]) @ arriving r'"
proof -
  have "read_frame \<lparr>arriving = [0, 0, 0, 3, 0, 11, 65, 66], afterwards = Eof\<rparr> =
      Some (Inr ((11, [65]), \<lparr>arriving = [66], afterwards = Eof\<rparr>))"
    by (simp add: read_frame_def read_frame_body_def read_exact_def from_be_def MAX_FRAME_BYTES_def)
  from read_frame_sound [OF this] this show ?thesis by auto
qed

section \<open>Refusals and silence\<close>

definition header_len :: "source \<Rightarrow> nat" where
  "header_len r = from_be (take 4 (arriving r))"

lemma header_word:
  "4 \<le> length (arriving r) \<Longrightarrow> unat (word_of_nat (from_be (take 4 (arriving r))) :: u32) = header_len r"
  using from_be_bound [of "take 4 (arriving r)"] by (simp add: header_len_def unat_of_nat)

lemma read_frame_header_refusals:
  shows "length (arriving r) < 4 \<Longrightarrow> afterwards r = Eof \<Longrightarrow> read_frame r = Some (Inl Closed)"
    and "4 \<le> length (arriving r) \<Longrightarrow> header_len r < 2 \<Longrightarrow> read_frame r = Some (Inl MalformedFrame)"
    and "4 \<le> length (arriving r) \<Longrightarrow> unat MAX_FRAME_BYTES < header_len r \<Longrightarrow>
      read_frame r = Some (Inl (FrameTooLarge (word_of_nat (header_len r))))"
  using header_word [of r]
  by (auto simp: read_frame_def read_exact_def header_len_def Let_def word_less_nat_alt)

text \<open>The error a body that never completes gives, for each way its stream can end.\<close>

fun short_body_error :: "stream_end \<Rightarrow> io_error" where
  "short_body_error Eof = IoError UnexpectedEof ''early eof''"
| "short_body_error (Failing e) = e"
| "short_body_error Silent = IoError TimedOut ''frame body read timed out''"

lemma read_frame_short_body:
  assumes "4 \<le> length (arriving r)" and "2 \<le> header_len r" and "header_len r \<le> unat MAX_FRAME_BYTES"
    and "length (arriving r) < 4 + header_len r"
  shows "read_frame r = Some (Inl (TransportIo (short_body_error (afterwards r))))"
  using assms header_word [of r]
  by (auto simp: read_frame_def read_frame_body_def read_exact_def header_len_def Let_def
      word_less_nat_alt split: stream_end.splits)

text \<open>
  Every way a read can end badly, decided by the length announced in the header: a peer that
  closes inside the header is \<open>Closed\<close>; a length below 2 or above the cap is refused before a
  single body byte is awaited; a body that stops short is an error for every kind of stream end,
  the silent one included, which is the body timeout.
\<close>

theorem read_frame_refusals:
  "(length (arriving r) < 4 \<and> afterwards r = Eof \<longrightarrow> read_frame r = Some (Inl Closed)) \<and>
   (4 \<le> length (arriving r) \<and> header_len r < 2 \<longrightarrow> read_frame r = Some (Inl MalformedFrame)) \<and>
   (4 \<le> length (arriving r) \<and> unat MAX_FRAME_BYTES < header_len r \<longrightarrow>
      read_frame r = Some (Inl (FrameTooLarge (word_of_nat (header_len r))))) \<and>
   (4 \<le> length (arriving r) \<and> 2 \<le> header_len r \<and> header_len r \<le> unat MAX_FRAME_BYTES \<and>
      length (arriving r) < 4 + header_len r \<longrightarrow>
      read_frame r = Some (Inl (TransportIo (short_body_error (afterwards r)))))"
  using read_frame_header_refusals [of r] read_frame_short_body [of r] by blast

theorem read_frame_refusals_witness:
  "read_frame \<lparr>arriving = [0, 0], afterwards = Eof\<rparr> = Some (Inl Closed) \<and>
   read_frame \<lparr>arriving = [0, 0, 0, 1], afterwards = Silent\<rparr> = Some (Inl MalformedFrame) \<and>
   read_frame \<lparr>arriving = [1, 0, 0, 0], afterwards = Silent\<rparr> = Some (Inl (FrameTooLarge 16777216)) \<and>
   read_frame \<lparr>arriving = [0, 0, 0, 9, 0, 11], afterwards = Silent\<rparr> =
     Some (Inl (TransportIo (IoError TimedOut ''frame body read timed out'')))"
  using read_frame_refusals [of "\<lparr>arriving = [0, 0], afterwards = Eof\<rparr>"]
    read_frame_refusals [of "\<lparr>arriving = [0, 0, 0, 1], afterwards = Silent\<rparr>"]
    read_frame_refusals [of "\<lparr>arriving = [1, 0, 0, 0], afterwards = Silent\<rparr>"]
    read_frame_refusals [of "\<lparr>arriving = [0, 0, 0, 9, 0, 11], afterwards = Silent\<rparr>"]
  by (simp add: header_len_def from_be_def)

text \<open>
  Reading terminates on every stream except a silent one that has not delivered a whole
  header: once the four length bytes are there, \<open>read_frame\<close> always answers.
\<close>

theorem read_frame_waits_only_for_header:
  "read_frame r = None \<longleftrightarrow> length (arriving r) < 4 \<and> afterwards r = Silent"
  by (auto simp: read_frame_def read_exact_def Let_def split: stream_end.splits sum.splits)

text \<open>
  A stream of frames is read back frame by frame, in order, with what follows left over.
\<close>

theorem frame_stream_roundtrip:
  assumes "\<forall>f \<in> set fs. frame_fits f"
  shows "decode_many decode_frame (length fs) (concat (map frame_bytes fs) @ rest) = Some (fs, rest)"
  by (rule frames.stream_roundtrip [OF assms])

theorem frame_stream_roundtrip_witness:
  "decode_many decode_frame 2 (concat (map frame_bytes [(11, [1]), (11, [])]) @ [9]) =
     Some ([(11, [1]), (11, [])], [9])"
  using frame_stream_roundtrip [of "[(11, [1]), (11, [])]" "[9]"]
  by (simp add: frame_fits_def numeral_2_eq_2)

end
