(* ===== verification/Crypto.thy ===== *)
theory Crypto
  imports Errors
begin

text \<open>
  The cryptographic libraries the transport crate calls (\<open>hmac\<close>, \<open>hkdf\<close>, \<open>sha2\<close>, \<open>x25519-dalek\<close>,
  \<open>chacha20poly1305\<close>) are parameters of the model: the fields of a \<open>crypto\<close> record. What the code
  relies on is stated as named hypotheses over that record. The functions of
  \<open>crates/transport/src/crypto/pairing.rs\<close> that build keys, proofs and codes from them follow.
\<close>

section \<open>The library parameters\<close>

record crypto =
  hmac_sha256 :: "bytes \<Rightarrow> bytes \<Rightarrow> bytes"
  hkdf_sha256 :: "bytes option \<Rightarrow> bytes \<Rightarrow> bytes \<Rightarrow> bytes option"
  x25519_public :: "bytes \<Rightarrow> bytes"
  x25519_shared :: "bytes \<Rightarrow> bytes \<Rightarrow> bytes"
  x25519_contributory :: "bytes \<Rightarrow> bytes \<Rightarrow> bool"
  aead_encrypt :: "bytes \<Rightarrow> bytes \<Rightarrow> bytes \<Rightarrow> bytes \<Rightarrow> bytes option"
  aead_decrypt :: "bytes \<Rightarrow> bytes \<Rightarrow> bytes \<Rightarrow> bytes \<Rightarrow> bytes option"

text \<open>Decrypting what was encrypted under the same key, nonce and associated data gives it back.\<close>

definition aead_correct :: "crypto \<Rightarrow> bool" where
  "aead_correct c \<longleftrightarrow>
     (\<forall>k n m a ct. aead_encrypt c k n m a = Some ct \<longrightarrow> aead_decrypt c k n ct a = Some m)"

text \<open>Associated data are authenticated: a ciphertext never opens under other associated data.\<close>

definition aead_binds_aad :: "crypto \<Rightarrow> bool" where
  "aead_binds_aad c \<longleftrightarrow>
     (\<forall>k k' n n' m a a' ct. aead_encrypt c k n m a = Some ct \<longrightarrow> a' \<noteq> a \<longrightarrow>
        aead_decrypt c k' n' ct a' = None)"

text \<open>Diffie-Hellman agreement: both ends compute the same shared secret and judge it alike.\<close>

definition x25519_agrees :: "crypto \<Rightarrow> bool" where
  "x25519_agrees c \<longleftrightarrow>
     (\<forall>a b. x25519_shared c a (x25519_public c b) = x25519_shared c b (x25519_public c a)) \<and>
     (\<forall>a b. x25519_contributory c a (x25519_public c b) = x25519_contributory c b (x25519_public c a))"

text \<open>HKDF-SHA256 expansion to 32 bytes never fails and gives 32 bytes.\<close>

definition hkdf_total :: "crypto \<Rightarrow> bool" where
  "hkdf_total c \<longleftrightarrow> (\<forall>salt ikm info. \<exists>okm. hkdf_sha256 c salt ikm info = Some okm \<and> length okm = 32)"

section \<open>Byte-string labels\<close>

definition ascii :: "string \<Rightarrow> bytes" where
  "ascii s = map (\<lambda>ch. word_of_nat (of_char ch)) s"

definition HKDF_INFO :: bytes where
  "HKDF_INFO = ascii ''portty-pairing-v1''"

definition RESUMPTION_TOKEN_LABEL :: bytes where
  "RESUMPTION_TOKEN_LABEL = ascii ''portty-resumption-token-v1''"

definition FIRST_PAIR_KEY_LABEL :: bytes where
  "FIRST_PAIR_KEY_LABEL = ascii ''portty-first-pair-key-v1''"

definition PAIR_SAS_LABEL :: bytes where
  "PAIR_SAS_LABEL = ascii ''portty-pair-sas-v1''"

definition PAIR_VERIFICATION_CODE_DIGITS :: nat where
  "PAIR_VERIFICATION_CODE_DIGITS = 6"

section \<open>Key agreement, proofs and derived keys\<close>

text \<open>A one-shot ephemeral key pair, from the random secret the system supplies.\<close>

definition generate_ephemeral :: "crypto \<Rightarrow> bytes \<Rightarrow> bytes \<times> bytes" where
  "generate_ephemeral c rnd = (rnd, x25519_public c rnd)"

definition ecdh_shared :: "crypto \<Rightarrow> bytes \<Rightarrow> bytes \<Rightarrow> bytes sync_result" where
  "ecdh_shared c secret peer_public =
     (if \<not> x25519_contributory c secret peer_public then Inl (SyncCrypto NonContributoryEcdh)
      else Inr (x25519_shared c secret peer_public))"

text \<open>HMAC-SHA256 takes a key of any length, so the \<open>HmacLength\<close> error cannot arise.\<close>

definition proof_from_key :: "crypto \<Rightarrow> bytes \<Rightarrow> bytes \<Rightarrow> bytes \<Rightarrow> bytes" where
  "proof_from_key c key nonce transcript = hmac_sha256 c key (nonce @ transcript)"

definition derive_session_from_key :: "crypto \<Rightarrow> bytes \<Rightarrow> bytes \<Rightarrow> bytes \<Rightarrow> bytes sync_result" where
  "derive_session_from_key c key nonce ecdh =
     (case hkdf_sha256 c (Some key) (nonce @ ecdh) HKDF_INFO of
        None \<Rightarrow> Inl (SyncCrypto Kdf)
      | Some okm \<Rightarrow> Inr okm)"

definition verify_proof_with_key :: "crypto \<Rightarrow> bytes \<Rightarrow> bytes \<Rightarrow> bytes \<Rightarrow> bytes \<Rightarrow> unit sync_result" where
  "verify_proof_with_key c key nonce transcript claimed =
     (if proof_from_key c key nonce transcript = claimed then Inr () else Inl (SyncCrypto CryptoWrongPin))"

definition derive_subkey :: "crypto \<Rightarrow> bytes \<Rightarrow> bytes \<Rightarrow> bytes sync_result" where
  "derive_subkey c session label =
     (case hkdf_sha256 c None session label of
        None \<Rightarrow> Inl (SyncCrypto Kdf)
      | Some okm \<Rightarrow> Inr okm)"

definition derive_resumption_token :: "crypto \<Rightarrow> bytes \<Rightarrow> bytes sync_result" where
  "derive_resumption_token c session = derive_subkey c session RESUMPTION_TOKEN_LABEL"

section \<open>The comparison code\<close>

definition digit :: "nat \<Rightarrow> char" where
  "digit d = char_of (48 + d)"

text \<open>\<open>format!("{value:0width$}")\<close> for a value below \<open>10 ^ width\<close>: exactly \<open>width\<close> decimal digits.\<close>

primrec decimal_digits :: "nat \<Rightarrow> nat \<Rightarrow> string" where
  "decimal_digits 0 n = []"
| "decimal_digits (Suc k) n = decimal_digits k (n div 10) @ [digit (n mod 10)]"

definition pair_verification_code :: "crypto \<Rightarrow> bytes \<Rightarrow> string sync_result" where
  "pair_verification_code c session =
     (case derive_subkey c session PAIR_SAS_LABEL of
        Inl e \<Rightarrow> Inl e
      | Inr key \<Rightarrow>
          Inr (decimal_digits PAIR_VERIFICATION_CODE_DIGITS
                 (from_be (take 8 key) mod 10 ^ PAIR_VERIFICATION_CODE_DIGITS)))"

section \<open>Facts the components share\<close>

lemma length_ascii [simp]: "length (ascii s) = length s"
  by (simp add: ascii_def)

lemma ascii_inj: "ascii s = ascii t \<Longrightarrow> s = t"
proof -
  assume "ascii s = ascii t"
  moreover have "inj (\<lambda>ch :: char. word_of_nat (of_char ch) :: u8)"
  proof (rule injI)
    fix a b :: char
    assume "(word_of_nat (of_char a) :: u8) = word_of_nat (of_char b)"
    then have "unat (word_of_nat (of_char a) :: u8) = unat (word_of_nat (of_char b) :: u8)" by simp
    then have "(of_char a :: nat) = of_char b" by (simp add: unat_of_nat)
    then show "a = b" by simp
  qed
  ultimately show "s = t" unfolding ascii_def using inj_map_eq_map by blast
qed

lemma verify_proof_ok_iff [simp]:
  "verify_proof_with_key c k n t p = Inr () \<longleftrightarrow> proof_from_key c k n t = p"
  by (simp add: verify_proof_with_key_def)

lemma hkdf_totalD:
  "hkdf_total c \<Longrightarrow> \<exists>okm. hkdf_sha256 c salt ikm info = Some okm \<and> length okm = 32"
  by (simp add: hkdf_total_def)

lemma derive_subkey_total: "hkdf_total c \<Longrightarrow> \<exists>k. derive_subkey c s l = Inr k \<and> length k = 32"
  using hkdf_totalD [of c None s l] by (auto simp: derive_subkey_def)

lemma derive_session_total:
  "hkdf_total c \<Longrightarrow> \<exists>k. derive_session_from_key c key n e = Inr k \<and> length k = 32"
  using hkdf_totalD [of c "Some key" "n @ e" HKDF_INFO] by (auto simp: derive_session_from_key_def)

lemma length_decimal_digits [simp]: "length (decimal_digits k n) = k"
  by (induction k arbitrary: n) auto

definition digit_value :: "char \<Rightarrow> nat" where
  "digit_value ch = of_char ch - 48"

definition decimal_value :: "string \<Rightarrow> nat" where
  "decimal_value s = foldl (\<lambda>acc ch. acc * 10 + digit_value ch) 0 s"

lemma digit_value_digit: "d < 10 \<Longrightarrow> digit_value (digit d) = d"
  by (simp add: digit_def digit_value_def)

lemma decimal_value_digits: "decimal_value (decimal_digits k n) = n mod 10 ^ k"
proof (induction k arbitrary: n)
  case 0
  show ?case by (simp add: decimal_value_def)
next
  case (Suc k)
  have "decimal_value (decimal_digits (Suc k) n) = (n div 10) mod 10 ^ k * 10 + n mod 10"
    using Suc.IH [of "n div 10"] by (simp add: decimal_value_def digit_value_digit)
  also have "\<dots> = n mod (10 * 10 ^ k)" by (subst mod_mult2_eq) simp
  finally show ?case by simp
qed

section \<open>A concrete instance for closed examples\<close>

text \<open>
  A transparent instance that satisfies the hypotheses above: nothing is hidden, but every length
  and every agreement is right, which is what closed examples need.
\<close>

definition pad32 :: "bytes \<Rightarrow> bytes" where
  "pad32 bs = take 32 (bs @ replicate 32 0)"

definition plain_seal :: "bytes \<Rightarrow> bytes \<Rightarrow> bytes" where
  "plain_seal m a = replicate (length a) 1 @ 0 # a @ m"

definition plain_open :: "bytes \<Rightarrow> bytes \<Rightarrow> bytes option" where
  "plain_open ct a =
     (let n = length (takeWhile (\<lambda>b. b = 1) ct); body = drop (Suc n) ct
      in if n = length a \<and> take n body = a then Some (drop n body) else None)"

definition plain_crypto :: crypto where
  "plain_crypto = \<lparr>
     hmac_sha256 = (\<lambda>k m. pad32 (take 4 k @ take 4 m)),
     hkdf_sha256 = (\<lambda>salt ikm info.
       Some (pad32 (take 4 (case salt of None \<Rightarrow> [] | Some s \<Rightarrow> s) @ take 8 ikm @ take 20 info))),
     x25519_public = pad32,
     x25519_shared = (\<lambda>s p. pad32 [word_of_nat (from_be (pad32 s) + from_be p)]),
     x25519_contributory = (\<lambda>s p. True),
     aead_encrypt = (\<lambda>k n m a. Some (plain_seal m a)),
     aead_decrypt = (\<lambda>k n ct a. plain_open ct a)\<rparr>"

lemma takeWhile_unary [simp]: "takeWhile (\<lambda>b. b = (1 :: u8)) (replicate n 1 @ 0 # xs) = replicate n 1"
  by (induction n) simp_all

lemma plain_open_seal: "plain_open (plain_seal m a) a' = (if a' = a then Some m else None)"
  by (auto simp: plain_open_def plain_seal_def)

lemma plain_crypto_aead_correct: "aead_correct plain_crypto"
  by (auto simp: aead_correct_def plain_crypto_def plain_open_seal)

lemma plain_crypto_binds_aad: "aead_binds_aad plain_crypto"
  by (auto simp: aead_binds_aad_def plain_crypto_def plain_open_seal)

lemma plain_crypto_x25519_agrees: "x25519_agrees plain_crypto"
  by (simp add: x25519_agrees_def plain_crypto_def add.commute)

lemma plain_crypto_hkdf_total: "hkdf_total plain_crypto"
  by (simp add: hkdf_total_def plain_crypto_def pad32_def)

lemmas plain_crypto_hyps =
  plain_crypto_aead_correct plain_crypto_binds_aad plain_crypto_x25519_agrees plain_crypto_hkdf_total

section \<open>The comparison code is six decimal digits of the session\<close>

lemma pair_verification_code_value:
  assumes "derive_subkey c session PAIR_SAS_LABEL = Inr key"
  shows "\<exists>code. pair_verification_code c session = Inr code \<and> length code = 6 \<and>
    decimal_value code = from_be (take 8 key) mod 1000000"
  using assms
  by (simp add: pair_verification_code_def decimal_value_digits PAIR_VERIFICATION_CODE_DIGITS_def)

end
