(* ===== verification/Envelope.thy ===== *)
theory Envelope
  imports Crypto
begin

text \<open>
  The application-layer envelope of \<open>crates/transport/src/crypto/envelope.rs\<close> and
  \<open>crates/transport/src/wire.rs\<close>: direction-separated keys, a monotonic sequence number in the first
  eight nonce bytes and in the associated data, and a receiver that accepts each sequence number
  once and in order. The two atomics of the cipher are \<open>u64\<close> counters; \<open>open\<close> is split at its
  compare-exchange, so that interleavings of concurrent calls can be stated.
\<close>

section \<open>The cipher\<close>

definition CLIENT_TO_SERVER_KEY_LABEL :: bytes where
  "CLIENT_TO_SERVER_KEY_LABEL = ascii ''portty-app-envelope-v2/client-to-server''"

definition SERVER_TO_CLIENT_KEY_LABEL :: bytes where
  "SERVER_TO_CLIENT_KEY_LABEL = ascii ''portty-app-envelope-v2/server-to-client''"

definition CLIENT_TO_SERVER_AAD :: bytes where
  "CLIENT_TO_SERVER_AAD = ascii ''portty-envelope/client-to-server''"

definition SERVER_TO_CLIENT_AAD :: bytes where
  "SERVER_TO_CLIENT_AAD = ascii ''portty-envelope/server-to-client''"

record sealed_frame =
  sf_nonce :: bytes
  sf_ciphertext :: bytes

record envelope_cipher =
  seal_key :: bytes
  open_key :: bytes
  seal_aad :: bytes
  open_aad :: bytes
  next_seal_sequence :: u64
  last_open_sequence :: u64

definition from_session_labels ::
  "crypto \<Rightarrow> bytes \<Rightarrow> bytes \<Rightarrow> bytes \<Rightarrow> bytes \<Rightarrow> bytes \<Rightarrow> envelope_cipher sync_result" where
  "from_session_labels cr session seal_key_label open_key_label seal_ad open_ad =
     (case derive_subkey cr session seal_key_label of
        Inl e \<Rightarrow> Inl e
      | Inr sk \<Rightarrow>
          (case derive_subkey cr session open_key_label of
             Inl e \<Rightarrow> Inl e
           | Inr ok \<Rightarrow>
               Inr \<lparr>seal_key = sk, open_key = ok, seal_aad = seal_ad, open_aad = open_ad,
                    next_seal_sequence = 1, last_open_sequence = 0\<rparr>))"

definition for_client :: "crypto \<Rightarrow> bytes \<Rightarrow> envelope_cipher sync_result" where
  "for_client cr session =
     from_session_labels cr session CLIENT_TO_SERVER_KEY_LABEL SERVER_TO_CLIENT_KEY_LABEL
       CLIENT_TO_SERVER_AAD SERVER_TO_CLIENT_AAD"

definition for_server :: "crypto \<Rightarrow> bytes \<Rightarrow> envelope_cipher sync_result" where
  "for_server cr session =
     from_session_labels cr session SERVER_TO_CLIENT_KEY_LABEL CLIENT_TO_SERVER_KEY_LABEL
       SERVER_TO_CLIENT_AAD CLIENT_TO_SERVER_AAD"

definition envelope_aad :: "bytes \<Rightarrow> u64 \<Rightarrow> bytes \<Rightarrow> bytes" where
  "envelope_aad direction sequence caller_aad = direction @ to_be 8 (unat sequence) @ caller_aad"

section \<open>Sealing\<close>

text \<open>
  \<open>entropy\<close> is what the operating system's random generator supplies: 16 bytes, or a refusal.
  \<open>fetch_add\<close> wraps, and happens before anything can fail.
\<close>

definition seal ::
  "crypto \<Rightarrow> envelope_cipher \<Rightarrow> bytes option \<Rightarrow> bytes \<Rightarrow> bytes \<Rightarrow>
     envelope_cipher \<times> sealed_frame sync_result" where
  "seal cr c entropy plaintext aad =
     (let sequence = next_seal_sequence c;
          c' = c\<lparr>next_seal_sequence := sequence + 1\<rparr>
      in if sequence = - 1 then (c', Inl (SyncCrypto NonceExhausted))
         else case entropy of
           None \<Rightarrow> (c', Inl (SyncCrypto Rng))
         | Some rnd \<Rightarrow>
             (let nonce = to_be 8 (unat sequence) @ rnd;
                  bound_aad = envelope_aad (seal_aad c) sequence aad
              in case aead_encrypt cr (seal_key c) nonce plaintext bound_aad of
                   None \<Rightarrow> (c', Inl (SyncCrypto Decrypt))
                 | Some ct \<Rightarrow> (c', Inr \<lparr>sf_nonce = nonce, sf_ciphertext = ct\<rparr>)))"

section \<open>Opening\<close>

text \<open>
  A call of \<open>open\<close> up to its compare-exchange: read the last accepted sequence, refuse anything but
  its successor, decrypt. The result is what the compare-exchange will be called with.
\<close>

definition open_prepare ::
  "crypto \<Rightarrow> envelope_cipher \<Rightarrow> bytes \<Rightarrow> bytes \<Rightarrow> bytes \<Rightarrow> (u64 \<times> u64 \<times> bytes) sync_result" where
  "open_prepare cr c nonce ciphertext aad =
     (let sequence = word_of_nat (from_be (take 8 nonce)); observed = last_open_sequence c
      in case checked_add observed 1 of
           None \<Rightarrow> Inl (SyncCrypto NonceExhausted)
         | Some expected \<Rightarrow>
             if sequence \<noteq> expected then Inl (SyncCrypto (Replay expected sequence))
             else case aead_decrypt cr (open_key c) nonce ciphertext
                         (envelope_aad (open_aad c) sequence aad) of
                    None \<Rightarrow> Inl (SyncCrypto Decrypt)
                  | Some plaintext \<Rightarrow> Inr (observed, sequence, plaintext))"

definition open_commit ::
  "envelope_cipher \<Rightarrow> u64 \<times> u64 \<times> bytes \<Rightarrow> envelope_cipher \<times> bytes sync_result" where
  "open_commit c p =
     (case p of (observed, sequence, plaintext) \<Rightarrow>
        if last_open_sequence c = observed
        then (c\<lparr>last_open_sequence := sequence\<rparr>, Inr plaintext)
        else (c, Inl (SyncCrypto (Replay (saturating_add (last_open_sequence c) 1) sequence))))"

definition open_frame ::
  "crypto \<Rightarrow> envelope_cipher \<Rightarrow> bytes \<Rightarrow> bytes \<Rightarrow> bytes \<Rightarrow> envelope_cipher \<times> bytes sync_result" where
  "open_frame cr c nonce ciphertext aad =
     (case open_prepare cr c nonce ciphertext aad of
        Inl e \<Rightarrow> (c, Inl e)
      | Inr p \<Rightarrow> open_commit c p)"

section \<open>Messages on the wire\<close>

text \<open>
  \<open>wire.rs\<close>: an application message is encoded with postcard, a parameter of the model (\<open>to_allocvec\<close>
  and \<open>from_bytes\<close>), and sealed.
\<close>

definition seal_msg ::
  "crypto \<Rightarrow> ('m \<Rightarrow> string + bytes) \<Rightarrow> envelope_cipher \<Rightarrow> bytes option \<Rightarrow> 'm \<Rightarrow> bytes \<Rightarrow>
     envelope_cipher \<times> sealed_frame sync_result" where
  "seal_msg cr to_allocvec c entropy msg aad =
     (case to_allocvec msg of
        Inl e \<Rightarrow> (c, Inl (SyncProtocol (EncodeError e)))
      | Inr bs \<Rightarrow> seal cr c entropy bs aad)"

definition open_msg ::
  "crypto \<Rightarrow> (bytes \<Rightarrow> string + 'm) \<Rightarrow> envelope_cipher \<Rightarrow> sealed_frame \<Rightarrow> bytes \<Rightarrow>
     envelope_cipher \<times> 'm sync_result" where
  "open_msg cr from_bytes c env aad =
     (case open_frame cr c (sf_nonce env) (sf_ciphertext env) aad of
        (c', Inl e) \<Rightarrow> (c', Inl e)
      | (c', Inr bs) \<Rightarrow>
          (case from_bytes bs of
             Inl e \<Rightarrow> (c', Inl (SyncProtocol (DecodeError e)))
           | Inr m \<Rightarrow> (c', Inr m)))"

section \<open>The associated data of the two directions never meet\<close>

lemma to_be8_u64_inj: "to_be 8 (unat a) = to_be 8 (unat b) \<Longrightarrow> a = (b :: u64)"
  using to_be_inj [of 8 "unat a" "unat b"] unat_bound64 [of a] unat_bound64 [of b]
  by (simp add: word_unat_eq_iff del: to_be_numeral)

lemma envelope_aad_inj:
  assumes "envelope_aad d s a = envelope_aad d' s' a'" and "length d = length d'"
  shows "d = d' \<and> s = s' \<and> a = a'"
proof -
  from assms have "d = d'" and "to_be 8 (unat s) @ a = to_be 8 (unat s') @ a'"
    by (simp_all add: envelope_aad_def del: to_be_numeral)
  then have "to_be 8 (unat s) = to_be 8 (unat s')" and "a = a'"
    by (simp_all add: append_eq_append_conv del: to_be_numeral)
  with \<open>d = d'\<close> show ?thesis by (blast dest: to_be8_u64_inj)
qed

lemma directions_differ: "CLIENT_TO_SERVER_AAD \<noteq> SERVER_TO_CLIENT_AAD"
  by (auto simp: CLIENT_TO_SERVER_AAD_def SERVER_TO_CLIENT_AAD_def dest: ascii_inj)

lemma length_directions: "length CLIENT_TO_SERVER_AAD = length SERVER_TO_CLIENT_AAD"
  by (simp add: CLIENT_TO_SERVER_AAD_def SERVER_TO_CLIENT_AAD_def)

text \<open>
  The associated data bind direction, sequence and caller data unambiguously: for the two
  direction labels, equal bound data mean equal direction, equal sequence and equal caller data,
  although the caller's part has no length prefix.
\<close>

theorem envelope_aad_unambiguous:
  assumes "d \<in> {CLIENT_TO_SERVER_AAD, SERVER_TO_CLIENT_AAD}"
    and "d' \<in> {CLIENT_TO_SERVER_AAD, SERVER_TO_CLIENT_AAD}"
    and "envelope_aad d s a = envelope_aad d' s' a'"
  shows "d = d' \<and> s = s' \<and> a = a'"
  using envelope_aad_inj [OF assms(3)] assms(1,2) length_directions by auto

theorem envelope_aad_unambiguous_witness:
  "envelope_aad CLIENT_TO_SERVER_AAD 1 [2] \<noteq> envelope_aad SERVER_TO_CLIENT_AAD 1 [2]"
  using envelope_aad_unambiguous [of CLIENT_TO_SERVER_AAD SERVER_TO_CLIENT_AAD 1 "[2]" 1 "[2]"]
    directions_differ by auto


section \<open>A channel of two ciphers\<close>

text \<open>Sender \<open>c\<close> and receiver \<open>s\<close> of one direction agree: same key and label, next number expected.\<close>

definition in_step :: "envelope_cipher \<Rightarrow> envelope_cipher \<Rightarrow> bool" where
  "in_step c s \<longleftrightarrow> seal_key c = open_key s \<and> seal_aad c = open_aad s \<and>
     unat (next_seal_sequence c) = unat (last_open_sequence s) + 1"

lemma client_server_in_step:
  assumes "for_client cr session = Inr c" and "for_server cr session = Inr s"
  shows "in_step c s \<and> in_step s c"
  using assms
  by (auto simp: for_client_def for_server_def from_session_labels_def in_step_def
      split: sum.splits)

lemma from_session_total:
  assumes "hkdf_total cr"
  shows "\<exists>c. for_client cr session = Inr c" and "\<exists>c. for_server cr session = Inr c"
  using derive_subkey_total [OF assms, of session CLIENT_TO_SERVER_KEY_LABEL]
    derive_subkey_total [OF assms, of session SERVER_TO_CLIENT_KEY_LABEL]
  by (auto simp: for_client_def for_server_def from_session_labels_def)

lemma u64_be_nonce: "word_of_nat (from_be (take 8 (to_be 8 (unat (s :: u64)) @ rnd))) = s"
  using unat_bound64 [of s] by (simp add: from_be_to_be_exact del: to_be_numeral)

lemma unat_suc_u64: "(s :: u64) \<noteq> - 1 \<Longrightarrow> unat (s + 1) = unat s + 1"
proof -
  assume "s \<noteq> - 1"
  then have "unat s \<noteq> unat (- 1 :: u64)" by (metis word_unat_eq_iff)
  then have "unat s + 1 < 2 ^ 64"
    using unat_bound64 [of s] by (simp add: unsigned_minus_1_eq_mask mask_eq_exp_minus_1)
  then show ?thesis by (simp add: unat_plus_no_overflow)
qed

lemma seal_cases:
  assumes "seal cr c entropy pt aad = (c', Inr f)"
  obtains rnd ct where "entropy = Some rnd" "next_seal_sequence c \<noteq> - 1"
    "c' = c\<lparr>next_seal_sequence := next_seal_sequence c + 1\<rparr>"
    "aead_encrypt cr (seal_key c) (to_be 8 (unat (next_seal_sequence c)) @ rnd) pt
       (envelope_aad (seal_aad c) (next_seal_sequence c) aad) = Some ct"
    "f = \<lparr>sf_nonce = to_be 8 (unat (next_seal_sequence c)) @ rnd, sf_ciphertext = ct\<rparr>"
  using assms by (auto simp: seal_def Let_def split: if_splits option.splits simp del: to_be_numeral)

lemma open_sealed:
  assumes cr: "aead_correct cr" and st: "in_step c s" and sl: "seal cr c entropy pt aad = (c', Inr f)"
  shows "\<exists>s'. open_frame cr s (sf_nonce f) (sf_ciphertext f) aad = (s', Inr pt) \<and> in_step c' s' \<and>
    last_open_sequence s' = next_seal_sequence c"
proof -
  from sl obtain rnd ct where sq: "next_seal_sequence c \<noteq> - 1"
    and c': "c' = c\<lparr>next_seal_sequence := next_seal_sequence c + 1\<rparr>"
    and ct: "aead_encrypt cr (seal_key c) (to_be 8 (unat (next_seal_sequence c)) @ rnd) pt
       (envelope_aad (seal_aad c) (next_seal_sequence c) aad) = Some ct"
    and f: "f = \<lparr>sf_nonce = to_be 8 (unat (next_seal_sequence c)) @ rnd, sf_ciphertext = ct\<rparr>"
    by (rule seal_cases)
  let ?seq = "next_seal_sequence c"
  from st have n: "unat ?seq = unat (last_open_sequence s) + 1" by (simp add: in_step_def)
  then have nov: "unat (last_open_sequence s) + 1 < 2 ^ 64" using unat_bound64 [of ?seq] by simp
  then have ex: "checked_add (last_open_sequence s) 1 = Some ?seq"
    using n by (auto simp: checked_add_Some_iff word_unat_eq_iff unat_plus_no_overflow)
  from cr ct st have "aead_decrypt cr (open_key s) (sf_nonce f) (sf_ciphertext f)
      (envelope_aad (open_aad s) ?seq aad) = Some pt"
    by (simp add: aead_correct_def in_step_def f del: to_be_numeral)
  then have "open_frame cr s (sf_nonce f) (sf_ciphertext f) aad =
      (s\<lparr>last_open_sequence := ?seq\<rparr>, Inr pt)"
    using ex u64_be_nonce [of ?seq rnd]
    by (simp add: open_frame_def open_prepare_def open_commit_def f Let_def del: to_be_numeral)
  moreover have "in_step c' (s\<lparr>last_open_sequence := ?seq\<rparr>)"
    using st sq by (simp add: in_step_def c' unat_suc_u64)
  ultimately show ?thesis by simp
qed

fun seal_all ::
  "crypto \<Rightarrow> envelope_cipher \<Rightarrow> bytes \<Rightarrow> (bytes option \<times> bytes) list \<Rightarrow>
     envelope_cipher \<times> sealed_frame list sync_result" where
  "seal_all cr c aad [] = (c, Inr [])"
| "seal_all cr c aad ((ent, pt) # ms) =
     (case seal cr c ent pt aad of
        (c1, Inl e) \<Rightarrow> (c1, Inl e)
      | (c1, Inr f) \<Rightarrow>
          (case seal_all cr c1 aad ms of
             (c2, Inl e) \<Rightarrow> (c2, Inl e)
           | (c2, Inr fs) \<Rightarrow> (c2, Inr (f # fs))))"

fun open_all ::
  "crypto \<Rightarrow> envelope_cipher \<Rightarrow> bytes \<Rightarrow> sealed_frame list \<Rightarrow> envelope_cipher \<times> bytes list sync_result" where
  "open_all cr s aad [] = (s, Inr [])"
| "open_all cr s aad (f # fs) =
     (case open_frame cr s (sf_nonce f) (sf_ciphertext f) aad of
        (s1, Inl e) \<Rightarrow> (s1, Inl e)
      | (s1, Inr pt) \<Rightarrow>
          (case open_all cr s1 aad fs of
             (s2, Inl e) \<Rightarrow> (s2, Inl e)
           | (s2, Inr pts) \<Rightarrow> (s2, Inr (pt # pts))))"

lemma channel_delivers:
  assumes "aead_correct cr"
  shows "in_step c s \<Longrightarrow> seal_all cr c aad ms = (c', Inr fs) \<Longrightarrow>
    \<exists>s'. open_all cr s aad fs = (s', Inr (map snd ms)) \<and> in_step c' s'"
proof (induction ms arbitrary: c s fs)
  case Nil
  then show ?case by simp
next
  case (Cons m ms)
  obtain ent pt where m: "m = (ent, pt)" by (cases m)
  from Cons.prems(2) obtain c1 f fs' where sl: "seal cr c ent pt aad = (c1, Inr f)"
    and rest: "seal_all cr c1 aad ms = (c', Inr fs')" and fs: "fs = f # fs'"
    by (auto simp: m split: prod.splits sum.splits)
  from open_sealed [OF assms Cons.prems(1) sl] obtain s1 where
    "open_frame cr s (sf_nonce f) (sf_ciphertext f) aad = (s1, Inr pt)" "in_step c1 s1" by blast
  with Cons.IH [OF _ rest, of s1] show ?case by (auto simp: fs m)
qed

text \<open>
  C33. End to end, in both directions: whatever one side of a session sealed, the other side of the
  same session opens in that order and gets exactly the plaintexts back.
\<close>

theorem envelope_channel_roundtrip:
  assumes "aead_correct cr"
    and "for_client cr session = Inr c" and "for_server cr session = Inr s"
    and "(tx, rx) = (c, s) \<or> (tx, rx) = (s, c)"
    and "seal_all cr tx aad ms = (tx', Inr fs)"
  shows "\<exists>rx'. open_all cr rx aad fs = (rx', Inr (map snd ms))"
  using channel_delivers [OF assms(1) _ assms(5), of rx] client_server_in_step [OF assms(2,3)] assms(4)
  by auto

theorem envelope_channel_roundtrip_witness:
  "\<exists>c s c' fs rx'. for_client plain_crypto [1] = Inr c \<and> for_server plain_crypto [1] = Inr s \<and>
     seal_all plain_crypto c [9] [(Some [7], [65]), (Some [8], [66])] = (c', Inr fs) \<and>
     open_all plain_crypto s [9] fs = (rx', Inr [[65], [66]])"
proof -
  obtain c s where cs: "for_client plain_crypto [1] = Inr c" "for_server plain_crypto [1] = Inr s"
    using from_session_total [OF plain_crypto_hkdf_total] by blast
  then have "next_seal_sequence c = 1"
    by (auto simp: for_client_def from_session_labels_def split: sum.splits)
  then obtain c' fs where sl:
    "seal_all plain_crypto c [9] [(Some [7], [65]), (Some [8], [66])] = (c', Inr fs)"
    by (simp add: seal_def Let_def plain_crypto_def)
  from envelope_channel_roundtrip [OF plain_crypto_aead_correct cs _ sl, of s] cs sl
  show ?thesis by auto
qed

section \<open>Replay protection under concurrency\<close>

text \<open>
  Any number of tasks call \<open>open\<close> on one cipher. A schedule is a list of events: a task runs \<open>open\<close> up
  to its compare-exchange, or performs the compare-exchange it has prepared. The log records what
  the calls returned successfully.
\<close>

datatype open_event = Begin nat bytes bytes bytes | Finish nat

record receiver =
  rx_cipher :: envelope_cipher
  rx_pending :: "(nat, u64 \<times> u64 \<times> bytes) hashmap"
  rx_accepted :: "(u64 \<times> bytes) list"

fun rx_step :: "crypto \<Rightarrow> receiver \<Rightarrow> open_event \<Rightarrow> receiver" where
  "rx_step cr r (Begin t nonce ct aad) =
     (case open_prepare cr (rx_cipher r) nonce ct aad of
        Inl e \<Rightarrow> r
      | Inr p \<Rightarrow> r\<lparr>rx_pending := hm_insert t p (rx_pending r)\<rparr>)"
| "rx_step cr r (Finish t) =
     (case hm_get (rx_pending r) t of
        None \<Rightarrow> r
      | Some p \<Rightarrow>
          (let r' = r\<lparr>rx_pending := hm_remove t (rx_pending r)\<rparr> in
           case open_commit (rx_cipher r) p of
             (c', Inl e) \<Rightarrow> r'\<lparr>rx_cipher := c'\<rparr>
           | (c', Inr pt) \<Rightarrow>
               r'\<lparr>rx_cipher := c', rx_accepted := rx_accepted r @ [(fst (snd p), pt)]\<rparr>))"

definition rx_inv :: "receiver \<Rightarrow> bool" where
  "rx_inv r \<longleftrightarrow>
     map (unat \<circ> fst) (rx_accepted r) = [1..<Suc (unat (last_open_sequence (rx_cipher r)))] \<and>
     (\<forall>t l s pt. hm_get (rx_pending r) t = Some (l, s, pt) \<longrightarrow> unat s = unat l + 1)"

lemma open_prepare_next:
  assumes "open_prepare cr c nonce ct aad = Inr (l, s, pt)"
  shows "unat s = unat l + 1"
  using assms
  by (auto simp: open_prepare_def Let_def checked_add_Some_iff unat_plus_no_overflow
      split: option.splits if_splits)

lemma rx_inv_step: "rx_inv r \<Longrightarrow> rx_inv (rx_step cr r e)"
proof (cases e)
  case (Begin t nonce ct aad)
  assume "rx_inv r"
  then show ?thesis
    by (auto simp: Begin rx_inv_def split: sum.splits dest: open_prepare_next)
next
  case (Finish t)
  assume inv: "rx_inv r"
  show ?thesis
  proof (cases "hm_get (rx_pending r) t")
    case None
    with inv show ?thesis by (simp add: Finish)
  next
    case (Some p)
    obtain l s pt where p: "p = (l, s, pt)" by (cases p)
    from inv Some p have n: "unat s = unat l + 1" by (auto simp: rx_inv_def)
    show ?thesis
      using inv Some n by (auto simp: Finish p open_commit_def rx_inv_def)
  qed
qed

interpretation rx: step_invariant "rx_step cr" rx_inv for cr
  by unfold_locales (rule rx_inv_step)

definition fresh_receiver :: "envelope_cipher \<Rightarrow> receiver" where
  "fresh_receiver c = \<lparr>rx_cipher = c, rx_pending = [], rx_accepted = []\<rparr>"

text \<open>
  C16. Exactly once and in order, under every interleaving of concurrent \<open>open\<close> calls and whatever
  bytes the network delivers: the sequence numbers accepted by a receiver of a fresh session are
  \<open>1, 2, 3, \<dots>\<close> without gap or repetition.
\<close>

theorem open_accepts_each_sequence_once:
  assumes "for_server cr session = Inr s \<or> for_client cr session = Inr s"
  shows "map (unat \<circ> fst) (rx_accepted (foldl (rx_step cr) (fresh_receiver s) es)) =
    [1..<Suc (length (rx_accepted (foldl (rx_step cr) (fresh_receiver s) es)))]"
proof -
  from assms have "last_open_sequence s = 0"
    by (auto simp: for_server_def for_client_def from_session_labels_def split: sum.splits)
  then have "rx_inv (fresh_receiver s)" by (simp add: rx_inv_def fresh_receiver_def)
  then have "rx_inv (foldl (rx_step cr) (fresh_receiver s) es)" by (rule rx.run_inv)
  then have m: "map (unat \<circ> fst) (rx_accepted (foldl (rx_step cr) (fresh_receiver s) es)) =
    [1..<Suc (unat (last_open_sequence (rx_cipher (foldl (rx_step cr) (fresh_receiver s) es))))]"
    by (simp add: rx_inv_def)
  from arg_cong [OF this, of length]
  have "length (rx_accepted (foldl (rx_step cr) (fresh_receiver s) es)) =
    unat (last_open_sequence (rx_cipher (foldl (rx_step cr) (fresh_receiver s) es)))" by simp
  with m show ?thesis by simp
qed

theorem open_accepts_each_sequence_once_witness:
  "\<exists>s. for_server plain_crypto [1] = Inr s \<and>
     (let ct = plain_seal [65] (envelope_aad (open_aad s) 1 []); n = to_be 8 1;
          r = foldl (rx_step plain_crypto) (fresh_receiver s) [Begin 0 n ct [], Begin 1 n ct [], Finish 1, Finish 0]
      in rx_accepted r = [(1, [65])] \<and>
         map (unat \<circ> fst) (rx_accepted r) = [1..<Suc (length (rx_accepted r))])"
proof -
  obtain s where s: "for_server plain_crypto [1] = Inr s"
    using from_session_total [OF plain_crypto_hkdf_total] by blast
  then have z: "last_open_sequence s = 0"
    by (auto simp: for_server_def from_session_labels_def split: sum.splits)
  let ?ct = "plain_seal [65] (envelope_aad (open_aad s) 1 [])"
  let ?es = "[Begin 0 (to_be 8 1) ?ct [], Begin 1 (to_be 8 1) ?ct [], Finish 1, Finish 0]"
  have d: "aead_decrypt plain_crypto k n ct a = plain_open ct a" for k n ct a
    by (simp add: plain_crypto_def)
  have "rx_accepted (foldl (rx_step plain_crypto) (fresh_receiver s) ?es) = [(1, [65])]"
    using z
    by (simp add: fresh_receiver_def open_prepare_def open_commit_def Let_def checked_add_def
        from_be_def d plain_open_seal)
  with open_accepts_each_sequence_once [of plain_crypto "[1]" s ?es] s show ?thesis by (auto simp: Let_def)
qed


section \<open>Refusals leave the receiver as it was\<close>

text \<open>
  A frame that is refused, because it is out of order or because it does not authenticate,
  changes nothing: the receiver still accepts the next genuine frame.
\<close>

theorem open_refusal_keeps_state:
  assumes "open_frame cr s nonce ct aad = (s', Inl e)"
  shows "s' = s"
  using assms by (auto simp: open_frame_def open_commit_def split: sum.splits if_splits prod.splits)

theorem open_refusal_keeps_state_witness:
  "\<exists>s. for_server plain_crypto [1] = Inr s \<and>
     open_frame plain_crypto s (to_be 8 2) [] [] = (s, Inl (SyncCrypto (Replay 1 2)))"
proof -
  obtain s where s: "for_server plain_crypto [1] = Inr s"
    using from_session_total [OF plain_crypto_hkdf_total] by blast
  then have "last_open_sequence s = 0"
    by (auto simp: for_server_def from_session_labels_def split: sum.splits)
  then obtain s' where "open_frame plain_crypto s (to_be 8 2) [] [] = (s', Inl (SyncCrypto (Replay 1 2)))"
    by (simp add: open_frame_def open_prepare_def Let_def checked_add_def from_be_def)
  with open_refusal_keeps_state [OF this] s show ?thesis by auto
qed

text \<open>
  A frame reflected to its own sender never opens, at any later state of that sender, with any
  caller data: the direction label in the associated data differs.
\<close>

theorem reflected_frame_refused:
  assumes "aead_binds_aad cr" and "for_client cr session = Inr c \<or> for_server cr session = Inr c"
    and "open_aad d = open_aad c" and "seal_aad d = seal_aad c"
    and "seal cr d entropy pt aad = (d', Inr f)"
    and "open_aad d'' = open_aad c"
  shows "\<exists>e. open_frame cr d'' (sf_nonce f) (sf_ciphertext f) aad' = (d'', Inl e)"
proof -
  from assms(2) have dir: "open_aad c \<noteq> seal_aad c" "length (open_aad c) = length (seal_aad c)"
    using directions_differ length_directions
    by (auto simp: for_client_def for_server_def from_session_labels_def split: sum.splits)
  from assms(5) obtain rnd ct where
    ct: "aead_encrypt cr (seal_key d) (to_be 8 (unat (next_seal_sequence d)) @ rnd) pt
       (envelope_aad (seal_aad d) (next_seal_sequence d) aad) = Some ct"
    and f: "sf_ciphertext f = ct" by (auto elim!: seal_cases)
  have "envelope_aad (open_aad d'') q aad' \<noteq> envelope_aad (seal_aad d) (next_seal_sequence d) aad" for q
    using envelope_aad_inj [of "open_aad d''" q aad' "seal_aad d"] dir assms(4,6) by auto
  with assms(1) ct have "aead_decrypt cr k n ct (envelope_aad (open_aad d'') q aad') = None" for k n q
    unfolding aead_binds_aad_def by blast
  then show ?thesis
    by (auto simp: open_frame_def open_prepare_def Let_def f split: option.splits)
qed

theorem reflected_frame_refused_witness:
  "\<exists>c d' f e. for_client plain_crypto [1] = Inr c \<and> seal plain_crypto c (Some [7]) [65] [] = (d', Inr f) \<and>
     open_frame plain_crypto d' (sf_nonce f) (sf_ciphertext f) [] = (d', Inl e)"
proof -
  obtain c where c: "for_client plain_crypto [1] = Inr c"
    using from_session_total [OF plain_crypto_hkdf_total] by blast
  then have "next_seal_sequence c = 1"
    by (auto simp: for_client_def from_session_labels_def split: sum.splits)
  then obtain d' f where sl: "seal plain_crypto c (Some [7]) [65] [] = (d', Inr f)"
    by (simp add: seal_def Let_def plain_crypto_def)
  then have "open_aad d' = open_aad c" by (auto elim!: seal_cases)
  with reflected_frame_refused [OF plain_crypto_binds_aad disjI1 [OF c] _ _ sl, of d' "[]"] c sl
  show ?thesis by auto
qed

section \<open>The end of the sequence space\<close>

lemma seal_at_max:
  "next_seal_sequence c = - 1 \<Longrightarrow>
     seal cr c entropy pt aad = (c\<lparr>next_seal_sequence := 0\<rparr>, Inl (SyncCrypto NonceExhausted))"
  by (simp add: seal_def Let_def)

lemma seal_success_sequence:
  "seal cr c entropy pt aad = (c', Inr f) \<Longrightarrow>
     take 8 (sf_nonce f) = to_be 8 (unat (next_seal_sequence c)) \<and> next_seal_sequence c \<noteq> - 1 \<and>
     unat (next_seal_sequence c') = unat (next_seal_sequence c) + 1"
  by (erule seal_cases) (simp add: unat_suc_u64 del: to_be_numeral)

text \<open>
  A sealed frame always carries the counter's value, never the reserved \<open>u64::MAX\<close>, and the
  counter goes up by one without wrapping; reaching \<open>u64::MAX\<close> is refused as \<open>NonceExhausted\<close>. The
  refusal does not stick: the counter wraps, and the call after it seals with sequence number 0.
\<close>

theorem seal_exhaustion:
  "(\<forall>c' f. seal cr c entropy pt aad = (c', Inr f) \<longrightarrow>
      take 8 (sf_nonce f) = to_be 8 (unat (next_seal_sequence c)) \<and> next_seal_sequence c \<noteq> - 1 \<and>
      unat (next_seal_sequence c') = unat (next_seal_sequence c) + 1) \<and>
   (next_seal_sequence c = - 1 \<longrightarrow>
      snd (seal cr c entropy pt aad) = Inl (SyncCrypto NonceExhausted) \<and>
      (\<forall>rnd ct. aead_encrypt cr (seal_key c) (to_be 8 0 @ rnd) pt (envelope_aad (seal_aad c) 0 aad) = Some ct \<longrightarrow>
         seal cr (fst (seal cr c entropy pt aad)) (Some rnd) pt aad =
           (c\<lparr>next_seal_sequence := 1\<rparr>, Inr \<lparr>sf_nonce = to_be 8 0 @ rnd, sf_ciphertext = ct\<rparr>)))"
  using seal_success_sequence [of cr c entropy pt aad]
  by (auto simp: seal_at_max simp del: to_be_numeral) (simp add: seal_def Let_def)

theorem seal_exhaustion_witness:
  "let c = \<lparr>seal_key = [1], open_key = [2], seal_aad = [3], open_aad = [4],
        next_seal_sequence = - 1, last_open_sequence = 0\<rparr>
   in snd (seal plain_crypto c (Some [7]) [65] []) = Inl (SyncCrypto NonceExhausted) \<and>
      seal plain_crypto (fst (seal plain_crypto c (Some [7]) [65] [])) (Some [7]) [65] [] =
        (c\<lparr>next_seal_sequence := 1\<rparr>,
         Inr \<lparr>sf_nonce = to_be 8 0 @ [7], sf_ciphertext = plain_seal [65] (envelope_aad [3] 0 [])\<rparr>)"
proof -
  let ?c = "\<lparr>seal_key = [1], open_key = [2], seal_aad = [3], open_aad = [4],
        next_seal_sequence = - 1, last_open_sequence = 0\<rparr>"
  have "aead_encrypt plain_crypto (seal_key ?c) (to_be 8 0 @ [7]) [65] (envelope_aad (seal_aad ?c) 0 []) =
      Some (plain_seal [65] (envelope_aad [3] 0 []))" by (simp add: plain_crypto_def)
  with seal_exhaustion [of plain_crypto ?c "Some [7]" "[65]" "[]"] show ?thesis
    by (simp add: Let_def del: to_be_numeral)
qed

end
