(* ===== verification/Wordlist.thy ===== *)
theory Wordlist
  imports Crypto
begin

text \<open>
  The two diceware tables of \<open>crates/transport/src/crypto/wordlist.rs\<close>, word for word, with the facts
  the phrase codec needs: 256 entries each, strictly increasing (hence distinct), all of four
  lower-case letters, and the two tables disjoint. A Rust string is the list of its code points.
\<close>

type_synonym rust_str = "nat list"

definition str_of :: "string \<Rightarrow> rust_str" where
  "str_of s = map of_char s"

definition EVEN_WORDS :: "string list" where
  "EVEN_WORDS = [
    ''able'', ''acid'', ''aged'', ''also'', ''area'', ''army'', ''away'', ''baby'', ''back'',
    ''ball'', ''band'', ''bank'', ''base'', ''bath'', ''bear'', ''beat'', ''beer'', ''bell'',
    ''belt'', ''best'', ''bill'', ''bird'', ''blow'', ''blue'', ''boat'', ''body'', ''bomb'',
    ''bond'', ''bone'', ''book'', ''boom'', ''born'', ''boss'', ''both'', ''bowl'', ''bulk'',
    ''burn'', ''bush'', ''busy'', ''cake'', ''call'', ''calm'', ''came'', ''camp'', ''card'',
    ''care'', ''case'', ''cash'', ''cast'', ''cell'', ''chat'', ''chip'', ''city'', ''club'',
    ''coal'', ''coat'', ''code'', ''cold'', ''come'', ''cook'', ''cool'', ''cope'', ''copy'',
    ''core'', ''cost'', ''crew'', ''crop'', ''dark'', ''data'', ''date'', ''dawn'', ''days'',
    ''dead'', ''deal'', ''dean'', ''dear'', ''debt'', ''deep'', ''deny'', ''desk'', ''dial'',
    ''dice'', ''diet'', ''dine'', ''dish'', ''disk'', ''dock'', ''does'', ''done'', ''door'',
    ''dose'', ''down'', ''draw'', ''drew'', ''drop'', ''drug'', ''dual'', ''duke'', ''dust'',
    ''duty'', ''each'', ''earn'', ''ease'', ''east'', ''easy'', ''edge'', ''else'', ''even'',
    ''ever'', ''evil'', ''exit'', ''face'', ''fact'', ''fail'', ''fair'', ''fall'', ''farm'',
    ''fast'', ''fate'', ''fear'', ''feed'', ''feel'', ''feet'', ''fell'', ''felt'', ''file'',
    ''fill'', ''film'', ''find'', ''fine'', ''fire'', ''firm'', ''fish'', ''five'', ''flag'',
    ''flat'', ''flew'', ''flip'', ''flow'', ''flux'', ''folk'', ''food'', ''foot'', ''ford'',
    ''form'', ''fort'', ''four'', ''free'', ''from'', ''fuel'', ''full'', ''fund'', ''gain'',
    ''game'', ''gate'', ''gave'', ''gear'', ''gene'', ''gift'', ''girl'', ''give'', ''glad'',
    ''goal'', ''goat'', ''goes'', ''gold'', ''golf'', ''gone'', ''good'', ''gray'', ''grew'',
    ''grow'', ''gulf'', ''gust'', ''hair'', ''half'', ''hall'', ''hand'', ''hang'', ''hard'',
    ''harm'', ''hate'', ''have'', ''head'', ''hear'', ''heat'', ''held'', ''hell'', ''help'',
    ''here'', ''hero'', ''high'', ''hill'', ''hint'', ''hire'', ''hold'', ''hole'', ''holy'',
    ''home'', ''hope'', ''host'', ''hour'', ''huge'', ''hung'', ''hunt'', ''hurt'', ''iced'',
    ''idea'', ''inch'', ''into'', ''iron'', ''item'', ''jade'', ''jail'', ''jazz'', ''join'',
    ''joke'', ''jump'', ''june'', ''jury'', ''just'', ''keel'', ''keen'', ''keep'', ''kept'',
    ''keys'', ''kick'', ''kill'', ''kind'', ''king'', ''knee'', ''knew'', ''know'', ''lack'',
    ''lady'', ''laid'', ''lake'', ''land'', ''lane'', ''last'', ''late'', ''lava'', ''lawn'',
    ''lazy'', ''lead'', ''leaf'', ''lean'', ''leap'', ''left'', ''lend'', ''less'', ''life'',
    ''lift'', ''like'', ''limb'', ''lime'']"

definition ODD_WORDS :: "string list" where
  "ODD_WORDS = [
    ''line'', ''link'', ''lips'', ''list'', ''live'', ''load'', ''loaf'', ''loan'', ''lock'',
    ''logs'', ''long'', ''look'', ''loop'', ''lord'', ''lose'', ''loss'', ''lost'', ''loud'',
    ''love'', ''luck'', ''made'', ''mail'', ''main'', ''make'', ''male'', ''mall'', ''many'',
    ''mark'', ''mars'', ''mask'', ''mass'', ''mate'', ''math'', ''meal'', ''mean'', ''meat'',
    ''meet'', ''melt'', ''menu'', ''mesh'', ''mess'', ''mice'', ''mild'', ''mile'', ''milk'',
    ''mill'', ''mind'', ''mine'', ''mint'', ''miss'', ''mode'', ''mole'', ''moon'', ''more'',
    ''moss'', ''most'', ''move'', ''much'', ''musk'', ''must'', ''myth'', ''name'', ''navy'',
    ''near'', ''neck'', ''need'', ''news'', ''next'', ''nice'', ''nick'', ''nine'', ''node'',
    ''none'', ''noon'', ''norm'', ''nose'', ''note'', ''oaks'', ''oath'', ''odds'', ''okay'',
    ''once'', ''only'', ''onto'', ''open'', ''oral'', ''oven'', ''over'', ''pace'', ''pack'',
    ''page'', ''paid'', ''pain'', ''pair'', ''pale'', ''palm'', ''park'', ''part'', ''pass'',
    ''past'', ''path'', ''peak'', ''pens'', ''pest'', ''pick'', ''pier'', ''pile'', ''pine'',
    ''pink'', ''pint'', ''pipe'', ''plan'', ''play'', ''plot'', ''plug'', ''plum'', ''plus'',
    ''poem'', ''poet'', ''pole'', ''poll'', ''pond'', ''pool'', ''poor'', ''port'', ''post'',
    ''pour'', ''pray'', ''pull'', ''pulp'', ''pump'', ''punk'', ''pure'', ''push'', ''quay'',
    ''quit'', ''race'', ''rack'', ''raft'', ''rage'', ''raid'', ''rail'', ''rain'', ''rake'',
    ''rank'', ''rare'', ''rate'', ''read'', ''real'', ''rear'', ''reed'', ''reef'', ''rein'',
    ''rely'', ''rent'', ''rest'', ''rice'', ''rich'', ''ride'', ''ring'', ''rink'', ''rise'',
    ''risk'', ''rite'', ''road'', ''roam'', ''roar'', ''rock'', ''role'', ''roll'', ''roof'',
    ''room'', ''root'', ''rope'', ''rose'', ''rosy'', ''rugs'', ''rung'', ''runs'', ''rush'',
    ''rust'', ''safe'', ''sage'', ''said'', ''sail'', ''salt'', ''same'', ''sand'', ''sane'',
    ''save'', ''scan'', ''seal'', ''seat'', ''seed'', ''seem'', ''seen'', ''self'', ''sell'',
    ''send'', ''sent'', ''shed'', ''ship'', ''shop'', ''shot'', ''show'', ''shun'', ''side'',
    ''sign'', ''silk'', ''sing'', ''sink'', ''site'', ''size'', ''skin'', ''slab'', ''slap'',
    ''sled'', ''slid'', ''slim'', ''slog'', ''slot'', ''slow'', ''snap'', ''snow'', ''soap'',
    ''sock'', ''soft'', ''soil'', ''sold'', ''sole'', ''solo'', ''song'', ''soon'', ''sore'',
    ''sort'', ''soul'', ''soup'', ''sour'', ''spin'', ''spot'', ''stag'', ''stem'', ''step'',
    ''stir'', ''stop'', ''such'', ''suit'', ''sung'', ''swan'', ''swap'', ''swim'', ''tail'',
    ''take'', ''tale'', ''talk'', ''tame'']"

section \<open>What the tables satisfy\<close>

text \<open>A word as a number in base 256: comparing words is comparing numbers.\<close>

definition word_code :: "string \<Rightarrow> nat" where
  "word_code w = foldl (\<lambda>acc ch. acc * 256 + of_char ch) 0 w"

fun increasing :: "nat list \<Rightarrow> bool" where
  "increasing (x # y # xs) \<longleftrightarrow> x < y \<and> increasing (y # xs)"
| "increasing xs \<longleftrightarrow> True"

lemma increasing_sorted_wrt: "increasing xs \<Longrightarrow> sorted_wrt (<) xs"
proof (induction xs rule: increasing.induct)
  case (1 x y xs)
  then have "sorted_wrt (<) (y # xs)" "x < y" by auto
  then show ?case by auto
qed auto

definition lower_word :: "string \<Rightarrow> bool" where
  "lower_word w \<longleftrightarrow> length w = 4 \<and> list_all (\<lambda>ch. 97 \<le> (of_char ch :: nat) \<and> of_char ch \<le> (122 :: nat)) w"

lemma length_EVEN_WORDS: "length EVEN_WORDS = 256"
  by (simp add: EVEN_WORDS_def)

lemma length_ODD_WORDS: "length ODD_WORDS = 256"
  by (simp add: ODD_WORDS_def)

lemma increasing_EVEN_WORDS: "increasing (map word_code EVEN_WORDS)"
  by (simp add: EVEN_WORDS_def word_code_def)

lemma increasing_ODD_WORDS: "increasing (map word_code ODD_WORDS)"
  by (simp add: ODD_WORDS_def word_code_def)

lemma lower_EVEN_WORDS: "list_all lower_word EVEN_WORDS"
  by (simp add: EVEN_WORDS_def lower_word_def)

lemma lower_ODD_WORDS: "list_all lower_word ODD_WORDS"
  by (simp add: ODD_WORDS_def lower_word_def)

lemma tables_separated: "word_code (last EVEN_WORDS) < word_code (hd ODD_WORDS)"
  by (simp add: EVEN_WORDS_def ODD_WORDS_def word_code_def)

lemma distinct_EVEN_WORDS: "distinct EVEN_WORDS"
  using increasing_sorted_wrt [OF increasing_EVEN_WORDS]
  by (auto simp: strict_sorted_iff distinct_map)

lemma distinct_ODD_WORDS: "distinct ODD_WORDS"
  using increasing_sorted_wrt [OF increasing_ODD_WORDS]
  by (auto simp: strict_sorted_iff distinct_map)

end
