(* ===== verification/Pairing_Secret.thy ===== *)
theory Pairing_Secret
  imports Wordlist
begin

text \<open>
  The out-of-band first-pair secret of \<open>crates/transport/src/crypto/pairing.rs\<close> (\<open>PairingSecret\<close>): its two
  shapes, its base64 form and its six-word phrase. The base64 engine is a parameter of the model.
\<close>

section \<open>The secret\<close>

definition TICKET_PAIRING_SECRET_BYTES :: nat where
  "TICKET_PAIRING_SECRET_BYTES = 16"

definition MANUAL_PAIRING_SECRET_BYTES :: nat where
  "MANUAL_PAIRING_SECRET_BYTES = 6"

datatype pairing_secret = Ticket bytes | Manual bytes

text \<open>The fixed-size arrays of the Rust enum.\<close>

fun secret_wf :: "pairing_secret \<Rightarrow> bool" where
  "secret_wf (Ticket b) \<longleftrightarrow> length b = TICKET_PAIRING_SECRET_BYTES"
| "secret_wf (Manual b) \<longleftrightarrow> length b = MANUAL_PAIRING_SECRET_BYTES"

fun secret_bytes :: "pairing_secret \<Rightarrow> bytes" where
  "secret_bytes (Ticket b) = b"
| "secret_bytes (Manual b) = b"

fun ticket_bytes :: "pairing_secret \<Rightarrow> bytes option" where
  "ticket_bytes (Ticket b) = Some b"
| "ticket_bytes (Manual b) = None"

definition first_pair_key :: "crypto \<Rightarrow> pairing_secret \<Rightarrow> bytes" where
  "first_pair_key c secret = hmac_sha256 c FIRST_PAIR_KEY_LABEL (secret_bytes secret)"

section \<open>Base64\<close>

definition to_b64 :: "(bytes \<Rightarrow> rust_str) \<Rightarrow> pairing_secret \<Rightarrow> rust_str" where
  "to_b64 encode secret = encode (secret_bytes secret)"

definition from_b64 :: "(rust_str \<Rightarrow> bytes option) \<Rightarrow> rust_str \<Rightarrow> pairing_secret option" where
  "from_b64 decode s =
     (case decode s of
        None \<Rightarrow> None
      | Some bs \<Rightarrow>
          if length bs = TICKET_PAIRING_SECRET_BYTES then Some (Ticket bs)
          else if length bs = MANUAL_PAIRING_SECRET_BYTES then Some (Manual bs)
          else None)"

section \<open>The phrase\<close>

text \<open>\<open>char::is_whitespace\<close>: the Unicode White\_Space property.\<close>

definition is_whitespace :: "nat \<Rightarrow> bool" where
  "is_whitespace ch \<longleftrightarrow>
     9 \<le> ch \<and> ch \<le> 13 \<or> ch = 32 \<or> ch = 133 \<or> ch = 160 \<or> ch = 5760 \<or> 8192 \<le> ch \<and> ch \<le> 8202 \<or>
     ch = 8232 \<or> ch = 8233 \<or> ch = 8239 \<or> ch = 8287 \<or> ch = 12288"

definition is_separator :: "nat \<Rightarrow> bool" where
  "is_separator ch \<longleftrightarrow> ch = 45 \<or> is_whitespace ch"

text \<open>\<open>str::split\<close> with a predicate: the pieces between separators, empty pieces included.\<close>

fun split_str :: "(nat \<Rightarrow> bool) \<Rightarrow> rust_str \<Rightarrow> rust_str list" where
  "split_str p [] = [[]]"
| "split_str p (ch # s) =
     (if p ch then [] # split_str p s
      else case split_str p s of [] \<Rightarrow> [[ch]] | w # ws \<Rightarrow> (ch # w) # ws)"

fun join_str :: "rust_str \<Rightarrow> rust_str list \<Rightarrow> rust_str" where
  "join_str sep [] = []"
| "join_str sep [w] = w"
| "join_str sep (w # ws) = w @ sep @ join_str sep ws"

definition to_ascii_lowercase :: "nat \<Rightarrow> nat" where
  "to_ascii_lowercase ch = (if 65 \<le> ch \<and> ch \<le> 90 then ch + 32 else ch)"

definition eq_ignore_ascii_case :: "rust_str \<Rightarrow> rust_str \<Rightarrow> bool" where
  "eq_ignore_ascii_case a b \<longleftrightarrow> map to_ascii_lowercase a = map to_ascii_lowercase b"

fun position :: "('a \<Rightarrow> bool) \<Rightarrow> 'a list \<Rightarrow> nat option" where
  "position p [] = None"
| "position p (x # xs) = (if p x then Some 0 else map_option Suc (position p xs))"

definition word_table :: "nat \<Rightarrow> string list" where
  "word_table i = (if i mod 2 = 0 then EVEN_WORDS else ODD_WORDS)"

fun words_from :: "nat \<Rightarrow> bytes \<Rightarrow> rust_str list" where
  "words_from i [] = []"
| "words_from i (b # bs) = str_of (word_table i ! unat b) # words_from (Suc i) bs"

fun to_phrase :: "pairing_secret \<Rightarrow> rust_str option" where
  "to_phrase (Ticket b) = None"
| "to_phrase (Manual b) = Some (join_str [45] (words_from 0 b))"

fun bytes_from :: "nat \<Rightarrow> rust_str list \<Rightarrow> bytes option" where
  "bytes_from i [] = Some []"
| "bytes_from i (w # ws) =
     (case position (\<lambda>candidate. eq_ignore_ascii_case (str_of candidate) w) (word_table i) of
        None \<Rightarrow> None
      | Some index \<Rightarrow> map_option (\<lambda>bs. word_of_nat index # bs) (bytes_from (Suc i) ws))"

definition phrase_words :: "rust_str \<Rightarrow> rust_str list" where
  "phrase_words s = filter (\<lambda>w. w \<noteq> []) (split_str is_separator s)"

definition from_phrase :: "rust_str \<Rightarrow> pairing_secret option" where
  "from_phrase s =
     (let ws = phrase_words s in
      if length ws \<noteq> MANUAL_PAIRING_SECRET_BYTES then None
      else map_option Manual (bytes_from 0 ws))"

section \<open>Table lookups\<close>

lemma position_Some_iff:
  "position p xs = Some i \<longleftrightarrow> i < length xs \<and> p (xs ! i) \<and> (\<forall>j < i. \<not> p (xs ! j))"
proof (induction xs arbitrary: i)
  case Nil
  show ?case by simp
next
  case (Cons x xs)
  show ?case by (cases i) (auto simp: Cons.IH All_less_Suc2 nth_Cons')
qed

lemma word_table_facts:
  shows length_word_table: "length (word_table i) = 256"
    and distinct_word_table: "distinct (word_table i)"
    and lower_word_table: "w \<in> set (word_table i) \<Longrightarrow> lower_word w"
  using length_EVEN_WORDS length_ODD_WORDS distinct_EVEN_WORDS distinct_ODD_WORDS
    lower_EVEN_WORDS lower_ODD_WORDS
  by (auto simp: word_table_def list_all_iff split: if_splits)

lemma lowercase_lower_word: "lower_word w \<Longrightarrow> map to_ascii_lowercase (str_of w) = str_of w"
  by (auto simp: lower_word_def str_of_def to_ascii_lowercase_def list_all_iff)

lemma str_of_inj: "str_of a = str_of b \<Longrightarrow> a = b"
  by (simp add: str_of_def inj_map_eq_map [OF inj_of_char])

lemma unat_byte: "unat (b :: u8) < 256"
  using unsigned_less [where w = b] by simp

lemma table_position:
  "position (\<lambda>candidate. eq_ignore_ascii_case (str_of candidate) w) (word_table i) = Some k \<longleftrightarrow>
     k < 256 \<and> map to_ascii_lowercase w = str_of (word_table i ! k)"
proof -
  have eq: "eq_ignore_ascii_case (str_of (word_table i ! j)) w \<longleftrightarrow>
      map to_ascii_lowercase w = str_of (word_table i ! j)" if "j < 256" for j
    using that lowercase_lower_word [OF lower_word_table [of "word_table i ! j" i]]
    by (auto simp: eq_ignore_ascii_case_def length_word_table)
  have uniq: "j = k" if "j < 256" "k < 256" "str_of (word_table i ! j) = str_of (word_table i ! k)" for j
    using that nth_eq_iff_index_eq [OF distinct_word_table [of i], of j k] str_of_inj [OF that(3)]
    by (simp add: length_word_table)
  let ?p = "\<lambda>candidate. eq_ignore_ascii_case (str_of candidate) w"
  show ?thesis
  proof
    assume "position ?p (word_table i) = Some k"
    then have "k < 256" "?p (word_table i ! k)" by (simp_all add: position_Some_iff length_word_table)
    then show "k < 256 \<and> map to_ascii_lowercase w = str_of (word_table i ! k)" by (simp add: eq)
  next
    assume k: "k < 256 \<and> map to_ascii_lowercase w = str_of (word_table i ! k)"
    then have "\<not> ?p (word_table i ! j)" if "j < k" for j
      using that eq [of j] uniq [of j] by fastforce
    with k show "position ?p (word_table i) = Some k"
      by (simp add: position_Some_iff length_word_table eq)
  qed
qed

lemma bytes_from_iff:
  "bytes_from i ws = Some bs \<longleftrightarrow> map (map to_ascii_lowercase) ws = words_from i bs"
proof (induction ws arbitrary: i bs)
  case Nil
  show ?case by (cases bs) auto
next
  case (Cons w ws)
  show ?case
  proof (cases bs)
    case Nil
    then show ?thesis by (auto split: option.splits)
  next
    case (Cons b bs')
    have "(\<exists>k. k < 256 \<and> map to_ascii_lowercase w = str_of (word_table i ! k) \<and> word_of_nat k = b) \<longleftrightarrow>
        map to_ascii_lowercase w = str_of (word_table i ! unat b)"
      using unat_byte [of b] by (auto simp: unat_of_nat intro!: exI [of _ "unat b"])
    moreover have "bytes_from i (w # ws) = Some bs \<longleftrightarrow>
        (\<exists>k. position (\<lambda>candidate. eq_ignore_ascii_case (str_of candidate) w) (word_table i) = Some k
           \<and> word_of_nat k = b) \<and> bytes_from (Suc i) ws = Some bs'"
      by (auto simp: Cons split: option.splits)
    ultimately show ?thesis
      by (simp add: Cons Cons.IH table_position conj_assoc)
  qed
qed

lemma from_phrase_iff:
  "from_phrase s = Some secret \<longleftrightarrow>
     (\<exists>b. secret = Manual b \<and> length b = MANUAL_PAIRING_SECRET_BYTES \<and>
        map (map to_ascii_lowercase) (phrase_words s) = words_from 0 b)"
proof -
  have len: "length (words_from i b) = length b" for i b
    by (induction b arbitrary: i) auto
  have "length (phrase_words s) = length b" if "map (map to_ascii_lowercase) (phrase_words s) = words_from 0 b" for b
    using arg_cong [OF that, of length] len by simp
  then show ?thesis by (auto simp: from_phrase_def Let_def bytes_from_iff split: if_splits)
qed

text \<open>
  The phrase decoder, characterised: a string decodes to a manual secret exactly when its words
  (split at hyphens and Unicode white space, empty pieces dropped), read in lower case, are the six
  table words of that secret, each from the table its position demands.
\<close>

theorem from_phrase_characterised:
  "from_phrase s = Some secret \<longleftrightarrow>
     (\<exists>b. secret = Manual b \<and> length b = MANUAL_PAIRING_SECRET_BYTES \<and>
        map (map to_ascii_lowercase) (phrase_words s) = words_from 0 b)"
  by (rule from_phrase_iff)

section \<open>Round trips\<close>

lemma table_word_chars:
  assumes "w \<in> set (words_from i bs)"
  shows "w \<noteq> [] \<and> (\<forall>ch \<in> set w. \<not> is_separator ch) \<and> map to_ascii_lowercase w = w"
  using assms
proof (induction bs arbitrary: i)
  case Nil
  then show ?case by simp
next
  case (Cons b bs)
  have "lower_word (word_table i ! unat b)"
    by (rule lower_word_table [of _ i]) (simp add: length_word_table unat_byte)
  with Cons show ?case
    by (auto simp: lowercase_lower_word)
      (auto simp: lower_word_def str_of_def is_separator_def is_whitespace_def list_all_iff)
qed

lemma split_str_word:
  "\<forall>ch \<in> set w. \<not> p ch \<Longrightarrow> split_str p w = [w]"
  by (induction w) auto

lemma split_str_join:
  assumes "\<forall>ch \<in> set w. \<not> p ch" and "p sep"
  shows "split_str p (w @ sep # s) = w # split_str p s"
  using assms by (induction w) auto

lemma split_join_words:
  "ws \<noteq> [] \<Longrightarrow> \<forall>w \<in> set ws. \<forall>ch \<in> set w. \<not> p ch \<Longrightarrow> p sep \<Longrightarrow> split_str p (join_str [sep] ws) = ws"
  by (induction ws rule: induct_list012) (auto simp: split_str_word split_str_join)

text \<open>
  The phrase round trip: the six words printed for a manual secret decode to that secret.
\<close>

theorem phrase_roundtrip:
  assumes "length b = MANUAL_PAIRING_SECRET_BYTES"
  shows "\<exists>s. to_phrase (Manual b) = Some s \<and> from_phrase s = Some (Manual b)"
proof -
  have ne: "words_from 0 b \<noteq> []" using assms by (cases b) (auto simp: MANUAL_PAIRING_SECRET_BYTES_def)
  have "split_str is_separator (join_str [45] (words_from 0 b)) = words_from 0 b"
    using table_word_chars [of _ 0 b] by (intro split_join_words [OF ne]) (auto simp: is_separator_def)
  then have "phrase_words (join_str [45] (words_from 0 b)) = words_from 0 b"
    using table_word_chars [of _ 0 b] by (auto simp: phrase_words_def filter_id_conv)
  then have "map (map to_ascii_lowercase) (phrase_words (join_str [45] (words_from 0 b))) = words_from 0 b"
    using table_word_chars [of _ 0 b] by (simp add: map_idI)
  then have "from_phrase (join_str [45] (words_from 0 b)) = Some (Manual b)"
    using assms by (simp add: from_phrase_iff)
  then show ?thesis by simp
qed

theorem phrase_roundtrip_witness:
  "\<exists>s. to_phrase (Manual [0, 1, 2, 3, 4, 255]) = Some s \<and> from_phrase s = Some (Manual [0, 1, 2, 3, 4, 255])"
  by (rule phrase_roundtrip) (simp add: MANUAL_PAIRING_SECRET_BYTES_def)

lemma b64_roundtrip:
  assumes "\<And>bs. decode (encode bs) = Some bs" and "secret_wf secret"
  shows "from_b64 decode (to_b64 encode secret) = Some secret"
  using assms
  by (cases secret)
    (auto simp: from_b64_def to_b64_def TICKET_PAIRING_SECRET_BYTES_def MANUAL_PAIRING_SECRET_BYTES_def)

end
