(* ===== verification/Enrollment.thy ===== *)
theory Enrollment
  imports Pairing_Secret
begin

text \<open>
  Brute-force hardening of \<open>crates/transport/src/crypto/pairing.rs\<close>: the per-source rate limiter with
  exponential backoff, the first-pair enrollment window with its source-independent attempt cap and
  its epoch, and the pairing state that keeps credentials and window under one lock. Every operation
  that reads the clock takes the current instant as an argument.
\<close>

section \<open>Per-source backoff\<close>

record rate_limiter =
  failures :: u32
  last_attempt :: "instant option"

definition new_limiter :: rate_limiter where
  "new_limiter = \<lparr>failures = 0, last_attempt = None\<rparr>"

definition current_wait :: "rate_limiter \<Rightarrow> duration" where
  "current_wait rl =
     (if failures rl = 0 then 0
      else min (from_secs (2 ^ min (unat (failures rl - 1)) 10)) (from_secs 600))"

definition limiter_check :: "instant \<Rightarrow> rate_limiter \<Rightarrow> unit sync_result" where
  "limiter_check now rl =
     (case last_attempt rl of
        None \<Rightarrow> Inr ()
      | Some t \<Rightarrow> if now - t < current_wait rl then Inl (SyncCrypto CryptoRateLimited) else Inr ())"

definition record_failure :: "instant \<Rightarrow> rate_limiter \<Rightarrow> rate_limiter" where
  "record_failure now rl = rl\<lparr>failures := saturating_add (failures rl) 1, last_attempt := Some now\<rparr>"

definition limiter_check_and_reserve :: "instant \<Rightarrow> rate_limiter \<Rightarrow> rate_limiter \<times> unit sync_result" where
  "limiter_check_and_reserve now rl =
     (case limiter_check now rl of
        Inl e \<Rightarrow> (rl, Inl e)
      | Inr _ \<Rightarrow>
          (rl\<lparr>failures := saturating_add (failures rl) 1, last_attempt := Some now\<rparr>, Inr ()))"

definition record_success :: "rate_limiter \<Rightarrow> rate_limiter" where
  "record_success rl = rl\<lparr>failures := 0, last_attempt := None\<rparr>"

definition is_cold :: "instant \<Rightarrow> rate_limiter \<Rightarrow> bool" where
  "is_cold now rl = (case last_attempt rl of None \<Rightarrow> True | Some t \<Rightarrow> now - t > from_secs 1200)"

text \<open>One limiter per source key. Cold entries are dropped before every attempt.\<close>

type_synonym keyed_limiter = "(string, rate_limiter) hashmap"

definition gc_cold :: "instant \<Rightarrow> keyed_limiter \<Rightarrow> keyed_limiter" where
  "gc_cold now m = filter (\<lambda>(k, rl). \<not> is_cold now rl) m"

definition keyed_check_and_reserve ::
  "instant \<Rightarrow> string \<Rightarrow> keyed_limiter \<Rightarrow> keyed_limiter \<times> unit sync_result" where
  "keyed_check_and_reserve now key m =
     (let m1 = gc_cold now m;
          rl = (case hm_get m1 key of None \<Rightarrow> new_limiter | Some rl \<Rightarrow> rl);
          (rl', r) = limiter_check_and_reserve now rl
      in (hm_insert key rl' m1, r))"

definition keyed_record_success :: "string \<Rightarrow> keyed_limiter \<Rightarrow> keyed_limiter" where
  "keyed_record_success key m = hm_remove key m"

section \<open>The enrollment window\<close>

definition ENROLLMENT_WINDOW :: duration where
  "ENROLLMENT_WINDOW = from_secs 300"

definition GLOBAL_FIRST_PAIR_CAP :: u32 where
  "GLOBAL_FIRST_PAIR_CAP = 1024"

datatype first_pair_gate = Allow u64 | GateClosed | GateLocked

record enrollment_window =
  open_until :: "instant option"
  global_failures :: u32
  window_epoch :: u64

definition new_window :: enrollment_window where
  "new_window = \<lparr>open_until = None, global_failures = 0, window_epoch = 0\<rparr>"

definition open_window :: "instant \<Rightarrow> duration \<Rightarrow> enrollment_window \<Rightarrow> enrollment_window" where
  "open_window now dur w =
     w\<lparr>open_until := Some (now + dur), global_failures := 0, window_epoch := window_epoch w + 1\<rparr>"

definition close_window :: "enrollment_window \<Rightarrow> enrollment_window" where
  "close_window w = w\<lparr>open_until := None, global_failures := 0, window_epoch := window_epoch w + 1\<rparr>"

definition is_open :: "instant \<Rightarrow> enrollment_window \<Rightarrow> bool" where
  "is_open now w = (case open_until w of Some deadline \<Rightarrow> now < deadline | None \<Rightarrow> False)"

definition current_epoch :: "instant \<Rightarrow> enrollment_window \<Rightarrow> u64 option" where
  "current_epoch now w = (if is_open now w then Some (window_epoch w) else None)"

definition epoch_is_current :: "instant \<Rightarrow> u64 \<Rightarrow> enrollment_window \<Rightarrow> bool" where
  "epoch_is_current now e w \<longleftrightarrow> is_open now w \<and> window_epoch w = e"

definition check_and_reserve_first_pair ::
  "instant \<Rightarrow> enrollment_window \<Rightarrow> enrollment_window \<times> first_pair_gate" where
  "check_and_reserve_first_pair now w =
     (if \<not> is_open now w then (w, GateClosed)
      else if global_failures w \<ge> GLOBAL_FIRST_PAIR_CAP then (w, GateLocked)
      else (w\<lparr>global_failures := saturating_add (global_failures w) 1\<rparr>, Allow (window_epoch w)))"

definition window_consume_first_pair :: "instant \<Rightarrow> u64 \<Rightarrow> enrollment_window \<Rightarrow> enrollment_window \<times> bool" where
  "window_consume_first_pair now e w =
     (if \<not> is_open now w \<or> window_epoch w \<noteq> e then (w, False) else (close_window w, True))"

section \<open>Credentials and window under one lock\<close>

record pairing_state =
  secrets :: "pairing_secret list"
  window :: enrollment_window

record pairing_snapshot =
  snap_secrets :: "pairing_secret list"
  snap_epoch :: "u64 option"

definition new_pairing_state :: "pairing_secret list \<Rightarrow> pairing_state" where
  "new_pairing_state ss = \<lparr>secrets = ss, window = new_window\<rparr>"

definition pairing_open :: "instant \<Rightarrow> duration \<Rightarrow> pairing_state \<Rightarrow> pairing_state" where
  "pairing_open now dur p = p\<lparr>window := open_window now dur (window p)\<rparr>"

definition rotate :: "instant \<Rightarrow> pairing_secret list \<Rightarrow> duration \<Rightarrow> pairing_state \<Rightarrow> pairing_state" where
  "rotate now ss dur p = p\<lparr>secrets := ss, window := open_window now dur (window p)\<rparr>"

definition snapshot :: "instant \<Rightarrow> pairing_state \<Rightarrow> pairing_snapshot" where
  "snapshot now p = \<lparr>snap_secrets = secrets p, snap_epoch = current_epoch now (window p)\<rparr>"

definition gate_first_pair :: "instant \<Rightarrow> u64 option \<Rightarrow> pairing_state \<Rightarrow> pairing_state \<times> first_pair_gate" where
  "gate_first_pair now snapshot_epoch p =
     (case snapshot_epoch of
        Some e \<Rightarrow>
          if epoch_is_current now e (window p)
          then (let (w, g) = check_and_reserve_first_pair now (window p) in (p\<lparr>window := w\<rparr>, g))
          else (p, GateClosed)
      | None \<Rightarrow> (p, GateClosed))"

definition consume_first_pair :: "instant \<Rightarrow> u64 \<Rightarrow> pairing_state \<Rightarrow> pairing_state \<times> bool" where
  "consume_first_pair now e p =
     (let (w, ok) = window_consume_first_pair now e (window p) in (p\<lparr>window := w\<rparr>, ok))"

section \<open>Runs of the pairing state\<close>

text \<open>
  Connections and the operator act on the shared state in some order, each action at some instant.
  A run records what every action returned.
\<close>

datatype pairing_event =
    EvOpen duration
  | EvRotate "pairing_secret list" duration
  | EvGate "u64 option"
  | EvConsume u64

datatype pairing_outcome = Opened | Gated first_pair_gate | Consumed bool

fun pairing_step :: "pairing_state \<Rightarrow> instant \<times> pairing_event \<Rightarrow> pairing_state \<times> pairing_outcome" where
  "pairing_step p (now, EvOpen dur) = (pairing_open now dur p, Opened)"
| "pairing_step p (now, EvRotate ss dur) = (rotate now ss dur p, Opened)"
| "pairing_step p (now, EvGate e) = (let (p', g) = gate_first_pair now e p in (p', Gated g))"
| "pairing_step p (now, EvConsume e) = (let (p', ok) = consume_first_pair now e p in (p', Consumed ok))"

fun pairing_run :: "pairing_state \<Rightarrow> (instant \<times> pairing_event) list \<Rightarrow> pairing_state \<times> pairing_outcome list" where
  "pairing_run p [] = (p, [])"
| "pairing_run p (e # es) =
     (let (p1, out) = pairing_step p e; (p2, outs) = pairing_run p1 es in (p2, out # outs))"

definition wins :: "pairing_outcome list \<Rightarrow> nat" where
  "wins outs = length (filter (\<lambda>r. r = Consumed True) outs)"

definition opens :: "pairing_outcome list \<Rightarrow> nat" where
  "opens outs = length (filter (\<lambda>r. r = Opened) outs)"

definition allows :: "pairing_outcome list \<Rightarrow> nat" where
  "allows outs = length (filter (\<lambda>r. \<exists>e. r = Gated (Allow e)) outs)"

lemma run_counts_simps [simp]:
  "wins [] = 0" "opens [] = 0" "allows [] = 0"
  "wins (r # rs) = (if r = Consumed True then 1 else 0) + wins rs"
  "opens (r # rs) = (if r = Opened then 1 else 0) + opens rs"
  "allows (r # rs) = (if \<exists>e. r = Gated (Allow e) then 1 else 0) + allows rs"
  by (simp_all add: wins_def opens_def allows_def)

text \<open>The number of times the window still can be won: at most once while it has a deadline.\<close>

definition winnable :: "pairing_state \<Rightarrow> nat" where
  "winnable p = (if open_until (window p) = None then 0 else 1)"

text \<open>The attempts the present window still allows.\<close>

definition budget :: "pairing_state \<Rightarrow> nat" where
  "budget p = unat GLOBAL_FIRST_PAIR_CAP - unat (global_failures (window p))"

lemmas pairing_defs =
  pairing_open_def rotate_def gate_first_pair_def consume_first_pair_def open_window_def
  close_window_def check_and_reserve_first_pair_def window_consume_first_pair_def
  epoch_is_current_def

lemma step_wins:
  assumes "pairing_step p e = (p', r)"
  shows "(if r = Consumed True then 1 else 0) + winnable p' \<le> winnable p + (if r = Opened then 1 else 0)"
  using assms
  by (cases e; cases "snd e")
    (auto simp: pairing_defs winnable_def is_open_def Let_def split: option.splits if_splits)

lemma run_wins:
  "pairing_run p es = (p', outs) \<Longrightarrow> wins outs + winnable p' \<le> winnable p + opens outs"
proof (induction es arbitrary: p outs)
  case Nil
  then show ?case by simp
next
  case (Cons e es)
  obtain p1 r where s: "pairing_step p e = (p1, r)" by fastforce
  obtain outs' where t: "pairing_run p1 es = (p', outs')" "outs = r # outs'"
    using Cons.prems s by (auto simp: Let_def split: prod.splits)
  from Cons.IH [OF t(1)] step_wins [OF s] show ?case by (auto simp: t(2) split: if_splits)
qed

text \<open>
  C27. Enrollment material is single use. Whatever actions connections and the operator take, in
  whatever order and at whatever times, starting from a host that has just been armed with nothing
  open: the number of first pairs ever granted is at most the number of times the operator opened
  the window.
\<close>

theorem enrollment_single_use:
  assumes "pairing_run (new_pairing_state ss) es = (p, outs)"
  shows "wins outs \<le> opens outs"
  using run_wins [OF assms] by (simp add: winnable_def new_pairing_state_def new_window_def)

theorem enrollment_single_use_witness:
  "\<exists>p outs. pairing_run (new_pairing_state [])
      [(0, EvOpen 10), (1, EvGate (Some 1)), (2, EvConsume 1), (3, EvConsume 1)] = (p, outs) \<and>
     outs = [Opened, Gated (Allow 1), Consumed True, Consumed False] \<and> wins outs \<le> opens outs"
proof -
  obtain p outs where r: "pairing_run (new_pairing_state [])
      [(0, EvOpen 10), (1, EvGate (Some 1)), (2, EvConsume 1), (3, EvConsume 1)] = (p, outs)"
    by fastforce
  then have "outs = [Opened, Gated (Allow 1), Consumed True, Consumed False]"
    by (auto simp: new_pairing_state_def new_window_def pairing_defs is_open_def
        GLOBAL_FIRST_PAIR_CAP_def Let_def)
  with enrollment_single_use [OF r] r show ?thesis by auto
qed

section \<open>The attempt cap\<close>

lemma unat_cap [simp]: "unat GLOBAL_FIRST_PAIR_CAP = 1024"
  by (simp add: GLOBAL_FIRST_PAIR_CAP_def)

lemma reserve_counts:
  "n < GLOBAL_FIRST_PAIR_CAP \<Longrightarrow> unat (saturating_add n 1) = unat n + 1"
  by (auto simp: unat_saturating_add word_less_nat_alt min_def)

lemma step_allows:
  assumes "pairing_step p e = (p', r)" and "r \<noteq> Opened" and "r \<noteq> Consumed True"
  shows "(if \<exists>g. r = Gated (Allow g) then 1 else 0) + budget p' \<le> budget p"
  using assms
  by (cases e; cases "snd e")
    (auto simp: pairing_defs budget_def Let_def not_le reserve_counts word_less_nat_alt
      split: option.splits if_splits)

lemma run_allows:
  "pairing_run p es = (p', outs) \<Longrightarrow> opens outs = 0 \<Longrightarrow> wins outs = 0 \<Longrightarrow> allows outs + budget p' \<le> budget p"
proof (induction es arbitrary: p outs)
  case Nil
  then show ?case by simp
next
  case (Cons e es)
  obtain p1 r where s: "pairing_step p e = (p1, r)" by fastforce
  obtain outs' where t: "pairing_run p1 es = (p', outs')" "outs = r # outs'"
    using Cons.prems(1) s by (auto simp: Let_def split: prod.splits)
  from Cons.prems(2,3) have r: "r \<noteq> Opened" "r \<noteq> Consumed True" "opens outs' = 0" "wins outs' = 0"
    by (auto simp: t(2) split: if_splits)
  from Cons.IH [OF t(1) r(3,4)] step_allows [OF s r(1,2)] show ?case by (simp add: t(2))
qed

text \<open>
  The global cap holds whatever the sources: between two openings of the window at most 1024
  first-pair attempts get as far as a challenge.
\<close>

theorem enrollment_attempt_cap:
  assumes "pairing_run p es = (p', outs)" and "opens outs = 0" and "wins outs = 0"
  shows "allows outs \<le> unat GLOBAL_FIRST_PAIR_CAP"
  using run_allows [OF assms] by (simp add: budget_def)

theorem enrollment_attempt_cap_witness:
  "\<exists>p' outs. pairing_run (pairing_open 0 10 (new_pairing_state [])) [(1, EvGate (Some 1)), (12, EvGate (Some 1))] = (p', outs) \<and>
     allows outs = 1 \<and> allows outs \<le> unat GLOBAL_FIRST_PAIR_CAP"
proof -
  obtain p' outs where r: "pairing_run (pairing_open 0 10 (new_pairing_state []))
      [(1, EvGate (Some 1)), (12, EvGate (Some 1))] = (p', outs)" by fastforce
  then have o: "outs = [Gated (Allow 1), Gated GateClosed]"
    by (auto simp: new_pairing_state_def new_window_def pairing_defs is_open_def
        GLOBAL_FIRST_PAIR_CAP_def Let_def)
  then have "opens outs = 0" "wins outs = 0" by auto
  from enrollment_attempt_cap [OF r this] o r show ?thesis by auto
qed

section \<open>Retired credentials\<close>

lemma step_epoch:
  assumes "pairing_step p e = (p', r)"
  shows "window_epoch (window p') =
    window_epoch (window p) + (if r = Opened \<or> r = Consumed True then 1 else 0)"
  using assms
  by (cases e; cases "snd e") (auto simp: pairing_defs Let_def split: option.splits if_splits)

lemma run_epoch:
  "pairing_run p es = (p', outs) \<Longrightarrow>
     window_epoch (window p') = window_epoch (window p) + word_of_nat (opens outs + wins outs)"
proof (induction es arbitrary: p outs)
  case Nil
  then show ?case by simp
next
  case (Cons e es)
  obtain p1 r where s: "pairing_step p e = (p1, r)" by fastforce
  obtain outs' where t: "pairing_run p1 es = (p', outs')" "outs = r # outs'"
    using Cons.prems s by (auto simp: Let_def split: prod.splits)
  from Cons.IH [OF t(1)] step_epoch [OF s] show ?case by (auto simp: t(2))
qed

lemma word_of_nat_nonzero: "0 < n \<Longrightarrow> n < 2 ^ 64 \<Longrightarrow> (word_of_nat n :: u64) \<noteq> 0"
proof -
  assume "0 < n" "n < 2 ^ 64"
  then have "unat (word_of_nat n :: u64) = n" by (simp add: unat_of_nat)
  with \<open>0 < n\<close> show ?thesis by fastforce
qed

text \<open>
  A snapshot never enrols against a later opportunity: once the window has been reopened, or
  the pairing rotated, or the opportunity consumed by another device (fewer than \<open>2^64\<close> times), the
  epoch captured before is refused both when a challenge is requested and when a proof claims it.
\<close>

theorem stale_snapshot_refused:
  assumes "snap_epoch (snapshot t0 p) = Some e" and "pairing_run p es = (p', outs)"
    and "0 < opens outs + wins outs" and "opens outs + wins outs < 2 ^ 64"
  shows "gate_first_pair now (Some e) p' = (p', GateClosed) \<and> consume_first_pair now e p' = (p', False)"
proof -
  from assms(1) have "window_epoch (window p) = e"
    by (auto simp: snapshot_def current_epoch_def split: if_splits)
  with run_epoch [OF assms(2)] have "window_epoch (window p') \<noteq> e"
    using word_of_nat_nonzero [OF assms(3,4)] by simp
  then show ?thesis by (simp add: pairing_defs Let_def)
qed

theorem stale_snapshot_refused_witness:
  "let p = pairing_open 0 10 (new_pairing_state [Manual [1, 2, 3, 4, 5, 6]]) in
   snap_epoch (snapshot 1 p) = Some 1 \<and>
   (\<exists>p' outs. pairing_run p [(2, EvRotate [Manual [6, 5, 4, 3, 2, 1]] 10)] = (p', outs) \<and>
      gate_first_pair 3 (Some 1) p' = (p', GateClosed))"
proof -
  let ?p = "pairing_open 0 10 (new_pairing_state [Manual [1, 2, 3, 4, 5, 6]])"
  have s: "snap_epoch (snapshot 1 ?p) = Some 1"
    by (simp add: snapshot_def current_epoch_def is_open_def pairing_defs new_pairing_state_def new_window_def)
  have r: "pairing_run ?p [(2, EvRotate [Manual [6, 5, 4, 3, 2, 1]] 10)] =
      (rotate 2 [Manual [6, 5, 4, 3, 2, 1]] 10 ?p, [Opened])" by simp
  from stale_snapshot_refused [OF s r, of 3] s r show ?thesis by (simp add: Let_def)
qed


section \<open>Backoff of one source\<close>

lemma gc_cold_get:
  "hm_wf m \<Longrightarrow> hm_get (gc_cold now m) k =
     (case hm_get m k of None \<Rightarrow> None | Some rl \<Rightarrow> if is_cold now rl then None else Some rl)"
  by (auto simp: gc_cold_def hm_get_filter split: option.splits)

lemma hm_wf_gc_cold [simp]: "hm_wf m \<Longrightarrow> hm_wf (gc_cold now m)"
  by (simp add: gc_cold_def)

lemma is_cold_later: "is_cold now rl \<Longrightarrow> now \<le> now' \<Longrightarrow> is_cold now' rl"
  by (auto simp: is_cold_def split: option.splits)

lemma keyed_result:
  "hm_wf m \<Longrightarrow> snd (keyed_check_and_reserve now key m) =
     (case hm_get m key of
        None \<Rightarrow> Inr ()
      | Some rl \<Rightarrow> if is_cold now rl then Inr () else limiter_check now rl)"
  by (cases "hm_get m key")
    (simp_all add: keyed_check_and_reserve_def gc_cold_get limiter_check_and_reserve_def Let_def
      limiter_check_def new_limiter_def split: option.splits)

lemma keyed_get_other:
  "hm_wf m \<Longrightarrow> k \<noteq> key \<Longrightarrow>
     hm_get (fst (keyed_check_and_reserve now key m)) k = hm_get (gc_cold now m) k"
  by (simp add: keyed_check_and_reserve_def Let_def split: prod.splits)

lemma hm_wf_keyed: "hm_wf m \<Longrightarrow> hm_wf (fst (keyed_check_and_reserve now key m))"
  by (simp add: keyed_check_and_reserve_def Let_def split: prod.splits)

text \<open>
  The backoff of one source: after \<open>f\<close> reserved attempts without a success, and within twenty
  minutes of the last one, a further attempt is refused for \<open>2^(f-1)\<close> seconds (at most ten minutes)
  and then counted; a refused attempt is not counted. No attempt of one source changes what any
  other source is answered, now or later.
\<close>

theorem source_backoff:
  assumes "hm_wf m" and "hm_get m key = Some rl" and "failures rl \<noteq> 0"
    and "last_attempt rl = Some t" and "now - t \<le> from_secs 1200"
  shows "(let wait = min (from_secs (2 ^ min (unat (failures rl) - 1) 10)) (from_secs 600);
              (m', answer) = keyed_check_and_reserve now key m
          in (if now - t < wait
              then answer = Inl (SyncCrypto CryptoRateLimited) \<and> hm_get m' key = Some rl
              else answer = Inr () \<and> hm_get m' key =
                Some (rl\<lparr>failures := saturating_add (failures rl) 1, last_attempt := Some now\<rparr>)) \<and>
             (\<forall>k now'. k \<noteq> key \<and> now \<le> now' \<longrightarrow>
                snd (keyed_check_and_reserve now' k m') = snd (keyed_check_and_reserve now' k m)))"
proof -
  obtain m' answer where r: "keyed_check_and_reserve now key m = (m', answer)" by fastforce
  have hot: "\<not> is_cold now rl" using assms(4,5) by (simp add: is_cold_def)
  have own: "if now - t < current_wait rl
      then answer = Inl (SyncCrypto CryptoRateLimited) \<and> hm_get m' key = Some rl
      else answer = Inr () \<and> hm_get m' key =
        Some (rl\<lparr>failures := saturating_add (failures rl) 1, last_attempt := Some now\<rparr>)"
    using r assms(1,2,4) hot
    by (auto simp: keyed_check_and_reserve_def gc_cold_get limiter_check_and_reserve_def
        limiter_check_def Let_def split: if_splits)
  have "snd (keyed_check_and_reserve now' k m') = snd (keyed_check_and_reserve now' k m)"
    if "k \<noteq> key" "now \<le> now'" for k now'
    using keyed_get_other [OF assms(1) that(1), of now] hm_wf_keyed [OF assms(1), of now key] that
    by (auto simp: r keyed_result assms(1) gc_cold_get is_cold_later split: option.splits)
  with own r assms(3) show ?thesis by (auto simp: Let_def current_wait_def unat_minus_one)
qed

theorem source_backoff_witness:
  "let rl = \<lparr>failures = 3, last_attempt = Some 0\<rparr> in
   snd (keyed_check_and_reserve (from_secs 3) ''a'' [(''a'', rl)]) = Inl (SyncCrypto CryptoRateLimited) \<and>
   snd (keyed_check_and_reserve (from_secs 4) ''a'' [(''a'', rl)]) = Inr ()"
  using source_backoff [of "[(''a'', \<lparr>failures = 3, last_attempt = Some 0\<rparr>)]" "''a''"
      "\<lparr>failures = 3, last_attempt = Some 0\<rparr>" 0 "from_secs 3"]
    source_backoff [of "[(''a'', \<lparr>failures = 3, last_attempt = Some 0\<rparr>)]" "''a''"
      "\<lparr>failures = 3, last_attempt = Some 0\<rparr>" 0 "from_secs 4"]
  by (simp add: from_secs_def Let_def split: prod.splits)

section \<open>What a patient source gets\<close>

fun accepted_attempts :: "string \<Rightarrow> keyed_limiter \<Rightarrow> instant list \<Rightarrow> nat" where
  "accepted_attempts key m [] = 0"
| "accepted_attempts key m (t # ts) =
     (case keyed_check_and_reserve t key m of
        (m', Inl e) \<Rightarrow> accepted_attempts key m' ts
      | (m', Inr _) \<Rightarrow> Suc (accepted_attempts key m' ts))"

lemma forgotten_source:
  assumes "\<forall>(k, rl) \<in> set m. is_cold t rl"
  shows "keyed_check_and_reserve t key m = ([(key, \<lparr>failures = 1, last_attempt = Some t\<rparr>)], Inr ())"
proof -
  from assms have "gc_cold t m = []" by (auto simp: gc_cold_def filter_empty_conv)
  then show ?thesis
    by (simp add: keyed_check_and_reserve_def limiter_check_and_reserve_def limiter_check_def
        new_limiter_def saturating_add_def)
qed

lemma waited_source:
  assumes "t \<le> l + from_secs 1200" and "l + from_secs w \<le> t" and "w \<le> 600"
    and "unat f = Suc n" and "2 ^ n \<le> w" and "n < 10"
  shows "keyed_check_and_reserve t key [(key, \<lparr>failures = f, last_attempt = Some l\<rparr>)] =
    ([(key, \<lparr>failures = f + 1, last_attempt = Some t\<rparr>)], Inr ())"
proof -
  from assms(4) have "f \<noteq> 0" by auto
  with assms(4) have f: "f \<noteq> 0" "unat (f - 1) = n" by (simp_all add: unat_minus_one)
  have "from_secs (2 ^ n) \<le> from_secs w" "from_secs w \<le> t - l"
    using assms(2,5) by (simp_all add: from_secs_def)
  then have "min (from_secs (2 ^ n)) (from_secs 600) \<le> t - l" by linarith
  then have "current_wait \<lparr>failures = f, last_attempt = Some l\<rparr> \<le> t - l"
    using assms(6) f by (simp add: current_wait_def)
  moreover have "saturating_add f 1 = f + 1" using assms(4,6) by (simp add: saturating_add_def)
  moreover have "\<not> is_cold t \<lparr>failures = f, last_attempt = Some l\<rparr>"
    using assms(1) by (simp add: is_cold_def)
  ultimately show ?thesis
    by (simp add: keyed_check_and_reserve_def gc_cold_def limiter_check_and_reserve_def limiter_check_def)
qed

definition burst :: "nat \<Rightarrow> instant list" where
  "burst b = map (\<lambda>i. from_secs (b + i)) [0, 1, 3, 7, 15, 31, 63, 127]"

lemma burst_accepted:
  assumes "\<forall>(k, rl) \<in> set m. is_cold (from_secs b) rl"
  shows "accepted_attempts key m (burst b @ ts) =
    8 + accepted_attempts key [(key, \<lparr>failures = 8, last_attempt = Some (from_secs (b + 127))\<rparr>)] ts"
  using assms
  by (simp add: burst_def forgotten_source from_secs_def
      waited_source [where w = 1 and n = 0] waited_source [where w = 2 and n = 1]
      waited_source [where w = 4 and n = 2] waited_source [where w = 8 and n = 3]
      waited_source [where w = 16 and n = 4] waited_source [where w = 32 and n = 5]
      waited_source [where w = 64 and n = 6])

text \<open>
  The limiter forgets a source after twenty idle minutes, so pausing beats waiting: a single
  source whose every attempt fails is granted 24 attempts within one hour, by making eight at the
  pace of the backoff and then staying away for 1203 seconds.
\<close>

theorem patient_source_attempts:
  "\<exists>ts. sorted ts \<and> last ts < from_secs 3600 \<and> accepted_attempts key [] ts = 24"
proof -
  let ?ts = "burst 0 @ burst 1330 @ burst 2660 @ []"
  have cold: "\<forall>(k, rl) \<in> set [(key, \<lparr>failures = 8, last_attempt = Some (from_secs (b + 127))\<rparr>)].
      is_cold (from_secs (b + 1330)) rl" for b
    by (simp add: is_cold_def from_secs_def)
  have "accepted_attempts key [] ?ts = 24"
    using burst_accepted [of "[]" 0 key "burst 1330 @ burst 2660 @ []"]
      burst_accepted [OF cold [of 0], of key "burst 2660 @ []"]
      burst_accepted [OF cold [of 1330], of key "[]"] by simp
  moreover have "sorted ?ts" "last ?ts < from_secs 3600"
    by (simp_all add: burst_def from_secs_def)
  ultimately show ?thesis by blast
qed

end
