(* ===== verification/Credential_Store.thy ===== *)
theory Credential_Store
  imports Errors
begin

unbundle bit_operations_syntax

text \<open>
  Persistence of long-lived credentials on a Unix host: \<open>crates/transport/src/credential_store.rs\<close> and the
  file operations of \<open>crates/transport/src/secure.rs\<close> it is built from. The disk is explicit: the
  credential directory with its metadata, the record files as every process sees them, the directory as it
  is on the medium, which of the files have their data there, and a script of the errors that coming system calls will report.
  Record contents are opaque, so the theory is polymorphic in them.
\<close>

section \<open>Records and durability\<close>

definition IDENTITY_RECORD :: string where "IDENTITY_RECORD = ''identity.bin''"
definition PEERS_RECORD :: string where "PEERS_RECORD = ''portty-peers.dat''"
definition LAST_HOST_RECORD :: string where "LAST_HOST_RECORD = ''portty-last-host.dat''"
definition PAIR_STATE_RECORD :: string where "PAIR_STATE_RECORD = ''portty-pair-state-v1.dat''"
definition REVOCATIONS_RECORD :: string where "REVOCATIONS_RECORD = ''portty-revocations-v1.dat''"
definition GRACE_RECORD :: string where "GRACE_RECORD = ''portty-grace-v1.dat''"

lemmas record_name_defs =
  IDENTITY_RECORD_def PEERS_RECORD_def LAST_HOST_RECORD_def PAIR_STATE_RECORD_def
  REVOCATIONS_RECORD_def GRACE_RECORD_def

datatype durability = BestEffort | Required

section \<open>The disk\<close>

record dir_meta =
  dm_symlink :: bool
  dm_directory :: bool
  dm_uid :: nat
  dm_mode :: u32

text \<open>
  \<open>files\<close> is what \<open>open\<close> and \<open>rename\<close> act on; \<open>on_medium\<close> is the directory as the last \<open>fsync\<close> of it left it. Data and entries
  reach the medium by different calls: \<open>unflushed\<close> names the records whose current file was not synced itself, \<open>torn\<close> those
  whose entry on the medium is for such a file. Staging files have unpredictable names and are kept apart from the records,
  the newest first, each with whether its data was synced. \<open>faults\<close> lists what the
  next system calls report (\<open>None\<close> is success); when it is used up, every call succeeds.
\<close>

record 'b disk =
  dir :: "dir_meta option"
  euid :: nat
  umask_mode :: u32
  files :: "(string, 'b) hashmap"
  on_medium :: "(string, 'b) hashmap"
  unflushed :: "string list"
  torn :: "string list"
  staging :: "('b \<times> bool) list"
  faults :: "io_error option list"

definition syscall :: "'b disk \<Rightarrow> 'b disk \<times> io_error option" where
  "syscall d = (case faults d of [] \<Rightarrow> (d, None) | f # fs \<Rightarrow> (d\<lparr>faults := fs\<rparr>, f))"

section \<open>Owner-only files\<close>

definition refuse :: "io_kind \<Rightarrow> string \<Rightarrow> 'a io_result" where
  "refuse k msg = Inl (IoError k msg)"

definition prepare_secret_dir :: "'b disk \<Rightarrow> 'b disk \<times> unit io_result" where
  "prepare_secret_dir d0 =
     (case syscall d0 of
        (d1, Some e) \<Rightarrow> (d1, Inl e)
      | (d1, None) \<Rightarrow>
          (let meta = (case dir d1 of
                         Some dm \<Rightarrow> dm
                       | None \<Rightarrow> \<lparr>dm_symlink = False, dm_directory = True, dm_uid = euid d1,
                                  dm_mode = umask_mode d1\<rparr>)
           in case syscall (d1\<lparr>dir := Some meta\<rparr>) of
             (d2, Some e) \<Rightarrow> (d2, Inl e)
           | (d2, None) \<Rightarrow>
              (if dm_symlink meta then
                (d2, refuse InvalidInput ''credential directory is a symlink; refusing to store secrets there'')
              else if \<not> dm_directory meta then
                (d2, refuse InvalidInput ''credential directory path is not a directory'')
              else if dm_uid meta \<noteq> euid d2 then
                (d2, refuse PermissionDenied ''credential directory is owned by another user; refusing to store secrets there'')
              else if dm_mode meta AND 63 \<noteq> 0 then
                (case syscall d2 of
                   (d3, Some e) \<Rightarrow> (d3, Inl e)
                 | (d3, None) \<Rightarrow> (d3\<lparr>dir := Some (meta\<lparr>dm_mode := 448\<rparr>)\<rparr>, Inr ()))
              else (d2, Inr ()))))"

text \<open>
  Remove a leftover of the same name, whatever that reports; create the staging file exclusively with mode 0600, write it, and
  sync its data.
\<close>

definition flush_staged :: "'b disk \<Rightarrow> 'b disk" where
  "flush_staged d = d\<lparr>staging := (case staging d of [] \<Rightarrow> [] | (bs, _) # rest \<Rightarrow> (bs, True) # rest)\<rparr>"

definition write_owner_only :: "'b disk \<Rightarrow> 'b \<Rightarrow> 'b disk \<times> unit io_result" where
  "write_owner_only d bs =
     (case syscall (fst (syscall d)) of
        (d1, Some e) \<Rightarrow> (d1, Inl e)
      | (d1, None) \<Rightarrow>
          (let d2 = d1\<lparr>staging := (bs, False) # staging d1\<rparr> in
           case syscall d2 of
             (d3, Some e) \<Rightarrow> (d3, Inl e)
           | (d3, None) \<Rightarrow>
               (case syscall d3 of
                  (d4, Some e) \<Rightarrow> (d4, Inl e)
                | (d4, None) \<Rightarrow> (flush_staged d4, Inr ()))))"

text \<open>\<open>rename\<close> of the staging file over the record, atomically; the data stays where it is.\<close>

definition replace_durably :: "'b disk \<Rightarrow> string \<Rightarrow> 'b disk \<times> unit io_result" where
  "replace_durably d name =
     (case syscall d of
        (d1, Some e) \<Rightarrow> (d1, Inl e)
      | (d1, None) \<Rightarrow>
          (case staging d1 of
             [] \<Rightarrow> (d1, refuse NotFound ''No such file or directory'')
           | (bs, synced) # rest \<Rightarrow>
               (d1\<lparr>files := hm_insert name bs (files d1), staging := rest,
                   unflushed := (if synced then removeAll name (unflushed d1) else name # unflushed d1)\<rparr>, Inr ())))"

text \<open>\<open>fsync\<close> of the directory: every entry reaches the medium, but not the data of the files.\<close>

definition sync_parent :: "'b disk \<Rightarrow> 'b disk \<times> unit io_result" where
  "sync_parent d =
     (case syscall d of
        (d1, Some e) \<Rightarrow> (d1, Inl e)
      | (d1, None) \<Rightarrow> (d1\<lparr>on_medium := files d1, torn := unflushed d1\<rparr>, Inr ()))"

section \<open>The file store\<close>

definition record_path :: "string \<Rightarrow> string io_result" where
  "record_path name =
     (if name = [] \<or> name = ''.'' \<or> name = ''..'' \<or> CHR ''/'' \<in> set name \<or> CHR 0x5C \<in> set name
      then refuse InvalidInput ''credential record name must be one path component''
      else Inr name)"

text \<open>
  \<open>read\<close> checks that the file exists, opens it without following a symlink, tightens it through the
  handle, excludes it from backups (which is a no-op on Linux) and reads it.
\<close>

definition cs_read :: "'b disk \<Rightarrow> string \<Rightarrow> 'b disk \<times> 'b option io_result" where
  "cs_read d name =
     (case record_path name of
        Inl e \<Rightarrow> (d, Inl e)
      | Inr path \<Rightarrow>
          (case hm_get (files d) path of
             None \<Rightarrow> (d, Inr None)
           | Some bs \<Rightarrow>
               (case syscall d of
                  (d1, Some e) \<Rightarrow> (d1, Inl e)
                | (d1, None) \<Rightarrow>
                    (case syscall d1 of
                       (d2, Some e) \<Rightarrow> (d2, Inl e)
                     | (d2, None) \<Rightarrow>
                         (case syscall d2 of
                            (d3, Some e) \<Rightarrow> (d3, Inl e)
                          | (d3, None) \<Rightarrow> (d3, Inr (Some bs)))))))"

definition cs_write :: "'b disk \<Rightarrow> string \<Rightarrow> 'b \<Rightarrow> durability \<Rightarrow> 'b disk \<times> unit io_result" where
  "cs_write d name bs dur =
     (case record_path name of
        Inl e \<Rightarrow> (d, Inl e)
      | Inr path \<Rightarrow>
          (case prepare_secret_dir d of
             (d1, Inl e) \<Rightarrow> (d1, Inl e)
           | (d1, Inr _) \<Rightarrow>
               (case write_owner_only d1 bs of
                  (d2, Inl e) \<Rightarrow> (d2\<lparr>staging := staging d1\<rparr>, Inl e)
                | (d2, Inr _) \<Rightarrow>
                    (case replace_durably d2 path of
                       (d3, Inl e) \<Rightarrow> (d3\<lparr>staging := staging d1\<rparr>, Inl e)
                     | (d3, Inr _) \<Rightarrow>
                         (case sync_parent d3 of
                            (d4, Inr _) \<Rightarrow> (d4, Inr ())
                          | (d4, Inl e) \<Rightarrow>
                              (case dur of
                                 Required \<Rightarrow>
                                   (d4, refuse (io_error_kind e) ''wrote record but could not make it durable'')
                               | BestEffort \<Rightarrow> (d4, Inr ())))))))"

definition cs_remove :: "'b disk \<Rightarrow> string \<Rightarrow> 'b disk \<times> unit io_result" where
  "cs_remove d name =
     (case record_path name of
        Inl e \<Rightarrow> (d, Inl e)
      | Inr path \<Rightarrow>
          (case syscall d of
             (d1, Some e) \<Rightarrow> (if io_error_kind e = NotFound then (d1, Inr ()) else (d1, Inl e))
           | (d1, None) \<Rightarrow>
               (case hm_get (files d1) path of
                  None \<Rightarrow> (d1, Inr ())
                | Some _ \<Rightarrow>
                    (case sync_parent (d1\<lparr>files := hm_remove path (files d1), unflushed := removeAll path (unflushed d1)\<rparr>) of
                       (d2, Inr _) \<Rightarrow> (d2, Inr ())
                     | (d2, Inl e) \<Rightarrow>
                         (d2, refuse (io_error_kind e) ''removed record but could not make the deletion durable'')))))"

section \<open>What system calls leave alone\<close>

lemma syscall_frame:
  assumes "syscall d = (d', f)"
  shows "dir d' = dir d \<and> euid d' = euid d \<and> umask_mode d' = umask_mode d \<and> files d' = files d \<and>
    on_medium d' = on_medium d \<and> unflushed d' = unflushed d \<and> torn d' = torn d \<and> staging d' = staging d"
  using assms by (auto simp: syscall_def split: list.splits)

lemma syscall_frame_fst:
  "dir (fst (syscall d)) = dir d \<and> euid (fst (syscall d)) = euid d \<and> umask_mode (fst (syscall d)) = umask_mode d \<and>
    files (fst (syscall d)) = files d \<and> on_medium (fst (syscall d)) = on_medium d \<and> unflushed (fst (syscall d)) = unflushed d \<and>
    torn (fst (syscall d)) = torn d \<and> staging (fst (syscall d)) = staging d"
  by (rule syscall_frame [of d _ "snd (syscall d)"]) simp

text \<open>What a call keeps of the records, in memory and on the medium.\<close>

definition same_records :: "'b disk \<Rightarrow> 'b disk \<Rightarrow> bool" where
  "same_records d d' \<longleftrightarrow> files d' = files d \<and> on_medium d' = on_medium d \<and> unflushed d' = unflushed d \<and> torn d' = torn d"

lemma prepare_secret_dir_frame:
  assumes "prepare_secret_dir d = (d', r)"
  shows "same_records d d' \<and> staging d' = staging d \<and> euid d' = euid d"
  using assms
  by (auto simp: prepare_secret_dir_def same_records_def Let_def split: prod.splits option.splits if_splits
      dest!: syscall_frame)

lemma write_owner_only_frame:
  assumes "write_owner_only d bs = (d', r)"
  shows "same_records d d' \<and> dir d' = dir d \<and> euid d' = euid d \<and> (r = Inr () \<longrightarrow> staging d' = (bs, True) # staging d)"
  using assms syscall_frame_fst [of d]
  by (auto simp: write_owner_only_def same_records_def flush_staged_def Let_def split: prod.splits option.splits dest!: syscall_frame)

lemma replace_durably_cases:
  assumes "replace_durably d name = (d', r)" and "staging d = (bs, True) # rest"
  shows "on_medium d' = on_medium d \<and> torn d' = torn d \<and>
    (r = Inr () \<and> files d' = hm_insert name bs (files d) \<and> unflushed d' = removeAll name (unflushed d) \<or>
     (\<exists>e. r = Inl e) \<and> files d' = files d \<and> unflushed d' = unflushed d)"
  using assms
  by (auto simp: replace_durably_def refuse_def split: prod.splits option.splits list.splits dest!: syscall_frame)

lemma sync_parent_cases:
  assumes "sync_parent d = (d', r)"
  shows "files d' = files d \<and> unflushed d' = unflushed d \<and>
    (r = Inr () \<and> on_medium d' = files d \<and> torn d' = unflushed d \<or> (\<exists>e. r = Inl e) \<and> on_medium d' = on_medium d \<and> torn d' = torn d)"
  using assms by (auto simp: sync_parent_def split: prod.splits option.splits dest!: syscall_frame)

lemma record_path_Inr: "record_path name = Inr p \<Longrightarrow> p = name"
  by (auto simp: record_path_def refuse_def split: if_splits)

text \<open>The six record names pass the name check.\<close>

lemma record_path_records [simp]:
  "name \<in> {IDENTITY_RECORD, PEERS_RECORD, LAST_HOST_RECORD, PAIR_STATE_RECORD, REVOCATIONS_RECORD, GRACE_RECORD}
     \<Longrightarrow> record_path name = Inr name"
  by (auto simp: record_path_def record_name_defs)

section \<open>The contract of a write\<close>

lemma cs_write_cases:
  assumes "cs_write d name bs dur = (d', r)"
  obtains (kept) e where "r = Inl e" "same_records d d'"
  | (replaced) e where "r = Inl e" "dur = Required" "files d' = hm_insert name bs (files d)"
      "on_medium d' = on_medium d" "unflushed d' = removeAll name (unflushed d)" "torn d' = torn d"
  | (loose) "r = Inr ()" "dur = BestEffort" "files d' = hm_insert name bs (files d)"
      "on_medium d' = on_medium d" "unflushed d' = removeAll name (unflushed d)" "torn d' = torn d"
  | (durable) "r = Inr ()" "files d' = hm_insert name bs (files d)"
      "on_medium d' = hm_insert name bs (files d)" "unflushed d' = removeAll name (unflushed d)" "torn d' = removeAll name (unflushed d)"
proof (cases "record_path name")
  case (Inl e)
  then show ?thesis using assms kept by (auto simp: cs_write_def same_records_def)
next
  case (Inr path)
  then have path: "path = name" by (auto simp: record_path_def refuse_def split: if_splits)
  obtain d1 r1 where p: "prepare_secret_dir d = (d1, r1)" by fastforce
  obtain d2 r2 where w: "write_owner_only d1 bs = (d2, r2)" by fastforce
  obtain d3 r3 where m: "replace_durably d2 name = (d3, r3)" by fastforce
  obtain d4 r4 where y: "sync_parent d3 = (d4, r4)" by fastforce
  note p' = prepare_secret_dir_frame [OF p]
  note w' = write_owner_only_frame [OF w]
  show ?thesis
  proof (cases r1)
    case e: (Inl e)
    show ?thesis by (rule kept [of e]) (use assms Inr path p e p' in \<open>auto simp: cs_write_def\<close>)
  next
    case r1: (Inr u1)
    show ?thesis
    proof (cases r2)
      case e: (Inl e)
      show ?thesis by (rule kept [of e]) (use assms Inr path p r1 w e p' w' in \<open>auto simp: cs_write_def same_records_def\<close>)
    next
      case r2: (Inr u2)
      with w' have "staging d2 = (bs, True) # staging d1" by simp
      note m' = replace_durably_cases [OF m this]
      show ?thesis
      proof (cases r3)
        case e: (Inl e)
        show ?thesis by (rule kept [of e]) (use assms Inr path p r1 w r2 m e p' w' m' in \<open>auto simp: cs_write_def same_records_def\<close>)
      next
        case r3: (Inr u3)
        have out: "(d', r) = (d4, case r4 of Inr _ \<Rightarrow> Inr () | Inl e \<Rightarrow> (case dur of Required \<Rightarrow> refuse (io_error_kind e) ''wrote record but could not make it durable'' | BestEffort \<Rightarrow> Inr ()))"
          using assms Inr path p r1 w r2 m r3 y by (auto simp: cs_write_def split: sum.splits durability.splits)
        have d3: "files d3 = hm_insert name bs (files d)" "on_medium d3 = on_medium d" "unflushed d3 = removeAll name (unflushed d)" "torn d3 = torn d"
          using p' w' m' r3 by (auto simp: same_records_def)
        show ?thesis
          using out d3 sync_parent_cases [OF y] replaced loose durable by (cases r4; cases dur) (auto simp: refuse_def)
      qed
    qed
  qed
qed

lemma cs_remove_cases:
  assumes "cs_remove d name = (d', r)"
  obtains (kept) e where "r = Inl e" "same_records d d'"
  | (absent) "r = Inr ()" "same_records d d'"
  | (unlinked) e where "r = Inl e" "files d' = hm_remove name (files d)" "on_medium d' = on_medium d"
      "unflushed d' = removeAll name (unflushed d)" "torn d' = torn d"
  | (durable) "r = Inr ()" "files d' = hm_remove name (files d)" "on_medium d' = hm_remove name (files d)"
      "unflushed d' = removeAll name (unflushed d)" "torn d' = removeAll name (unflushed d)"
  using assms
  by (auto simp: cs_remove_def refuse_def same_records_def split: prod.splits sum.splits option.splits if_splits
      dest!: record_path_Inr syscall_frame sync_parent_cases)

lemma cs_read_cases:
  assumes "cs_read d name = (d', r)"
  shows "files d' = files d \<and> on_medium d' = on_medium d \<and> unflushed d' = unflushed d \<and> torn d' = torn d \<and>
    (\<forall>v. r = Inr v \<longrightarrow> v = hm_get (files d) name)"
  using assms
  by (auto simp: cs_read_def split: prod.splits sum.splits option.splits
      dest!: record_path_Inr syscall_frame)

section \<open>Interface: a record store\<close>

text \<open>
  What a client of the store may rely on: a successful write is what the next read returns; a failed
  one leaves the old value or installs the new one, never anything else; other records are not
  touched; reading changes nothing.
\<close>

locale record_store =
  fixes get :: "'s \<Rightarrow> string \<Rightarrow> 'b option"
    and rd :: "'s \<Rightarrow> string \<Rightarrow> 's \<times> 'b option io_result"
    and wr :: "'s \<Rightarrow> string \<Rightarrow> 'b \<Rightarrow> durability \<Rightarrow> 's \<times> unit io_result"
  assumes write_other: "wr s n b d = (s', r) \<Longrightarrow> m \<noteq> n \<Longrightarrow> get s' m = get s m"
    and write_ok: "wr s n b d = (s', Inr ()) \<Longrightarrow> get s' n = Some b"
    and write_err: "wr s n b d = (s', Inl e) \<Longrightarrow> get s' n = get s n \<or> get s' n = Some b"
    and read_value: "rd s n = (s', Inr v) \<Longrightarrow> v = get s n"
    and read_keeps: "rd s n = (s', q) \<Longrightarrow> get s' = get s"
begin

lemma read_after_write:
  "wr s n b d = (s1, Inr ()) \<Longrightarrow> rd s1 n = (s2, Inr v) \<Longrightarrow> v = Some b"
  using write_ok read_value by fastforce

lemma read_after_other_write:
  "wr s n b d = (s1, r) \<Longrightarrow> m \<noteq> n \<Longrightarrow> rd s1 m = (s2, Inr v) \<Longrightarrow> v = get s m"
  using write_other read_value by fastforce

end

interpretation fs: record_store "\<lambda>d. hm_get (files d)" cs_read cs_write
proof unfold_locales
  fix d d' :: "'b disk" and n m b dur r v e
  show "cs_write d n b dur = (d', r) \<Longrightarrow> m \<noteq> n \<Longrightarrow> hm_get (files d') m = hm_get (files d) m"
    by (erule cs_write_cases) (simp_all add: same_records_def)
  show "cs_write d n b dur = (d', Inr ()) \<Longrightarrow> hm_get (files d') n = Some b"
    by (erule cs_write_cases) (simp_all add: same_records_def)
  show "cs_write d n b dur = (d', Inl e) \<Longrightarrow>
      hm_get (files d') n = hm_get (files d) n \<or> hm_get (files d') n = Some b"
    by (erule cs_write_cases) (simp_all add: same_records_def)
  show "cs_read d n = (d', Inr v) \<Longrightarrow> v = hm_get (files d) n"
    using cs_read_cases [of d n d' "Inr v"] by simp
  show "cs_read d n = (d', s) \<Longrightarrow> hm_get (files d') = hm_get (files d)" for s
    using cs_read_cases [of d n d' s] by simp
qed

section \<open>Power loss\<close>

text \<open>
  After a power loss every record is what its entry in the directory was at that moment or on the medium before: nothing
  orders entries that were not synced. An entry whose file was not synced itself is there with any content.
\<close>

definition survives :: "'b option \<Rightarrow> bool \<Rightarrow> 'b option \<Rightarrow> bool" where
  "survives v synced found \<longleftrightarrow> found = v \<or> \<not> synced \<and> v \<noteq> None \<and> found \<noteq> None"

definition crash_value :: "'b disk \<Rightarrow> string \<Rightarrow> 'b option \<Rightarrow> bool" where
  "crash_value d name found \<longleftrightarrow>
     survives (hm_get (files d) name) (name \<notin> set (unflushed d)) found \<or>
     survives (hm_get (on_medium d) name) (name \<notin> set (torn d)) found"

definition crash_image :: "'b disk \<Rightarrow> (string \<Rightarrow> 'b option) \<Rightarrow> bool" where
  "crash_image d img \<longleftrightarrow> (\<forall>name. crash_value d name (img name))"

text \<open>
  C35. A write that was required to be durable and reported success survives a power loss with its content; and a write, whatever
  it reported, leaves behind after a power loss the new value or what the record could have been without it, and
  every other record as it could have been without it.
\<close>

theorem required_write_is_durable:
  assumes "cs_write d name bs dur = (d', r)" and "crash_image d' img"
  shows "(r = Inr () \<and> dur = Required \<longrightarrow> img name = Some bs) \<and>
    (img name = Some bs \<or> crash_value d name (img name)) \<and> (\<forall>m. m \<noteq> name \<longrightarrow> crash_value d m (img m))"
proof -
  have img: "crash_value d' m (img m)" for m using assms(2) by (simp add: crash_image_def)
  have "crash_value d m (img m)" if "m \<noteq> name" for m
    using assms(1) by (cases rule: cs_write_cases) (use img [of m] that in \<open>auto simp: crash_value_def survives_def same_records_def\<close>)
  moreover have "(r = Inr () \<and> dur = Required \<longrightarrow> img name = Some bs) \<and> (img name = Some bs \<or> crash_value d name (img name))"
    using assms(1) by (cases rule: cs_write_cases) (use img [of name] in \<open>auto simp: crash_value_def survives_def same_records_def\<close>)
  ultimately show ?thesis by blast
qed

definition empty_disk :: "io_error option list \<Rightarrow> 'b disk" where
  "empty_disk fs = \<lparr>dir = None, euid = 1000, umask_mode = 493, files = [], on_medium = [],
     unflushed = [], torn = [], staging = [], faults = fs\<rparr>"

theorem required_write_is_durable_witness:
  "\<exists>d'. cs_write (empty_disk []) PEERS_RECORD (7 :: nat) Required = (d', Inr ()) \<and>
     crash_image d' (hm_get (on_medium d')) \<and> hm_get (on_medium d') PEERS_RECORD = Some 7"
proof -
  obtain d' where w: "cs_write (empty_disk []) PEERS_RECORD (7 :: nat) Required = (d', Inr ())"
    by (simp add: cs_write_def prepare_secret_dir_def write_owner_only_def replace_durably_def
        flush_staged_def sync_parent_def syscall_def empty_disk_def Let_def)
  have c: "crash_image d' (hm_get (on_medium d'))" by (simp add: crash_image_def crash_value_def survives_def)
  from required_write_is_durable [OF w c] w c show ?thesis by auto
qed

section \<open>The directory secrets are kept in\<close>

text \<open>
  Secrets are only ever written into a real directory, owned by the effective user, that no
  other user can enter: a symlink, a plain file or a foreign directory is refused, and a directory of
  our own that is too open is tightened before anything is written.
\<close>

theorem secret_dir_is_private:
  assumes "cs_write d name bs dur = (d', Inr ())"
  shows "\<exists>meta. dir d' = Some meta \<and> \<not> dm_symlink meta \<and> dm_directory meta \<and>
    dm_uid meta = euid d \<and> dm_mode meta AND 63 = 0"
proof -
  have priv: "\<exists>meta. dir x' = Some meta \<and> \<not> dm_symlink meta \<and> dm_directory meta \<and>
      dm_uid meta = euid x \<and> dm_mode meta AND 63 = 0"
    if "prepare_secret_dir x = (x', Inr ())" for x x' :: "'b disk"
    using that
    by (auto simp: prepare_secret_dir_def refuse_def Let_def split: prod.splits option.splits if_splits
        dest!: syscall_frame)
  have rest: "dir x' = dir x" if "replace_durably x n = (x', r)" for x x' :: "'b disk" and n r
    using that by (auto simp: replace_durably_def split: prod.splits option.splits list.splits dest!: syscall_frame)
  have sync: "dir x' = dir x" if "sync_parent x = (x', r)" for x x' :: "'b disk" and r
    using that by (auto simp: sync_parent_def split: prod.splits option.splits dest!: syscall_frame)
  from assms obtain d1 d2 d3 r4 where "prepare_secret_dir d = (d1, Inr ())"
    "write_owner_only d1 bs = (d2, Inr ())" "replace_durably d2 name = (d3, Inr ())"
    "sync_parent d3 = (d', r4)"
    by (auto simp: cs_write_def refuse_def split: prod.splits sum.splits durability.splits
        dest!: record_path_Inr)
  with priv rest sync write_owner_only_frame show ?thesis by metis
qed

theorem secret_dir_is_private_witness:
  "\<exists>d' meta. cs_write (empty_disk []) PEERS_RECORD (7 :: nat) Required = (d', Inr ()) \<and>
     dir d' = Some meta \<and> dm_uid meta = 1000 \<and> dm_mode meta AND 63 = 0"
proof -
  obtain d' where w: "cs_write (empty_disk []) PEERS_RECORD (7 :: nat) Required = (d', Inr ())"
    by (simp add: cs_write_def prepare_secret_dir_def write_owner_only_def replace_durably_def
        flush_staged_def sync_parent_def syscall_def empty_disk_def Let_def)
  from secret_dir_is_private [OF w] w show ?thesis by (auto simp: empty_disk_def)
qed

end
