(* ===== verification/Peer_Store.thy ===== *)
theory Peer_Store
  imports Credential_Store
begin

text \<open>
  The per-peer reconnect credentials of \<open>crates/transport/src/peers.rs\<close>: the token map, the pairing
  generations, the revocation tombstones and the one-use grace tokens, each persisted as one record
  of the credential store. The postcard encoding of the records is a parameter of the model; random
  event ids and the wall clock are arguments.
\<close>

section \<open>Records\<close>

type_synonym device_id = bytes
type_synonym pair_id = bytes
type_synonym event_key = bytes
type_synonym token = bytes

record pair_state =
  st_pair_id :: pair_id
  st_event_key :: event_key

record handshake_commit =
  hc_ticket :: "string option"
  hc_token :: token
  hc_resumed :: bool
  candidate_pair_id :: pair_id
  candidate_event_key :: event_key
  observed_revocation :: "bytes option"
  observed_token :: "token option"

datatype resumed_with = CurrentToken | PreviousToken

record grace_token =
  g_pair_id :: pair_id
  g_token :: token

record revocation_record =
  rv_event_id :: bytes
  rv_pair_id :: "pair_id option"
  rv_event_key :: "event_key option"
  rv_revoked_at :: nat

record peer_record =
  pr_ticket :: "string option"
  pr_token :: token

text \<open>Postcard, for the five records: encoding may fail, decoding foreign bytes may fail.\<close>

record 'b postcard =
  enc_peers :: "(device_id, peer_record) hashmap \<Rightarrow> 'b option"
  dec_peers :: "'b \<Rightarrow> (device_id, peer_record) hashmap option"
  enc_states :: "(device_id, pair_state) hashmap \<Rightarrow> 'b option"
  dec_states :: "'b \<Rightarrow> (device_id, pair_state) hashmap option"
  enc_revocations :: "(device_id, revocation_record) hashmap \<Rightarrow> 'b option"
  dec_revocations :: "'b \<Rightarrow> (device_id, revocation_record) hashmap option"
  enc_graces :: "(device_id, grace_token) hashmap \<Rightarrow> 'b option"
  dec_graces :: "'b \<Rightarrow> (device_id, grace_token) hashmap option"
  enc_device :: "device_id \<Rightarrow> 'b option"
  dec_device :: "'b \<Rightarrow> device_id option"

text \<open>What the code relies on: decoding an encoding gives the value back.\<close>

definition postcard_roundtrip :: "'b postcard \<Rightarrow> bool" where
  "postcard_roundtrip pc \<longleftrightarrow>
     (\<forall>x b. enc_peers pc x = Some b \<longrightarrow> dec_peers pc b = Some x) \<and>
     (\<forall>x b. enc_states pc x = Some b \<longrightarrow> dec_states pc b = Some x) \<and>
     (\<forall>x b. enc_revocations pc x = Some b \<longrightarrow> dec_revocations pc b = Some x) \<and>
     (\<forall>x b. enc_graces pc x = Some b \<longrightarrow> dec_graces pc b = Some x) \<and>
     (\<forall>x b. enc_device pc x = Some b \<longrightarrow> dec_device pc b = Some x)"

record 'b peer_store =
  ps_map :: "(device_id, peer_record) hashmap"
  ps_pair_state :: "(device_id, pair_state) hashmap"
  ps_revocations :: "(device_id, revocation_record) hashmap"
  ps_grace :: "(device_id, grace_token) hashmap"
  ps_last_connected :: "device_id option"
  ps_disk :: "'b disk"

section \<open>Persisting\<close>

definition persist_bytes ::
  "string \<Rightarrow> 'b option \<Rightarrow> durability \<Rightarrow> 'b peer_store \<Rightarrow> 'b peer_store \<times> unit io_result" where
  "persist_bytes name encoded dur ps =
     (case encoded of
        None \<Rightarrow> (ps, refuse InvalidData ''encode'')
      | Some b \<Rightarrow> (let (d, r) = cs_write (ps_disk ps) name b dur in (ps\<lparr>ps_disk := d\<rparr>, r)))"

definition persist :: "'b postcard \<Rightarrow> durability \<Rightarrow> 'b peer_store \<Rightarrow> 'b peer_store \<times> unit io_result" where
  "persist pc dur ps = persist_bytes PEERS_RECORD (enc_peers pc (ps_map ps)) dur ps"

definition persist_pair_state :: "'b postcard \<Rightarrow> 'b peer_store \<Rightarrow> 'b peer_store \<times> unit io_result" where
  "persist_pair_state pc ps =
     persist_bytes PAIR_STATE_RECORD (enc_states pc (ps_pair_state ps)) Required ps"

definition persist_revocations :: "'b postcard \<Rightarrow> 'b peer_store \<Rightarrow> 'b peer_store \<times> unit io_result" where
  "persist_revocations pc ps =
     persist_bytes REVOCATIONS_RECORD (enc_revocations pc (ps_revocations ps)) Required ps"

definition store_remove :: "string \<Rightarrow> 'b peer_store \<Rightarrow> 'b peer_store \<times> unit io_result" where
  "store_remove name ps = (let (d, r) = cs_remove (ps_disk ps) name in (ps\<lparr>ps_disk := d\<rparr>, r))"

definition persist_grace :: "'b postcard \<Rightarrow> 'b peer_store \<Rightarrow> 'b peer_store \<times> unit io_result" where
  "persist_grace pc ps =
     (if ps_grace ps = [] then store_remove GRACE_RECORD ps
      else persist_bytes GRACE_RECORD (enc_graces pc (ps_grace ps)) BestEffort ps)"

section \<open>Loading\<close>

definition unwrap_or_default :: "('b \<Rightarrow> ('k, 'v) hashmap option) \<Rightarrow> 'b option \<Rightarrow> ('k, 'v) hashmap" where
  "unwrap_or_default dec stored =
     (case stored of None \<Rightarrow> [] | Some b \<Rightarrow> (case dec b of None \<Rightarrow> [] | Some m \<Rightarrow> m))"

definition load_from :: "'b postcard \<Rightarrow> 'b disk \<Rightarrow> 'b peer_store io_result" where
  "load_from pc d0 =
     (case cs_read d0 PEERS_RECORD of (d1, Inl e) \<Rightarrow> Inl e | (d1, Inr peers) \<Rightarrow>
     (case cs_read d1 LAST_HOST_RECORD of (d2, Inl e) \<Rightarrow> Inl e | (d2, Inr lasth) \<Rightarrow>
     (case cs_read d2 PAIR_STATE_RECORD of (d3, Inl e) \<Rightarrow> Inl e | (d3, Inr states) \<Rightarrow>
     (case cs_read d3 REVOCATIONS_RECORD of (d4, Inl e) \<Rightarrow> Inl e | (d4, Inr revs) \<Rightarrow>
     (case (case revs of None \<Rightarrow> Some [] | Some b \<Rightarrow> dec_revocations pc b) of
        None \<Rightarrow> refuse InvalidData ''corrupt revocation store''
      | Some rv \<Rightarrow>
     (case cs_read d4 GRACE_RECORD of (d5, Inl e) \<Rightarrow> Inl e | (d5, Inr graces) \<Rightarrow>
        Inr \<lparr>ps_map = unwrap_or_default (dec_peers pc) peers,
             ps_pair_state = unwrap_or_default (dec_states pc) states,
             ps_revocations = rv,
             ps_grace = unwrap_or_default (dec_graces pc) graces,
             ps_last_connected = Option.bind lasth (dec_device pc),
             ps_disk = d5\<rparr>))))))"

section \<open>Lookups\<close>

definition revoked :: "'b peer_store \<Rightarrow> device_id \<Rightarrow> bool" where
  "revoked ps d = hm_contains (ps_revocations ps) d"

definition known_devices :: "'b peer_store \<Rightarrow> device_id list" where
  "known_devices ps = filter (\<lambda>d. \<not> revoked ps d) (map fst (ps_map ps))"

definition tokens :: "'b peer_store \<Rightarrow> (device_id, token) hashmap" where
  "tokens ps = map (\<lambda>(d, r). (d, pr_token r)) (filter (\<lambda>(d, r). \<not> revoked ps d) (ps_map ps))"

definition token_of :: "'b peer_store \<Rightarrow> device_id \<Rightarrow> token option" where
  "token_of ps d = (if revoked ps d then None else map_option pr_token (hm_get (ps_map ps) d))"

definition grace_tokens :: "'b peer_store \<Rightarrow> (device_id, token) hashmap" where
  "grace_tokens ps =
     map (\<lambda>(d, g). (d, g_token g))
       (filter (\<lambda>(d, g). map_option st_pair_id (hm_get (ps_pair_state ps) d) = Some (g_pair_id g))
         (filter (\<lambda>(d, g). \<not> revoked ps d \<and> hm_contains (ps_map ps) d) (ps_grace ps)))"

definition pair_id_of :: "'b peer_store \<Rightarrow> device_id \<Rightarrow> pair_id option" where
  "pair_id_of ps d =
     (if revoked ps d then None else map_option st_pair_id (hm_get (ps_pair_state ps) d))"

definition revocation_marker :: "'b peer_store \<Rightarrow> device_id \<Rightarrow> bytes option" where
  "revocation_marker ps d = map_option rv_event_id (hm_get (ps_revocations ps) d)"

text \<open>The first dialable host in the iteration order of the map.\<close>

fun first_dialable :: "(device_id \<times> peer_record) list \<Rightarrow> (device_id \<times> string \<times> token) option" where
  "first_dialable [] = None"
| "first_dialable ((d, r) # rs) =
     (case pr_ticket r of Some t \<Rightarrow> Some (d, t, pr_token r) | None \<Rightarrow> first_dialable rs)"

definition last_host :: "'b peer_store \<Rightarrow> (device_id \<times> string \<times> token) option" where
  "last_host ps =
     (let preferred =
        (case ps_last_connected ps of
           None \<Rightarrow> None
         | Some d \<Rightarrow>
             if revoked ps d then None
             else case hm_get (ps_map ps) d of
                    None \<Rightarrow> None
                  | Some r \<Rightarrow> map_option (\<lambda>t. (d, t, pr_token r)) (pr_ticket r))
      in case preferred of
           Some h \<Rightarrow> Some h
         | None \<Rightarrow> first_dialable (filter (\<lambda>(d, r). \<not> revoked ps d) (ps_map ps)))"

text \<open>Every dialable host, the last connected one first and the others in the order of their ids.\<close>

fun bytes_le :: "bytes \<Rightarrow> bytes \<Rightarrow> bool" where
  "bytes_le [] _ = True"
| "bytes_le (_ # _) [] = False"
| "bytes_le (a # as) (b # bs) = (a < b \<or> a = b \<and> bytes_le as bs)"

definition host_before :: "device_id option \<Rightarrow> device_id \<times> string \<times> token \<Rightarrow> device_id \<times> string \<times> token \<Rightarrow> bool" where
  "host_before lastc a b =
     (if (Some (fst a) \<noteq> lastc) = (Some (fst b) \<noteq> lastc) then bytes_le (fst a) (fst b)
      else Some (fst a) = lastc)"

primrec insert_host ::
  "device_id option \<Rightarrow> device_id \<times> string \<times> token \<Rightarrow> (device_id \<times> string \<times> token) list \<Rightarrow>
     (device_id \<times> string \<times> token) list" where
  "insert_host lastc h [] = [h]"
| "insert_host lastc h (g # gs) =
     (if host_before lastc h g then h # g # gs else g # insert_host lastc h gs)"

definition known_hosts :: "'b peer_store \<Rightarrow> (device_id \<times> string \<times> token) list" where
  "known_hosts ps =
     foldr (insert_host (ps_last_connected ps))
       (List.map_filter (\<lambda>(d, r). map_option (\<lambda>t. (d, t, pr_token r)) (pr_ticket r))
         (filter (\<lambda>(d, r). \<not> revoked ps d) (ps_map ps))) []"

definition peer_records :: "'b peer_store \<Rightarrow> (device_id \<times> peer_record) list" where
  "peer_records ps = filter (\<lambda>(d, r). \<not> revoked ps d) (ps_map ps)"

section \<open>Remembering a token\<close>

definition set_last_host :: "'b postcard \<Rightarrow> device_id \<Rightarrow> 'b peer_store \<Rightarrow> 'b peer_store \<times> unit io_result" where
  "set_last_host pc peer ps =
     (if ps_last_connected ps = Some peer then (ps, Inr ())
      else case persist_bytes LAST_HOST_RECORD (enc_device pc peer) BestEffort ps of
             (ps1, Inl e) \<Rightarrow> (ps1, Inl e)
           | (ps1, Inr _) \<Rightarrow> (ps1\<lparr>ps_last_connected := Some peer\<rparr>, Inr ()))"

definition remember_token ::
  "'b postcard \<Rightarrow> device_id \<Rightarrow> string option \<Rightarrow> token \<Rightarrow> durability \<Rightarrow> 'b peer_store \<Rightarrow>
     'b peer_store \<times> unit io_result" where
  "remember_token pc peer ticket tok dur ps =
     (let previous = hm_get (ps_map ps) peer;
          ticket' = (case ticket of Some t \<Rightarrow> Some t | None \<Rightarrow> Option.bind previous pr_ticket);
          ps1 = ps\<lparr>ps_map := hm_insert peer \<lparr>pr_ticket = ticket', pr_token = tok\<rparr> (ps_map ps)\<rparr>
      in case persist pc dur ps1 of
           (ps2, Inr _) \<Rightarrow> (ps2, Inr ())
         | (ps2, Inl e) \<Rightarrow>
             (case previous of
                Some r \<Rightarrow> (ps2\<lparr>ps_map := hm_insert peer r (hm_remove peer (ps_map ps2))\<rparr>, Inl e)
              | None \<Rightarrow> (ps2\<lparr>ps_map := hm_remove peer (ps_map ps2)\<rparr>, Inl e)))"

definition remember ::
  "'b postcard \<Rightarrow> device_id \<Rightarrow> string option \<Rightarrow> token \<Rightarrow> 'b peer_store \<Rightarrow> 'b peer_store \<times> unit io_result" where
  "remember pc peer ticket tok ps =
     (if revoked ps peer then (ps, refuse PermissionDenied ''refusing to restore a revoked peer'')
      else remember_token pc peer ticket tok Required ps)"

definition token_is_unchanged :: "'b peer_store \<Rightarrow> device_id \<Rightarrow> token option \<Rightarrow> bool" where
  "token_is_unchanged ps peer observed =
     (case (hm_get (ps_map ps) peer, observed) of
        (Some current, Some t) \<Rightarrow> pr_token current = t
      | _ \<Rightarrow> False)"

section \<open>Committing a handshake\<close>

definition restore_pair_state :: "device_id \<Rightarrow> pair_state option \<Rightarrow> 'b peer_store \<Rightarrow> 'b peer_store" where
  "restore_pair_state peer previous ps =
     (case previous of
        Some st \<Rightarrow> ps\<lparr>ps_pair_state := hm_insert peer st (ps_pair_state ps)\<rparr>
      | None \<Rightarrow> ps\<lparr>ps_pair_state := hm_remove peer (ps_pair_state ps)\<rparr>)"

text \<open>
  The part both branches share: install the generation, then the token, and roll the generation back
  (in memory and on disk) when the token cannot be written.
\<close>

definition install_generation ::
  "'b postcard \<Rightarrow> device_id \<Rightarrow> handshake_commit \<Rightarrow> durability \<Rightarrow> 'b peer_store \<Rightarrow>
     'b peer_store \<times> unit io_result" where
  "install_generation pc peer hc dur ps =
     (let previous = hm_get (ps_pair_state ps) peer;
          ps1 = ps\<lparr>ps_pair_state := hm_insert peer
                  \<lparr>st_pair_id = candidate_pair_id hc, st_event_key = candidate_event_key hc\<rparr>
                  (ps_pair_state ps)\<rparr>
      in case persist_pair_state pc ps1 of
           (ps2, Inl e) \<Rightarrow> (restore_pair_state peer previous ps2, Inl e)
         | (ps2, Inr _) \<Rightarrow>
             (case remember_token pc peer (hc_ticket hc) (hc_token hc) dur ps2 of
                (ps3, Inr _) \<Rightarrow> (ps3, Inr ())
              | (ps3, Inl token_error) \<Rightarrow>
                  (case persist_pair_state pc (restore_pair_state peer previous ps3) of
                     (ps4, Inl rollback_error) \<Rightarrow>
                       (ps4, refuse (io_error_kind rollback_error)
                          ''token persistence failed; pair metadata rollback also failed'')
                   | (ps4, Inr _) \<Rightarrow> (ps4, Inl token_error))))"

text \<open>Clear the tombstone last; if that cannot be written, reload the tombstones from the disk.\<close>

definition clear_tombstone :: "'b postcard \<Rightarrow> device_id \<Rightarrow> 'b peer_store \<Rightarrow> 'b peer_store \<times> unit io_result" where
  "clear_tombstone pc peer ps =
     (if \<not> revoked ps peer then (ps, Inr ())
      else case persist_revocations pc (ps\<lparr>ps_revocations := hm_remove peer (ps_revocations ps)\<rparr>) of
        (ps1, Inr _) \<Rightarrow> (ps1, Inr ())
      | (ps1, Inl e) \<Rightarrow>
          (case cs_read (ps_disk ps1) REVOCATIONS_RECORD of
             (d, Inl e') \<Rightarrow> (ps1\<lparr>ps_disk := d\<rparr>, Inl e')
           | (d, Inr stored) \<Rightarrow>
               (case Option.bind stored (dec_revocations pc) of
                  None \<Rightarrow> (ps1\<lparr>ps_disk := d\<rparr>, Inl e)
                | Some fresh \<Rightarrow> (ps1\<lparr>ps_disk := d, ps_revocations := fresh\<rparr>, Inl e))))"

definition commit_handshake ::
  "'b postcard \<Rightarrow> device_id \<Rightarrow> handshake_commit \<Rightarrow> 'b peer_store \<Rightarrow> 'b peer_store \<times> pair_id io_result" where
  "commit_handshake pc peer hc ps =
     (if hc_resumed hc then
        if revocation_marker ps peer \<noteq> None then
          (ps, refuse PermissionDenied ''peer was revoked while reconnecting'')
        else if \<not> token_is_unchanged ps peer (observed_token hc) then
          (ps, refuse PermissionDenied ''peer credential changed while reconnecting'')
        else case hm_get (ps_pair_state ps) peer of
          Some existing \<Rightarrow>
            (case remember_token pc peer (hc_ticket hc) (hc_token hc) BestEffort ps of
               (ps1, Inl e) \<Rightarrow> (ps1, Inl e)
             | (ps1, Inr _) \<Rightarrow> (ps1, Inr (st_pair_id existing)))
        | None \<Rightarrow>
            (case install_generation pc peer hc BestEffort ps of
               (ps1, Inl e) \<Rightarrow> (ps1, Inl e)
             | (ps1, Inr _) \<Rightarrow> (ps1, Inr (candidate_pair_id hc)))
      else if revocation_marker ps peer \<noteq> observed_revocation hc then
        (ps, refuse PermissionDenied ''peer was revoked while pairing'')
      else case install_generation pc peer hc Required ps of
        (ps1, Inl e) \<Rightarrow> (ps1, Inl e)
      | (ps1, Inr _) \<Rightarrow>
          (case clear_tombstone pc peer ps1 of
             (ps2, Inl e) \<Rightarrow> (ps2, Inl e)
           | (ps2, Inr _) \<Rightarrow> (ps2, Inr (candidate_pair_id hc))))"

section \<open>Grace tokens\<close>

definition set_grace :: "'b postcard \<Rightarrow> device_id \<Rightarrow> grace_token \<Rightarrow> 'b peer_store \<Rightarrow> 'b peer_store" where
  "set_grace pc peer g ps = fst (persist_grace pc (ps\<lparr>ps_grace := hm_insert peer g (ps_grace ps)\<rparr>))"

definition drop_grace :: "'b postcard \<Rightarrow> device_id \<Rightarrow> 'b peer_store \<Rightarrow> 'b peer_store" where
  "drop_grace pc peer ps =
     (if hm_contains (ps_grace ps) peer
      then fst (persist_grace pc (ps\<lparr>ps_grace := hm_remove peer (ps_grace ps)\<rparr>))
      else ps)"

definition commit_host_handshake ::
  "'b postcard \<Rightarrow> device_id \<Rightarrow> handshake_commit \<Rightarrow> resumed_with \<Rightarrow> 'b peer_store \<Rightarrow>
     'b peer_store \<times> pair_id io_result" where
  "commit_host_handshake pc peer hc with_token ps =
     (if \<not> hc_resumed hc then
        (case commit_handshake pc peer hc ps of
           (ps1, Inl e) \<Rightarrow> (ps1, Inl e)
         | (ps1, Inr pid) \<Rightarrow> (drop_grace pc peer ps1, Inr pid))
      else case with_token of
        CurrentToken \<Rightarrow>
          (let can_commit = (revocation_marker ps peer = None \<and> token_is_unchanged ps peer (observed_token hc));
               pid = (case hm_get (ps_pair_state ps) peer of
                        Some st \<Rightarrow> st_pair_id st | None \<Rightarrow> candidate_pair_id hc);
               ps1 = (case observed_token hc of
                        Some authenticated \<Rightarrow>
                          if can_commit
                          then set_grace pc peer \<lparr>g_pair_id = pid, g_token = authenticated\<rparr> ps else ps
                      | None \<Rightarrow> ps)
           in commit_handshake pc peer hc ps1)
      | PreviousToken \<Rightarrow>
          (case commit_handshake pc peer hc ps of
             (ps1, Inl e) \<Rightarrow> (ps1, Inl e)
           | (ps1, Inr pid) \<Rightarrow> (drop_grace pc peer ps1, Inr pid)))"

section \<open>Revoking and forgetting\<close>

definition revocation_for :: "bytes \<Rightarrow> nat \<Rightarrow> device_id \<Rightarrow> 'b peer_store \<Rightarrow> revocation_record" where
  "revocation_for event_id now peer ps =
     (let state = hm_get (ps_pair_state ps) peer;
          existing = hm_get (ps_revocations ps) peer
      in \<lparr>rv_event_id = event_id,
          rv_pair_id = (case state of Some st \<Rightarrow> Some (st_pair_id st)
                        | None \<Rightarrow> Option.bind existing rv_pair_id),
          rv_event_key = (case state of Some st \<Rightarrow> Some (st_event_key st)
                          | None \<Rightarrow> Option.bind existing rv_event_key),
          rv_revoked_at = now\<rparr>)"

text \<open>What follows once the tombstone is durable; its errors are only logged.\<close>

definition revoke_cleanup :: "'b postcard \<Rightarrow> device_id \<Rightarrow> 'b peer_store \<Rightarrow> 'b peer_store" where
  "revoke_cleanup pc peer ps =
     (let ps1 = ps\<lparr>ps_map := hm_remove peer (ps_map ps),
                   ps_pair_state := hm_remove peer (ps_pair_state ps)\<rparr>;
          ps2 = fst (persist pc Required ps1);
          ps3 = fst (persist_pair_state pc ps2);
          ps4 = drop_grace pc peer ps3
      in if ps_last_connected ps4 = Some peer
         then (fst (store_remove LAST_HOST_RECORD ps4))\<lparr>ps_last_connected := None\<rparr>
         else ps4)"

definition revoke ::
  "'b postcard \<Rightarrow> bytes \<Rightarrow> nat \<Rightarrow> device_id \<Rightarrow> 'b peer_store \<Rightarrow>
     'b peer_store \<times> revocation_record io_result" where
  "revoke pc event_id now peer ps =
     (let rec = revocation_for event_id now peer ps
      in case persist_revocations pc (ps\<lparr>ps_revocations := hm_insert peer rec (ps_revocations ps)\<rparr>) of
           (ps1, Inl e) \<Rightarrow> (ps1\<lparr>ps_revocations := hm_remove peer (ps_revocations ps1)\<rparr>, Inl e)
         | (ps1, Inr _) \<Rightarrow> (revoke_cleanup pc peer ps1, Inr rec))"

definition forget :: "'b postcard \<Rightarrow> device_id \<Rightarrow> 'b peer_store \<Rightarrow> 'b peer_store \<times> unit io_result" where
  "forget pc peer ps =
     (case hm_get (ps_map ps) peer of
        None \<Rightarrow> (ps, Inr ())
      | Some removed \<Rightarrow>
          (let removed_state = hm_get (ps_pair_state ps) peer;
               ps1 = ps\<lparr>ps_map := hm_remove peer (ps_map ps),
                        ps_pair_state := hm_remove peer (ps_pair_state ps)\<rparr>
           in case persist pc Required ps1 of
                (ps2, Inl e) \<Rightarrow>
                  (let ps3 = ps2\<lparr>ps_map := hm_insert peer removed (ps_map ps2)\<rparr>
                   in case removed_state of
                        Some st \<Rightarrow> (ps3\<lparr>ps_pair_state := hm_insert peer st (ps_pair_state ps3)\<rparr>, Inl e)
                      | None \<Rightarrow> (ps3, Inl e))
              | (ps2, Inr _) \<Rightarrow>
                  (case persist_pair_state pc ps2 of
                     (ps3, Inl e) \<Rightarrow> (ps3, Inl e)
                   | (ps3, Inr _) \<Rightarrow>
                       (let ps4 = drop_grace pc peer ps3
                        in if ps_last_connected ps4 = Some peer
                           then case store_remove LAST_HOST_RECORD ps4 of
                                  (ps5, Inl e) \<Rightarrow> (ps5, Inl e)
                                | (ps5, Inr _) \<Rightarrow> (ps5\<lparr>ps_last_connected := None\<rparr>, Inr ())
                           else (ps4, Inr ())))))"

definition clear_peers :: "'b postcard \<Rightarrow> 'b peer_store \<Rightarrow> 'b peer_store \<times> unit io_result" where
  "clear_peers pc ps =
     (if ps_map ps = [] then (ps, Inr ())
      else case persist pc Required (ps\<lparr>ps_map := [], ps_pair_state := []\<rparr>) of
        (ps1, Inl e) \<Rightarrow> (ps1\<lparr>ps_map := ps_map ps, ps_pair_state := ps_pair_state ps\<rparr>, Inl e)
      | (ps1, Inr _) \<Rightarrow>
          (case persist_pair_state pc ps1 of
             (ps2, Inl e) \<Rightarrow> (ps2, Inl e)
           | (ps2, Inr _) \<Rightarrow>
               (let ps3 = (if ps_grace ps2 \<noteq> [] then fst (persist_grace pc (ps2\<lparr>ps_grace := []\<rparr>)) else ps2)
                in if ps_last_connected ps3 \<noteq> None
                   then case store_remove LAST_HOST_RECORD ps3 of
                          (ps4, Inl e) \<Rightarrow> (ps4, Inl e)
                        | (ps4, Inr _) \<Rightarrow> (ps4\<lparr>ps_last_connected := None\<rparr>, Inr ())
                   else (ps3, Inr ()))))"

section \<open>What persisting leaves alone\<close>

text \<open>A property of one record that holds both in the directory and on the medium, and whose data is there.\<close>

definition holds_record :: "('b option \<Rightarrow> bool) \<Rightarrow> string \<Rightarrow> 'b disk \<Rightarrow> bool" where
  "holds_record Q n d \<longleftrightarrow> Q (hm_get (files d) n) \<and> Q (hm_get (on_medium d) n) \<and> n \<notin> set (unflushed d) \<and> n \<notin> set (torn d)"

lemma cs_write_holds:
  assumes "cs_write d n b dur = (d', r)" and "holds_record Q m d" and "n = m \<Longrightarrow> Q (Some b)"
  shows "holds_record Q m d'"
  using assms(1)
  by (cases rule: cs_write_cases) (use assms(2,3) in \<open>auto simp: holds_record_def same_records_def\<close>)

lemma cs_remove_holds:
  assumes "cs_remove d n = (d', r)" and "holds_record Q m d" and "n \<noteq> m"
  shows "holds_record Q m d'"
  using assms(1)
  by (cases rule: cs_remove_cases) (use assms(2,3) in \<open>auto simp: holds_record_def same_records_def\<close>)

lemma cs_read_holds:
  "cs_read d n = (d', r) \<Longrightarrow> holds_record Q m d' = holds_record Q m d"
  by (drule cs_read_cases) (simp add: holds_record_def)

lemma persist_bytes_frame:
  assumes "persist_bytes n e dur ps = (ps', r)"
  shows "ps' = ps\<lparr>ps_disk := ps_disk ps'\<rparr>"
  using assms by (auto simp: persist_bytes_def split: option.splits prod.splits)

lemma persist_bytes_holds:
  assumes "persist_bytes n e dur ps = (ps', r)" and "holds_record Q m (ps_disk ps)"
    and "\<And>b. n = m \<Longrightarrow> e = Some b \<Longrightarrow> Q (Some b)"
  shows "holds_record Q m (ps_disk ps')"
  using assms by (auto simp: persist_bytes_def split: option.splits prod.splits dest: cs_write_holds)

lemma persist_bytes_durable:
  assumes "persist_bytes n e Required ps = (ps', Inr x)"
  obtains b where "e = Some b" "files (ps_disk ps') = hm_insert n b (files (ps_disk ps))"
    "on_medium (ps_disk ps') = hm_insert n b (files (ps_disk ps))"
    "n \<notin> set (unflushed (ps_disk ps'))" "n \<notin> set (torn (ps_disk ps'))"
  using assms
  by (auto simp: persist_bytes_def refuse_def split: option.splits prod.splits elim: cs_write_cases)

lemmas persist_defs = persist_def persist_pair_state_def persist_revocations_def

lemma store_remove_frame:
  assumes "store_remove n ps = (ps', r)"
  shows "ps' = ps\<lparr>ps_disk := ps_disk ps'\<rparr>"
  using assms by (auto simp: store_remove_def split: prod.splits)

lemma persist_grace_frame:
  assumes "persist_grace pc ps = (ps', r)"
  shows "ps' = ps\<lparr>ps_disk := ps_disk ps'\<rparr>"
  using assms by (auto simp: persist_grace_def split: if_splits dest: store_remove_frame persist_bytes_frame)

section \<open>Tombstones\<close>

text \<open>
  The revocation event \<open>ev\<close> of a peer is in memory, in the directory and on the medium.
\<close>

definition tomb_record :: "'b postcard \<Rightarrow> device_id \<Rightarrow> bytes \<Rightarrow> 'b option \<Rightarrow> bool" where
  "tomb_record pc peer ev stored =
     (case stored of None \<Rightarrow> False | Some b \<Rightarrow>
       (case dec_revocations pc b of None \<Rightarrow> False | Some rv \<Rightarrow>
         map_option rv_event_id (hm_get rv peer) = Some ev))"

definition tombstoned :: "'b postcard \<Rightarrow> device_id \<Rightarrow> bytes \<Rightarrow> 'b peer_store \<Rightarrow> bool" where
  "tombstoned pc peer ev ps \<longleftrightarrow>
     revocation_marker ps peer = Some ev \<and>
     holds_record (tomb_record pc peer ev) REVOCATIONS_RECORD (ps_disk ps)"

lemma record_names_distinct [simp]:
  "distinct [IDENTITY_RECORD, PEERS_RECORD, LAST_HOST_RECORD, PAIR_STATE_RECORD, REVOCATIONS_RECORD, GRACE_RECORD]"
  by (simp add: record_name_defs)

lemma record_name_neq [simp]:
  "PEERS_RECORD \<noteq> REVOCATIONS_RECORD" "LAST_HOST_RECORD \<noteq> REVOCATIONS_RECORD"
  "PAIR_STATE_RECORD \<noteq> REVOCATIONS_RECORD" "GRACE_RECORD \<noteq> REVOCATIONS_RECORD"
  "PAIR_STATE_RECORD \<noteq> PEERS_RECORD" "REVOCATIONS_RECORD \<noteq> PEERS_RECORD"
  by (simp_all add: record_name_defs)

lemma tombstoned_memory [simp]:
  "tombstoned pc peer ev (ps\<lparr>ps_map := m\<rparr>) = tombstoned pc peer ev ps"
  "tombstoned pc peer ev (ps\<lparr>ps_pair_state := st\<rparr>) = tombstoned pc peer ev ps"
  "tombstoned pc peer ev (ps\<lparr>ps_grace := g\<rparr>) = tombstoned pc peer ev ps"
  "tombstoned pc peer ev (ps\<lparr>ps_last_connected := l\<rparr>) = tombstoned pc peer ev ps"
  by (simp_all add: tombstoned_def revocation_marker_def)

lemma tombstoned_persist_bytes:
  assumes "persist_bytes n e dur ps = (ps', r)" and "n \<noteq> REVOCATIONS_RECORD" and "tombstoned pc peer ev ps"
  shows "tombstoned pc peer ev ps'"
proof -
  have "revocation_marker ps' peer = revocation_marker ps peer"
    by (subst persist_bytes_frame [OF assms(1)]) (simp add: revocation_marker_def)
  with persist_bytes_holds [OF assms(1), of "tomb_record pc peer ev" REVOCATIONS_RECORD] assms(2,3)
  show ?thesis by (simp add: tombstoned_def)
qed

lemma tombstoned_persist:
  "persist pc dur ps = (ps', r) \<Longrightarrow> tombstoned pc' peer ev ps \<Longrightarrow> tombstoned pc' peer ev ps'"
  "persist_pair_state pc ps = (ps', r) \<Longrightarrow> tombstoned pc' peer ev ps \<Longrightarrow> tombstoned pc' peer ev ps'"
  by (auto simp: persist_defs intro: tombstoned_persist_bytes)

lemma tombstoned_store_remove:
  assumes "store_remove n ps = (ps', r)" and "n \<noteq> REVOCATIONS_RECORD" and "tombstoned pc peer ev ps"
  shows "tombstoned pc peer ev ps'"
  using assms by (auto simp: store_remove_def tombstoned_def revocation_marker_def split: prod.splits
      intro: cs_remove_holds)

lemma tombstoned_persist_grace:
  "persist_grace pc ps = (ps', r) \<Longrightarrow> tombstoned pc' peer ev ps \<Longrightarrow> tombstoned pc' peer ev ps'"
  by (auto simp: persist_grace_def split: if_splits intro: tombstoned_persist_bytes tombstoned_store_remove)

lemma tombstoned_grace [simp, intro]:
  assumes "tombstoned pc' peer ev ps"
  shows "tombstoned pc' peer ev (set_grace pc d g ps)" and "tombstoned pc' peer ev (drop_grace pc d ps)"
proof -
  have "tombstoned pc' peer ev (fst (persist_grace pc q))" if "tombstoned pc' peer ev q" for q
    using that tombstoned_persist_grace by (metis prod.collapse)
  with assms show "tombstoned pc' peer ev (set_grace pc d g ps)" "tombstoned pc' peer ev (drop_grace pc d ps)"
    by (simp_all add: set_grace_def drop_grace_def)
qed

lemma tombstoned_set_last_host:
  "set_last_host pc d ps = (ps', r) \<Longrightarrow> tombstoned pc' peer ev ps \<Longrightarrow> tombstoned pc' peer ev ps'"
  by (auto simp: set_last_host_def split: if_splits prod.splits sum.splits dest: tombstoned_persist_bytes)

lemma tombstoned_remember_token:
  "remember_token pc d t tok dur ps = (ps', r) \<Longrightarrow> tombstoned pc' peer ev ps \<Longrightarrow> tombstoned pc' peer ev ps'"
  by (auto simp: remember_token_def Let_def split: prod.splits sum.splits option.splits dest: tombstoned_persist)

lemma tombstoned_restore [simp]:
  "tombstoned pc' peer ev (restore_pair_state d st ps) = tombstoned pc' peer ev ps"
  by (simp add: restore_pair_state_def split: option.splits)

lemma tombstoned_install_generation:
  "install_generation pc d hc dur ps = (ps', r) \<Longrightarrow> tombstoned pc' peer ev ps \<Longrightarrow> tombstoned pc' peer ev ps'"
  by (auto simp: install_generation_def Let_def split: prod.splits sum.splits
      dest!: tombstoned_persist(2) tombstoned_remember_token)

lemma tombstoned_forget:
  "forget pc d ps = (ps', r) \<Longrightarrow> tombstoned pc' peer ev ps \<Longrightarrow> tombstoned pc' peer ev ps'"
  by (auto simp: forget_def Let_def split: prod.splits sum.splits option.splits if_splits
      dest!: tombstoned_persist tombstoned_store_remove [OF _ record_name_neq(2)])

lemma tombstoned_clear_peers:
  "clear_peers pc ps = (ps', r) \<Longrightarrow> tombstoned pc' peer ev ps \<Longrightarrow> tombstoned pc' peer ev ps'"
proof -
  have g: "tombstoned pc' peer ev (fst (persist_grace pc q))" if "tombstoned pc' peer ev q" for q
    using that tombstoned_persist_grace by (metis prod.collapse)
  show "clear_peers pc ps = (ps', r) \<Longrightarrow> tombstoned pc' peer ev ps \<Longrightarrow> tombstoned pc' peer ev ps'"
    by (auto simp: clear_peers_def Let_def split: prod.splits sum.splits if_splits
        dest!: tombstoned_persist tombstoned_store_remove [OF _ record_name_neq(2)] intro: g)
qed

text \<open>Writing the tombstones themselves: the record of every peer but the one named is kept.\<close>

lemma tombstoned_persist_revocations:
  assumes "persist_revocations pc ps = (ps', r)" and "postcard_roundtrip pc"
    and "holds_record (tomb_record pc peer ev) REVOCATIONS_RECORD (ps_disk ps)"
    and "revocation_marker ps peer = Some ev"
  shows "tombstoned pc peer ev ps'"
proof -
  have "revocation_marker ps' peer = Some ev"
    using persist_bytes_frame assms(1,4) unfolding persist_revocations_def revocation_marker_def
    by (metis peer_store.select_convs(3) peer_store.surjective peer_store.update_convs(6))
  moreover have "tomb_record pc peer ev (Some b)" if "enc_revocations pc (ps_revocations ps) = Some b" for b
    using that assms(2,4) by (simp add: tomb_record_def postcard_roundtrip_def revocation_marker_def)
  ultimately show ?thesis
    using persist_bytes_holds [OF assms(1) [unfolded persist_revocations_def] assms(3)]
    by (simp add: tombstoned_def)
qed

lemma tombstoned_clear_tombstone:
  assumes "clear_tombstone pc d ps = (ps', r)" and "postcard_roundtrip pc" and "tombstoned pc peer ev ps"
    and "d \<noteq> peer"
  shows "tombstoned pc peer ev ps'"
proof (cases "revoked ps d")
  case False
  with assms(1,3) show ?thesis by (simp add: clear_tombstone_def)
next
  case True
  define q where "q = ps\<lparr>ps_revocations := hm_remove d (ps_revocations ps)\<rparr>"
  obtain ps1 r1 where w: "persist_revocations pc q = (ps1, r1)" by fastforce
  have t: "tombstoned pc peer ev ps1"
    by (rule tombstoned_persist_revocations [OF w assms(2)])
      (use assms(3,4) in \<open>simp_all add: q_def tombstoned_def revocation_marker_def\<close>)
  have reload: "tombstoned pc peer ev (ps1\<lparr>ps_disk := k, ps_revocations := fresh\<rparr>)"
    if "cs_read (ps_disk ps1) REVOCATIONS_RECORD = (k, Inr (Some b))" "dec_revocations pc b = Some fresh" for k b fresh
  proof -
    have "hm_get (files (ps_disk ps1)) REVOCATIONS_RECORD = Some b" using cs_read_cases [OF that(1)] by simp
    with t that(2) cs_read_holds [OF that(1), of "tomb_record pc peer ev"] show ?thesis
      by (simp add: tombstoned_def revocation_marker_def) (simp add: holds_record_def tomb_record_def)
  qed
  have reread: "tombstoned pc peer ev (ps1\<lparr>ps_disk := k\<rparr>)"
    if "cs_read (ps_disk ps1) REVOCATIONS_RECORD = (k, x)" for k x
    using t cs_read_holds [OF that, of "tomb_record pc peer ev"]
    by (simp add: tombstoned_def revocation_marker_def)
  from t assms(1) True w show ?thesis
    by (auto simp: clear_tombstone_def q_def [symmetric] split: sum.splits prod.splits option.splits bind_splits
        intro: reload reread)
qed

lemma tombstoned_commit:
  assumes "commit_handshake pc d hc ps = (ps', r)" and "postcard_roundtrip pc" and "tombstoned pc peer ev ps"
    and "\<not> (d = peer \<and> \<not> hc_resumed hc \<and> observed_revocation hc = Some ev)"
  shows "tombstoned pc peer ev ps'"
proof -
  have "revocation_marker ps peer = Some ev" using assms(3) by (simp add: tombstoned_def)
  with assms show ?thesis
    by (auto simp: commit_handshake_def split: if_splits prod.splits sum.splits option.splits
        dest: tombstoned_remember_token tombstoned_install_generation tombstoned_clear_tombstone)
qed

lemma tombstoned_commit_host:
  assumes "commit_host_handshake pc d hc w ps = (ps', r)" and "postcard_roundtrip pc" and "tombstoned pc peer ev ps"
    and "\<not> (d = peer \<and> \<not> hc_resumed hc \<and> observed_revocation hc = Some ev)"
  shows "tombstoned pc peer ev ps'"
  using assms
  by (auto simp: commit_host_handshake_def Let_def split: if_splits prod.splits sum.splits option.splits resumed_with.splits
      dest: tombstoned_commit)

lemmas tombstoned_fst =
  tombstoned_persist [OF surjective_pairing] tombstoned_store_remove [OF surjective_pairing record_name_neq(2)]
  tombstoned_set_last_host [OF surjective_pairing] tombstoned_remember_token [OF surjective_pairing]
  tombstoned_forget [OF surjective_pairing] tombstoned_clear_peers [OF surjective_pairing]
  tombstoned_commit [OF surjective_pairing] tombstoned_commit_host [OF surjective_pairing]

lemma tombstoned_revoke_cleanup:
  "tombstoned pc' peer ev ps \<Longrightarrow> tombstoned pc' peer ev (revoke_cleanup pc d ps)"
  by (simp add: revoke_cleanup_def Let_def tombstoned_fst)

lemma tombstoned_revoke_other:
  assumes "postcard_roundtrip pc" and "tombstoned pc peer ev ps" and "d \<noteq> peer"
  shows "tombstoned pc peer ev (fst (revoke pc eid now d ps))"
proof -
  obtain ps1 x where w: "persist_revocations pc
      (ps\<lparr>ps_revocations := hm_insert d (revocation_for eid now d ps) (ps_revocations ps)\<rparr>) = (ps1, x)"
    by fastforce
  have t: "tombstoned pc peer ev ps1"
    by (rule tombstoned_persist_revocations [OF w assms(1)])
      (use assms(2,3) in \<open>simp_all add: tombstoned_def revocation_marker_def\<close>)
  then have "tombstoned pc peer ev (ps1\<lparr>ps_revocations := hm_remove d (ps_revocations ps1)\<rparr>)"
    using assms(3) by (simp add: tombstoned_def revocation_marker_def)
  with t w show ?thesis
    by (simp add: revoke_def Let_def tombstoned_revoke_cleanup split: sum.splits)
qed

lemma revoke_tombstones:
  assumes "revoke pc ev now peer ps = (ps', Inr rec)" and "postcard_roundtrip pc"
  shows "tombstoned pc peer ev ps'"
proof -
  define rc where "rc = revocation_for ev now peer ps"
  define q where "q = ps\<lparr>ps_revocations := hm_insert peer rc (ps_revocations ps)\<rparr>"
  from assms(1) obtain ps1 x where w: "persist_revocations pc q = (ps1, Inr x)"
    and c: "ps' = revoke_cleanup pc peer ps1"
    by (auto simp: revoke_def Let_def rc_def q_def split: prod.splits sum.splits)
  have ev: "rv_event_id rc = ev" by (simp add: rc_def revocation_for_def Let_def)
  have "ps1 = q\<lparr>ps_disk := ps_disk ps1\<rparr>"
    using persist_bytes_frame [OF w [unfolded persist_revocations_def]] .
  then have m: "revocation_marker ps1 peer = Some ev"
    by (metis (no_types, lifting) ev hm_get_insert option.simps(9) peer_store.select_convs(3) peer_store.surjective
        peer_store.update_convs(3,6) q_def revocation_marker_def)
  obtain b where "enc_revocations pc (ps_revocations q) = Some b"
    "files (ps_disk ps1) = hm_insert REVOCATIONS_RECORD b (files (ps_disk q))"
    "on_medium (ps_disk ps1) = hm_insert REVOCATIONS_RECORD b (files (ps_disk q))"
    "REVOCATIONS_RECORD \<notin> set (unflushed (ps_disk ps1))" "REVOCATIONS_RECORD \<notin> set (torn (ps_disk ps1))"
    using persist_bytes_durable [OF w [unfolded persist_revocations_def]] by metis
  with m ev assms(2) have "tombstoned pc peer ev ps1"
    by (simp add: tombstoned_def holds_record_def tomb_record_def postcard_roundtrip_def q_def)
  with c show ?thesis by (simp add: tombstoned_revoke_cleanup)
qed

section \<open>Runs with power losses\<close>

text \<open>
  A process that owns the store, or the disk it left behind. Every operation of the store is a step;
  so are a change of what the coming system calls will report, and a restart after a power loss in
  which each record is found as it was in the directory or as it was on the medium, with any content if the file
  it names was not synced. A process whose
  store does not load stays down.
\<close>

datatype 'b peer_op =
    OpRemember device_id "string option" token
  | OpSetLastHost device_id
  | OpCommit device_id handshake_commit
  | OpCommitHost device_id handshake_commit resumed_with
  | OpRevoke bytes nat device_id
  | OpForget device_id
  | OpClear
  | OpFaults "io_error option list"
  | OpRestart "string \<Rightarrow> bool" "string \<Rightarrow> 'b" "io_error option list"

datatype 'b process = Running "'b peer_store" | Down "'b disk"

definition crash_disk :: "(string \<Rightarrow> bool) \<Rightarrow> (string \<Rightarrow> 'b) \<Rightarrow> io_error option list \<Rightarrow> 'b disk \<Rightarrow> 'b disk" where
  "crash_disk kept junk fs d =
     (let found = filter (\<lambda>(n, _). kept n) (map (\<lambda>(n, b). (n, if n \<in> set (unflushed d) then junk n else b)) (files d)) @
                  filter (\<lambda>(n, _). \<not> kept n) (map (\<lambda>(n, b). (n, if n \<in> set (torn d) then junk n else b)) (on_medium d))
      in d\<lparr>files := found, on_medium := found, unflushed := [], torn := [], staging := [], faults := fs\<rparr>)"

fun peer_disk :: "'b process \<Rightarrow> 'b disk" where
  "peer_disk (Running ps) = ps_disk ps"
| "peer_disk (Down d) = d"

fun peer_step :: "'b postcard \<Rightarrow> 'b process \<Rightarrow> 'b peer_op \<Rightarrow> 'b process" where
  "peer_step pc p (OpRestart kept junk fs) =
     (let d = crash_disk kept junk fs (peer_disk p) in
      case load_from pc d of Inl _ \<Rightarrow> Down d | Inr ps \<Rightarrow> Running ps)"
| "peer_step pc (Down d) _ = Down d"
| "peer_step pc (Running ps) (OpRemember peer t tok) = Running (fst (remember pc peer t tok ps))"
| "peer_step pc (Running ps) (OpSetLastHost peer) = Running (fst (set_last_host pc peer ps))"
| "peer_step pc (Running ps) (OpCommit peer hc) = Running (fst (commit_handshake pc peer hc ps))"
| "peer_step pc (Running ps) (OpCommitHost peer hc w) = Running (fst (commit_host_handshake pc peer hc w ps))"
| "peer_step pc (Running ps) (OpRevoke ev now peer) = Running (fst (revoke pc ev now peer ps))"
| "peer_step pc (Running ps) (OpForget peer) = Running (fst (forget pc peer ps))"
| "peer_step pc (Running ps) OpClear = Running (fst (clear_peers pc ps))"
| "peer_step pc (Running ps) (OpFaults fs) = Running (ps\<lparr>ps_disk := (ps_disk ps)\<lparr>faults := fs\<rparr>\<rparr>)"

text \<open>
  The operations that may touch the tombstone \<open>ev\<close> of a peer: a new revocation of it, and a fresh
  pairing that began after \<open>ev\<close> and saw it.
\<close>

fun supersedes :: "device_id \<Rightarrow> bytes \<Rightarrow> 'b peer_op \<Rightarrow> bool" where
  "supersedes peer ev (OpRevoke _ _ d) = (d = peer)"
| "supersedes peer ev (OpCommit d hc) = (d = peer \<and> \<not> hc_resumed hc \<and> observed_revocation hc = Some ev)"
| "supersedes peer ev (OpCommitHost d hc _) = (d = peer \<and> \<not> hc_resumed hc \<and> observed_revocation hc = Some ev)"
| "supersedes peer ev _ = False"

fun process_tombstoned :: "'b postcard \<Rightarrow> device_id \<Rightarrow> bytes \<Rightarrow> 'b process \<Rightarrow> bool" where
  "process_tombstoned pc peer ev (Running ps) = tombstoned pc peer ev ps"
| "process_tombstoned pc peer ev (Down d) = holds_record (tomb_record pc peer ev) REVOCATIONS_RECORD d"

lemma crash_disk_files:
  "hm_get (files (crash_disk kept junk fs d)) n =
     (if kept n then map_option (\<lambda>b. if n \<in> set (unflushed d) then junk n else b) (hm_get (files d) n)
      else map_option (\<lambda>b. if n \<in> set (torn d) then junk n else b) (hm_get (on_medium d) n))"
  "on_medium (crash_disk kept junk fs d) = files (crash_disk kept junk fs d)"
  "unflushed (crash_disk kept junk fs d) = []" "torn (crash_disk kept junk fs d) = []"
proof -
  have sel: "hm_get (filter (\<lambda>(n, _). P n) m) k = (if P k then hm_get m k else None)" for P m k
    by (induction m) auto
  have upd: "hm_get (map (\<lambda>(n, b). (n, if n \<in> X then junk n else b)) m) k = map_option (\<lambda>b. if k \<in> X then junk k else b) (hm_get m k)" for X m k
    by (induction m) auto
  show "hm_get (files (crash_disk kept junk fs d)) n =
     (if kept n then map_option (\<lambda>b. if n \<in> set (unflushed d) then junk n else b) (hm_get (files d) n)
      else map_option (\<lambda>b. if n \<in> set (torn d) then junk n else b) (hm_get (on_medium d) n))"
    by (simp add: crash_disk_def Let_def map_of_append sel upd map_add_def split: option.splits)
qed (simp_all add: crash_disk_def Let_def)

lemma crash_disk_holds:
  "holds_record Q n d \<Longrightarrow> holds_record Q n (crash_disk kept junk fs d)"
  by (cases "hm_get (files d) n"; cases "hm_get (on_medium d) n") (auto simp: holds_record_def crash_disk_files)

lemma load_from_tombstoned:
  assumes "load_from pc d = Inr ps" and "holds_record (tomb_record pc peer ev) REVOCATIONS_RECORD d"
  shows "tombstoned pc peer ev ps"
  using assms
  by (auto simp: load_from_def refuse_def tombstoned_def revocation_marker_def holds_record_def tomb_record_def
      split: prod.splits sum.splits option.splits dest!: cs_read_cases)

lemma peer_step_tombstoned:
  assumes "postcard_roundtrip pc" and "process_tombstoned pc peer ev p" and "\<not> supersedes peer ev oper"
  shows "process_tombstoned pc peer ev (peer_step pc p oper)"
proof (cases oper)
  case (OpRestart kept junk fs)
  have "holds_record (tomb_record pc peer ev) REVOCATIONS_RECORD (peer_disk p)"
    using assms(2) by (cases p) (simp_all add: tombstoned_def)
  with OpRestart show ?thesis
    by (auto simp: Let_def crash_disk_holds split: sum.splits intro!: load_from_tombstoned)
next
  case (OpFaults fs)
  with assms(2) show ?thesis
    by (cases p) (simp_all add: tombstoned_def revocation_marker_def holds_record_def)
qed (use assms in \<open>cases p; simp add: remember_def tombstoned_fst tombstoned_revoke_other\<close>)+

interpretation tomb: guarded_invariant "peer_step pc"
  "\<lambda>p. postcard_roundtrip pc \<longrightarrow> process_tombstoned pc peer ev p" "\<lambda>oper. \<not> supersedes peer ev oper" for pc peer ev
  by unfold_locales (simp add: peer_step_tombstoned)

section \<open>Revocation is final\<close>

lemma revoked_lookups:
  assumes "revocation_marker ps peer = Some ev"
  shows "revoked ps peer" and "token_of ps peer = None" and "pair_id_of ps peer = None"
    and "peer \<notin> set (known_devices ps)" and "peer \<notin> fst ` set (tokens ps)"
    and "peer \<notin> fst ` set (grace_tokens ps)" and "peer \<notin> fst ` set (peer_records ps)"
  using assms
  by (auto simp: revocation_marker_def revoked_def hm_contains_def token_of_def pair_id_of_def known_devices_def
      tokens_def grace_tokens_def peer_records_def)

lemma revoked_commit_refused:
  assumes "revocation_marker ps peer = Some ev" and "hc_resumed hc \<or> observed_revocation hc \<noteq> Some ev"
  shows "\<exists>e. commit_handshake pc peer hc ps = (ps, Inl e) \<and> io_error_kind e = PermissionDenied"
  using assms by (auto simp: commit_handshake_def refuse_def)


section \<open>What a commit does to the credentials\<close>

text \<open>Two stores with the same credentials: every lookup by device answers the same.\<close>

definition same_credentials :: "'b peer_store \<Rightarrow> 'b peer_store \<Rightarrow> bool" where
  "same_credentials ps ps' \<longleftrightarrow>
     hm_get (ps_map ps') = hm_get (ps_map ps) \<and> hm_get (ps_pair_state ps') = hm_get (ps_pair_state ps) \<and>
     hm_get (ps_revocations ps') = hm_get (ps_revocations ps)"

lemma persist_bytes_mem:
  assumes "persist_bytes n e dur ps = (ps', r)"
  shows "ps_map ps' = ps_map ps \<and> ps_pair_state ps' = ps_pair_state ps \<and> ps_revocations ps' = ps_revocations ps \<and>
    ps_grace ps' = ps_grace ps \<and> ps_last_connected ps' = ps_last_connected ps"
  using assms by (auto simp: persist_bytes_def split: option.splits prod.splits)

lemma remember_token_effect:
  assumes "remember_token pc peer t tok dur ps = (ps', r)"
  shows "ps_pair_state ps' = ps_pair_state ps \<and> ps_revocations ps' = ps_revocations ps \<and>
    ps_grace ps' = ps_grace ps \<and>
    hm_get (ps_map ps') = (case r of Inl _ \<Rightarrow> hm_get (ps_map ps)
      | Inr _ \<Rightarrow> (hm_get (ps_map ps))(peer \<mapsto>
          \<lparr>pr_ticket = (case t of Some x \<Rightarrow> Some x | None \<Rightarrow> Option.bind (hm_get (ps_map ps) peer) pr_ticket),
           pr_token = tok\<rparr>))"
  using assms
  by (auto simp: remember_token_def persist_def Let_def fun_eq_iff split: prod.splits sum.splits option.splits
      dest!: persist_bytes_mem)

lemma restore_pair_state_effect [simp]:
  "ps_map (restore_pair_state peer prev ps) = ps_map ps"
  "ps_revocations (restore_pair_state peer prev ps) = ps_revocations ps"
  "ps_grace (restore_pair_state peer prev ps) = ps_grace ps"
  "ps_disk (restore_pair_state peer prev ps) = ps_disk ps"
  "hm_get (ps_pair_state (restore_pair_state peer prev ps)) = (hm_get (ps_pair_state ps))(peer := prev)"
  by (auto simp: restore_pair_state_def fun_eq_iff split: option.splits)

lemma install_generation_effect:
  assumes "install_generation pc peer hc dur ps = (ps', r)"
  shows "ps_revocations ps' = ps_revocations ps \<and> ps_grace ps' = ps_grace ps \<and>
    (case r of Inl _ \<Rightarrow> same_credentials ps ps'
      | Inr _ \<Rightarrow> map_option pr_token (hm_get (ps_map ps') peer) = Some (hc_token hc) \<and>
          map_option st_pair_id (hm_get (ps_pair_state ps') peer) = Some (candidate_pair_id hc) \<and>
          (\<forall>d. d \<noteq> peer \<longrightarrow> hm_get (ps_map ps') d = hm_get (ps_map ps) d \<and>
             hm_get (ps_pair_state ps') d = hm_get (ps_pair_state ps) d))"
  using assms
  by (auto simp: install_generation_def persist_pair_state_def refuse_def Let_def same_credentials_def fun_eq_iff
      split: prod.splits sum.splits dest!: persist_bytes_mem remember_token_effect)

lemma clear_tombstone_effect:
  assumes "clear_tombstone pc peer ps = (ps', r)"
  shows "ps_map ps' = ps_map ps \<and> ps_pair_state ps' = ps_pair_state ps \<and> ps_grace ps' = ps_grace ps \<and>
    (r = Inr () \<longrightarrow> hm_get (ps_revocations ps') peer = None \<and>
       (\<forall>d. d \<noteq> peer \<longrightarrow> hm_get (ps_revocations ps') d = hm_get (ps_revocations ps) d)) \<and>
    (\<not> revoked ps peer \<longrightarrow> r = Inr () \<and> ps' = ps)"
  using assms
  by (auto simp: clear_tombstone_def persist_revocations_def revoked_def hm_contains_def fun_eq_iff
      split: if_splits prod.splits sum.splits option.splits bind_splits dest!: persist_bytes_mem)

lemma same_credentials_lookups:
  assumes "same_credentials ps ps'"
  shows "token_of ps' = token_of ps" and "pair_id_of ps' = pair_id_of ps" and "revoked ps' = revoked ps"
  using assms
  by (auto simp: same_credentials_def fun_eq_iff token_of_def pair_id_of_def revoked_def hm_contains_def)

lemma commit_handshake_ok:
  assumes "commit_handshake pc peer hc ps = (ps', Inr pid)"
  shows "\<not> revoked ps' peer \<and> ps_grace ps' = ps_grace ps \<and>
    map_option pr_token (hm_get (ps_map ps') peer) = Some (hc_token hc) \<and>
    map_option st_pair_id (hm_get (ps_pair_state ps') peer) = Some pid \<and>
    (\<forall>d. d \<noteq> peer \<longrightarrow> hm_get (ps_map ps') d = hm_get (ps_map ps) d \<and>
       hm_get (ps_pair_state ps') d = hm_get (ps_pair_state ps) d \<and>
       hm_get (ps_revocations ps') d = hm_get (ps_revocations ps) d)"
  using assms
  by (auto simp: commit_handshake_def refuse_def revocation_marker_def revoked_def hm_contains_def
      split: if_splits prod.splits sum.splits option.splits
      dest!: remember_token_effect install_generation_effect clear_tombstone_effect)

lemma commit_handshake_err:
  assumes "commit_handshake pc peer hc ps = (ps', Inl e)" and "\<not> revoked ps peer"
  shows "same_credentials ps ps'"
  using assms
  by (auto simp: commit_handshake_def refuse_def revocation_marker_def revoked_def hm_contains_def same_credentials_def
      split: if_splits prod.splits sum.splits option.splits
      dest!: remember_token_effect install_generation_effect clear_tombstone_effect)

text \<open>
  A commit is all or nothing in what the process goes on to accept. When it succeeds, the peer's
  token is the new one, its generation is the one reported (the existing generation on a resume that
  had one, the candidate otherwise), it is not revoked, and nothing changed for any other peer. When
  it fails for a peer that was not revoked, whatever system call failed and however the rollback
  fared, every device has the token, generation and revocation it had before.
\<close>

theorem commit_is_all_or_nothing:
  assumes "commit_handshake pc peer hc ps = (ps', r)"
  shows "case r of
      Inr pid \<Rightarrow> token_of ps' peer = Some (hc_token hc) \<and> pair_id_of ps' peer = Some pid \<and>
        pid = (case hm_get (ps_pair_state ps) peer of
                 Some st \<Rightarrow> if hc_resumed hc then st_pair_id st else candidate_pair_id hc
               | None \<Rightarrow> candidate_pair_id hc) \<and>
        (\<forall>d. d \<noteq> peer \<longrightarrow> token_of ps' d = token_of ps d \<and> pair_id_of ps' d = pair_id_of ps d)
    | Inl e \<Rightarrow> revoked ps peer \<or> token_of ps' = token_of ps \<and> pair_id_of ps' = pair_id_of ps \<and> revoked ps' = revoked ps"
proof (cases r)
  case (Inl e)
  with assms commit_handshake_err same_credentials_lookups show ?thesis by fastforce
next
  case (Inr pid)
  have pid: "pid = (case hm_get (ps_pair_state ps) peer of
      Some st \<Rightarrow> if hc_resumed hc then st_pair_id st else candidate_pair_id hc | None \<Rightarrow> candidate_pair_id hc)"
    using assms Inr
    by (auto simp: commit_handshake_def refuse_def split: if_splits prod.splits sum.splits option.splits)
  from commit_handshake_ok [OF assms [unfolded Inr]] pid Inr show ?thesis
    by (auto simp: token_of_def pair_id_of_def revoked_def hm_contains_def)
qed

text \<open>
  No lost update. Of the reconnects that authenticated against the same token, at most one
  commits: once one of them has rotated the token, every other is refused before anything is written,
  so the token the peer was told to keep stays the one on record.
\<close>

theorem concurrent_resumes_commit_once:
  assumes "hc_resumed hc1" and "hc_resumed hc2" and "observed_token hc1 = observed_token hc2"
    and "observed_token hc1 \<noteq> Some (hc_token hc1)" and "commit_handshake pc peer hc1 ps = (ps1, Inr pid)"
  shows "(\<exists>e. commit_handshake pc' peer hc2 ps1 = (ps1, Inl e) \<and> io_error_kind e = PermissionDenied) \<and>
    token_of ps1 peer = Some (hc_token hc1)"
  using commit_handshake_ok [OF assms(5)] assms(1-4)
  by (auto simp: commit_handshake_def token_is_unchanged_def refuse_def token_of_def revocation_marker_def revoked_def
      hm_contains_def split: option.splits)

section \<open>The one-use previous token\<close>

lemma persist_grace_mem:
  assumes "persist_grace pc ps = (ps', r)"
  shows "ps_map ps' = ps_map ps \<and> ps_pair_state ps' = ps_pair_state ps \<and> ps_revocations ps' = ps_revocations ps \<and>
    ps_grace ps' = ps_grace ps"
  using persist_grace_frame [OF assms] by (metis peer_store.select_convs(1-4) peer_store.surjective peer_store.update_convs(6))

lemma grace_ops_effect:
  "ps_map (set_grace pc peer g ps) = ps_map ps \<and> ps_pair_state (set_grace pc peer g ps) = ps_pair_state ps \<and>
   ps_revocations (set_grace pc peer g ps) = ps_revocations ps \<and>
   ps_grace (set_grace pc peer g ps) = hm_insert peer g (ps_grace ps)"
  "ps_map (drop_grace pc peer ps) = ps_map ps \<and> ps_pair_state (drop_grace pc peer ps) = ps_pair_state ps \<and>
   ps_revocations (drop_grace pc peer ps) = ps_revocations ps \<and>
   hm_get (ps_grace (drop_grace pc peer ps)) = (hm_get (ps_grace ps))(peer := None)"
proof -
  show "ps_map (set_grace pc peer g ps) = ps_map ps \<and> ps_pair_state (set_grace pc peer g ps) = ps_pair_state ps \<and>
    ps_revocations (set_grace pc peer g ps) = ps_revocations ps \<and>
    ps_grace (set_grace pc peer g ps) = hm_insert peer g (ps_grace ps)"
    using persist_grace_mem [OF surjective_pairing, of pc "ps\<lparr>ps_grace := hm_insert peer g (ps_grace ps)\<rparr>"]
    by (simp add: set_grace_def)
  show "ps_map (drop_grace pc peer ps) = ps_map ps \<and> ps_pair_state (drop_grace pc peer ps) = ps_pair_state ps \<and>
    ps_revocations (drop_grace pc peer ps) = ps_revocations ps \<and>
    hm_get (ps_grace (drop_grace pc peer ps)) = (hm_get (ps_grace ps))(peer := None)"
    using persist_grace_mem [OF surjective_pairing, of pc "ps\<lparr>ps_grace := hm_remove peer (ps_grace ps)\<rparr>"]
    by (auto simp: drop_grace_def hm_contains_def fun_eq_iff)
qed

lemma hm_get_grace_tokens:
  assumes "hm_wf (ps_grace ps)"
  shows "hm_get (grace_tokens ps) peer =
    (case hm_get (ps_grace ps) peer of None \<Rightarrow> None | Some g \<Rightarrow>
       if \<not> revoked ps peer \<and> hm_contains (ps_map ps) peer \<and>
          map_option st_pair_id (hm_get (ps_pair_state ps) peer) = Some (g_pair_id g)
       then Some (g_token g) else None)"
  using assms by (auto simp: grace_tokens_def map_of_map hm_get_filter split: option.splits)

lemma drop_grace_no_token:
  "hm_get (grace_tokens (drop_grace pc peer ps)) peer = None"
proof -
  have "hm_get (ps_grace (drop_grace pc peer ps)) peer = None"
    using grace_ops_effect(2) [of pc peer ps] by simp
  then show ?thesis by (auto simp: grace_tokens_def map_of_map map_of_eq_None_iff)
qed

lemma commit_current_token:
  assumes "commit_host_handshake pc peer hc CurrentToken ps = (ps', Inr pid)" and "hc_resumed hc"
    and "observed_token hc = Some t"
  shows "commit_handshake pc peer hc (set_grace pc peer \<lparr>g_pair_id = pid, g_token = t\<rparr> ps) = (ps', Inr pid)"
  using assms grace_ops_effect(1) [of pc peer _ ps]
  by (auto simp: commit_host_handshake_def commit_handshake_def refuse_def Let_def revocation_marker_def
      token_is_unchanged_def split: if_splits option.splits prod.splits sum.splits)

text \<open>
  A missed rotation heals, once. When a resume on the current token commits on the host, the
  token that authenticated it is accepted for one more reconnect beside the new one, in the same
  generation; when a resume on that previous token commits, it is accepted no longer and the freshly
  derived token takes over.
\<close>

theorem missed_rotation_heals_once:
  assumes "hm_wf (ps_grace ps)" and "hc_resumed hc1" and "observed_token hc1 = Some t0"
    and "commit_host_handshake pc peer hc1 CurrentToken ps = (ps1, Inr pid1)"
    and "hc_resumed hc2" and "commit_host_handshake pc peer hc2 PreviousToken ps1 = (ps2, Inr pid2)"
  shows "hm_get (grace_tokens ps1) peer = Some t0 \<and> token_of ps1 peer = Some (hc_token hc1) \<and>
    hm_get (grace_tokens ps2) peer = None \<and> token_of ps2 peer = Some (hc_token hc2) \<and> pid2 = pid1"
proof -
  define q where "q = set_grace pc peer \<lparr>g_pair_id = pid1, g_token = t0\<rparr> ps"
  have q: "ps_grace q = hm_insert peer \<lparr>g_pair_id = pid1, g_token = t0\<rparr> (ps_grace ps)"
    by (simp add: q_def grace_ops_effect)
  have c1: "commit_handshake pc peer hc1 q = (ps1, Inr pid1)"
    unfolding q_def by (rule commit_current_token [OF assms(4,2,3)])
  note ok1 = commit_handshake_ok [OF c1]
  from ok1 q assms(1) have wf1: "hm_wf (ps_grace ps1)" by simp
  have one: "hm_get (grace_tokens ps1) peer = Some t0 \<and> token_of ps1 peer = Some (hc_token hc1)"
    using ok1 q by (auto simp: hm_get_grace_tokens [OF wf1] token_of_def hm_contains_def)
  from assms(5,6) obtain ps3 where c2: "commit_handshake pc peer hc2 ps1 = (ps3, Inr pid2)"
    and ps2: "ps2 = drop_grace pc peer ps3"
    by (auto simp: commit_host_handshake_def split: prod.splits sum.splits)
  have "pid2 = pid1"
    using c2 assms(5) ok1
    by (auto simp: commit_handshake_def refuse_def split: if_splits prod.splits sum.splits option.splits)
  moreover have "token_of ps2 peer = Some (hc_token hc2)"
    using commit_handshake_ok [OF c2] grace_ops_effect(2) [of pc peer ps3]
    by (auto simp: ps2 token_of_def revoked_def)
  ultimately show ?thesis using one drop_grace_no_token by (simp add: ps2)
qed

section \<open>Re-pairing a revoked peer\<close>

definition token_record :: "'b postcard \<Rightarrow> device_id \<Rightarrow> token \<Rightarrow> 'b option \<Rightarrow> bool" where
  "token_record pc peer tok stored =
     (case stored of None \<Rightarrow> False | Some b \<Rightarrow>
       (case dec_peers pc b of None \<Rightarrow> False | Some m \<Rightarrow> map_option pr_token (hm_get m peer) = Some tok))"

lemma remember_token_durable:
  assumes "remember_token pc peer t tok Required ps = (ps', Inr x)" and "postcard_roundtrip pc"
  shows "holds_record (token_record pc peer tok) PEERS_RECORD (ps_disk ps')"
proof -
  define m where "m = hm_insert peer
    \<lparr>pr_ticket = (case t of Some x \<Rightarrow> Some x | None \<Rightarrow> Option.bind (hm_get (ps_map ps) peer) pr_ticket),
     pr_token = tok\<rparr> (ps_map ps)"
  have "persist_bytes PEERS_RECORD (enc_peers pc m) Required (ps\<lparr>ps_map := m\<rparr>) = (ps', Inr ())"
    using assms(1)
    by (auto simp: remember_token_def persist_def m_def Let_def split: prod.splits sum.splits option.splits)
  then obtain b where "enc_peers pc m = Some b" "hm_get (files (ps_disk ps')) PEERS_RECORD = Some b"
    "hm_get (on_medium (ps_disk ps')) PEERS_RECORD = Some b"
    "PEERS_RECORD \<notin> set (unflushed (ps_disk ps'))" "PEERS_RECORD \<notin> set (torn (ps_disk ps'))"
    by (rule persist_bytes_durable) simp
  with assms(2) show ?thesis
    by (simp add: holds_record_def token_record_def postcard_roundtrip_def m_def)
qed

lemma install_generation_durable:
  assumes "install_generation pc peer hc Required ps = (ps', Inr x)" and "postcard_roundtrip pc"
  shows "holds_record (token_record pc peer (hc_token hc)) PEERS_RECORD (ps_disk ps')"
  using assms
  by (auto simp: install_generation_def refuse_def Let_def split: prod.splits sum.splits intro: remember_token_durable)

lemma clear_tombstone_holds:
  assumes "clear_tombstone pc peer ps = (ps', r)" and "holds_record Q PEERS_RECORD (ps_disk ps)"
  shows "holds_record Q PEERS_RECORD (ps_disk ps')"
proof -
  have "holds_record Q PEERS_RECORD (ps_disk ps1)"
    if "persist_revocations pc (ps\<lparr>ps_revocations := m\<rparr>) = (ps1, x)" for ps1 x m
    using persist_bytes_holds [OF that [unfolded persist_revocations_def], of Q PEERS_RECORD] assms(2) by simp
  with assms show ?thesis
    by (auto simp: clear_tombstone_def cs_read_holds split: if_splits prod.splits sum.splits option.splits)
qed

lemma load_from_token:
  assumes "load_from pc d = Inr ps" and "holds_record (token_record pc peer tok) PEERS_RECORD d"
  shows "token_of ps peer \<in> {None, Some tok}"
  using assms
  by (auto simp: load_from_def refuse_def token_of_def holds_record_def token_record_def unwrap_or_default_def
      split: prod.splits sum.splits option.splits dest!: cs_read_cases)


section \<open>An instance\<close>

text \<open>Records kept as they are, in place of postcard.\<close>

datatype content =
    CPeers "(device_id, peer_record) hashmap"
  | CStates "(device_id, pair_state) hashmap"
  | CRevocations "(device_id, revocation_record) hashmap"
  | CGraces "(device_id, grace_token) hashmap"
  | CDevice device_id

definition plain_postcard :: "content postcard" where
  "plain_postcard = \<lparr>
     enc_peers = \<lambda>x. Some (CPeers x), dec_peers = \<lambda>b. (case b of CPeers x \<Rightarrow> Some x | _ \<Rightarrow> None),
     enc_states = \<lambda>x. Some (CStates x), dec_states = \<lambda>b. (case b of CStates x \<Rightarrow> Some x | _ \<Rightarrow> None),
     enc_revocations = \<lambda>x. Some (CRevocations x), dec_revocations = \<lambda>b. (case b of CRevocations x \<Rightarrow> Some x | _ \<Rightarrow> None),
     enc_graces = \<lambda>x. Some (CGraces x), dec_graces = \<lambda>b. (case b of CGraces x \<Rightarrow> Some x | _ \<Rightarrow> None),
     enc_device = \<lambda>x. Some (CDevice x), dec_device = \<lambda>b. (case b of CDevice x \<Rightarrow> Some x | _ \<Rightarrow> None)\<rparr>"

lemma plain_postcard_roundtrip: "postcard_roundtrip plain_postcard"
  by (simp add: postcard_roundtrip_def plain_postcard_def)

definition empty_store :: "content peer_store" where
  "empty_store = \<lparr>ps_map = [], ps_pair_state = [], ps_revocations = [], ps_grace = [],
     ps_last_connected = None, ps_disk = empty_disk []\<rparr>"

definition fresh_commit :: "u8 \<Rightarrow> bytes option \<Rightarrow> handshake_commit" where
  "fresh_commit n seen = \<lparr>hc_ticket = None, hc_token = [n], hc_resumed = False, candidate_pair_id = [n],
     candidate_event_key = [n], observed_revocation = seen, observed_token = None\<rparr>"

definition resume_commit :: "u8 \<Rightarrow> u8 \<Rightarrow> handshake_commit" where
  "resume_commit seen n = \<lparr>hc_ticket = None, hc_token = [n], hc_resumed = True, candidate_pair_id = [n],
     candidate_event_key = [n], observed_revocation = None, observed_token = Some [seen]\<rparr>"

definition paired_store :: "content peer_store" where
  "paired_store = fst (commit_handshake plain_postcard [7] (fresh_commit 1 None) empty_store)"

definition revoked_store :: "content peer_store" where
  "revoked_store = fst (revoke plain_postcard [9] 5 [7] paired_store)"

definition rotated_store :: "content peer_store" where
  "rotated_store = fst (commit_host_handshake plain_postcard [7] (resume_commit 1 2) CurrentToken paired_store)"

text \<open>The ninth coming system call fails: the eight before it make the tombstone of a revocation durable.\<close>

definition full_after_tombstone :: "io_error option list" where
  "full_after_tombstone = replicate 8 None @ [Some (IoError StorageFull ''full'')]"

lemma revoked_store_ok:
  "revoke plain_postcard [9] 5 [7] paired_store =
     (revoked_store, Inr \<lparr>rv_event_id = [9], rv_pair_id = Some [1], rv_event_key = Some [1], rv_revoked_at = 5\<rparr>)"
  unfolding revoked_store_def by (rule prod_eqI) (simp, code_simp)


theorem commit_is_all_or_nothing_witness:
  "token_of paired_store [7] = Some [1] \<and> pair_id_of paired_store [7] = Some [1]"
proof -
  have "snd (commit_handshake plain_postcard [7] (fresh_commit 1 None) empty_store) = Inr [1]" by code_simp
  then have "commit_handshake plain_postcard [7] (fresh_commit 1 None) empty_store = (paired_store, Inr [1])"
    by (simp add: paired_store_def prod_eq_iff)
  from commit_is_all_or_nothing [OF this] show ?thesis by (simp add: fresh_commit_def)
qed

theorem concurrent_resumes_commit_once_witness:
  "\<exists>ps1 e. commit_handshake plain_postcard [7] (resume_commit 1 2) paired_store = (ps1, Inr [1]) \<and>
     commit_handshake plain_postcard [7] (resume_commit 1 3) ps1 = (ps1, Inl e) \<and> token_of ps1 [7] = Some [2]"
proof -
  have "snd (commit_handshake plain_postcard [7] (resume_commit 1 2) paired_store) = Inr [1]" by code_simp
  then obtain ps1 where c: "commit_handshake plain_postcard [7] (resume_commit 1 2) paired_store = (ps1, Inr [1])"
    by (metis prod.collapse)
  from concurrent_resumes_commit_once [OF _ _ _ _ c, of "resume_commit 1 3" plain_postcard] c show ?thesis
    by (auto simp: resume_commit_def)
qed

theorem missed_rotation_heals_once_witness:
  "\<exists>ps2. commit_host_handshake plain_postcard [7] (resume_commit 2 3) PreviousToken rotated_store = (ps2, Inr [1]) \<and>
     hm_get (grace_tokens rotated_store) [7] = Some [1] \<and> hm_get (grace_tokens ps2) [7] = None \<and>
     token_of ps2 [7] = Some [3]"
proof -
  have wf: "hm_wf (ps_grace paired_store)" by code_simp
  have "snd (commit_host_handshake plain_postcard [7] (resume_commit 1 2) CurrentToken paired_store) = Inr [1]"
    by code_simp
  then have c1: "commit_host_handshake plain_postcard [7] (resume_commit 1 2) CurrentToken paired_store =
      (rotated_store, Inr [1])"
    by (simp add: rotated_store_def prod_eq_iff)
  have "snd (commit_host_handshake plain_postcard [7] (resume_commit 2 3) PreviousToken rotated_store) = Inr [1]"
    by code_simp
  then obtain ps2 where c2: "commit_host_handshake plain_postcard [7] (resume_commit 2 3) PreviousToken rotated_store =
      (ps2, Inr [1])"
    by (metis prod.collapse)
  from missed_rotation_heals_once [OF wf _ _ c1 _ c2, of "[1]"] c2 show ?thesis
    by (auto simp: resume_commit_def)
qed


section \<open>A second revocation that cannot be written\<close>

lemma load_from_marker:
  assumes "load_from pc d = Inr ps" and "tomb_record pc peer ev (hm_get (files d) REVOCATIONS_RECORD)"
  shows "revocation_marker ps peer = Some ev"
  using assms
  by (auto simp: load_from_def refuse_def revocation_marker_def tomb_record_def
      split: prod.splits sum.splits option.splits dest!: cs_read_cases)


text \<open>The first revocation is durable but its token clean-up fails; the process restarts, and the disk is full.\<close>

definition half_revoked :: "content process" where
  "half_revoked = foldl (peer_step plain_postcard) (Running paired_store)
     [OpFaults full_after_tombstone, OpRevoke [9] 5 [7], OpRestart (\<lambda>_. True) (\<lambda>_. CDevice []) [],
      OpFaults [Some (IoError StorageFull ''full'')]]"


end
