(* ===== verification/Handshake.thy ===== *)
theory Handshake
  imports Frame_Codec Envelope Enrollment Peer_Store
begin

text \<open>
  The mutual handshake of \<open>crates/transport/src/handshake.rs\<close>: the client and server state machines
  that turn one credential (an out-of-band pairing secret or a stored resumption token) and one
  ephemeral key exchange into a session key on both sides. What the code draws at random or reads
  from the clock is an argument of the step that draws it.
\<close>

section \<open>Messages, outcomes and derived material\<close>

type_synonym session_secret = bytes

datatype handshake_message =
    Hello device_id u16 string bytes
  | PairingChallenge bytes bytes
  | PairingProof bytes
  | PairingOk device_id string
  | PairingFailed pairing_failure

record done_info =
  dn_session :: session_secret
  dn_peer_device_id :: device_id
  dn_peer_display_name :: string
  dn_resumed :: bool
  dn_previous_token :: bool
  dn_enrollment_epoch :: "u64 option"

datatype handshake_outcome = Send handshake_message | Done done_info | Failed pairing_failure

fun variant_name :: "handshake_message \<Rightarrow> string" where
  "variant_name (Hello _ _ _ _) = ''Hello''"
| "variant_name (PairingChallenge _ _) = ''PairingChallenge''"
| "variant_name (PairingProof _) = ''PairingProof''"
| "variant_name (PairingOk _ _) = ''PairingOk''"
| "variant_name (PairingFailed _) = ''PairingFailed''"

definition PAIR_ID_LABEL :: bytes where
  "PAIR_ID_LABEL = ascii ''portty-pair-id-v1''"

definition PAIR_EVENT_KEY_LABEL :: bytes where
  "PAIR_EVENT_KEY_LABEL = ascii ''portty-pair-event-key-v1''"

definition TRANSCRIPT_DOMAIN :: bytes where
  "TRANSCRIPT_DOMAIN = ascii ''portty-handshake-transcript-v1''"

definition derive_pair_material :: "crypto \<Rightarrow> session_secret \<Rightarrow> (pair_id \<times> event_key) sync_result" where
  "derive_pair_material cr session =
     (case derive_subkey cr session PAIR_ID_LABEL of
        Inl e \<Rightarrow> Inl e
      | Inr id_key \<Rightarrow>
          (case derive_subkey cr session PAIR_EVENT_KEY_LABEL of
             Inl e \<Rightarrow> Inl e
           | Inr ek \<Rightarrow> Inr (take 16 id_key, ek)))"

definition derive_reconnect_token :: "crypto \<Rightarrow> session_secret \<Rightarrow> token sync_result" where
  "derive_reconnect_token cr session = derive_resumption_token cr session"

definition build_transcript :: "bytes \<Rightarrow> bytes \<Rightarrow> bytes" where
  "build_transcript client_eph_pub server_eph_pub =
     TRANSCRIPT_DOMAIN @ to_le 2 (unat PROTOCOL_VERSION) @ client_eph_pub @ server_eph_pub"

definition unexpected :: "string \<Rightarrow> string \<Rightarrow> 'a sync_result" where
  "unexpected state actual = Inl (SyncProtocol (UnexpectedMessage state actual))"

section \<open>The client\<close>

datatype client_state =
    ClientInit
  | SentHello
  | SentProof "session_secret option"
  | ClientDone
  | ClientFailed

datatype client_credential = FirstPair pairing_secret | Resume token

record client_handshake =
  ch_state :: client_state
  ch_device_id :: device_id
  ch_display_name :: string
  ch_credential :: client_credential
  ch_eph_secret :: "bytes option"
  ch_client_eph_pub :: bytes

definition with_credential :: "device_id \<Rightarrow> string \<Rightarrow> client_credential \<Rightarrow> client_handshake" where
  "with_credential did name cred =
     \<lparr>ch_state = ClientInit, ch_device_id = did, ch_display_name = name, ch_credential = cred,
      ch_eph_secret = None, ch_client_eph_pub = replicate 32 0\<rparr>"

definition first_pair :: "device_id \<Rightarrow> string \<Rightarrow> pairing_secret \<Rightarrow> client_handshake" where
  "first_pair did name secret = with_credential did name (FirstPair secret)"

definition resume :: "device_id \<Rightarrow> string \<Rightarrow> token \<Rightarrow> client_handshake" where
  "resume did name tok = with_credential did name (Resume tok)"

definition is_resume :: "client_handshake \<Rightarrow> bool" where
  "is_resume ch = (case ch_credential ch of Resume _ \<Rightarrow> True | FirstPair _ \<Rightarrow> False)"

definition verification_code :: "crypto \<Rightarrow> client_handshake \<Rightarrow> string option" where
  "verification_code cr ch =
     (if is_resume ch then None
      else case ch_state ch of
             SentProof (Some s) \<Rightarrow> (case pair_verification_code cr s of Inl _ \<Rightarrow> None | Inr c \<Rightarrow> Some c)
           | _ \<Rightarrow> None)"

definition client_start :: "crypto \<Rightarrow> bytes \<Rightarrow> client_handshake \<Rightarrow> client_handshake \<times> handshake_message" where
  "client_start cr rnd ch =
     (let (eph, pub) = generate_ephemeral cr rnd
      in (ch\<lparr>ch_state := SentHello, ch_eph_secret := Some eph, ch_client_eph_pub := pub\<rparr>,
          Hello (ch_device_id ch) PROTOCOL_VERSION (ch_display_name ch) pub))"

fun client_state_name :: "client_state \<Rightarrow> string" where
  "client_state_name ClientInit = ''Init''"
| "client_state_name SentHello = ''SentHello''"
| "client_state_name (SentProof _) = ''SentProof''"
| "client_state_name ClientDone = ''Done''"
| "client_state_name ClientFailed = ''Failed''"

definition credential_key :: "crypto \<Rightarrow> client_credential \<Rightarrow> bytes" where
  "credential_key cr cred = (case cred of Resume tok \<Rightarrow> tok | FirstPair secret \<Rightarrow> first_pair_key cr secret)"

text \<open>The answer to a challenge; the ephemeral secret is used up whatever happens next.\<close>

definition client_challenge ::
  "crypto \<Rightarrow> client_handshake \<Rightarrow> bytes \<Rightarrow> bytes \<Rightarrow> client_handshake \<times> handshake_outcome sync_result" where
  "client_challenge cr ch nonce server_eph_pub =
     (case ch_eph_secret ch of
        None \<Rightarrow> (ch, unexpected ''SentHello'' ''challenge before ephemeral key was generated'')
      | Some eph \<Rightarrow>
          (let ch1 = ch\<lparr>ch_eph_secret := None\<rparr> in
           case ecdh_shared cr eph server_eph_pub of
             Inl e \<Rightarrow> (ch1, Inl e)
           | Inr ecdh \<Rightarrow>
               (let transcript = build_transcript (ch_client_eph_pub ch) server_eph_pub;
                    key = credential_key cr (ch_credential ch);
                    prf = proof_from_key cr key nonce transcript
                in case derive_session_from_key cr key nonce ecdh of
                     Inl e \<Rightarrow> (ch1, Inl e)
                   | Inr session \<Rightarrow>
                       (ch1\<lparr>ch_state := SentProof (Some session)\<rparr>, Inr (Send (PairingProof prf))))))"

fun client_step ::
  "crypto \<Rightarrow> client_handshake \<Rightarrow> handshake_message \<Rightarrow> client_handshake \<times> handshake_outcome sync_result" where
  "client_step cr ch incoming =
     (case (ch_state ch, incoming) of
        (SentHello, PairingFailed reason) \<Rightarrow> (ch\<lparr>ch_state := ClientFailed\<rparr>, Inr (Failed reason))
      | (SentProof _, PairingFailed reason) \<Rightarrow> (ch\<lparr>ch_state := ClientFailed\<rparr>, Inr (Failed reason))
      | (SentHello, PairingChallenge nonce server_eph_pub) \<Rightarrow> client_challenge cr ch nonce server_eph_pub
      | (SentProof session, PairingOk did name) \<Rightarrow>
          (ch\<lparr>ch_state := ClientDone\<rparr>,
           case session of
             None \<Rightarrow> unexpected ''SentProof'' ''session already taken''
           | Some s \<Rightarrow> Inr (Done \<lparr>dn_session = s, dn_peer_device_id = did, dn_peer_display_name = name,
                 dn_resumed = is_resume ch, dn_previous_token = False, dn_enrollment_epoch = None\<rparr>))
      | (st, m) \<Rightarrow> (ch, unexpected (client_state_name st) (variant_name m)))"

section \<open>The server\<close>

record challenge =
  sc_nonce :: bytes
  sc_session :: session_secret
  sc_peer_device_id :: device_id
  sc_peer_display_name :: string
  sc_auth_token :: "token option"
  sc_grace_token :: "token option"
  sc_enrollment_epoch :: "u64 option"
  sc_ecdh :: bytes
  sc_transcript :: bytes

datatype server_state = AwaitingHello | SentChallenge challenge | ServerDone | ServerFailed

text \<open>
  \<open>sv_windowed\<close>: an enrollment window has been injected. The shared rate limiter and pairing state are
  in \<open>host_shared\<close>, behind mutexes; \<open>None\<close> stands for a poisoned mutex.
\<close>

record server_handshake =
  sv_state :: server_state
  sv_device_id :: device_id
  sv_display_name :: string
  sv_rate_limit_key :: string
  sv_windowed :: bool
  sv_snapshot_epoch :: "u64 option"
  sv_pairing_secrets :: "pairing_secret list"
  sv_enrollment_exempt_device :: "device_id option"
  sv_resumption_tokens :: "(device_id, token) hashmap"
  sv_grace_tokens :: "(device_id, token) hashmap"
  sv_authenticated_device :: "device_id option"
  sv_authenticated_device_revoked :: bool

record host_shared =
  hs_rate_limiter :: "keyed_limiter option"
  hs_pairing :: "pairing_state option"

record server_env =
  env_gate_now :: instant
  env_limit_now :: instant
  env_nonce :: bytes
  env_eph :: bytes

definition new_server :: "device_id \<Rightarrow> string \<Rightarrow> server_handshake" where
  "new_server did name =
     \<lparr>sv_state = AwaitingHello, sv_device_id = did, sv_display_name = name, sv_rate_limit_key = [],
      sv_windowed = False, sv_snapshot_epoch = None, sv_pairing_secrets = [],
      sv_enrollment_exempt_device = None, sv_resumption_tokens = [], sv_grace_tokens = [],
      sv_authenticated_device = None, sv_authenticated_device_revoked = False\<rparr>"

definition with_rate_limit_key :: "string \<Rightarrow> server_handshake \<Rightarrow> server_handshake" where
  "with_rate_limit_key key sv = sv\<lparr>sv_rate_limit_key := key\<rparr>"

definition with_first_pair :: "pairing_snapshot \<Rightarrow> server_handshake \<Rightarrow> server_handshake" where
  "with_first_pair snap sv =
     sv\<lparr>sv_windowed := True, sv_snapshot_epoch := snap_epoch snap, sv_pairing_secrets := snap_secrets snap\<rparr>"

definition with_pairing_window :: "u64 option \<Rightarrow> server_handshake \<Rightarrow> server_handshake" where
  "with_pairing_window e sv = sv\<lparr>sv_windowed := True, sv_snapshot_epoch := e\<rparr>"

definition with_unwindowed_pairing_secrets :: "pairing_secret list \<Rightarrow> server_handshake \<Rightarrow> server_handshake" where
  "with_unwindowed_pairing_secrets ss sv = sv\<lparr>sv_pairing_secrets := ss\<rparr>"

definition with_enrollment_exempt_device :: "device_id option \<Rightarrow> server_handshake \<Rightarrow> server_handshake" where
  "with_enrollment_exempt_device d sv = sv\<lparr>sv_enrollment_exempt_device := d\<rparr>"

definition with_resumption_tokens :: "(device_id, token) hashmap \<Rightarrow> server_handshake \<Rightarrow> server_handshake" where
  "with_resumption_tokens ts sv = sv\<lparr>sv_resumption_tokens := ts\<rparr>"

definition with_grace_tokens :: "(device_id, token) hashmap \<Rightarrow> server_handshake \<Rightarrow> server_handshake" where
  "with_grace_tokens ts sv = sv\<lparr>sv_grace_tokens := ts\<rparr>"

definition with_authenticated_device :: "device_id \<Rightarrow> bool \<Rightarrow> server_handshake \<Rightarrow> server_handshake" where
  "with_authenticated_device d was_revoked sv =
     sv\<lparr>sv_authenticated_device := Some d, sv_authenticated_device_revoked := was_revoked\<rparr>"

definition reject_unreadable_version :: "server_handshake \<Rightarrow> server_handshake \<times> handshake_message" where
  "reject_unreadable_version sv = (sv\<lparr>sv_state := ServerFailed\<rparr>, PairingFailed UnsupportedVersion)"

fun server_state_name :: "server_state \<Rightarrow> string" where
  "server_state_name AwaitingHello = ''AwaitingHello''"
| "server_state_name (SentChallenge _) = ''SentChallenge''"
| "server_state_name ServerDone = ''Done''"
| "server_state_name ServerFailed = ''Failed''"

text \<open>A refusal moves the machine to its failed state and sends the reason.\<close>

definition refused :: "pairing_failure \<Rightarrow> server_handshake \<Rightarrow> server_handshake \<times> handshake_outcome sync_result" where
  "refused reason sv = (sv\<lparr>sv_state := ServerFailed\<rparr>, Inr (Send (PairingFailed reason)))"

text \<open>The enrollment gate of a first pair: the opportunity it was let in under, or why it was refused.\<close>

definition first_pair_window ::
  "server_env \<Rightarrow> host_shared \<Rightarrow> server_handshake \<Rightarrow> device_id \<Rightarrow> host_shared \<times> (pairing_failure + u64 option)" where
  "first_pair_window env sh sv did =
     (if hm_contains (sv_resumption_tokens sv) did \<or> sv_enrollment_exempt_device sv = Some did \<or> \<not> sv_windowed sv
      then (sh, Inr None)
      else
        (let (sh1, gate) =
           (case hs_pairing sh of
              None \<Rightarrow> (sh, GateClosed)
            | Some p \<Rightarrow> (let (p', g) = gate_first_pair (env_gate_now env) (sv_snapshot_epoch sv) p
                         in (sh\<lparr>hs_pairing := Some p'\<rparr>, g)))
         in case gate of
              Allow e \<Rightarrow> (sh1, Inr (Some e))
            | GateClosed \<Rightarrow> (sh1, Inl (if sv_authenticated_device_revoked sv then Revoked else PairingClosed))
            | GateLocked \<Rightarrow> (sh1, Inl RateLimited)))"

definition rate_limited :: "server_env \<Rightarrow> host_shared \<Rightarrow> server_handshake \<Rightarrow> host_shared \<times> bool" where
  "rate_limited env sh sv =
     (case hs_rate_limiter sh of
        None \<Rightarrow> (sh, True)
      | Some rl \<Rightarrow>
          (let (rl', r) = keyed_check_and_reserve (env_limit_now env) (sv_rate_limit_key sv) rl
           in (sh\<lparr>hs_rate_limiter := Some rl'\<rparr>, isl r)))"

text \<open>Everything after the gates: the ephemeral exchange and the challenge.\<close>

definition issue_challenge ::
  "crypto \<Rightarrow> server_env \<Rightarrow> server_handshake \<Rightarrow> device_id \<Rightarrow> string \<Rightarrow> bytes \<Rightarrow> u64 option \<Rightarrow>
     server_handshake \<times> handshake_outcome sync_result" where
  "issue_challenge cr env sv did name client_eph_pub epoch =
     (let nonce = env_nonce env;
          (eph, server_eph_pub) = generate_ephemeral cr (env_eph env)
      in case ecdh_shared cr eph client_eph_pub of
           Inl e \<Rightarrow> (sv, Inl e)
         | Inr ecdh \<Rightarrow>
             (let transcript = build_transcript client_eph_pub server_eph_pub;
                  auth_token = hm_get (sv_resumption_tokens sv) did;
                  grace = (case auth_token of None \<Rightarrow> None | Some _ \<Rightarrow> hm_get (sv_grace_tokens sv) did);
                  key = (case auth_token of
                           Some tok \<Rightarrow> Some tok
                         | None \<Rightarrow> (case sv_pairing_secrets sv of [] \<Rightarrow> None | s # _ \<Rightarrow> Some (first_pair_key cr s)))
              in case key of
                   None \<Rightarrow> refused PairingClosed sv
                 | Some k \<Rightarrow>
                     (case derive_session_from_key cr k nonce ecdh of
                        Inl e \<Rightarrow> (sv, Inl e)
                      | Inr session \<Rightarrow>
                          (sv\<lparr>sv_state := SentChallenge
                             \<lparr>sc_nonce = nonce, sc_session = session, sc_peer_device_id = did,
                              sc_peer_display_name = name, sc_auth_token = auth_token, sc_grace_token = grace,
                              sc_enrollment_epoch = epoch, sc_ecdh = ecdh, sc_transcript = transcript\<rparr>\<rparr>,
                           Inr (Send (PairingChallenge nonce server_eph_pub))))))"

definition server_hello ::
  "crypto \<Rightarrow> server_env \<Rightarrow> host_shared \<Rightarrow> server_handshake \<Rightarrow> device_id \<Rightarrow> u16 \<Rightarrow> string \<Rightarrow> bytes \<Rightarrow>
     host_shared \<times> server_handshake \<times> handshake_outcome sync_result" where
  "server_hello cr env sh sv did version name client_eph_pub =
     (if \<not> supports_protocol_version version then (sh, refused UnsupportedVersion sv)
      else if (case sv_authenticated_device sv of None \<Rightarrow> False | Some a \<Rightarrow> a \<noteq> did) then (sh, refused WrongPin sv)
      else if \<not> hm_contains (sv_resumption_tokens sv) did \<and> sv_pairing_secrets sv = [] then
        (sh, refused PairingClosed sv)
      else case first_pair_window env sh sv did of
        (sh1, Inl reason) \<Rightarrow> (sh1, refused reason sv)
      | (sh1, Inr epoch) \<Rightarrow>
          (case rate_limited env sh1 sv of
             (sh2, True) \<Rightarrow> (sh2, refused RateLimited sv)
           | (sh2, False) \<Rightarrow> (sh2, issue_challenge cr env sv did name client_eph_pub epoch)))"

text \<open>Which of the candidate keys the claimed proof verifies under, in the order the code tries them.\<close>

definition verifies :: "crypto \<Rightarrow> challenge \<Rightarrow> bytes \<Rightarrow> bytes \<Rightarrow> bool" where
  "verifies cr sc claimed key \<longleftrightarrow> verify_proof_with_key cr key (sc_nonce sc) (sc_transcript sc) claimed = Inr ()"

definition token_verified :: "crypto \<Rightarrow> challenge \<Rightarrow> bytes \<Rightarrow> bool" where
  "token_verified cr sc claimed = (case sc_auth_token sc of None \<Rightarrow> False | Some tok \<Rightarrow> verifies cr sc claimed tok)"

definition grace_verified :: "crypto \<Rightarrow> challenge \<Rightarrow> bytes \<Rightarrow> bool" where
  "grace_verified cr sc claimed \<longleftrightarrow>
     \<not> token_verified cr sc claimed \<and>
     (case sc_grace_token sc of None \<Rightarrow> False | Some tok \<Rightarrow> verifies cr sc claimed tok)"

definition fp_keys :: "crypto \<Rightarrow> server_handshake \<Rightarrow> bytes list" where
  "fp_keys cr sv = map (first_pair_key cr) (sv_pairing_secrets sv)"

definition matched_first_pair :: "crypto \<Rightarrow> server_handshake \<Rightarrow> challenge \<Rightarrow> bytes \<Rightarrow> nat option" where
  "matched_first_pair cr sv sc claimed =
     (if \<not> token_verified cr sc claimed \<and> \<not> grace_verified cr sc claimed
      then position (verifies cr sc claimed) (fp_keys cr sv) else None)"

definition server_proof ::
  "crypto \<Rightarrow> host_shared \<Rightarrow> server_handshake \<Rightarrow> challenge \<Rightarrow> bytes \<Rightarrow>
     host_shared \<times> server_handshake \<times> handshake_outcome sync_result" where
  "server_proof cr sh sv sc claimed =
     (if token_verified cr sc claimed \<or> grace_verified cr sc claimed \<or> matched_first_pair cr sv sc claimed \<noteq> None then
        (let sh1 = sh\<lparr>hs_rate_limiter := map_option (keyed_record_success (sv_rate_limit_key sv)) (hs_rate_limiter sh)\<rparr>;
             sv1 = sv\<lparr>sv_state := ServerDone\<rparr>;
             session = (case (matched_first_pair cr sv sc claimed, sc_grace_token sc) of
                          (Some i, _) \<Rightarrow> derive_session_from_key cr (fp_keys cr sv ! i) (sc_nonce sc) (sc_ecdh sc)
                        | (None, Some grace) \<Rightarrow>
                            if grace_verified cr sc claimed
                            then derive_session_from_key cr grace (sc_nonce sc) (sc_ecdh sc)
                            else Inr (sc_session sc)
                        | (None, None) \<Rightarrow> Inr (sc_session sc))
         in case session of
              Inl e \<Rightarrow> (sh1, sv1, Inl e)
            | Inr s \<Rightarrow>
                (sh1, sv1, Inr (Done \<lparr>dn_session = s, dn_peer_device_id = sc_peer_device_id sc,
                   dn_peer_display_name = sc_peer_display_name sc,
                   dn_resumed = (token_verified cr sc claimed \<or> grace_verified cr sc claimed),
                   dn_previous_token = grace_verified cr sc claimed,
                   dn_enrollment_epoch = (if sc_auth_token sc = None then sc_enrollment_epoch sc else None)\<rparr>)))
      else (sh, refused (if sv_authenticated_device_revoked sv then Revoked else WrongPin) sv))"

fun server_step ::
  "crypto \<Rightarrow> server_env \<Rightarrow> host_shared \<Rightarrow> server_handshake \<Rightarrow> handshake_message \<Rightarrow>
     host_shared \<times> server_handshake \<times> handshake_outcome sync_result" where
  "server_step cr env sh sv incoming =
     (case (sv_state sv, incoming) of
        (AwaitingHello, Hello did version name client_eph_pub) \<Rightarrow>
          server_hello cr env sh sv did version name client_eph_pub
      | (SentChallenge sc, PairingProof claimed) \<Rightarrow> server_proof cr sh sv sc claimed
      | (st, m) \<Rightarrow> (sh, sv, unexpected (server_state_name st) (variant_name m)))"

section \<open>The runners\<close>

text \<open>
  \<open>run_client_handshake_with\<close> and \<open>run_server_handshake\<close> of \<open>crates/transport/src/iroh.rs\<close> over a scripted
  transport: what \<open>recv\<close> will return is a list (used up, the peer has closed), what was sent is
  recorded, and \<open>send\<close> fails where the script says so.
\<close>

type_synonym script = "(transport_error + handshake_message) list"

record transport_log =
  tp_sent :: "handshake_message list"
  tp_send_faults :: "transport_error option list"

definition tp_send :: "handshake_message \<Rightarrow> transport_log \<Rightarrow> transport_log \<times> unit sync_result" where
  "tp_send msg tp =
     (case tp_send_faults tp of
        [] \<Rightarrow> (tp\<lparr>tp_sent := tp_sent tp @ [msg]\<rparr>, Inr ())
      | None # fs \<Rightarrow> (tp\<lparr>tp_sent := tp_sent tp @ [msg], tp_send_faults := fs\<rparr>, Inr ())
      | Some e # fs \<Rightarrow> (tp\<lparr>tp_send_faults := fs\<rparr>, Inl (SyncTransport e)))"

record handshake_result =
  hr_cipher :: envelope_cipher
  hr_peer_device_id :: device_id
  hr_peer_display_name :: string
  hr_reconnect_token :: token
  hr_resumed :: bool
  hr_previous_token :: bool
  hr_pair_id :: pair_id
  hr_pair_event_key :: event_key
  hr_enrollment_epoch :: "u64 option"
  hr_verification_code :: string

text \<open>What both runners derive from a finished session; they differ in the role of the cipher.\<close>

definition finish_handshake ::
  "crypto \<Rightarrow> (crypto \<Rightarrow> bytes \<Rightarrow> envelope_cipher sync_result) \<Rightarrow> done_info \<Rightarrow> bool \<Rightarrow> u64 option \<Rightarrow>
     handshake_result sync_result" where
  "finish_handshake cr role d previous epoch =
     (case role cr (dn_session d) of Inl e \<Rightarrow> Inl e | Inr cipher \<Rightarrow>
     (case derive_reconnect_token cr (dn_session d) of Inl e \<Rightarrow> Inl e | Inr tok \<Rightarrow>
     (case derive_pair_material cr (dn_session d) of Inl e \<Rightarrow> Inl e | Inr (pid, ek) \<Rightarrow>
     (case pair_verification_code cr (dn_session d) of Inl e \<Rightarrow> Inl e | Inr code \<Rightarrow>
        Inr \<lparr>hr_cipher = cipher, hr_peer_device_id = dn_peer_device_id d,
             hr_peer_display_name = dn_peer_display_name d, hr_reconnect_token = tok,
             hr_resumed = dn_resumed d, hr_previous_token = previous, hr_pair_id = pid,
             hr_pair_event_key = ek, hr_enrollment_epoch = epoch, hr_verification_code = code\<rparr>))))"

text \<open>The client's loop; \<open>codes\<close> are the comparison codes handed to \<open>on_code\<close>.\<close>

fun run_client_loop ::
  "crypto \<Rightarrow> script \<Rightarrow> transport_log \<Rightarrow> client_handshake \<Rightarrow> string list \<Rightarrow>
     transport_log \<times> client_handshake \<times> string list \<times> handshake_result sync_result" where
  "run_client_loop cr [] tp ch codes = (tp, ch, codes, Inl (SyncTransport Closed))"
| "run_client_loop cr (Inl e # ms) tp ch codes = (tp, ch, codes, Inl (SyncTransport e))"
| "run_client_loop cr (Inr m # ms) tp ch codes =
     (case client_step cr ch m of
        (ch1, Inl e) \<Rightarrow> (tp, ch1, codes, Inl e)
      | (ch1, Inr (Send reply)) \<Rightarrow>
          (case tp_send reply tp of
             (tp1, Inl e) \<Rightarrow> (tp1, ch1, codes, Inl e)
           | (tp1, Inr _) \<Rightarrow>
               (let shown = (case reply of
                               PairingProof _ \<Rightarrow> (case verification_code cr ch1 of None \<Rightarrow> [] | Some c \<Rightarrow> [c])
                             | _ \<Rightarrow> [])
                in run_client_loop cr ms tp1 ch1 (codes @ shown)))
      | (ch1, Inr (Done d)) \<Rightarrow> (tp, ch1, codes, finish_handshake cr for_client d False None)
      | (ch1, Inr (Failed f)) \<Rightarrow> (tp, ch1, codes, Inl (SyncProtocol (PairingFailedError f))))"

definition run_client_handshake_with ::
  "crypto \<Rightarrow> bytes \<Rightarrow> script \<Rightarrow> transport_log \<Rightarrow> client_handshake \<Rightarrow>
     transport_log \<times> client_handshake \<times> string list \<times> handshake_result sync_result" where
  "run_client_handshake_with cr rnd ms tp ch =
     (let (ch1, hello) = client_start cr rnd ch in
      case tp_send hello tp of
        (tp1, Inl e) \<Rightarrow> (tp1, ch1, [], Inl e)
      | (tp1, Inr _) \<Rightarrow> run_client_loop cr ms tp1 ch1 [])"

fun run_server_handshake ::
  "crypto \<Rightarrow> server_env \<Rightarrow> script \<Rightarrow> transport_log \<Rightarrow> host_shared \<Rightarrow> server_handshake \<Rightarrow>
     transport_log \<times> host_shared \<times> server_handshake \<times> handshake_result sync_result" where
  "run_server_handshake cr env [] tp sh sv = (tp, sh, sv, Inl (SyncTransport Closed))"
| "run_server_handshake cr env (Inl e # ms) tp sh sv =
     (case e of
        UnsupportedProtocolVersion _ _ \<Rightarrow>
          (let (sv1, reply) = reject_unreadable_version sv
           in (fst (tp_send reply tp), sh, sv1, Inl (SyncTransport e)))
      | _ \<Rightarrow> (tp, sh, sv, Inl (SyncTransport e)))"
| "run_server_handshake cr env (Inr m # ms) tp sh sv =
     (case server_step cr env sh sv m of
        (sh1, sv1, Inl e) \<Rightarrow> (tp, sh1, sv1, Inl e)
      | (sh1, sv1, Inr (Send reply)) \<Rightarrow>
          (case tp_send reply tp of
             (tp1, Inl e) \<Rightarrow> (tp1, sh1, sv1, Inl e)
           | (tp1, Inr _) \<Rightarrow>
               (case reply of
                  PairingFailed reason \<Rightarrow> (tp1, sh1, sv1, Inl (SyncProtocol (PairingFailedError reason)))
                | _ \<Rightarrow> run_server_handshake cr env ms tp1 sh1 sv1))
      | (sh1, sv1, Inr (Done d)) \<Rightarrow>
          (tp, sh1, sv1, finish_handshake cr for_server d (dn_previous_token d) (dn_enrollment_epoch d))
      | (sh1, sv1, Inr (Failed f)) \<Rightarrow> (tp, sh1, sv1, Inl (SyncProtocol (PairingFailedError f))))"

definition confirm_server_handshake :: "server_handshake \<Rightarrow> transport_log \<Rightarrow> transport_log \<times> unit sync_result" where
  "confirm_server_handshake sv tp = tp_send (PairingOk (sv_device_id sv) (sv_display_name sv)) tp"

section \<open>Who gets a challenge\<close>

definition source_allowed :: "instant \<Rightarrow> string \<Rightarrow> keyed_limiter \<Rightarrow> bool" where
  "source_allowed now key m \<longleftrightarrow>
     limiter_check now (case hm_get (gc_cold now m) key of None \<Rightarrow> new_limiter | Some rl \<Rightarrow> rl) = Inr ()"

definition window_allows :: "instant \<Rightarrow> u64 option \<Rightarrow> pairing_state \<Rightarrow> bool" where
  "window_allows now epoch p \<longleftrightarrow>
     is_open now (window p) \<and> epoch = Some (window_epoch (window p)) \<and>
     global_failures (window p) < GLOBAL_FIRST_PAIR_CAP"

lemma gate_first_pair_Allow_iff:
  "snd (gate_first_pair now epoch p) = Allow e \<longleftrightarrow> window_allows now epoch p \<and> epoch = Some e"
  by (auto simp: gate_first_pair_def window_allows_def check_and_reserve_first_pair_def epoch_is_current_def
      Let_def split: option.splits)

lemma rate_limited_iff:
  "snd (rate_limited env sh sv) \<longleftrightarrow>
     (case hs_rate_limiter sh of None \<Rightarrow> True
      | Some rl \<Rightarrow> \<not> source_allowed (env_limit_now env) (sv_rate_limit_key sv) rl)"
  by (auto simp: rate_limited_def source_allowed_def keyed_check_and_reserve_def limiter_check_and_reserve_def
      Let_def split: option.splits prod.splits sum.splits)

lemma first_pair_window_limiter [simp]:
  "hs_rate_limiter (fst (first_pair_window env sh sv did)) = hs_rate_limiter sh"
  by (simp add: first_pair_window_def Let_def split: option.splits prod.splits first_pair_gate.splits)

text \<open>The condition under which a first pair or a reconnect of a device is let in, and its opportunity.\<close>

definition admitted :: "server_env \<Rightarrow> host_shared \<Rightarrow> server_handshake \<Rightarrow> device_id \<Rightarrow> u64 option \<Rightarrow> bool" where
  "admitted env sh sv did epoch \<longleftrightarrow>
     (case sv_authenticated_device sv of None \<Rightarrow> True | Some a \<Rightarrow> a = did) \<and>
     (case hs_rate_limiter sh of None \<Rightarrow> False
      | Some rl \<Rightarrow> source_allowed (env_limit_now env) (sv_rate_limit_key sv) rl) \<and>
     (if hm_contains (sv_resumption_tokens sv) did then epoch = None
      else sv_pairing_secrets sv \<noteq> [] \<and>
        (if sv_enrollment_exempt_device sv = Some did \<or> \<not> sv_windowed sv then epoch = None
         else epoch = sv_snapshot_epoch sv \<and>
           (case hs_pairing sh of None \<Rightarrow> False
            | Some p \<Rightarrow> window_allows (env_gate_now env) (sv_snapshot_epoch sv) p)))"

lemma first_pair_window_ok_iff:
  "snd (first_pair_window env sh sv did) = Inr epoch \<longleftrightarrow>
     (if hm_contains (sv_resumption_tokens sv) did \<or> sv_enrollment_exempt_device sv = Some did \<or> \<not> sv_windowed sv
      then epoch = None
      else epoch = sv_snapshot_epoch sv \<and>
        (case hs_pairing sh of None \<Rightarrow> False
         | Some p \<Rightarrow> window_allows (env_gate_now env) (sv_snapshot_epoch sv) p))"
proof (cases "\<not> (hm_contains (sv_resumption_tokens sv) did \<or> sv_enrollment_exempt_device sv = Some did \<or> \<not> sv_windowed sv) \<and> hs_pairing sh \<noteq> None")
  case True
  then obtain p where p: "hs_pairing sh = Some p" by blast
  obtain p' g where g: "gate_first_pair (env_gate_now env) (sv_snapshot_epoch sv) p = (p', g)" by fastforce
  have al: "g = Allow e \<longleftrightarrow> window_allows (env_gate_now env) (sv_snapshot_epoch sv) p \<and> sv_snapshot_epoch sv = Some e" for e
    using gate_first_pair_Allow_iff [of "env_gate_now env" "sv_snapshot_epoch sv" p e] by (simp add: g)
  have "window_allows (env_gate_now env) (sv_snapshot_epoch sv) p \<Longrightarrow> \<exists>e. sv_snapshot_epoch sv = Some e"
    by (simp add: window_allows_def)
  moreover have "sv_snapshot_epoch sv = Some e" if "g = Allow e" for e
    using that al by blast
  ultimately show ?thesis using True p g al
    by (cases g) (auto simp: first_pair_window_def)
next
  case False
  then show ?thesis by (auto simp: first_pair_window_def)
qed

text \<open>The key the challenge-time session is derived from.\<close>

definition challenge_key :: "crypto \<Rightarrow> server_handshake \<Rightarrow> device_id \<Rightarrow> bytes" where
  "challenge_key cr sv did =
     (case hm_get (sv_resumption_tokens sv) did of
        Some tok \<Rightarrow> tok | None \<Rightarrow> first_pair_key cr (hd (sv_pairing_secrets sv)))"

definition challenge_for ::
  "crypto \<Rightarrow> server_env \<Rightarrow> server_handshake \<Rightarrow> device_id \<Rightarrow> string \<Rightarrow> bytes \<Rightarrow> u64 option \<Rightarrow> session_secret \<Rightarrow> challenge" where
  "challenge_for cr env sv did name client_pub epoch session =
     \<lparr>sc_nonce = env_nonce env, sc_session = session, sc_peer_device_id = did, sc_peer_display_name = name,
      sc_auth_token = hm_get (sv_resumption_tokens sv) did,
      sc_grace_token = (if hm_contains (sv_resumption_tokens sv) did then hm_get (sv_grace_tokens sv) did else None),
      sc_enrollment_epoch = epoch, sc_ecdh = x25519_shared cr (env_eph env) client_pub,
      sc_transcript = build_transcript client_pub (x25519_public cr (env_eph env))\<rparr>"

lemma issue_challenge_sent:
  assumes "issue_challenge cr env sv did name pub epoch = (sv', r)"
    and "hm_contains (sv_resumption_tokens sv) did \<or> sv_pairing_secrets sv \<noteq> []"
  shows "(\<exists>session. r = Inr (Send (PairingChallenge (env_nonce env) (x25519_public cr (env_eph env)))) \<and>
       x25519_contributory cr (env_eph env) pub \<and>
       derive_session_from_key cr (challenge_key cr sv did) (env_nonce env) (x25519_shared cr (env_eph env) pub) = Inr session \<and>
       sv' = sv\<lparr>sv_state := SentChallenge (challenge_for cr env sv did name pub epoch session)\<rparr>) \<or>
     (\<exists>e. r = Inl e \<and> sv' = sv \<and>
       (x25519_contributory cr (env_eph env) pub \<longrightarrow>
         (\<exists>k. derive_session_from_key cr k (env_nonce env) (x25519_shared cr (env_eph env) pub) = Inl e)))"
  using assms
  by (auto simp: issue_challenge_def generate_ephemeral_def ecdh_shared_def challenge_key_def challenge_for_def
      hm_contains_def Let_def neq_Nil_conv split: if_splits option.splits sum.splits list.splits)

lemma server_hello_cases:
  assumes "server_hello cr env sh sv did v name pub = (sh', sv', r)"
  obtains (refused) reason where "sv' = sv\<lparr>sv_state := ServerFailed\<rparr>" "r = Inr (Send (PairingFailed reason))"
      "\<not> (v = PROTOCOL_VERSION \<and> (\<exists>epoch. admitted env sh sv did epoch))"
  | (passed) epoch where "v = PROTOCOL_VERSION" "admitted env sh sv did epoch"
      "issue_challenge cr env sv did name pub epoch = (sv', r)"
proof -
  obtain sh1 w where w: "first_pair_window env sh sv did = (sh1, w)" by fastforce
  have ok: "w = Inr epoch \<longleftrightarrow> snd (first_pair_window env sh sv did) = Inr epoch" for epoch by (simp add: w)
  have l: "hs_rate_limiter sh1 = hs_rate_limiter sh" using first_pair_window_limiter [of env sh sv did] by (simp add: w)
  obtain sh2 lim where rl: "rate_limited env sh1 sv = (sh2, lim)" by fastforce
  have lim: "lim \<longleftrightarrow> (case hs_rate_limiter sh of None \<Rightarrow> True
      | Some m \<Rightarrow> \<not> source_allowed (env_limit_now env) (sv_rate_limit_key sv) m)"
    using rate_limited_iff [of env sh1 sv] by (simp add: rl l)
  have adm: "admitted env sh sv did epoch \<longleftrightarrow>
      (case sv_authenticated_device sv of None \<Rightarrow> True | Some a \<Rightarrow> a = did) \<and> \<not> lim \<and>
      (hm_contains (sv_resumption_tokens sv) did \<or> sv_pairing_secrets sv \<noteq> []) \<and> w = Inr epoch" for epoch
    unfolding ok first_pair_window_ok_iff admitted_def lim by (auto split: option.splits)
  show thesis
  proof (cases "v = PROTOCOL_VERSION \<and> (\<exists>epoch. admitted env sh sv did epoch)")
    case True
    then obtain epoch where e: "admitted env sh sv did epoch" by blast
    with True assms w rl have "issue_challenge cr env sv did name pub epoch = (sv', r)"
      by (auto simp: server_hello_def adm split: option.splits if_splits bool.splits)
    with True e show thesis using passed by blast
  next
    case False
    then have "\<exists>reason. sv' = sv\<lparr>sv_state := ServerFailed\<rparr> \<and> r = Inr (Send (PairingFailed reason))"
      using assms w rl
      by (auto simp: server_hello_def adm refused_def split: option.splits if_splits bool.splits sum.splits)
    with False show thesis using refused by blast
  qed
qed

text \<open>
  C32. Who is challenged. A host that awaits a hello issues a challenge exactly when the peer speaks
  this protocol version, claims the identity the transport authenticated, its source is not in
  backoff, the key exchange is contributory, and either the host holds a token for it, or it is armed
  with pairing secrets and the device is exempt from the window or the window is open for the
  generation of those secrets with attempts left. Otherwise it refuses or reports an error.
\<close>

theorem challenge_iff_admitted:
  assumes "hkdf_total cr" and "sv_state sv = AwaitingHello"
    and "server_step cr env sh sv (Hello did v name pub) = (sh', sv', r)"
  shows "(\<exists>n p. r = Inr (Send (PairingChallenge n p))) \<longleftrightarrow>
    v = PROTOCOL_VERSION \<and> (\<exists>epoch. admitted env sh sv did epoch) \<and> x25519_contributory cr (env_eph env) pub"
proof -
  have "server_hello cr env sh sv did v name pub = (sh', sv', r)" using assms(2,3) by simp
  then show ?thesis
  proof (cases rule: server_hello_cases)
    case (refused reason)
    then show ?thesis by auto
  next
    case (passed epoch)
    then have armed: "hm_contains (sv_resumption_tokens sv) did \<or> sv_pairing_secrets sv \<noteq> []"
      by (auto simp: admitted_def split: if_splits)
    from issue_challenge_sent [OF passed(3) armed] passed derive_session_total [OF assms(1)] show ?thesis
      by (metis Inr_not_Inl)
  qed
qed

section \<open>What a finished handshake proves\<close>

text \<open>
  The states one connection can reach, whatever messages arrive and whatever other connections do to
  the shared limiter and pairing state in between.
\<close>

inductive server_reaches :: "crypto \<Rightarrow> server_handshake \<Rightarrow> host_shared \<Rightarrow> server_handshake \<Rightarrow> bool"
  for cr sv0 where
  init: "server_reaches cr sv0 sh sv0"
| message: "server_reaches cr sv0 sh sv \<Longrightarrow> server_step cr env sh sv m = (sh', sv', r) \<Longrightarrow> server_reaches cr sv0 sh' sv'"
| unreadable: "server_reaches cr sv0 sh sv \<Longrightarrow> reject_unreadable_version sv = (sv', m) \<Longrightarrow> server_reaches cr sv0 sh sv'"
| others: "server_reaches cr sv0 sh sv \<Longrightarrow> server_reaches cr sv0 sh' sv"

definition challenge_ok :: "crypto \<Rightarrow> server_handshake \<Rightarrow> challenge \<Rightarrow> bool" where
  "challenge_ok cr sv0 sc \<longleftrightarrow>
     (case sv_authenticated_device sv0 of None \<Rightarrow> True | Some a \<Rightarrow> sc_peer_device_id sc = a) \<and>
     sc_auth_token sc = hm_get (sv_resumption_tokens sv0) (sc_peer_device_id sc) \<and>
     (\<forall>g. sc_grace_token sc = Some g \<longrightarrow> hm_get (sv_grace_tokens sv0) (sc_peer_device_id sc) = Some g \<and>
        sc_auth_token sc \<noteq> None) \<and>
     (sc_auth_token sc = None \<and> sv_windowed sv0 \<and> sv_enrollment_exempt_device sv0 \<noteq> Some (sc_peer_device_id sc) \<longrightarrow>
        sc_enrollment_epoch sc = sv_snapshot_epoch sv0 \<and> sv_snapshot_epoch sv0 \<noteq> None) \<and>
     (\<forall>tok. sc_auth_token sc = Some tok \<longrightarrow>
        derive_session_from_key cr tok (sc_nonce sc) (sc_ecdh sc) = Inr (sc_session sc))"

definition server_inv :: "crypto \<Rightarrow> server_handshake \<Rightarrow> server_handshake \<Rightarrow> bool" where
  "server_inv cr sv0 sv \<longleftrightarrow>
     (\<exists>st. sv = sv0\<lparr>sv_state := st\<rparr>) \<and> (\<forall>sc. sv_state sv = SentChallenge sc \<longrightarrow> challenge_ok cr sv0 sc)"

lemma challenge_for_ok:
  assumes "admitted env sh sv did epoch"
    and "derive_session_from_key cr (challenge_key cr sv did) (env_nonce env) (x25519_shared cr (env_eph env) pub) = Inr s"
  shows "challenge_ok cr sv (challenge_for cr env sv did name pub epoch s)"
  using assms
  by (auto simp: challenge_ok_def challenge_for_def admitted_def challenge_key_def hm_contains_def window_allows_def
      split: option.splits if_splits)

lemma challenge_ok_cong:
  "challenge_ok cr (sv\<lparr>sv_state := st\<rparr>) sc = challenge_ok cr sv sc"
  by (simp add: challenge_ok_def)

lemma server_hello_inv:
  assumes "server_inv cr sv0 sv" and "server_hello cr env sh sv did v name pub = (sh', sv', r)"
    and "sv_state sv = AwaitingHello"
  shows "server_inv cr sv0 sv'"
  using assms(2)
proof (cases rule: server_hello_cases)
  case (refused reason)
  with assms(1) show ?thesis by (auto simp: server_inv_def)
next
  case (passed epoch)
  obtain st where sv: "sv = sv0\<lparr>sv_state := st\<rparr>" using assms(1) by (auto simp: server_inv_def)
  from passed(2) have armed: "hm_contains (sv_resumption_tokens sv) did \<or> sv_pairing_secrets sv \<noteq> []"
    by (auto simp: admitted_def split: if_splits)
  have "challenge_ok cr sv0 (challenge_for cr env sv did name pub epoch s)"
    if "derive_session_from_key cr (challenge_key cr sv did) (env_nonce env) (x25519_shared cr (env_eph env) pub) = Inr s" for s
    using challenge_for_ok [OF passed(2) that] sv challenge_ok_cong by metis
  then have sent: "server_inv cr sv0 (sv\<lparr>sv_state := SentChallenge (challenge_for cr env sv did name pub epoch s)\<rparr>)"
    if "derive_session_from_key cr (challenge_key cr sv did) (env_nonce env) (x25519_shared cr (env_eph env) pub) = Inr s" for s
    using that sv by (auto simp: server_inv_def)
  from issue_challenge_sent [OF passed(3) armed] show ?thesis
    using sent assms(1) by blast
qed

lemma server_proof_frame:
  assumes "server_proof cr sh sv sc claimed = (sh', sv', r)"
  shows "\<exists>st. sv' = sv\<lparr>sv_state := st\<rparr> \<and> st \<in> {ServerDone, ServerFailed}"
  using assms by (auto simp: server_proof_def refused_def Let_def split: if_splits sum.splits)

lemma server_step_inv:
  assumes "server_inv cr sv0 sv" and "server_step cr env sh sv m = (sh', sv', r)"
  shows "server_inv cr sv0 sv'"
proof (cases "sv_state sv")
  case AwaitingHello
  with assms server_hello_inv show ?thesis by (cases m) auto
next
  case (SentChallenge sc)
  with assms show ?thesis
    by (cases m) (auto simp: server_inv_def dest!: server_proof_frame)
qed (use assms in \<open>cases m; simp\<close>)+

lemma server_reaches_inv:
  assumes "server_reaches cr sv0 sh sv" and "sv_state sv0 = AwaitingHello"
  shows "server_inv cr sv0 sv"
  using assms
proof (induction rule: server_reaches.induct)
  case (init sh)
  have "sv0 = sv0\<lparr>sv_state := sv_state sv0\<rparr>" by simp
  then have "\<exists>st. sv0 = sv0\<lparr>sv_state := st\<rparr>" by blast
  with init show ?case by (simp add: server_inv_def)
next
  case (message sh sv env m sh' sv' r)
  then show ?case using server_step_inv by blast
next
  case (unreadable sh sv sv' m)
  then show ?case by (auto simp: reject_unreadable_version_def server_inv_def)
qed

text \<open>A verified proof and the session that follows from it.\<close>

lemma server_proof_done:
  assumes "server_proof cr sh sv sc claimed = (sh', sv', Inr (Done d))"
  shows "\<exists>k. claimed = proof_from_key cr k (sc_nonce sc) (sc_transcript sc) \<and>
    (dn_resumed d \<and> \<not> dn_previous_token d \<and> sc_auth_token sc = Some k \<and> dn_session d = sc_session sc \<or>
     dn_resumed d \<and> dn_previous_token d \<and> sc_grace_token sc = Some k \<and>
       derive_session_from_key cr k (sc_nonce sc) (sc_ecdh sc) = Inr (dn_session d) \<or>
     \<not> dn_resumed d \<and> \<not> dn_previous_token d \<and> k \<in> first_pair_key cr ` set (sv_pairing_secrets sv) \<and>
       derive_session_from_key cr k (sc_nonce sc) (sc_ecdh sc) = Inr (dn_session d))"
    (is "\<exists>k. _ \<and> ?how k")
    and "dn_peer_device_id d = sc_peer_device_id sc"
    and "dn_enrollment_epoch d = (if sc_auth_token sc = None then sc_enrollment_epoch sc else None)"
proof -
  show "dn_peer_device_id d = sc_peer_device_id sc"
    "dn_enrollment_epoch d = (if sc_auth_token sc = None then sc_enrollment_epoch sc else None)"
    using assms by (auto simp: server_proof_def refused_def Let_def split: if_splits sum.splits)
  consider (tok) "token_verified cr sc claimed"
    | (grace) "\<not> token_verified cr sc claimed" "grace_verified cr sc claimed"
    | (fresh) i where "\<not> token_verified cr sc claimed" "\<not> grace_verified cr sc claimed"
        "matched_first_pair cr sv sc claimed = Some i"
    using assms by (auto simp: server_proof_def refused_def split: if_splits)
  then show "\<exists>k. claimed = proof_from_key cr k (sc_nonce sc) (sc_transcript sc) \<and> ?how k"
  proof cases
    case tok
    then obtain k where k: "sc_auth_token sc = Some k" "verifies cr sc claimed k"
      by (auto simp: token_verified_def split: option.splits)
    from tok have "\<not> grace_verified cr sc claimed" "matched_first_pair cr sv sc claimed = None"
      by (simp_all add: grace_verified_def matched_first_pair_def)
    with assms tok k show ?thesis by (auto simp: server_proof_def verifies_def Let_def split: option.splits)
  next
    case grace
    then obtain k where k: "sc_grace_token sc = Some k" "verifies cr sc claimed k"
      by (auto simp: grace_verified_def split: option.splits)
    from grace have "matched_first_pair cr sv sc claimed = None" by (simp add: matched_first_pair_def)
    with assms grace k show ?thesis by (auto simp: server_proof_def verifies_def Let_def split: sum.splits)
  next
    case fresh
    have "verifies cr sc claimed (fp_keys cr sv ! i)" "i < length (sv_pairing_secrets sv)"
      using fresh by (auto simp: matched_first_pair_def position_Some_iff fp_keys_def)
    then have "claimed = proof_from_key cr (fp_keys cr sv ! i) (sc_nonce sc) (sc_transcript sc)"
      "fp_keys cr sv ! i \<in> first_pair_key cr ` set (sv_pairing_secrets sv)" by (auto simp: verifies_def fp_keys_def)
    moreover have "\<not> dn_resumed d \<and> \<not> dn_previous_token d \<and>
        derive_session_from_key cr (fp_keys cr sv ! i) (sc_nonce sc) (sc_ecdh sc) = Inr (dn_session d)"
      using assms fresh by (auto simp: server_proof_def Let_def split: sum.splits)
    ultimately show ?thesis by blast
  qed
qed

lemma finished_is_proved:
  assumes "server_reaches cr sv0 sh sv" and "sv_state sv0 = AwaitingHello"
    and "server_step cr env sh sv m = (sh', sv', Inr (Done d))"
  shows "\<exists>sc k. sv_state sv = SentChallenge sc \<and>
    m = PairingProof (proof_from_key cr k (sc_nonce sc) (sc_transcript sc)) \<and>
    derive_session_from_key cr k (sc_nonce sc) (sc_ecdh sc) = Inr (dn_session d) \<and>
    (case sv_authenticated_device sv0 of None \<Rightarrow> True | Some a \<Rightarrow> dn_peer_device_id d = a) \<and>
    (if dn_resumed d then
       hm_get (if dn_previous_token d then sv_grace_tokens sv0 else sv_resumption_tokens sv0) (dn_peer_device_id d) = Some k \<and>
       hm_contains (sv_resumption_tokens sv0) (dn_peer_device_id d)
     else k \<in> first_pair_key cr ` set (sv_pairing_secrets sv0)) \<and>
    (\<not> hm_contains (sv_resumption_tokens sv0) (dn_peer_device_id d) \<and> sv_windowed sv0 \<and>
       sv_enrollment_exempt_device sv0 \<noteq> Some (dn_peer_device_id d) \<longrightarrow>
       dn_enrollment_epoch d = sv_snapshot_epoch sv0 \<and> sv_snapshot_epoch sv0 \<noteq> None)"
proof -
  have inv: "server_inv cr sv0 sv" by (rule server_reaches_inv [OF assms(1,2)])
  have "\<not> (AwaitingHello = sv_state sv)"
  proof
    assume st: "AwaitingHello = sv_state sv"
    show False
    proof (cases m)
      case (Hello did v name pub)
      have "server_hello cr env sh sv did v name pub = (sh', sv', Inr (Done d))"
        using assms(3) st by (simp add: Hello flip: st)
      then show False
        by (cases rule: server_hello_cases) (auto simp: admitted_def split: if_splits dest!: issue_challenge_sent)
    qed (use assms(3) st in \<open>simp_all add: unexpected_def flip: st\<close>)
  qed
  then obtain sc claimed where sc: "sv_state sv = SentChallenge sc" "m = PairingProof claimed"
    "server_proof cr sh sv sc claimed = (sh', sv', Inr (Done d))"
    using assms(3) by (cases "sv_state sv"; cases m) (auto simp: unexpected_def)
  have ok: "challenge_ok cr sv0 sc" and same: "sv_pairing_secrets sv = sv_pairing_secrets sv0"
    using inv sc(1) by (auto simp: server_inv_def)
  note dn = server_proof_done [OF sc(3)]
  obtain k where k: "claimed = proof_from_key cr k (sc_nonce sc) (sc_transcript sc)"
    "dn_resumed d \<and> \<not> dn_previous_token d \<and> sc_auth_token sc = Some k \<and> dn_session d = sc_session sc \<or>
     dn_resumed d \<and> dn_previous_token d \<and> sc_grace_token sc = Some k \<and>
       derive_session_from_key cr k (sc_nonce sc) (sc_ecdh sc) = Inr (dn_session d) \<or>
     \<not> dn_resumed d \<and> \<not> dn_previous_token d \<and> k \<in> first_pair_key cr ` set (sv_pairing_secrets sv) \<and>
       derive_session_from_key cr k (sc_nonce sc) (sc_ecdh sc) = Inr (dn_session d)"
    using dn(1) by blast
  show ?thesis
    by (rule exI [of _ sc], rule exI [of _ k])
      (use k dn(2,3) ok same sc in \<open>auto simp: challenge_ok_def hm_contains_def split: option.splits\<close>)
qed

text \<open>
  C2. No session without a credential. However a connection was driven, and whatever other
  connections did meanwhile: when the host reports a finished handshake, the last message was a proof
  under a key it holds for the peer, the session is derived from that key and this exchange, and
  the peer is the device the transport authenticated. The key is the peer's current token or its
  previous one on a resume, and one of the armed pairing secrets otherwise; a device without a token
  that is bound to the enrollment window is always reported with the epoch it must claim.
\<close>

theorem session_requires_credential:
  assumes "server_reaches cr sv0 sh sv" and "sv_state sv0 = AwaitingHello"
    and "server_step cr env sh sv m = (sh', sv', Inr (Done d))"
  shows "\<exists>sc k. sv_state sv = SentChallenge sc \<and>
    m = PairingProof (proof_from_key cr k (sc_nonce sc) (sc_transcript sc)) \<and>
    derive_session_from_key cr k (sc_nonce sc) (sc_ecdh sc) = Inr (dn_session d) \<and>
    (case sv_authenticated_device sv0 of None \<Rightarrow> True | Some a \<Rightarrow> dn_peer_device_id d = a) \<and>
    (if dn_resumed d then
       hm_get (if dn_previous_token d then sv_grace_tokens sv0 else sv_resumption_tokens sv0) (dn_peer_device_id d) = Some k \<and>
       hm_contains (sv_resumption_tokens sv0) (dn_peer_device_id d)
     else k \<in> first_pair_key cr ` set (sv_pairing_secrets sv0)) \<and>
    (\<not> hm_contains (sv_resumption_tokens sv0) (dn_peer_device_id d) \<and> sv_windowed sv0 \<and>
       sv_enrollment_exempt_device sv0 \<noteq> Some (dn_peer_device_id d) \<longrightarrow>
       dn_enrollment_epoch d = sv_snapshot_epoch sv0 \<and> sv_snapshot_epoch sv0 \<noteq> None)"
  by (rule finished_is_proved [OF assms])

section \<open>Agreement of an honest exchange\<close>

definition candidate_keys :: "crypto \<Rightarrow> server_handshake \<Rightarrow> device_id \<Rightarrow> bytes set" where
  "candidate_keys cr sv did =
     (case hm_get (sv_resumption_tokens sv) did of
        None \<Rightarrow> {}
      | Some t \<Rightarrow> {t} \<union> (case hm_get (sv_grace_tokens sv) did of None \<Rightarrow> {} | Some g \<Rightarrow> {g})) \<union>
     first_pair_key cr ` set (sv_pairing_secrets sv)"

text \<open>
  HMAC is collision free on the keys and messages in play: the same tag means the same key and the
  same message. The sets are finite, those of one or two exchanges.
\<close>

definition hmac_separates :: "crypto \<Rightarrow> bytes set \<Rightarrow> bytes set \<Rightarrow> bool" where
  "hmac_separates cr K M \<longleftrightarrow>
     (\<forall>k\<in>K. \<forall>k'\<in>K. \<forall>m\<in>M. \<forall>m'\<in>M. hmac_sha256 cr k m = hmac_sha256 cr k' m' \<longrightarrow> k = k' \<and> m = m')"

lemma verifies_candidate:
  assumes "hmac_separates cr K {sc_nonce sc @ sc_transcript sc}" and "key \<in> K" and "k \<in> K"
  shows "verifies cr sc (proof_from_key cr key (sc_nonce sc) (sc_transcript sc)) k \<longleftrightarrow> k = key"
  using assms by (auto simp: verifies_def proof_from_key_def hmac_separates_def)

lemma position_eq:
  assumes "\<forall>x \<in> set xs. P x \<longleftrightarrow> x = k" and "k \<in> set xs"
  shows "\<exists>i. position P xs = Some i \<and> xs ! i = k"
  using assms by (induction xs) auto

lemma server_accepts:
  assumes hs: "hmac_separates cr (candidate_keys cr sv did) {sc_nonce sc @ sc_transcript sc}" and key: "key \<in> candidate_keys cr sv did"
    and sc: "sc = challenge_for cr env sv did name pub epoch s0"
    and s: "derive_session_from_key cr key (sc_nonce sc) (sc_ecdh sc) = Inr s"
    and s0: "derive_session_from_key cr (challenge_key cr sv did) (sc_nonce sc) (sc_ecdh sc) = Inr s0"
  shows "\<exists>sh'. server_proof cr sh sv sc (proof_from_key cr key (sc_nonce sc) (sc_transcript sc)) =
    (sh', sv\<lparr>sv_state := ServerDone\<rparr>, Inr (Done
      \<lparr>dn_session = s, dn_peer_device_id = did, dn_peer_display_name = name,
       dn_resumed = (hm_get (sv_resumption_tokens sv) did = Some key \<or>
         hm_contains (sv_resumption_tokens sv) did \<and> hm_get (sv_grace_tokens sv) did = Some key),
       dn_previous_token = (hm_contains (sv_resumption_tokens sv) did \<and>
         hm_get (sv_resumption_tokens sv) did \<noteq> Some key \<and> hm_get (sv_grace_tokens sv) did = Some key),
       dn_enrollment_epoch = (if hm_contains (sv_resumption_tokens sv) did then None else epoch)\<rparr>))"
proof -
  let ?p = "proof_from_key cr key (sc_nonce sc) (sc_transcript sc)"
  have at: "sc_auth_token sc = hm_get (sv_resumption_tokens sv) did"
    and gt: "sc_grace_token sc = (if hm_contains (sv_resumption_tokens sv) did then hm_get (sv_grace_tokens sv) did else None)"
    and rest: "sc_peer_device_id sc = did" "sc_peer_display_name sc = name" "sc_enrollment_epoch sc = epoch" "sc_session sc = s0"
    by (simp_all add: sc challenge_for_def)
  note v = verifies_candidate [OF hs key]
  have tv: "token_verified cr sc ?p \<longleftrightarrow> hm_get (sv_resumption_tokens sv) did = Some key"
    by (auto simp: token_verified_def at v candidate_keys_def split: option.splits)
  have gv: "grace_verified cr sc ?p \<longleftrightarrow> hm_contains (sv_resumption_tokens sv) did \<and>
      hm_get (sv_resumption_tokens sv) did \<noteq> Some key \<and> hm_get (sv_grace_tokens sv) did = Some key"
    by (auto simp: grace_verified_def tv gt hm_contains_def v candidate_keys_def split: option.splits)
  show ?thesis
  proof (cases "token_verified cr sc ?p \<or> grace_verified cr sc ?p")
    case True
    then have m: "matched_first_pair cr sv sc ?p = None" by (auto simp: matched_first_pair_def)
    show ?thesis
    proof (cases "token_verified cr sc ?p")
      case tok: True
      then have "s0 = s" "\<not> grace_verified cr sc ?p" "sc_auth_token sc \<noteq> None"
        using s s0 tv by (auto simp: challenge_key_def grace_verified_def at)
      with tok m tv gv rest at show ?thesis
        by (auto simp: server_proof_def Let_def hm_contains_def split: option.splits)
    next
      case False
      with True gv gt have "sc_grace_token sc = Some key" "grace_verified cr sc ?p" by auto
      with False m s tv gv rest at show ?thesis
        by (auto simp: server_proof_def Let_def hm_contains_def)
    qed
  next
    case False
    with key tv gv have "key \<in> set (fp_keys cr sv)"
      by (auto simp: candidate_keys_def fp_keys_def hm_contains_def split: option.splits)
    moreover have "\<forall>k \<in> set (fp_keys cr sv). verifies cr sc ?p k \<longleftrightarrow> k = key"
      using v by (auto simp: fp_keys_def candidate_keys_def)
    ultimately obtain i where "matched_first_pair cr sv sc ?p = Some i" "fp_keys cr sv ! i = key"
      using position_eq [of "fp_keys cr sv" "verifies cr sc ?p" key] False by (auto simp: matched_first_pair_def)
    with False s tv gv rest at show ?thesis
      by (auto simp: server_proof_def Let_def hm_contains_def)
  qed
qed

lemma finish_handshake_total:
  assumes "hkdf_total cr"
  obtains c v tok pid ek code where "for_client cr s = Inr c" "for_server cr s = Inr v"
    "derive_reconnect_token cr s = Inr tok" "derive_pair_material cr s = Inr (pid, ek)"
    "pair_verification_code cr s = Inr code"
proof -
  note t = derive_subkey_total [OF assms, of s]
  have "\<exists>c. for_client cr s = Inr c" "\<exists>v. for_server cr s = Inr v"
    using t [of CLIENT_TO_SERVER_KEY_LABEL] t [of SERVER_TO_CLIENT_KEY_LABEL]
    by (auto simp: for_client_def for_server_def from_session_labels_def split: sum.splits)
  moreover have "\<exists>tok. derive_reconnect_token cr s = Inr tok"
    using t by (auto simp: derive_reconnect_token_def derive_resumption_token_def)
  moreover have "\<exists>pid ek. derive_pair_material cr s = Inr (pid, ek)"
    using t [of PAIR_ID_LABEL] t [of PAIR_EVENT_KEY_LABEL] by (auto simp: derive_pair_material_def)
  moreover have "\<exists>code. pair_verification_code cr s = Inr code"
    using t [of PAIR_SAS_LABEL] by (auto simp: pair_verification_code_def)
  ultimately show thesis using that by blast
qed

text \<open>The credential a client starts from is one the host accepts for that device.\<close>

definition accepts_credential :: "server_handshake \<Rightarrow> device_id \<Rightarrow> client_credential \<Rightarrow> bool" where
  "accepts_credential sv did cred =
     (case cred of
        FirstPair secret \<Rightarrow> secret \<in> set (sv_pairing_secrets sv)
      | Resume tok \<Rightarrow> hm_get (sv_resumption_tokens sv) did = Some tok \<or>
          hm_contains (sv_resumption_tokens sv) did \<and> hm_get (sv_grace_tokens sv) did = Some tok)"

lemma accepted_is_candidate:
  "accepts_credential sv did cred \<Longrightarrow> credential_key cr cred \<in> candidate_keys cr sv did"
  by (auto simp: accepts_credential_def credential_key_def candidate_keys_def hm_contains_def
      split: client_credential.splits option.splits)

lemma server_hello_admitted:
  assumes "admitted env sh sv did epoch" and "sv_state sv = AwaitingHello" and "hkdf_total cr"
    and "x25519_contributory cr (env_eph env) pub"
  obtains sh' s0 where "server_step cr env sh sv (Hello did PROTOCOL_VERSION name pub) =
      (sh', sv\<lparr>sv_state := SentChallenge (challenge_for cr env sv did name pub epoch s0)\<rparr>,
       Inr (Send (PairingChallenge (env_nonce env) (x25519_public cr (env_eph env)))))"
    and "derive_session_from_key cr (challenge_key cr sv did) (env_nonce env) (x25519_shared cr (env_eph env) pub) = Inr s0"
proof -
  obtain sh' sv' r where h: "server_hello cr env sh sv did PROTOCOL_VERSION name pub = (sh', sv', r)"
    by (metis prod.collapse)
  from assms(1) have armed: "hm_contains (sv_resumption_tokens sv) did \<or> sv_pairing_secrets sv \<noteq> []"
    by (auto simp: admitted_def split: if_splits)
  have uniq: "e = epoch" if "admitted env sh sv did e" for e
    using that assms(1) by (auto simp: admitted_def split: if_splits)
  from h show thesis
  proof (cases rule: server_hello_cases)
    case (refused reason)
    with assms(1) show thesis by blast
  next
    case (passed e)
    with uniq have p: "issue_challenge cr env sv did name pub epoch = (sv', r)" by simp
    from issue_challenge_sent [OF p armed] assms(4) derive_session_total [OF assms(3)] obtain s0 where
      "r = Inr (Send (PairingChallenge (env_nonce env) (x25519_public cr (env_eph env))))"
      "derive_session_from_key cr (challenge_key cr sv did) (env_nonce env) (x25519_shared cr (env_eph env) pub) = Inr s0"
      "sv' = sv\<lparr>sv_state := SentChallenge (challenge_for cr env sv did name pub epoch s0)\<rparr>"
      by (metis Inr_not_Inl)
    with h assms(2) show thesis using that by simp
  qed
qed

definition quiet :: transport_log where
  "quiet = \<lparr>tp_sent = [], tp_send_faults = []\<rparr>"

definition honest_hello :: "crypto \<Rightarrow> device_id \<Rightarrow> string \<Rightarrow> bytes \<Rightarrow> handshake_message" where
  "honest_hello cr did name rnd = Hello did PROTOCOL_VERSION name (x25519_public cr rnd)"

definition honest_challenge :: "crypto \<Rightarrow> server_env \<Rightarrow> handshake_message" where
  "honest_challenge cr env = PairingChallenge (env_nonce env) (x25519_public cr (env_eph env))"

definition honest_proof :: "crypto \<Rightarrow> server_env \<Rightarrow> bytes \<Rightarrow> client_credential \<Rightarrow> handshake_message" where
  "honest_proof cr env rnd cred =
     PairingProof (proof_from_key cr (credential_key cr cred) (env_nonce env)
       (build_transcript (x25519_public cr rnd) (x25519_public cr (env_eph env))))"

text \<open>The session both ends of an honest exchange derive, as the client computes it.\<close>

definition honest_session :: "crypto \<Rightarrow> server_env \<Rightarrow> bytes \<Rightarrow> client_credential \<Rightarrow> session_secret sync_result" where
  "honest_session cr env rnd cred =
     derive_session_from_key cr (credential_key cr cred) (env_nonce env)
       (x25519_shared cr rnd (x25519_public cr (env_eph env)))"

lemma honest_client_run:
  assumes "x25519_contributory cr rnd (x25519_public cr (env_eph env))" and "honest_session cr env rnd cred = Inr s"
    and "for_client cr s = Inr c" and "derive_reconnect_token cr s = Inr tok"
    and "derive_pair_material cr s = Inr (pid, ek)" and "pair_verification_code cr s = Inr code"
  shows "\<exists>ch'. run_client_handshake_with cr rnd [Inr (honest_challenge cr env), Inr (PairingOk hid hname)] quiet
      (with_credential did name cred) =
    (quiet\<lparr>tp_sent := [honest_hello cr did name rnd, honest_proof cr env rnd cred]\<rparr>, ch',
     (case cred of FirstPair _ \<Rightarrow> [code] | Resume _ \<Rightarrow> []),
     Inr \<lparr>hr_cipher = c, hr_peer_device_id = hid, hr_peer_display_name = hname, hr_reconnect_token = tok,
          hr_resumed = (case cred of FirstPair _ \<Rightarrow> False | Resume _ \<Rightarrow> True), hr_previous_token = False,
          hr_pair_id = pid, hr_pair_event_key = ek, hr_enrollment_epoch = None, hr_verification_code = code\<rparr>)"
  using assms
  by (cases cred)
    (simp_all add: run_client_handshake_with_def client_start_def with_credential_def generate_ephemeral_def
      tp_send_def quiet_def honest_challenge_def honest_hello_def honest_proof_def honest_session_def
      client_challenge_def ecdh_shared_def verification_code_def is_resume_def finish_handshake_def Let_def)

text \<open>What the client's proof is computed over.\<close>

definition proof_message :: "crypto \<Rightarrow> server_env \<Rightarrow> bytes \<Rightarrow> bytes" where
  "proof_message cr env rnd =
     env_nonce env @ build_transcript (x25519_public cr rnd) (x25519_public cr (env_eph env))"

lemma keys_of_state [simp]:
  "candidate_keys cr (sv\<lparr>sv_state := st\<rparr>) did = candidate_keys cr sv did"
  "challenge_key cr (sv\<lparr>sv_state := st\<rparr>) did = challenge_key cr sv did"
  "challenge_for cr env (sv\<lparr>sv_state := st\<rparr>) did name pub epoch s = challenge_for cr env sv did name pub epoch s"
  by (auto simp: candidate_keys_def challenge_key_def challenge_for_def split: option.splits)

lemma honest_server_run:
  assumes "hkdf_total cr" and "x25519_agrees cr" and "hmac_separates cr (candidate_keys cr sv did) {proof_message cr env rnd}"
    and "x25519_contributory cr rnd (x25519_public cr (env_eph env))"
    and "sv_state sv = AwaitingHello" and "admitted env sh sv did epoch" and "accepts_credential sv did cred"
    and "honest_session cr env rnd cred = Inr s"
    and "for_server cr s = Inr c" and "derive_reconnect_token cr s = Inr tok"
    and "derive_pair_material cr s = Inr (pid, ek)" and "pair_verification_code cr s = Inr code"
  shows "\<exists>sh' resumed. run_server_handshake cr env [Inr (honest_hello cr did name rnd), Inr (honest_proof cr env rnd cred)] quiet sh sv =
    (quiet\<lparr>tp_sent := [honest_challenge cr env]\<rparr>, sh', sv\<lparr>sv_state := ServerDone\<rparr>,
     Inr \<lparr>hr_cipher = c, hr_peer_device_id = did, hr_peer_display_name = name, hr_reconnect_token = tok,
          hr_resumed = resumed, hr_previous_token = (hm_contains (sv_resumption_tokens sv) did \<and>
            hm_get (sv_resumption_tokens sv) did \<noteq> Some (credential_key cr cred) \<and>
            hm_get (sv_grace_tokens sv) did = Some (credential_key cr cred)),
          hr_pair_id = pid, hr_pair_event_key = ek, hr_enrollment_epoch = epoch, hr_verification_code = code\<rparr>) \<and>
     (\<forall>tok. cred = Resume tok \<longrightarrow> resumed)"
proof -
  define key where "key = credential_key cr cred"
  define pub where "pub = x25519_public cr rnd"
  have agree: "x25519_shared cr rnd (x25519_public cr (env_eph env)) = x25519_shared cr (env_eph env) pub"
    "x25519_contributory cr (env_eph env) pub" using assms(2,4) by (auto simp: x25519_agrees_def pub_def)
  from server_hello_admitted [OF assms(6,5,1) agree(2), of name] obtain sh1 s0
    where step1: "server_step cr env sh sv (honest_hello cr did name rnd) =
      (sh1, sv\<lparr>sv_state := SentChallenge (challenge_for cr env sv did name pub epoch s0)\<rparr>, Inr (Send (honest_challenge cr env)))"
    and s0: "derive_session_from_key cr (challenge_key cr sv did) (env_nonce env) (x25519_shared cr (env_eph env) pub) = Inr s0"
    unfolding honest_hello_def honest_challenge_def pub_def by metis
  define sc where "sc = challenge_for cr env sv did name pub epoch s0"
  define sv1 where "sv1 = sv\<lparr>sv_state := SentChallenge sc\<rparr>"
  have fields: "sc_nonce sc = env_nonce env" "sc_ecdh sc = x25519_shared cr (env_eph env) pub"
    "sc_transcript sc = build_transcript pub (x25519_public cr (env_eph env))" by (simp_all add: sc_def challenge_for_def)
  have cand: "candidate_keys cr sv1 did = candidate_keys cr sv did" "challenge_key cr sv1 did = challenge_key cr sv did"
    "sc = challenge_for cr env sv1 did name pub epoch s0"
    by (simp_all add: sv1_def sc_def)
  have epoch: "(if hm_contains (sv_resumption_tokens sv) did then None else epoch) = epoch"
    using assms(6) by (simp add: admitted_def split: if_splits)
  have sep: "hmac_separates cr (candidate_keys cr sv1 did) {sc_nonce sc @ sc_transcript sc}"
    and kk: "key \<in> candidate_keys cr sv1 did"
    using assms(3) accepted_is_candidate [OF assms(7), of cr]
    by (simp_all add: cand(1) key_def fields proof_message_def pub_def)
  have ss: "derive_session_from_key cr key (sc_nonce sc) (sc_ecdh sc) = Inr s"
    and ss0: "derive_session_from_key cr (challenge_key cr sv1 did) (sc_nonce sc) (sc_ecdh sc) = Inr s0"
    using assms(8) s0 by (simp_all add: fields key_def honest_session_def agree(1) cand(2))
  from server_accepts [OF sep kk cand(3) ss ss0, of sh1] obtain sh2 where step2:
    "server_proof cr sh1 sv1 sc (proof_from_key cr key (sc_nonce sc) (sc_transcript sc)) =
      (sh2, sv1\<lparr>sv_state := ServerDone\<rparr>, Inr (Done
      \<lparr>dn_session = s, dn_peer_device_id = did, dn_peer_display_name = name,
       dn_resumed = (hm_get (sv_resumption_tokens sv1) did = Some key \<or>
         hm_contains (sv_resumption_tokens sv1) did \<and> hm_get (sv_grace_tokens sv1) did = Some key),
       dn_previous_token = (hm_contains (sv_resumption_tokens sv1) did \<and>
         hm_get (sv_resumption_tokens sv1) did \<noteq> Some key \<and> hm_get (sv_grace_tokens sv1) did = Some key),
       dn_enrollment_epoch = (if hm_contains (sv_resumption_tokens sv1) did then None else epoch)\<rparr>))"
    by blast
  have hproof: "honest_proof cr env rnd cred = PairingProof (proof_from_key cr key (sc_nonce sc) (sc_transcript sc))"
    by (simp add: honest_proof_def fields key_def pub_def)
  have res: "cred = Resume t \<Longrightarrow> hm_get (sv_resumption_tokens sv) did = Some key \<or>
      hm_contains (sv_resumption_tokens sv) did \<and> hm_get (sv_grace_tokens sv) did = Some key" for t
    using assms(7) by (simp add: accepts_credential_def key_def credential_key_def)
  have step2': "server_step cr env sh1 sv1 (honest_proof cr env rnd cred) =
      server_proof cr sh1 sv1 sc (proof_from_key cr key (sc_nonce sc) (sc_transcript sc))"
    by (simp add: hproof sv1_def)
  have tokens: "sv_resumption_tokens sv1 = sv_resumption_tokens sv" "sv_grace_tokens sv1 = sv_grace_tokens sv"
    "sv1\<lparr>sv_state := ServerDone\<rparr> = sv\<lparr>sv_state := ServerDone\<rparr>"
    by (simp_all add: sv1_def)
  have s1: "server_step cr env sh sv (honest_hello cr did name rnd) = (sh1, sv1, Inr (Send (honest_challenge cr env)))"
    using step1 by (simp only: sv1_def sc_def)
  show ?thesis
    by (rule exI [of _ sh2], rule exI [of _ "hm_get (sv_resumption_tokens sv) did = Some key \<or>
        hm_contains (sv_resumption_tokens sv) did \<and> hm_get (sv_grace_tokens sv) did = Some key"])
      (use res in \<open>simp del: server_step.simps add: s1 step2' step2 tokens epoch tp_send_def quiet_def honest_challenge_def
        finish_handshake_def assms(9-12) key_def [symmetric]\<close>)
qed

text \<open>
  C1. An honest handshake succeeds and both ends agree. A client with a credential the host accepts
  for it (an armed pairing secret, the current token, or the previous one) that is admitted: the host
  answers its hello with a challenge, accepts its proof and finishes; the client, sent that challenge
  and the confirmation, finishes too. The ciphers are the two ends of one session; reconnect token,
  pair id, event key and comparison code are the same on both sides; both call it a resume exactly
  when a token was proved, the host knows when it was the previous one, and reports the enrollment
  epoch of a first pair. The phone shows the code, before the host confirms, exactly on a first pair.
\<close>

theorem honest_handshake_agrees:
  assumes "hkdf_total cr" and "x25519_agrees cr" and "hmac_separates cr (candidate_keys cr sv did) {proof_message cr env rnd}"
    and "x25519_contributory cr rnd (x25519_public cr (env_eph env))"
    and "sv_state sv = AwaitingHello" and "admitted env sh sv did epoch" and "accepts_credential sv did cred"
  shows "\<exists>sh' ch' codes rs rc session.
    run_server_handshake cr env [Inr (honest_hello cr did name rnd), Inr (honest_proof cr env rnd cred)] quiet sh sv =
      (quiet\<lparr>tp_sent := [honest_challenge cr env]\<rparr>, sh', sv\<lparr>sv_state := ServerDone\<rparr>, Inr rs) \<and>
    run_client_handshake_with cr rnd
      [Inr (honest_challenge cr env), Inr (PairingOk (sv_device_id sv) (sv_display_name sv))] quiet
      (with_credential did name cred) =
      (quiet\<lparr>tp_sent := [honest_hello cr did name rnd, honest_proof cr env rnd cred]\<rparr>, ch', codes, Inr rc) \<and>
    for_client cr session = Inr (hr_cipher rc) \<and> for_server cr session = Inr (hr_cipher rs) \<and>
    hr_reconnect_token rc = hr_reconnect_token rs \<and> hr_pair_id rc = hr_pair_id rs \<and>
    hr_pair_event_key rc = hr_pair_event_key rs \<and> hr_verification_code rc = hr_verification_code rs \<and>
    hr_peer_device_id rs = did \<and> hr_peer_device_id rc = sv_device_id sv \<and>
    hr_enrollment_epoch rs = epoch \<and>
    (case cred of
       FirstPair _ \<Rightarrow> \<not> hr_resumed rc \<and> codes = [hr_verification_code rs]
     | Resume tok \<Rightarrow> hr_resumed rc \<and> hr_resumed rs \<and> codes = [] \<and>
         hr_previous_token rs = (hm_get (sv_resumption_tokens sv) did \<noteq> Some tok))"
proof -
  obtain s where s: "honest_session cr env rnd cred = Inr s"
    using derive_session_total [OF assms(1)] unfolding honest_session_def by blast
  obtain c v tok pid ek code where m: "for_client cr s = Inr c" "for_server cr s = Inr v"
    "derive_reconnect_token cr s = Inr tok" "derive_pair_material cr s = Inr (pid, ek)"
    "pair_verification_code cr s = Inr code"
    using finish_handshake_total [OF assms(1)] by metis
  have prev: "(hm_contains (sv_resumption_tokens sv) did \<and>
      hm_get (sv_resumption_tokens sv) did \<noteq> Some t \<and> hm_get (sv_grace_tokens sv) did = Some t) =
      (hm_get (sv_resumption_tokens sv) did \<noteq> Some t)" if "cred = Resume t" for t
    using assms(7) that by (auto simp: accepts_credential_def hm_contains_def)
  from honest_server_run [OF assms s m(2-5), of name]
    honest_client_run [OF assms(4) s m(1,3-5), of "sv_device_id sv" "sv_display_name sv" did name]
  show ?thesis using m(1,2) prev by (cases cred) (fastforce simp: credential_key_def)+
qed

section \<open>A proof belongs to one exchange\<close>

lemma build_transcript_inj:
  assumes "build_transcript cp sp = build_transcript cp' sp'" and "length cp = length cp'"
  shows "cp = cp' \<and> sp = sp'"
  using assms by (simp add: build_transcript_def)

text \<open>
  A relayed or replayed proof is refused. A proof made under any key for another exchange (another
  nonce or another pair of ephemeral keys, as with a peer in the middle that runs one exchange with
  each side) is refused by a host that awaits a proof for its own exchange, and ends the handshake.
\<close>

theorem relayed_proof_refused:
  assumes "sv_state sv = SentChallenge sc" and "sc_transcript sc = build_transcript cp sp"
    and "length (sc_nonce sc) = length nonce" and "length cp = length cp'"
    and "(nonce, cp', sp') \<noteq> (sc_nonce sc, cp, sp)"
    and "hmac_separates cr (insert key (set_option (sc_auth_token sc) \<union> set_option (sc_grace_token sc) \<union> set (fp_keys cr sv)))
      {nonce @ build_transcript cp' sp', sc_nonce sc @ build_transcript cp sp}"
  shows "server_step cr env sh sv (PairingProof (proof_from_key cr key nonce (build_transcript cp' sp'))) =
    (sh, sv\<lparr>sv_state := ServerFailed\<rparr>,
     Inr (Send (PairingFailed (if sv_authenticated_device_revoked sv then Revoked else WrongPin))))"
proof -
  let ?K = "set_option (sc_auth_token sc) \<union> set_option (sc_grace_token sc) \<union> set (fp_keys cr sv)"
  let ?p = "proof_from_key cr key nonce (build_transcript cp' sp')"
  have "nonce @ build_transcript cp' sp' \<noteq> sc_nonce sc @ build_transcript cp sp"
    using assms(3-5) build_transcript_inj [of cp' sp' cp sp] by auto
  then have no: "\<not> verifies cr sc ?p k" if "k \<in> ?K" for k
    using that assms(2,6) unfolding verifies_def hmac_separates_def verify_proof_ok_iff proof_from_key_def
    by (metis insertCI)
  have "\<not> token_verified cr sc ?p" "\<not> grace_verified cr sc ?p"
    using no by (auto simp: token_verified_def grace_verified_def split: option.splits)
  moreover have "matched_first_pair cr sv sc ?p = None"
    using no by (cases "matched_first_pair cr sv sc ?p") (auto simp: matched_first_pair_def position_Some_iff split: if_splits)
  ultimately show ?thesis using assms(1) by (simp add: server_proof_def refused_def)
qed

section \<open>One guess per connection\<close>

text \<open>Messages to one connection, each met with whatever the shared state has become by then.\<close>

fun server_run ::
  "crypto \<Rightarrow> server_handshake \<Rightarrow> (host_shared \<times> server_env \<times> handshake_message) list \<Rightarrow>
     (handshake_message \<times> handshake_outcome sync_result) list" where
  "server_run cr sv [] = []"
| "server_run cr sv ((sh, env, m) # es) =
     (let (sh', sv', r) = server_step cr env sh sv m in (m, r) # server_run cr sv' es)"

definition judged_proofs :: "(handshake_message \<times> handshake_outcome sync_result) list \<Rightarrow> nat" where
  "judged_proofs log = length (filter (\<lambda>(m, r). (case m of PairingProof _ \<Rightarrow> True | _ \<Rightarrow> False) \<and> \<not> isl r) log)"

definition guesses_left :: "server_handshake \<Rightarrow> nat" where
  "guesses_left sv = (case sv_state sv of AwaitingHello \<Rightarrow> 1 | SentChallenge _ \<Rightarrow> 1 | _ \<Rightarrow> 0)"

lemma server_step_guesses:
  assumes "server_step cr env sh sv m = (sh', sv', r)"
  shows "(if (case m of PairingProof _ \<Rightarrow> True | _ \<Rightarrow> False) \<and> \<not> isl r then 1 else 0) + guesses_left sv' \<le> guesses_left sv"
proof (cases "sv_state sv")
  case AwaitingHello
  show ?thesis
  proof (cases m)
    case (Hello did v name pub)
    with AwaitingHello show ?thesis by (simp add: guesses_left_def split: server_state.splits)
  qed (use assms AwaitingHello in \<open>auto simp: unexpected_def\<close>)
next
  case (SentChallenge sc)
  show ?thesis
  proof (cases m)
    case (PairingProof p)
    with assms SentChallenge have "server_proof cr sh sv sc p = (sh', sv', r)" by simp
    from server_proof_frame [OF this] SentChallenge show ?thesis by (auto simp: guesses_left_def)
  qed (use assms SentChallenge in \<open>auto simp: unexpected_def\<close>)
qed (use assms in \<open>cases m; auto simp: unexpected_def guesses_left_def\<close>)+

text \<open>
  One guess per connection. Whatever sequence of messages a peer sends on one connection, and
  whatever happens to the host's shared state in between, the host judges at most one proof on it;
  every further one is a protocol error.
\<close>

theorem one_guess_per_connection: "judged_proofs (server_run cr sv es) \<le> 1"
proof -
  have "judged_proofs (server_run cr sv es) \<le> guesses_left sv"
  proof (induction es arbitrary: sv)
    case Nil
    show ?case by (simp add: judged_proofs_def)
  next
    case (Cons e es)
    obtain sh env m where e: "e = (sh, env, m)" by (cases e)
    obtain sh' sv' r where s: "server_step cr env sh sv m = (sh', sv', r)" by (metis prod.collapse)
    from server_step_guesses [OF s] Cons.IH [of sv'] show ?case
      by (auto simp: e s judged_proofs_def simp del: server_step.simps split: if_splits)
  qed
  also have "\<dots> \<le> 1" by (simp add: guesses_left_def split: server_state.splits)
  finally show ?thesis .
qed

section \<open>A concrete exchange\<close>

definition sample_pairing :: pairing_state where
  "sample_pairing = pairing_open 0 10 (new_pairing_state [Ticket (replicate 16 7)])"

definition sample_server :: server_handshake where
  "sample_server = with_rate_limit_key ''source'' (with_authenticated_device [5] False
     (with_first_pair (snapshot 1 sample_pairing) (new_server [9] ''host'')))"

definition sample_shared :: host_shared where
  "sample_shared = \<lparr>hs_rate_limiter = Some [], hs_pairing = Some sample_pairing\<rparr>"

definition sample_env :: server_env where
  "sample_env = \<lparr>env_gate_now = 1, env_limit_now = 1, env_nonce = replicate 32 3, env_eph = replicate 32 4\<rparr>"

lemmas sample_defs =
  sample_pairing_def sample_server_def sample_shared_def sample_env_def with_rate_limit_key_def
  with_authenticated_device_def with_first_pair_def snapshot_def new_server_def pairing_open_def
  new_pairing_state_def open_window_def new_window_def current_epoch_def is_open_def

lemma sample_facts:
  "sv_state sample_server = AwaitingHello" "sv_resumption_tokens sample_server = []"
  "sv_grace_tokens sample_server = []" "sv_pairing_secrets sample_server = [Ticket (replicate 16 7)]"
  "sv_authenticated_device sample_server = Some [5]"
  by (simp_all add: sample_defs)

lemma sample_admitted: "admitted sample_env sample_shared sample_server [5] (Some 1)"
  by (simp add: admitted_def sample_defs source_allowed_def gc_cold_def new_limiter_def limiter_check_def
      window_allows_def GLOBAL_FIRST_PAIR_CAP_def)

lemma sample_keys: "candidate_keys plain_crypto sample_server [5] = {first_pair_key plain_crypto (Ticket (replicate 16 7))}"
  by (simp add: candidate_keys_def sample_facts)

lemma sample_contributory: "x25519_contributory plain_crypto s p"
  by (simp add: plain_crypto_def)

theorem challenge_iff_admitted_witness:
  "\<exists>sh' sv' n p. server_step plain_crypto sample_env sample_shared sample_server
     (Hello [5] PROTOCOL_VERSION ''phone'' (replicate 32 1)) = (sh', sv', Inr (Send (PairingChallenge n p)))"
proof -
  obtain sh' sv' r where s: "server_step plain_crypto sample_env sample_shared sample_server
      (Hello [5] PROTOCOL_VERSION ''phone'' (replicate 32 1)) = (sh', sv', r)" by (metis prod.collapse)
  from challenge_iff_admitted [OF plain_crypto_hkdf_total sample_facts(1) s] sample_admitted sample_contributory
  have "\<exists>n p. r = Inr (Send (PairingChallenge n p))" by blast
  with s show ?thesis by blast
qed

theorem honest_handshake_agrees_witness:
  "\<exists>sh' rs. run_server_handshake plain_crypto sample_env
      [Inr (honest_hello plain_crypto [5] ''phone'' (replicate 32 6)),
       Inr (honest_proof plain_crypto sample_env (replicate 32 6) (FirstPair (Ticket (replicate 16 7))))]
      quiet sample_shared sample_server =
    (quiet\<lparr>tp_sent := [honest_challenge plain_crypto sample_env]\<rparr>, sh', sample_server\<lparr>sv_state := ServerDone\<rparr>, Inr rs) \<and>
    hr_peer_device_id rs = [5] \<and> hr_enrollment_epoch rs = Some 1"
proof -
  have "hmac_separates plain_crypto (candidate_keys plain_crypto sample_server [5])
      {proof_message plain_crypto sample_env (replicate 32 6)}"
    by (simp add: sample_keys hmac_separates_def)
  moreover have "accepts_credential sample_server [5] (FirstPair (Ticket (replicate 16 7)))"
    by (simp add: accepts_credential_def sample_facts)
  ultimately show ?thesis
    using honest_handshake_agrees [OF plain_crypto_hkdf_total plain_crypto_x25519_agrees _ sample_contributory
        sample_facts(1) sample_admitted, of "replicate 32 6" "FirstPair (Ticket (replicate 16 7))" "''phone''"]
    by blast
qed

definition sample_challenge :: challenge where
  "sample_challenge = challenge_for plain_crypto sample_env sample_server [5] ''phone'' (replicate 32 6) (Some 1) (replicate 32 0)"

theorem session_requires_credential_witness:
  "\<exists>sh sv sh' sv' d m. server_reaches plain_crypto sample_server sh sv \<and>
     server_step plain_crypto sample_env sh sv m = (sh', sv', Inr (Done d)) \<and>
     \<not> dn_resumed d \<and> dn_peer_device_id d = [5] \<and> dn_enrollment_epoch d = Some 1"
proof -
  let ?pub = "replicate 32 6 :: bytes" and ?key = "first_pair_key plain_crypto (Ticket (replicate 16 7))"
  obtain sh1 s0 where h: "server_step plain_crypto sample_env sample_shared sample_server
      (Hello [5] PROTOCOL_VERSION ''phone'' ?pub) =
      (sh1, sample_server\<lparr>sv_state := SentChallenge (challenge_for plain_crypto sample_env sample_server [5] ''phone'' ?pub (Some 1) s0)\<rparr>,
       Inr (Send (PairingChallenge (env_nonce sample_env) (x25519_public plain_crypto (env_eph sample_env)))))"
    and s0: "derive_session_from_key plain_crypto (challenge_key plain_crypto sample_server [5]) (env_nonce sample_env)
        (x25519_shared plain_crypto (env_eph sample_env) ?pub) = Inr s0"
    by (rule server_hello_admitted [OF sample_admitted sample_facts(1) plain_crypto_hkdf_total sample_contributory])
  define sc where "sc = challenge_for plain_crypto sample_env sample_server [5] ''phone'' ?pub (Some 1) s0"
  let ?sv = "sample_server\<lparr>sv_state := SentChallenge sc\<rparr>"
  have reach: "server_reaches plain_crypto sample_server sh1 ?sv"
    using server_reaches.message [OF server_reaches.init h] by (simp add: sc_def)
  have sep: "hmac_separates plain_crypto (candidate_keys plain_crypto ?sv [5]) {sc_nonce sc @ sc_transcript sc}"
    and key: "?key \<in> candidate_keys plain_crypto ?sv [5]"
    by (simp_all add: sample_keys hmac_separates_def)
  have scv: "sc = challenge_for plain_crypto sample_env ?sv [5] ''phone'' ?pub (Some 1) s0" by (simp add: sc_def)
  have k: "challenge_key plain_crypto ?sv [5] = ?key" by (simp add: challenge_key_def sample_facts)
  have f: "sc_nonce sc = env_nonce sample_env" "sc_ecdh sc = x25519_shared plain_crypto (env_eph sample_env) ?pub"
    by (simp_all add: sc_def challenge_for_def)
  from s0 k f have s1: "derive_session_from_key plain_crypto ?key (sc_nonce sc) (sc_ecdh sc) = Inr s0"
    and s2: "derive_session_from_key plain_crypto (challenge_key plain_crypto ?sv [5]) (sc_nonce sc) (sc_ecdh sc) = Inr s0"
    by simp_all
  from server_accepts [OF sep key scv s1 s2, of sh1] obtain sh2 sv2 d where
    d: "server_step plain_crypto sample_env sh1 ?sv (PairingProof (proof_from_key plain_crypto ?key (sc_nonce sc) (sc_transcript sc))) =
      (sh2, sv2, Inr (Done d))" and nd: "dn_peer_device_id d = [5]" "\<not> dn_resumed d"
    by (auto simp: sample_facts hm_contains_def)
  have win: "sv_windowed sample_server" "sv_enrollment_exempt_device sample_server = None" "sv_snapshot_epoch sample_server = Some 1"
    by (simp_all add: sample_defs)
  from session_requires_credential [OF reach sample_facts(1) d] have "dn_enrollment_epoch d = Some 1"
    by (auto simp: nd sample_facts win hm_contains_def)
  with reach d nd show ?thesis by blast
qed

theorem relayed_proof_refused_witness:
  "server_step plain_crypto sample_env sample_shared (sample_server\<lparr>sv_state := SentChallenge sample_challenge\<rparr>)
     (PairingProof (proof_from_key plain_crypto (replicate 32 8) (replicate 32 2)
       (build_transcript (replicate 32 6) (replicate 32 4)))) =
   (sample_shared, sample_server\<lparr>sv_state := ServerFailed\<rparr>, Inr (Send (PairingFailed WrongPin)))"
proof -
  let ?sv = "sample_server\<lparr>sv_state := SentChallenge sample_challenge\<rparr>"
  have f: "sc_auth_token sample_challenge = None" "sc_grace_token sample_challenge = None"
    "sc_nonce sample_challenge = replicate 32 3"
    "sc_transcript sample_challenge = build_transcript (replicate 32 6) (x25519_public plain_crypto (replicate 32 4))"
    by (simp_all add: sample_challenge_def challenge_for_def sample_facts sample_env_def hm_contains_def)
  have fp: "fp_keys plain_crypto ?sv = [first_pair_key plain_crypto (Ticket (replicate 16 7))]"
    by (simp add: fp_keys_def sample_facts)
  have "hmac_separates plain_crypto (insert (replicate 32 8)
      (set_option (sc_auth_token sample_challenge) \<union> set_option (sc_grace_token sample_challenge) \<union> set (fp_keys plain_crypto ?sv)))
      {replicate 32 2 @ build_transcript (replicate 32 6) (replicate 32 4),
       sc_nonce sample_challenge @ build_transcript (replicate 32 6) (x25519_public plain_crypto (replicate 32 4))}"
    unfolding f fp hmac_separates_def by code_simp
  from relayed_proof_refused [OF _ f(4) _ _ _ this, of sample_env sample_shared]
  show ?thesis by (simp add: f sample_defs)
qed

end

