(* ===== verification/Admission.thy ===== *)
theory Admission
  imports Prelude
begin

text \<open>
  Admission of dials in \<open>crates/host/src/iroh_serve.rs\<close>: the per-source staging gate, the two staging
  pools and the serving pool of \<open>accept_loop\<close>, and the slots and permits that every connection task
  gives back when it ends. A semaphore is the number of its free permits; dropping a permit or a slot
  is an explicit release.
\<close>

section \<open>Capacities\<close>

definition MAX_ACTIVE_CONNECTIONS :: nat where "MAX_ACTIVE_CONNECTIONS = 8"
definition MAX_STAGING_CONNECTIONS :: nat where "MAX_STAGING_CONNECTIONS = 24"
definition MAX_STAGING_PER_SOURCE :: nat where "MAX_STAGING_PER_SOURCE = 2"
definition STAGING_RESERVE_FOR_KNOWN_PEERS :: nat where "STAGING_RESERVE_FOR_KNOWN_PEERS = 4"

lemmas capacity_defs =
  MAX_ACTIVE_CONNECTIONS_def MAX_STAGING_CONNECTIONS_def MAX_STAGING_PER_SOURCE_def
  STAGING_RESERVE_FOR_KNOWN_PEERS_def

section \<open>Who is dialing\<close>

text \<open>
  The remote address of a dial, with the renderings the transport library gives of it. The device of
  a relayed endpoint id is a parameter (\<open>None\<close>: the id is no valid key).
\<close>

datatype incoming_addr = IpAddr string | RelayAddr string | OtherAddr string

fun staging_source_key :: "incoming_addr \<Rightarrow> string" where
  "staging_source_key (IpAddr ip) = ''ip:'' @ ip"
| "staging_source_key (RelayAddr endpoint_id) = ''node:'' @ endpoint_id"
| "staging_source_key (OtherAddr shown) = ''other:'' @ shown"

fun dial_claims_known_peer :: "(string \<Rightarrow> bytes option) \<Rightarrow> incoming_addr \<Rightarrow> bytes list \<Rightarrow> bool" where
  "dial_claims_known_peer device_of (RelayAddr endpoint_id) known =
     (case device_of endpoint_id of None \<Rightarrow> False | Some d \<Rightarrow> d \<in> set known)"
| "dial_claims_known_peer device_of _ known = False"

section \<open>The staging gate\<close>

type_synonym staging_gate = "(string, nat) hashmap"

definition try_enter :: "string \<Rightarrow> nat \<Rightarrow> staging_gate \<Rightarrow> staging_gate \<times> bool" where
  "try_enter key cap g =
     (let count = (case hm_get g key of None \<Rightarrow> 0 | Some n \<Rightarrow> n);
          g1 = hm_insert key count g
      in if count \<ge> cap
         then ((if count = 0 then hm_remove key g1 else g1), False)
         else (hm_insert key (count + 1) g1, True))"

definition release_slot :: "string \<Rightarrow> staging_gate \<Rightarrow> staging_gate" where
  "release_slot key g =
     (case hm_get g key of
        None \<Rightarrow> g
      | Some n \<Rightarrow> (let n' = n - 1 in if n' = 0 then hm_remove key g else hm_insert key n' g))"

definition gate_count :: "string \<Rightarrow> staging_gate \<Rightarrow> nat" where
  "gate_count key g = (case hm_get g key of None \<Rightarrow> 0 | Some n \<Rightarrow> n)"

lemma try_enter_count:
  assumes "try_enter key cap g = (g', entered)" and "\<forall>k. hm_get g k \<noteq> Some 0"
  shows "entered \<longleftrightarrow> gate_count key g < cap"
    and "gate_count k g' = gate_count k g + (if entered \<and> k = key then 1 else 0)"
    and "hm_get g' k \<noteq> Some 0"
  using assms by (auto simp: try_enter_def gate_count_def Let_def split: if_splits option.splits)

lemma release_slot_count:
  "gate_count k (release_slot key g) = gate_count k g - (if k = key then 1 else 0)"
  "\<forall>k. hm_get g k \<noteq> Some 0 \<Longrightarrow> hm_get (release_slot key g) k \<noteq> Some 0"
  by (auto simp: release_slot_def gate_count_def Let_def split: option.splits)

section \<open>Connections and their permits\<close>

datatype pool = General | Reserved

record connection =
  cn_source :: string
  cn_staged :: "pool option"
  cn_serving :: bool

record admission =
  ad_gate :: staging_gate
  ad_staging_free :: nat
  ad_known_free :: nat
  ad_serving_free :: nat
  ad_conns :: "(nat, connection) hashmap"

definition fresh_admission :: admission where
  "fresh_admission = \<lparr>ad_gate = [], ad_staging_free = MAX_STAGING_CONNECTIONS,
     ad_known_free = STAGING_RESERVE_FOR_KNOWN_PEERS, ad_serving_free = MAX_ACTIVE_CONNECTIONS, ad_conns = []\<rparr>"

text \<open>
  One turn of the accept loop for a dial: the per-source gate, then the general pool, then the reserve
  for dials that look like a paired device. A refused dial gives its slot back.
\<close>

definition accept_dial ::
  "(string \<Rightarrow> bytes option) \<Rightarrow> bytes list \<Rightarrow> nat \<Rightarrow> incoming_addr \<Rightarrow> admission \<Rightarrow> admission \<times> bool" where
  "accept_dial device_of known c addr ad =
     (let source = staging_source_key addr;
          (g, entered) = try_enter source MAX_STAGING_PER_SOURCE (ad_gate ad);
          ad1 = ad\<lparr>ad_gate := g\<rparr>
      in if \<not> entered then (ad1, False)
         else if ad_staging_free ad1 > 0 then
           (ad1\<lparr>ad_staging_free := ad_staging_free ad1 - 1,
                ad_conns := hm_insert c \<lparr>cn_source = source, cn_staged = Some General, cn_serving = False\<rparr> (ad_conns ad1)\<rparr>, True)
         else if ad_known_free ad1 > 0 \<and> dial_claims_known_peer device_of addr known then
           (ad1\<lparr>ad_known_free := ad_known_free ad1 - 1,
                ad_conns := hm_insert c \<lparr>cn_source = source, cn_staged = Some Reserved, cn_serving = False\<rparr> (ad_conns ad1)\<rparr>, True)
         else (ad1\<lparr>ad_gate := release_slot source (ad_gate ad1)\<rparr>, False))"

text \<open>Dropping \<open>staging_permit\<close> and \<open>staging_slot\<close>.\<close>

definition release_staging :: "connection \<Rightarrow> admission \<Rightarrow> admission" where
  "release_staging cn ad =
     (case cn_staged cn of
        None \<Rightarrow> ad
      | Some General \<Rightarrow> ad\<lparr>ad_staging_free := ad_staging_free ad + 1, ad_gate := release_slot (cn_source cn) (ad_gate ad)\<rparr>
      | Some Reserved \<Rightarrow> ad\<lparr>ad_known_free := ad_known_free ad + 1, ad_gate := release_slot (cn_source cn) (ad_gate ad)\<rparr>)"

text \<open>An authenticated connection takes a serving permit, then gives its staging capacity back.\<close>

definition graduate :: "nat \<Rightarrow> admission \<Rightarrow> admission \<times> bool" where
  "graduate c ad =
     (case hm_get (ad_conns ad) c of
        None \<Rightarrow> (ad, False)
      | Some cn \<Rightarrow>
          if cn_serving cn \<or> ad_serving_free ad = 0 then (ad, False)
          else (let ad1 = release_staging cn ad
                in (ad1\<lparr>ad_serving_free := ad_serving_free ad - 1,
                       ad_conns := hm_insert c (cn\<lparr>cn_staged := None, cn_serving := True\<rparr>) (ad_conns ad)\<rparr>, True)))"

text \<open>The task ends, whichever way: everything it still holds is dropped.\<close>

definition finish :: "nat \<Rightarrow> admission \<Rightarrow> admission" where
  "finish c ad =
     (case hm_get (ad_conns ad) c of
        None \<Rightarrow> ad
      | Some cn \<Rightarrow>
          (let ad1 = release_staging cn ad
           in ad1\<lparr>ad_serving_free := ad_serving_free ad1 + (if cn_serving cn then 1 else 0),
                  ad_conns := hm_remove c (ad_conns ad1)\<rparr>))"

section \<open>Runs\<close>

datatype admission_event =
    Dial nat incoming_addr "bytes list"
  | Authenticate nat
  | End nat

text \<open>Connection numbers stand for tasks, so a dial takes a number no task has.\<close>

fun admission_step :: "(string \<Rightarrow> bytes option) \<Rightarrow> admission \<Rightarrow> admission_event \<Rightarrow> admission" where
  "admission_step device_of ad (Dial c addr known) =
     (if hm_contains (ad_conns ad) c then ad else fst (accept_dial device_of known c addr ad))"
| "admission_step device_of ad (Authenticate c) = fst (graduate c ad)"
| "admission_step device_of ad (End c) = finish c ad"

definition staged_by :: "string \<Rightarrow> admission \<Rightarrow> nat" where
  "staged_by key ad = hm_count (\<lambda>cn. cn_source cn = key \<and> cn_staged cn \<noteq> None) (ad_conns ad)"

definition staged_in :: "pool \<Rightarrow> admission \<Rightarrow> nat" where
  "staged_in p ad = hm_count (\<lambda>cn. cn_staged cn = Some p) (ad_conns ad)"

definition serving :: "admission \<Rightarrow> nat" where
  "serving ad = hm_count cn_serving (ad_conns ad)"

text \<open>Every permit and every slot is accounted for by exactly one connection.\<close>

definition admission_inv :: "admission \<Rightarrow> bool" where
  "admission_inv ad \<longleftrightarrow>
     hm_wf (ad_conns ad) \<and>
     (\<forall>key. gate_count key (ad_gate ad) = staged_by key ad \<and> hm_get (ad_gate ad) key \<noteq> Some 0) \<and>
     (\<forall>key. staged_by key ad \<le> MAX_STAGING_PER_SOURCE) \<and>
     staged_in General ad + ad_staging_free ad = MAX_STAGING_CONNECTIONS \<and>
     staged_in Reserved ad + ad_known_free ad = STAGING_RESERVE_FOR_KNOWN_PEERS \<and>
     serving ad + ad_serving_free ad = MAX_ACTIVE_CONNECTIONS"

lemmas count_defs = staged_by_def staged_in_def serving_def

lemma release_staging_effect:
  "ad_conns (release_staging cn ad) = ad_conns ad" "ad_serving_free (release_staging cn ad) = ad_serving_free ad"
  "ad_staging_free (release_staging cn ad) = ad_staging_free ad + of_bool (cn_staged cn = Some General)"
  "ad_known_free (release_staging cn ad) = ad_known_free ad + of_bool (cn_staged cn = Some Reserved)"
  "gate_count k (ad_gate (release_staging cn ad)) =
     gate_count k (ad_gate ad) - of_bool (cn_staged cn \<noteq> None \<and> cn_source cn = k)"
  "\<forall>k. hm_get (ad_gate ad) k \<noteq> Some 0 \<Longrightarrow> hm_get (ad_gate (release_staging cn ad)) k \<noteq> Some 0"
  by (auto simp: release_staging_def release_slot_count split: option.splits pool.splits)

text \<open>What one connection contributes to a count; and the invariant of a state in which only it changed.\<close>

definition weight :: "(connection \<Rightarrow> bool) \<Rightarrow> connection option \<Rightarrow> nat" where
  "weight P cn = (case cn of None \<Rightarrow> 0 | Some u \<Rightarrow> of_bool (P u))"

definition staged_from :: "string \<Rightarrow> connection \<Rightarrow> bool" where
  "staged_from key cn \<longleftrightarrow> cn_source cn = key \<and> cn_staged cn \<noteq> None"

lemma weight_simps [simp]: "weight P None = 0" "weight P (Some cn) = of_bool (P cn)"
  by (simp_all add: weight_def)

lemma admission_inv_change:
  assumes "admission_inv ad" and "hm_wf (ad_conns ad')"
    and cnt: "\<And>P. hm_count P (ad_conns ad') + weight P old = hm_count P (ad_conns ad) + weight P new"
    and gate: "\<And>k. gate_count k (ad_gate ad') + weight (staged_from k) old = gate_count k (ad_gate ad) + weight (staged_from k) new"
    and zero: "\<And>k. hm_get (ad_gate ad') k \<noteq> Some 0"
    and cap: "\<And>k. gate_count k (ad_gate ad') \<le> MAX_STAGING_PER_SOURCE"
    and gen: "ad_staging_free ad' + weight (\<lambda>cn. cn_staged cn = Some General) new =
      ad_staging_free ad + weight (\<lambda>cn. cn_staged cn = Some General) old"
    and res: "ad_known_free ad' + weight (\<lambda>cn. cn_staged cn = Some Reserved) new =
      ad_known_free ad + weight (\<lambda>cn. cn_staged cn = Some Reserved) old"
    and srv: "ad_serving_free ad' + weight cn_serving new = ad_serving_free ad + weight cn_serving old"
  shows "admission_inv ad'"
proof -
  have sf: "staged_by k x = hm_count (staged_from k) (ad_conns x)" for k x
    by (simp add: staged_by_def staged_from_def [abs_def])
  have "gate_count k (ad_gate ad') = staged_by k ad'" for k
    using cnt [of "staged_from k"] gate [of k] assms(1) by (simp add: admission_inv_def sf)
  moreover from this cap have "staged_by k ad' \<le> MAX_STAGING_PER_SOURCE" for k by metis
  moreover have "staged_in General ad' + ad_staging_free ad' = MAX_STAGING_CONNECTIONS"
    using cnt [of "\<lambda>cn. cn_staged cn = Some General"] gen assms(1) by (simp add: admission_inv_def staged_in_def)
  moreover have "staged_in Reserved ad' + ad_known_free ad' = STAGING_RESERVE_FOR_KNOWN_PEERS"
    using cnt [of "\<lambda>cn. cn_staged cn = Some Reserved"] res assms(1) by (simp add: admission_inv_def staged_in_def)
  moreover have "serving ad' + ad_serving_free ad' = MAX_ACTIVE_CONNECTIONS"
    using cnt [of cn_serving] srv assms(1) by (simp add: admission_inv_def serving_def)
  ultimately show ?thesis using assms(2) zero unfolding admission_inv_def by blast
qed

lemma gate_covers:
  assumes "admission_inv ad" and "hm_get (ad_conns ad) c = Some cn" and "staged_from k cn"
  shows "0 < gate_count k (ad_gate ad)"
proof -
  have "hm_wf (ad_conns ad)" "gate_count k (ad_gate ad) = hm_count (staged_from k) (ad_conns ad)"
    using assms(1) by (simp_all add: admission_inv_def staged_by_def staged_from_def [abs_def])
  with hm_count_remove [of "ad_conns ad" "staged_from k" c] assms(2,3) show ?thesis by simp
qed

lemma release_staging_gate:
  assumes "admission_inv ad" and "hm_get (ad_conns ad) c = Some cn"
  shows "gate_count k (ad_gate (release_staging cn ad)) + of_bool (staged_from k cn) = gate_count k (ad_gate ad)"
  using gate_covers [OF assms, of k] by (auto simp: release_staging_effect(5) staged_from_def)

lemma admission_inv_cap: "admission_inv ad \<Longrightarrow> gate_count k (ad_gate ad) \<le> MAX_STAGING_PER_SOURCE"
  by (simp add: admission_inv_def)

lemma admission_inv_finish:
  assumes "admission_inv ad"
  shows "admission_inv (finish c ad)"
proof (cases "hm_get (ad_conns ad) c")
  case None
  with assms show ?thesis by (simp add: finish_def)
next
  case (Some cn)
  have wf: "hm_wf (ad_conns ad)" using assms by (simp add: admission_inv_def)
  have g: "gate_count k (ad_gate (release_staging cn ad)) + of_bool (staged_from k cn) = gate_count k (ad_gate ad)" for k
    by (rule release_staging_gate [OF assms Some])
  show ?thesis
  proof (rule admission_inv_change [OF assms, where old = "Some cn" and new = None])
    show "hm_count P (ad_conns (finish c ad)) + weight P (Some cn) = hm_count P (ad_conns ad) + weight P None" for P
      using hm_count_remove [OF wf, of P c] by (simp add: finish_def Some Let_def release_staging_effect)
    show "gate_count k (ad_gate (finish c ad)) \<le> MAX_STAGING_PER_SOURCE" for k
      using g [of k] admission_inv_cap [OF assms, of k] by (simp add: finish_def Some Let_def)
  qed (use assms wf g in \<open>auto simp: finish_def Some Let_def release_staging_effect admission_inv_def\<close>)
qed

lemma admission_inv_graduate:
  assumes "admission_inv ad"
  shows "admission_inv (fst (graduate c ad))"
proof (cases "\<exists>cn. hm_get (ad_conns ad) c = Some cn \<and> \<not> cn_serving cn \<and> ad_serving_free ad \<noteq> 0")
  case False
  with assms show ?thesis by (auto simp: graduate_def split: option.splits)
next
  case True
  then obtain cn where cn: "hm_get (ad_conns ad) c = Some cn" "\<not> cn_serving cn" "ad_serving_free ad \<noteq> 0" by blast
  define cn' where "cn' = cn\<lparr>cn_staged := None, cn_serving := True\<rparr>"
  have wf: "hm_wf (ad_conns ad)" using assms by (simp add: admission_inv_def)
  have g: "gate_count k (ad_gate (release_staging cn ad)) + of_bool (staged_from k cn) = gate_count k (ad_gate ad)" for k
    by (rule release_staging_gate [OF assms cn(1)])
  have e: "fst (graduate c ad) = (release_staging cn ad)\<lparr>ad_serving_free := ad_serving_free ad - 1,
      ad_conns := hm_insert c cn' (ad_conns ad)\<rparr>"
    using cn by (simp add: graduate_def cn'_def Let_def)
  show ?thesis
  proof (rule admission_inv_change [OF assms, where old = "Some cn" and new = "Some cn'"])
    show "hm_count P (ad_conns (fst (graduate c ad))) + weight P (Some cn) = hm_count P (ad_conns ad) + weight P (Some cn')" for P
      using hm_count_insert [OF wf, of P c cn'] by (simp add: e cn(1))
    show "gate_count k (ad_gate (fst (graduate c ad))) \<le> MAX_STAGING_PER_SOURCE" for k
      using g [of k] admission_inv_cap [OF assms, of k] by (simp add: e)
    show "gate_count k (ad_gate (fst (graduate c ad))) + weight (staged_from k) (Some cn) =
        gate_count k (ad_gate ad) + weight (staged_from k) (Some cn')" for k
      using g [of k] by (simp add: e cn'_def staged_from_def)
  qed (use assms wf cn in \<open>auto simp: e cn'_def release_staging_effect admission_inv_def\<close>)
qed

lemma admission_inv_dial:
  assumes "admission_inv ad" and "hm_get (ad_conns ad) c = None"
  shows "admission_inv (fst (accept_dial device_of known c addr ad))"
proof -
  define source where "source = staging_source_key addr"
  obtain g entered where t: "try_enter source MAX_STAGING_PER_SOURCE (ad_gate ad) = (g, entered)" by fastforce
  have nz: "\<forall>k. hm_get (ad_gate ad) k \<noteq> Some 0" and wf: "hm_wf (ad_conns ad)"
    using assms(1) by (simp_all add: admission_inv_def)
  note te = try_enter_count [OF t nz]
  have cap: "gate_count k g \<le> MAX_STAGING_PER_SOURCE" for k
    using te(1) te(2) [of k] admission_inv_cap [OF assms(1), of k] by (auto split: if_splits)
  have same: "admission_inv (ad\<lparr>ad_gate := g'\<rparr>)"
    if "\<And>k. gate_count k g' = gate_count k (ad_gate ad)" "\<And>k. hm_get g' k \<noteq> Some 0" for g'
    by (rule admission_inv_change [OF assms(1), where old = None and new = None])
      (use that wf admission_inv_cap [OF assms(1)] in simp_all)
  have added: "admission_inv (ad\<lparr>ad_gate := g, ad_staging_free := sf, ad_known_free := kf, ad_conns := hm_insert c cn (ad_conns ad)\<rparr>)"
    if "cn_source cn = source" "cn_staged cn = Some p" "\<not> cn_serving cn" "entered"
      "sf + of_bool (p = General) = ad_staging_free ad" "kf + of_bool (p = Reserved) = ad_known_free ad" for cn p sf kf
  proof (rule admission_inv_change [OF assms(1), where old = None and new = "Some cn"])
    show "hm_count P (ad_conns (ad\<lparr>ad_gate := g, ad_staging_free := sf, ad_known_free := kf, ad_conns := hm_insert c cn (ad_conns ad)\<rparr>)) +
        weight P None = hm_count P (ad_conns ad) + weight P (Some cn)" for P
      using hm_count_insert [OF wf, of P c cn] assms(2) by simp
  qed (use that wf te cap in \<open>auto simp: staged_from_def\<close>)
  have returned: "gate_count k (release_slot source g) = gate_count k (ad_gate ad)" "hm_get (release_slot source g) k \<noteq> Some 0"
    if "entered" for k
    using te(2,3) that release_slot_count(1) [of k source g] release_slot_count(2) [of g source k] by auto
  show ?thesis
    using te(2,3) same [of g] same [of "release_slot source g"] returned
      added [of "\<lparr>cn_source = source, cn_staged = Some General, cn_serving = False\<rparr>" General "ad_staging_free ad - 1" "ad_known_free ad"]
      added [of "\<lparr>cn_source = source, cn_staged = Some Reserved, cn_serving = False\<rparr>" Reserved "ad_staging_free ad" "ad_known_free ad - 1"]
    by (auto simp: accept_dial_def t Let_def source_def [symmetric])
qed

lemma admission_step_inv: "admission_inv ad \<Longrightarrow> admission_inv (admission_step device_of ad e)"
  by (cases e) (simp_all add: admission_inv_dial admission_inv_graduate admission_inv_finish hm_contains_def)

interpretation admit: step_invariant "admission_step device_of" admission_inv for device_of
  by unfold_locales (rule admission_step_inv)

lemma fresh_admission_inv: "admission_inv fresh_admission"
  by (simp add: admission_inv_def fresh_admission_def gate_count_def count_defs capacity_defs)

definition admission_after :: "(string \<Rightarrow> bytes option) \<Rightarrow> admission_event list \<Rightarrow> admission" where
  "admission_after device_of es = foldl (admission_step device_of) fresh_admission es"

lemma admission_after_inv: "admission_inv (admission_after device_of es)"
  unfolding admission_after_def by (rule admit.run_inv [OF fresh_admission_inv])

text \<open>
  C34. Admission is bounded and leaks nothing. After any sequence of dials, authentications and ended
  connections, in any order: no source holds more than two half-open dials, at most 24 connections
  are staged in the general pool and 4 in the reserve, at most 8 are served, and every free permit
  and every counted slot matches the connections that hold one.
\<close>

theorem admission_bounded:
  "let ad = admission_after device_of es in
     staged_by key ad \<le> 2 \<and> staged_in General ad \<le> 24 \<and> staged_in Reserved ad \<le> 4 \<and> serving ad \<le> 8 \<and>
     gate_count key (ad_gate ad) = staged_by key ad \<and>
     ad_staging_free ad = 24 - staged_in General ad \<and> ad_known_free ad = 4 - staged_in Reserved ad \<and>
     ad_serving_free ad = 8 - serving ad"
proof -
  define ad where "ad = admission_after device_of es"
  have "admission_inv ad" unfolding ad_def by (rule admission_after_inv)
  then have "staged_in General ad + ad_staging_free ad = 24" "staged_in Reserved ad + ad_known_free ad = 4"
    "serving ad + ad_serving_free ad = 8" "staged_by key ad \<le> 2" "gate_count key (ad_gate ad) = staged_by key ad"
    by (simp_all add: admission_inv_def capacity_defs)
  then show ?thesis unfolding Let_def ad_def [symmetric] by linarith
qed

text \<open>
  A flood cannot keep a paired phone out of the handshake. In every reachable state, whatever
  fills the general pool: a relayed dial whose endpoint is a paired device is admitted as long as its
  own source has a slot and the reserve has one.
\<close>

theorem known_peer_admitted:
  assumes "device_of endpoint_id = Some d" and "d \<in> set known"
    and "staged_by (staging_source_key (RelayAddr endpoint_id)) (admission_after device_of es) < 2"
    and "staged_in Reserved (admission_after device_of es) < 4"
  shows "snd (accept_dial device_of known c (RelayAddr endpoint_id) (admission_after device_of es))"
proof -
  let ?source = "staging_source_key (RelayAddr endpoint_id)" and ?ad = "admission_after device_of es"
  have inv: "admission_inv ?ad" by (rule admission_after_inv)
  obtain g entered where t: "try_enter ?source MAX_STAGING_PER_SOURCE (ad_gate ?ad) = (g, entered)" by fastforce
  have "\<forall>k. hm_get (ad_gate ?ad) k \<noteq> Some 0" using inv by (simp add: admission_inv_def)
  from try_enter_count(1) [OF t this] have "entered"
    using inv assms(3) by (simp add: admission_inv_def capacity_defs)
  moreover have "0 < ad_known_free ?ad" using inv assms(4) by (simp add: admission_inv_def capacity_defs)
  ultimately show ?thesis using t assms(1,2) by (simp add: accept_dial_def Let_def)
qed

text \<open>Twelve strangers with two dials each.\<close>

definition flood :: "admission_event list" where
  "flood = concat (map (\<lambda>i. [Dial (2 * i) (IpAddr (replicate i CHR ''x'')) [], Dial (2 * i + 1) (IpAddr (replicate i CHR ''x'')) []]) [1..<13])"

definition phone_only :: "string \<Rightarrow> bytes option" where
  "phone_only endpoint_id = (if endpoint_id = ''phone'' then Some [7] else None)"

theorem known_peer_admitted_witness:
  "ad_staging_free (admission_after phone_only flood) = 0 \<and>
   snd (accept_dial phone_only [[7]] 99 (RelayAddr ''phone'') (admission_after phone_only flood))"
proof
  show "ad_staging_free (admission_after phone_only flood) = 0" by code_simp
  have "staged_by (staging_source_key (RelayAddr ''phone'')) (admission_after phone_only flood) < 2" by code_simp
  moreover have "staged_in Reserved (admission_after phone_only flood) < 4" by code_simp
  ultimately show "snd (accept_dial phone_only [[7]] 99 (RelayAddr ''phone'') (admission_after phone_only flood))"
    by (intro known_peer_admitted [where d = "[7]"]) (simp_all add: phone_only_def)
qed

end
