(* ===== verification/Accept.thy ===== *)
theory Accept
  imports Handshake Admission
begin

text \<open>
  One connection of \<open>accept_loop\<close> in \<open>crates/host/src/iroh_serve.rs\<close>, from the reload of the peer store to
  the acknowledgement of the phone, as a task that shares the peer store, the pairing state, the rate
  limiter and the serving pool with every other connection. A task is suspended wherever the code
  awaits or releases a lock, so a run is an arbitrary interleaving of such steps, of \<open>portty pair\<close>
  reopening the enrollment window and of revocations. A refusal ends the task; the notice that
  \<open>refuse_after_proof\<close> sends before closing changes nothing at the host and is not part of the state.
\<close>

section \<open>Tasks and the host\<close>

text \<open>How far a task has come; each stage is reached only from the one before.\<close>

datatype stage = Handshaking | Proved | Permitted | Approved | Enrolled | Committed | Serving

record task =
  tk_device :: device_id
  tk_observed_revocation :: "bytes option"
  tk_observed_token :: "token option"
  tk_server :: server_handshake
  tk_stage :: stage
  tk_result :: "handshake_result option"

record ack =
  ak_device :: device_id
  ak_token :: token
  ak_resumed :: bool
  ak_code :: string
  ak_epoch :: "u64 option"
  ak_held_token :: bool

text \<open>
  The \<open>hi_\<close> fields are the history of a run: how often the window was opened and won, the comparison
  codes a human approved, the tokens that were stored, and the phones that were told \<open>PairingOk\<close>.
\<close>

record 'b host =
  ho_device :: device_id
  ho_name :: string
  ho_peers :: "'b peer_store"
  ho_shared :: host_shared
  ho_serving_free :: nat
  ho_tasks :: "(nat, task) hashmap"
  hi_opens :: nat
  hi_wins :: nat
  hi_approved :: "(device_id \<times> string) list"
  hi_stored :: "(device_id \<times> token) list"
  hi_acks :: "ack list"

section \<open>The steps of a connection\<close>

text \<open>
  A dial whose transport identity is \<open>dev\<close>: reload the store from the disk, note what it holds for this
  device, take the live pairing credentials with their generation, and build the handshake.
\<close>

definition server_for ::
  "'b host \<Rightarrow> device_id \<Rightarrow> string \<Rightarrow> instant \<Rightarrow> 'b peer_store \<Rightarrow> pairing_state \<Rightarrow> server_handshake" where
  "server_for ho dev key now ps p =
     with_authenticated_device dev (revocation_marker ps dev \<noteq> None)
       (with_first_pair (snapshot now p)
         (with_rate_limit_key key
           (with_grace_tokens (grace_tokens ps)
             (with_resumption_tokens (tokens ps) (new_server (ho_device ho) (ho_name ho))))))"

definition connect :: "'b postcard \<Rightarrow> nat \<Rightarrow> device_id \<Rightarrow> string \<Rightarrow> instant \<Rightarrow> 'b host \<Rightarrow> 'b host" where
  "connect pc c dev key now ho =
     (case load_from pc (ps_disk (ho_peers ho)) of
        Inl _ \<Rightarrow> ho
      | Inr ps \<Rightarrow>
          (let ho1 = ho\<lparr>ho_peers := ps\<rparr> in
           case hs_pairing (ho_shared ho) of
             None \<Rightarrow> ho1
           | Some p \<Rightarrow>
               ho1\<lparr>ho_tasks := hm_insert c
                 \<lparr>tk_device = dev, tk_observed_revocation = revocation_marker ps dev,
                  tk_observed_token = hm_get (tokens ps) dev, tk_server = server_for ho dev key now ps p,
                  tk_stage = Handshaking, tk_result = None\<rparr> (ho_tasks ho)\<rparr>))"

text \<open>The permits a task holds from \<open>Permitted\<close> on are released when it ends.\<close>

definition holds_permit :: "task \<Rightarrow> bool" where
  "holds_permit tk \<longleftrightarrow> tk_stage tk \<in> {Permitted, Approved, Enrolled, Committed, Serving}"

definition drop_task :: "nat \<Rightarrow> task \<Rightarrow> 'b host \<Rightarrow> 'b host" where
  "drop_task c tk ho =
     ho\<lparr>ho_tasks := hm_remove c (ho_tasks ho),
        ho_serving_free := ho_serving_free ho + of_bool (holds_permit tk)\<rparr>"

definition put_task :: "nat \<Rightarrow> task \<Rightarrow> 'b host \<Rightarrow> 'b host" where
  "put_task c tk ho = ho\<lparr>ho_tasks := hm_insert c tk (ho_tasks ho)\<rparr>"

text \<open>One message to the server handshake, and what \<open>run_server_handshake\<close> makes of the outcome.\<close>

definition handshake_message_step ::
  "crypto \<Rightarrow> server_env \<Rightarrow> handshake_message \<Rightarrow> nat \<Rightarrow> task \<Rightarrow> 'b host \<Rightarrow> 'b host" where
  "handshake_message_step cr env m c tk ho =
     (case server_step cr env (ho_shared ho) (tk_server tk) m of
        (sh, sv, r) \<Rightarrow>
          (let ho1 = ho\<lparr>ho_shared := sh\<rparr>; tk1 = tk\<lparr>tk_server := sv\<rparr> in
           case r of
             Inl _ \<Rightarrow> drop_task c tk ho1
           | Inr (Send (PairingFailed _)) \<Rightarrow> drop_task c tk ho1
           | Inr (Send _) \<Rightarrow> put_task c tk1 ho1
           | Inr (Failed _) \<Rightarrow> drop_task c tk ho1
           | Inr (Done d) \<Rightarrow>
               (case finish_handshake cr for_server d (dn_previous_token d) (dn_enrollment_epoch d) of
                  Inl _ \<Rightarrow> drop_task c tk ho1
                | Inr res \<Rightarrow>
                    if hr_peer_device_id res \<noteq> tk_device tk then drop_task c tk ho1
                    else put_task c (tk1\<lparr>tk_stage := Proved, tk_result := Some res\<rparr>) ho1)))"

text \<open>Steps 1 to 5 of the finalization: permit, human, enrollment claim, commit, acknowledgement.\<close>

definition take_permit :: "nat \<Rightarrow> task \<Rightarrow> 'b host \<Rightarrow> 'b host" where
  "take_permit c tk ho =
     (if ho_serving_free ho = 0 then drop_task c tk ho
      else put_task c (tk\<lparr>tk_stage := Permitted\<rparr>) (ho\<lparr>ho_serving_free := ho_serving_free ho - 1\<rparr>))"

text \<open>\<open>answer\<close> is what \<open>PairConfirm::confirm\<close> returned for this device and code; a resume does not ask.\<close>

definition ask_human :: "bool \<Rightarrow> nat \<Rightarrow> task \<Rightarrow> handshake_result \<Rightarrow> 'b host \<Rightarrow> 'b host" where
  "ask_human answer c tk res ho =
     (if hr_resumed res then put_task c (tk\<lparr>tk_stage := Approved\<rparr>) ho
      else if answer then
        put_task c (tk\<lparr>tk_stage := Approved\<rparr>)
          (ho\<lparr>hi_approved := (hr_peer_device_id res, hr_verification_code res) # hi_approved ho\<rparr>)
      else drop_task c tk ho)"

definition claim_enrollment :: "instant \<Rightarrow> nat \<Rightarrow> task \<Rightarrow> handshake_result \<Rightarrow> 'b host \<Rightarrow> 'b host" where
  "claim_enrollment now c tk res ho =
     (case hr_enrollment_epoch res of
        None \<Rightarrow> put_task c (tk\<lparr>tk_stage := Enrolled\<rparr>) ho
      | Some e \<Rightarrow>
          (case hs_pairing (ho_shared ho) of
             None \<Rightarrow> drop_task c tk ho
           | Some p \<Rightarrow>
               (case consume_first_pair now e p of
                  (p', claimed) \<Rightarrow>
                    (let ho1 = ho\<lparr>ho_shared := (ho_shared ho)\<lparr>hs_pairing := Some p'\<rparr>\<rparr> in
                     if claimed then put_task c (tk\<lparr>tk_stage := Enrolled\<rparr>) (ho1\<lparr>hi_wins := hi_wins ho1 + 1\<rparr>)
                     else drop_task c tk ho1))))"

definition commit_of :: "task \<Rightarrow> handshake_result \<Rightarrow> handshake_commit" where
  "commit_of tk res =
     \<lparr>hc_ticket = None, hc_token = hr_reconnect_token res, hc_resumed = hr_resumed res,
      candidate_pair_id = hr_pair_id res, candidate_event_key = hr_pair_event_key res,
      observed_revocation = tk_observed_revocation tk, observed_token = tk_observed_token tk\<rparr>"

definition commit_pairing :: "'b postcard \<Rightarrow> nat \<Rightarrow> task \<Rightarrow> handshake_result \<Rightarrow> 'b host \<Rightarrow> 'b host" where
  "commit_pairing pc c tk res ho =
     (case commit_host_handshake pc (hr_peer_device_id res) (commit_of tk res)
             (if hr_previous_token res then PreviousToken else CurrentToken) (ho_peers ho) of
        (ps, Inl _) \<Rightarrow> drop_task c tk (ho\<lparr>ho_peers := ps\<rparr>)
      | (ps, Inr _) \<Rightarrow>
          put_task c (tk\<lparr>tk_stage := Committed\<rparr>)
            (ho\<lparr>ho_peers := ps, hi_stored := (hr_peer_device_id res, hr_reconnect_token res) # hi_stored ho\<rparr>))"

definition ack_of :: "task \<Rightarrow> handshake_result \<Rightarrow> ack" where
  "ack_of tk res =
     \<lparr>ak_device = hr_peer_device_id res, ak_token = hr_reconnect_token res, ak_resumed = hr_resumed res,
      ak_code = hr_verification_code res, ak_epoch = hr_enrollment_epoch res,
      ak_held_token = (tk_observed_token tk \<noteq> None)\<rparr>"

text \<open>\<open>sent\<close>: the confirmation went out. The task then serves the phone until it is dropped.\<close>

definition acknowledge :: "bool \<Rightarrow> nat \<Rightarrow> task \<Rightarrow> handshake_result \<Rightarrow> 'b host \<Rightarrow> 'b host" where
  "acknowledge sent c tk res ho =
     (if sent then put_task c (tk\<lparr>tk_stage := Serving\<rparr>) (ho\<lparr>hi_acks := ack_of tk res # hi_acks ho\<rparr>)
      else drop_task c tk ho)"

section \<open>Interleavings\<close>

datatype host_event =
    Connect nat device_id string instant
  | Message nat server_env handshake_message
  | TakePermit nat
  | Answer nat bool
  | Claim nat instant
  | Commit nat
  | Acknowledge nat bool
  | Drop nat
  | Reopen instant "pairing_secret list" duration
  | Revoke device_id bytes nat
  | Faults "io_error option list"

text \<open>A task is moved only by the event of its stage; an event of a task that is elsewhere does nothing.\<close>

definition on_task ::
  "stage \<Rightarrow> nat \<Rightarrow> (task \<Rightarrow> handshake_result \<Rightarrow> 'b host \<Rightarrow> 'b host) \<Rightarrow> 'b host \<Rightarrow> 'b host" where
  "on_task st c f ho =
     (case hm_get (ho_tasks ho) c of
        None \<Rightarrow> ho
      | Some tk \<Rightarrow>
          if tk_stage tk = st then (case tk_result tk of None \<Rightarrow> ho | Some res \<Rightarrow> f tk res ho) else ho)"

fun host_step :: "crypto \<Rightarrow> 'b postcard \<Rightarrow> 'b host \<Rightarrow> host_event \<Rightarrow> 'b host" where
  "host_step cr pc ho (Connect c dev key now) =
     (if hm_contains (ho_tasks ho) c then ho else connect pc c dev key now ho)"
| "host_step cr pc ho (Message c env m) =
     (case hm_get (ho_tasks ho) c of
        None \<Rightarrow> ho
      | Some tk \<Rightarrow> if tk_stage tk = Handshaking then handshake_message_step cr env m c tk ho else ho)"
| "host_step cr pc ho (TakePermit c) = on_task Proved c (\<lambda>tk res. take_permit c tk) ho"
| "host_step cr pc ho (Answer c b) = on_task Permitted c (ask_human b c) ho"
| "host_step cr pc ho (Claim c now) = on_task Approved c (claim_enrollment now c) ho"
| "host_step cr pc ho (Commit c) = on_task Enrolled c (commit_pairing pc c) ho"
| "host_step cr pc ho (Acknowledge c sent) = on_task Committed c (acknowledge sent c) ho"
| "host_step cr pc ho (Drop c) =
     (case hm_get (ho_tasks ho) c of None \<Rightarrow> ho | Some tk \<Rightarrow> drop_task c tk ho)"
| "host_step cr pc ho (Reopen now ss dur) =
     (case hs_pairing (ho_shared ho) of
        None \<Rightarrow> ho
      | Some p \<Rightarrow> ho\<lparr>ho_shared := (ho_shared ho)\<lparr>hs_pairing := Some (rotate now ss dur p)\<rparr>, hi_opens := hi_opens ho + 1\<rparr>)"
| "host_step cr pc ho (Revoke dev ev now) = ho\<lparr>ho_peers := fst (revoke pc ev now dev (ho_peers ho))\<rparr>"
| "host_step cr pc ho (Faults fs) =
     ho\<lparr>ho_peers := (ho_peers ho)\<lparr>ps_disk := (ps_disk (ho_peers ho))\<lparr>faults := fs\<rparr>\<rparr>\<rparr>"

text \<open>\<open>closed_pairing_guard\<close>: a host starts with pairing closed and no credential in existence.\<close>

definition started_host :: "device_id \<Rightarrow> string \<Rightarrow> 'b peer_store \<Rightarrow> 'b host" where
  "started_host did name ps =
     \<lparr>ho_device = did, ho_name = name, ho_peers = ps,
      ho_shared = \<lparr>hs_rate_limiter = Some [], hs_pairing = Some (new_pairing_state [])\<rparr>,
      ho_serving_free = MAX_ACTIVE_CONNECTIONS, ho_tasks = [], hi_opens = 0, hi_wins = 0,
      hi_approved = [], hi_stored = [], hi_acks = []\<rparr>"

section \<open>What every task and every acknowledgement rests on\<close>

definition server_of_task :: "crypto \<Rightarrow> task \<Rightarrow> bool" where
  "server_of_task cr tk \<longleftrightarrow>
     (\<exists>sv0 sh. sv_state sv0 = AwaitingHello \<and> server_reaches cr sv0 sh (tk_server tk) \<and> sv_windowed sv0 \<and>
        sv_enrollment_exempt_device sv0 = None \<and> sv_authenticated_device sv0 = Some (tk_device tk) \<and>
        hm_get (sv_resumption_tokens sv0) (tk_device tk) = tk_observed_token tk)"

definition result_ok :: "task \<Rightarrow> handshake_result \<Rightarrow> bool" where
  "result_ok tk res \<longleftrightarrow>
     hr_peer_device_id res = tk_device tk \<and>
     (\<not> hr_resumed res \<and> hr_enrollment_epoch res = None \<longrightarrow> tk_observed_token tk \<noteq> None)"

definition past_approval :: "task \<Rightarrow> bool" where
  "past_approval tk \<longleftrightarrow> tk_stage tk \<in> {Approved, Enrolled, Committed, Serving}"

definition task_ok :: "crypto \<Rightarrow> 'b host \<Rightarrow> task \<Rightarrow> bool" where
  "task_ok cr ho tk \<longleftrightarrow>
     (tk_stage tk = Handshaking \<longrightarrow> server_of_task cr tk) \<and>
     (\<forall>res. tk_result tk = Some res \<longrightarrow> tk_stage tk \<noteq> Handshaking \<longrightarrow> result_ok tk res \<and>
        (past_approval tk \<and> \<not> hr_resumed res \<longrightarrow> (tk_device tk, hr_verification_code res) \<in> set (hi_approved ho)) \<and>
        (tk_stage tk = Committed \<longrightarrow> (tk_device tk, hr_reconnect_token res) \<in> set (hi_stored ho)))"

definition ack_ok :: "'b host \<Rightarrow> ack \<Rightarrow> bool" where
  "ack_ok ho a \<longleftrightarrow>
     (ak_device a, ak_token a) \<in> set (hi_stored ho) \<and>
     (\<not> ak_resumed a \<longrightarrow> (ak_device a, ak_code a) \<in> set (hi_approved ho) \<and> (ak_epoch a = None \<longrightarrow> ak_held_token a))"

definition acks_inv :: "crypto \<Rightarrow> 'b host \<Rightarrow> bool" where
  "acks_inv cr ho \<longleftrightarrow> (\<forall>c tk. hm_get (ho_tasks ho) c = Some tk \<longrightarrow> task_ok cr ho tk) \<and> (\<forall>a \<in> set (hi_acks ho). ack_ok ho a)"

lemma task_ok_mono:
  assumes "task_ok cr ho tk" and "set (hi_approved ho) \<subseteq> set (hi_approved ho')" and "set (hi_stored ho) \<subseteq> set (hi_stored ho')"
  shows "task_ok cr ho' tk"
  using assms unfolding task_ok_def by (meson subsetD)

lemma ack_ok_mono:
  assumes "ack_ok ho a" and "set (hi_approved ho) \<subseteq> set (hi_approved ho')" and "set (hi_stored ho) \<subseteq> set (hi_stored ho')"
  shows "ack_ok ho' a"
  using assms unfolding ack_ok_def by (meson subsetD)

text \<open>Every step either leaves the tasks and acknowledgements alone, drops one task, or puts one back.\<close>

lemma acks_inv_put:
  assumes "acks_inv cr ho" and "set (hi_approved ho) \<subseteq> set (hi_approved ho')" and "set (hi_stored ho) \<subseteq> set (hi_stored ho')"
    and "ho_tasks ho' = ho_tasks ho" and "set (hi_acks ho') \<subseteq> set (hi_acks ho) \<union> {a. ack_ok ho' a}"
    and "task_ok cr ho' tk"
  shows "acks_inv cr (put_task c tk ho')"
proof -
  have t: "task_ok cr (put_task c tk ho') t = task_ok cr ho' t" for t by (simp add: task_ok_def put_task_def)
  have a: "ack_ok (put_task c tk ho') x = ack_ok ho' x" for x by (simp add: ack_ok_def put_task_def)
  show ?thesis
    using assms task_ok_mono [OF _ assms(2,3)] ack_ok_mono [OF _ assms(2,3)]
    by (auto simp: acks_inv_def t a) (auto simp: put_task_def split: if_splits)
qed

lemma acks_inv_drop:
  assumes "acks_inv cr ho" and "set (hi_approved ho) \<subseteq> set (hi_approved ho')" and "set (hi_stored ho) \<subseteq> set (hi_stored ho')"
    and "ho_tasks ho' = ho_tasks ho" and "set (hi_acks ho') \<subseteq> set (hi_acks ho) \<union> {a. ack_ok ho' a}"
  shows "acks_inv cr (drop_task c tk ho')"
proof -
  have t: "task_ok cr (drop_task c tk ho') t = task_ok cr ho' t" for t by (simp add: task_ok_def drop_task_def)
  have a: "ack_ok (drop_task c tk ho') x = ack_ok ho' x" for x by (simp add: ack_ok_def drop_task_def)
  show ?thesis
    using assms task_ok_mono [OF _ assms(2,3)] ack_ok_mono [OF _ assms(2,3)]
    by (auto simp: acks_inv_def t a) (auto simp: drop_task_def split: if_splits)
qed

lemma acks_inv_same:
  assumes "acks_inv cr ho" and "hi_approved ho' = hi_approved ho" and "hi_stored ho' = hi_stored ho"
    and "ho_tasks ho' = ho_tasks ho" and "hi_acks ho' = hi_acks ho"
  shows "acks_inv cr ho'"
  using assms by (simp add: acks_inv_def task_ok_def ack_ok_def)

lemma finish_handshake_fields:
  assumes "finish_handshake cr role d p e = Inr res"
  shows "hr_peer_device_id res = dn_peer_device_id d \<and> hr_resumed res = dn_resumed d \<and> hr_previous_token res = p \<and>
    hr_enrollment_epoch res = e"
  using assms by (auto simp: finish_handshake_def split: sum.splits prod.splits)

lemma connect_acks_inv:
  assumes "acks_inv cr ho"
  shows "acks_inv cr (connect pc c dev key now ho)"
proof (cases "\<exists>ps p. load_from pc (ps_disk (ho_peers ho)) = Inr ps \<and> hs_pairing (ho_shared ho) = Some p")
  case True
  then obtain ps p where l: "load_from pc (ps_disk (ho_peers ho)) = Inr ps" "hs_pairing (ho_shared ho) = Some p" by blast
  define tk where "tk = \<lparr>tk_device = dev, tk_observed_revocation = revocation_marker ps dev,
    tk_observed_token = hm_get (tokens ps) dev, tk_server = server_for ho dev key now ps p,
    tk_stage = Handshaking, tk_result = None\<rparr>"
  have "server_of_task cr tk"
    unfolding server_of_task_def
    by (rule exI [of _ "tk_server tk"], rule exI [of _ "ho_shared ho"])
      (simp add: tk_def server_for_def with_authenticated_device_def with_first_pair_def with_rate_limit_key_def
        with_grace_tokens_def with_resumption_tokens_def new_server_def server_reaches.init)
  then have "task_ok cr (ho\<lparr>ho_peers := ps\<rparr>) tk" by (simp add: task_ok_def tk_def)
  then have "acks_inv cr (put_task c tk (ho\<lparr>ho_peers := ps\<rparr>))"
    by (intro acks_inv_put [OF assms]) auto
  with l show ?thesis by (simp add: connect_def put_task_def tk_def)
next
  case False
  then show ?thesis
    using assms acks_inv_same [OF assms] by (auto simp: connect_def split: sum.splits option.splits)
qed

lemma server_of_task_step:
  assumes "server_of_task cr tk" and "server_step cr env sh (tk_server tk) m = (sh', sv', r)"
  shows "server_of_task cr (tk\<lparr>tk_server := sv'\<rparr>)"
proof -
  obtain sv0 sh0 where sv0: "sv_state sv0 = AwaitingHello" "server_reaches cr sv0 sh0 (tk_server tk)" "sv_windowed sv0"
    "sv_enrollment_exempt_device sv0 = None" "sv_authenticated_device sv0 = Some (tk_device tk)"
    "hm_get (sv_resumption_tokens sv0) (tk_device tk) = tk_observed_token tk"
    using assms(1) by (auto simp: server_of_task_def)
  have "server_reaches cr sv0 sh' sv'"
    by (rule server_reaches.message [OF server_reaches.others [OF sv0(2)] assms(2)])
  with sv0 show ?thesis by (auto simp: server_of_task_def)
qed

lemma done_result_ok:
  assumes "server_of_task cr tk" and "server_step cr env sh (tk_server tk) m = (sh', sv', Inr (Done d))"
    and "finish_handshake cr role d p (dn_enrollment_epoch d) = Inr res"
  shows "result_ok (tk\<lparr>tk_server := sv', tk_stage := st, tk_result := x\<rparr>) res"
proof -
  obtain sv0 sh0 where sv0: "sv_state sv0 = AwaitingHello" "server_reaches cr sv0 sh0 (tk_server tk)" "sv_windowed sv0"
    "sv_enrollment_exempt_device sv0 = None" "sv_authenticated_device sv0 = Some (tk_device tk)"
    "hm_get (sv_resumption_tokens sv0) (tk_device tk) = tk_observed_token tk"
    using assms(1) by (auto simp: server_of_task_def)
  from finished_is_proved [OF server_reaches.others [OF sv0(2)] sv0(1) assms(2)] sv0 finish_handshake_fields [OF assms(3)]
  show ?thesis by (auto simp: result_ok_def hm_contains_def)
qed

lemma message_acks_inv:
  assumes "acks_inv cr ho" and "hm_get (ho_tasks ho) c = Some tk" and "tk_stage tk = Handshaking"
  shows "acks_inv cr (handshake_message_step cr env m c tk ho)"
proof -
  obtain sh sv r where s: "server_step cr env (ho_shared ho) (tk_server tk) m = (sh, sv, r)" by (metis prod.collapse)
  define ho1 where "ho1 = ho\<lparr>ho_shared := sh\<rparr>"
  have so: "server_of_task cr tk" using assms by (auto simp: acks_inv_def task_ok_def)
  have dropped: "acks_inv cr (drop_task c tk ho1)"
    by (rule acks_inv_drop [OF assms(1)]) (auto simp: ho1_def)
  have kept: "acks_inv cr (put_task c (tk\<lparr>tk_server := sv\<rparr>) ho1)"
    by (rule acks_inv_put [OF assms(1)])
      (use assms(3) server_of_task_step [OF so s] in \<open>auto simp: ho1_def task_ok_def\<close>)
  have proved: "acks_inv cr (put_task c (tk\<lparr>tk_server := sv, tk_stage := Proved, tk_result := Some res\<rparr>) ho1)"
    if "r = Inr (Done d)" "finish_handshake cr for_server d (dn_previous_token d) (dn_enrollment_epoch d) = Inr res" for d res
    by (rule acks_inv_put [OF assms(1)])
      (use done_result_ok [OF so s [unfolded that(1)] that(2)] in \<open>auto simp: ho1_def task_ok_def past_approval_def\<close>)
  show ?thesis
  proof (cases r)
    case (Inl e)
    with s dropped show ?thesis by (simp add: handshake_message_step_def ho1_def Let_def del: server_step.simps)
  next
    case (Inr out)
    with s dropped kept proved show ?thesis
      by (cases out)
        (auto simp: handshake_message_step_def ho1_def Let_def simp del: server_step.simps
          split: handshake_message.splits sum.splits)
  qed
qed

lemma finalize_acks_inv:
  assumes "acks_inv cr ho" and "hm_get (ho_tasks ho) c = Some tk" and "tk_result tk = Some res"
  shows "tk_stage tk = Proved \<Longrightarrow> acks_inv cr (take_permit c tk ho)"
    and "tk_stage tk = Permitted \<Longrightarrow> acks_inv cr (ask_human b c tk res ho)"
    and "tk_stage tk = Approved \<Longrightarrow> acks_inv cr (claim_enrollment now c tk res ho)"
    and "tk_stage tk = Enrolled \<Longrightarrow> acks_inv cr (commit_pairing pc c tk res ho)"
    and "tk_stage tk = Committed \<Longrightarrow> acks_inv cr (acknowledge b c tk res ho)"
proof -
  have ok: "task_ok cr ho tk" using assms by (auto simp: acks_inv_def)
  note put = acks_inv_put [OF assms(1)] and drop = acks_inv_drop [OF assms(1)]
  show "acks_inv cr (take_permit c tk ho)" if "tk_stage tk = Proved"
    unfolding take_permit_def using ok that assms(3)
    by (auto intro!: put drop simp: task_ok_def past_approval_def result_ok_def)
  show "acks_inv cr (ask_human b c tk res ho)" if "tk_stage tk = Permitted"
    unfolding ask_human_def using ok that assms(3)
    by (auto intro!: put drop simp: task_ok_def past_approval_def result_ok_def)
  show "acks_inv cr (claim_enrollment now c tk res ho)" if "tk_stage tk = Approved"
    unfolding claim_enrollment_def using ok that assms(3)
    by (auto intro!: put drop simp: task_ok_def past_approval_def result_ok_def Let_def split: option.splits prod.splits)
  show "acks_inv cr (commit_pairing pc c tk res ho)" if "tk_stage tk = Enrolled"
    unfolding commit_pairing_def using ok that assms(3)
    by (auto intro!: put drop simp: task_ok_def past_approval_def result_ok_def split: prod.splits sum.splits)
  show "acks_inv cr (acknowledge b c tk res ho)" if "tk_stage tk = Committed"
    unfolding acknowledge_def using ok that assms(3)
    by (auto intro!: put drop simp: task_ok_def past_approval_def result_ok_def ack_ok_def ack_of_def)
qed

lemma host_step_acks_inv:
  assumes "acks_inv cr ho"
  shows "acks_inv cr (host_step cr pc ho e)"
proof -
  have on: "acks_inv cr (on_task st c f ho)"
    if "\<And>tk res. hm_get (ho_tasks ho) c = Some tk \<Longrightarrow> tk_result tk = Some res \<Longrightarrow> tk_stage tk = st \<Longrightarrow> acks_inv cr (f tk res ho)"
    for st c f
    using assms that by (auto simp: on_task_def split: option.splits)
  note fin = finalize_acks_inv [OF assms]
  show ?thesis
  proof (cases e)
    case (Connect c dev key now)
    with assms connect_acks_inv [OF assms] show ?thesis by simp
  next
    case (Message c env m)
    with assms message_acks_inv show ?thesis by (auto split: option.splits)
  next
    case (Drop c)
    with assms show ?thesis by (auto split: option.splits intro!: acks_inv_drop [OF assms])
  next
    case (Reopen now ss dur)
    with assms show ?thesis by (auto split: option.splits intro: acks_inv_same [OF assms])
  qed (use on fin in \<open>auto intro: acks_inv_same [OF assms]\<close>)
qed

interpretation acks: step_invariant "host_step cr pc" "acks_inv cr" for cr pc
  by unfold_locales (rule host_step_acks_inv)

section \<open>Permits and enrollment opportunities are spent once\<close>

definition enrolling :: "task \<Rightarrow> bool" where
  "enrolling tk \<longleftrightarrow> tk_stage tk \<in> {Enrolled, Committed} \<and>
     (case tk_result tk of None \<Rightarrow> False | Some res \<Rightarrow> hr_enrollment_epoch res \<noteq> None)"

definition enrolled_acks :: "'b host \<Rightarrow> nat" where
  "enrolled_acks ho = length (filter (\<lambda>a. ak_epoch a \<noteq> None) (hi_acks ho))"

definition still_winnable :: "'b host \<Rightarrow> nat" where
  "still_winnable ho = (case hs_pairing (ho_shared ho) of None \<Rightarrow> 0 | Some p \<Rightarrow> winnable p)"

definition spending_inv :: "'b host \<Rightarrow> bool" where
  "spending_inv ho \<longleftrightarrow>
     hm_wf (ho_tasks ho) \<and> hm_count holds_permit (ho_tasks ho) + ho_serving_free ho = MAX_ACTIVE_CONNECTIONS \<and>
     hi_wins ho + still_winnable ho \<le> hi_opens ho \<and>
     hm_count enrolling (ho_tasks ho) + enrolled_acks ho \<le> hi_wins ho"

lemma winnable_steps:
  "winnable (fst (gate_first_pair now ep p)) = winnable p"
  "winnable (rotate now ss dur p) \<le> 1"
  "winnable (fst (consume_first_pair now e p)) + of_bool (snd (consume_first_pair now e p)) \<le> winnable p"
  by (auto simp: winnable_def gate_first_pair_def check_and_reserve_first_pair_def rotate_def open_window_def
      consume_first_pair_def window_consume_first_pair_def close_window_def is_open_def Let_def
      split: option.splits prod.splits)

definition shared_winnable :: "host_shared \<Rightarrow> nat" where
  "shared_winnable sh = (case hs_pairing sh of None \<Rightarrow> 0 | Some p \<Rightarrow> winnable p)"

lemma first_pair_window_winnable:
  "shared_winnable (fst (first_pair_window env sh sv d)) = shared_winnable sh"
proof (cases "hs_pairing sh")
  case None
  then show ?thesis by (simp add: first_pair_window_def shared_winnable_def)
next
  case (Some p)
  obtain p' g where g: "gate_first_pair (env_gate_now env) (sv_snapshot_epoch sv) p = (p', g)" by fastforce
  with winnable_steps(1) [of "env_gate_now env" "sv_snapshot_epoch sv" p] have "winnable p' = winnable p" by simp
  with Some g show ?thesis
    by (cases g) (simp_all add: first_pair_window_def shared_winnable_def)
qed

lemma server_step_winnable:
  assumes "server_step cr env sh sv m = (sh', sv', r)"
  shows "shared_winnable sh' = shared_winnable sh"
proof -
  have rl: "shared_winnable (fst (rate_limited env x sv)) = shared_winnable x" for x
    by (simp add: rate_limited_def shared_winnable_def Let_def split: option.splits prod.splits)
  have hello: "shared_winnable sh' = shared_winnable sh" if "server_hello cr env sh sv d v n p = (sh', sv', r)" for d v n p
  proof -
    obtain sh1 w where w: "first_pair_window env sh sv d = (sh1, w)" by fastforce
    obtain sh2 l where l: "rate_limited env sh1 sv = (sh2, l)" by fastforce
    have "sh' = sh \<or> sh' = sh1 \<or> sh' = sh2"
      using that w l by (auto simp: server_hello_def split: if_splits sum.splits bool.splits)
    with first_pair_window_winnable [of env sh sv d] rl [of sh1] w l show ?thesis by auto
  qed
  have prf': "server_proof cr sh sv sc p = (sh', sv', r) \<Longrightarrow> shared_winnable sh' = shared_winnable sh" for sc p
    by (auto simp: server_proof_def refused_def Let_def shared_winnable_def split: if_splits sum.splits)
  consider (hello) d v n p where "server_hello cr env sh sv d v n p = (sh', sv', r)"
    | (judged) sc p where "server_proof cr sh sv sc p = (sh', sv', r)" | (none) "sh' = sh"
    using assms by (cases "sv_state sv"; cases m) simp_all
  then show ?thesis by cases (use hello prf' in blast)+
qed

lemma task_counts:
  assumes "hm_wf (ho_tasks ho)" and "hm_get (ho_tasks ho) c = Some tk"
  shows "hm_count P (ho_tasks (drop_task c tk ho)) + of_bool (P tk) = hm_count P (ho_tasks ho)"
    and "hm_count P (ho_tasks (put_task c tk' ho)) + of_bool (P tk) = hm_count P (ho_tasks ho) + of_bool (P tk')"
  using hm_count_remove [OF assms(1), of P c] hm_count_insert [OF assms(1), of P c tk'] assms(2)
  by (simp_all add: drop_task_def put_task_def)

text \<open>A host in which one task was dropped or put back.\<close>

lemma spending_inv_drop:
  assumes "spending_inv ho" and "hm_get (ho_tasks ho) c = Some tk" and "ho_tasks ho' = ho_tasks ho"
    and "ho_serving_free ho' = ho_serving_free ho" and "hi_wins ho' = hi_wins ho" and "hi_opens ho' = hi_opens ho"
    and "hi_acks ho' = hi_acks ho" and "shared_winnable (ho_shared ho') \<le> shared_winnable (ho_shared ho)"
  shows "spending_inv (drop_task c tk ho')"
proof -
  have wf: "hm_wf (ho_tasks ho')" using assms(1,3) by (simp add: spending_inv_def)
  note t = task_counts(1) [OF wf assms(2) [folded assms(3)]]
  from t [of holds_permit] t [of enrolling] assms wf show ?thesis
    by (simp add: spending_inv_def still_winnable_def shared_winnable_def [symmetric] enrolled_acks_def)
      (simp add: drop_task_def)
qed

lemma spending_inv_put:
  assumes "spending_inv ho" and "hm_get (ho_tasks ho) c = Some tk" and "ho_tasks ho' = ho_tasks ho"
    and "ho_serving_free ho' + of_bool (holds_permit tk') = ho_serving_free ho + of_bool (holds_permit tk)"
    and "hi_opens ho' = hi_opens ho"
    and "hi_wins ho' + shared_winnable (ho_shared ho') \<le> hi_wins ho + shared_winnable (ho_shared ho)"
    and "of_bool (enrolling tk') + enrolled_acks ho' + hi_wins ho \<le> of_bool (enrolling tk) + enrolled_acks ho + hi_wins ho'"
  shows "spending_inv (put_task c tk' ho')"
proof -
  have wf: "hm_wf (ho_tasks ho')" using assms(1,3) by (simp add: spending_inv_def)
  note t = task_counts(2) [OF wf assms(2) [folded assms(3)], of _ tk']
  from t [of holds_permit] t [of enrolling] assms wf show ?thesis
    by (simp add: spending_inv_def still_winnable_def shared_winnable_def [symmetric] enrolled_acks_def)
      (simp add: put_task_def)
qed

lemma spending_inv_same:
  assumes "spending_inv ho" and "ho_tasks ho' = ho_tasks ho" and "ho_serving_free ho' = ho_serving_free ho"
    and "hi_wins ho' = hi_wins ho" and "hi_acks ho' = hi_acks ho"
    and "hi_wins ho' + still_winnable ho' \<le> hi_opens ho'"
  shows "spending_inv ho'"
  using assms by (simp add: spending_inv_def enrolled_acks_def)

lemma spending_inv_peers [simp]: "spending_inv (ho\<lparr>ho_peers := ps\<rparr>) = spending_inv ho"
  by (simp add: spending_inv_def still_winnable_def enrolled_acks_def)

lemma connect_spending_inv:
  assumes "spending_inv ho" and "\<not> hm_contains (ho_tasks ho) c"
  shows "spending_inv (connect pc c dev key now ho)"
proof (cases "\<exists>ps p. load_from pc (ps_disk (ho_peers ho)) = Inr ps \<and> hs_pairing (ho_shared ho) = Some p")
  case True
  then obtain ps p where l: "load_from pc (ps_disk (ho_peers ho)) = Inr ps" "hs_pairing (ho_shared ho) = Some p" by blast
  have wf: "hm_wf (ho_tasks ho)" using assms(1) by (simp add: spending_inv_def)
  have n: "hm_get (ho_tasks ho) c = None" using assms(2) by (simp add: hm_contains_def)
  have cnt: "hm_count P (hm_insert c tk (ho_tasks ho)) = hm_count P (ho_tasks ho) + of_bool (P tk)" for P tk
    using hm_count_insert [OF wf, of P c tk] by (simp add: n)
  from l assms(1) wf show ?thesis
    by (simp add: connect_def spending_inv_def cnt holds_permit_def enrolling_def still_winnable_def enrolled_acks_def)
next
  case False
  then show ?thesis
    using assms(1) by (auto simp: connect_def split: sum.splits option.splits)
qed

lemma message_spending_inv:
  assumes "spending_inv ho" and "hm_get (ho_tasks ho) c = Some tk" and "tk_stage tk = Handshaking"
  shows "spending_inv (handshake_message_step cr env m c tk ho)"
proof -
  obtain sh sv r where s: "server_step cr env (ho_shared ho) (tk_server tk) m = (sh, sv, r)" by (metis prod.collapse)
  define ho1 where "ho1 = ho\<lparr>ho_shared := sh\<rparr>"
  have w: "shared_winnable (ho_shared ho1) = shared_winnable (ho_shared ho)"
    using server_step_winnable [OF s] by (simp add: ho1_def)
  have dropped: "spending_inv (drop_task c tk ho1)"
    by (rule spending_inv_drop [OF assms(1,2)]) (use w in \<open>auto simp: ho1_def\<close>)
  have kept: "spending_inv (put_task c tk' ho1)" if "tk_stage tk' \<in> {Handshaking, Proved}" for tk'
    by (rule spending_inv_put [OF assms(1,2)])
      (use that assms(3) w in \<open>auto simp: ho1_def holds_permit_def enrolling_def enrolled_acks_def\<close>)
  show ?thesis
  proof (cases r)
    case (Inl e)
    with s dropped show ?thesis by (simp add: handshake_message_step_def ho1_def Let_def del: server_step.simps)
  next
    case (Inr out)
    with s assms(3) dropped kept show ?thesis
      by (cases out)
        (auto simp: handshake_message_step_def ho1_def Let_def simp del: server_step.simps
          split: handshake_message.splits sum.splits)
  qed
qed

lemma finalize_spending_inv:
  assumes "spending_inv ho" and "hm_get (ho_tasks ho) c = Some tk" and "tk_result tk = Some res"
  shows "tk_stage tk = Proved \<Longrightarrow> spending_inv (take_permit c tk ho)"
    and "tk_stage tk = Permitted \<Longrightarrow> spending_inv (ask_human b c tk res ho)"
    and "tk_stage tk = Approved \<Longrightarrow> spending_inv (claim_enrollment now c tk res ho)"
    and "tk_stage tk = Enrolled \<Longrightarrow> spending_inv (commit_pairing pc c tk res ho)"
    and "tk_stage tk = Committed \<Longrightarrow> spending_inv (acknowledge b c tk res ho)"
proof -
  note put = spending_inv_put [OF assms(1,2)] and drop = spending_inv_drop [OF assms(1,2)]
  note stage_defs = holds_permit_def enrolling_def enrolled_acks_def
  show "spending_inv (take_permit c tk ho)" if "tk_stage tk = Proved"
    unfolding take_permit_def using that by (auto intro!: put drop simp: stage_defs)
  show "spending_inv (ask_human b c tk res ho)" if "tk_stage tk = Permitted"
    unfolding ask_human_def using that by (auto intro!: put drop simp: stage_defs)
  show "spending_inv (commit_pairing pc c tk res ho)" if "tk_stage tk = Enrolled"
    unfolding commit_pairing_def using that by (auto intro!: put drop simp: stage_defs split: prod.splits sum.splits)
  show "spending_inv (acknowledge b c tk res ho)" if "tk_stage tk = Committed"
    unfolding acknowledge_def using that assms(3) by (auto intro!: put drop simp: stage_defs ack_of_def)
  show "spending_inv (claim_enrollment now c tk res ho)" if st: "tk_stage tk = Approved"
  proof (cases "hr_enrollment_epoch res")
    case None
    then show ?thesis unfolding claim_enrollment_def using st assms(3) by (auto intro!: put simp: stage_defs)
  next
    case (Some e)
    show ?thesis
    proof (cases "hs_pairing (ho_shared ho)")
      case None
      with Some show ?thesis unfolding claim_enrollment_def by (auto intro!: drop)
    next
      case p: (Some p)
      obtain p' claimed where cl: "consume_first_pair now e p = (p', claimed)" by fastforce
      from winnable_steps(3) [of now e p] have "winnable p' + of_bool claimed \<le> winnable p" by (simp add: cl)
      with Some p cl st assms(3) show ?thesis
        unfolding claim_enrollment_def by (auto intro!: put drop simp: stage_defs Let_def shared_winnable_def)
    qed
  qed
qed

lemma host_step_spending_inv:
  assumes "spending_inv ho"
  shows "spending_inv (host_step cr pc ho e)"
proof -
  have on: "spending_inv (on_task st c f ho)"
    if "\<And>tk res. hm_get (ho_tasks ho) c = Some tk \<Longrightarrow> tk_result tk = Some res \<Longrightarrow> tk_stage tk = st \<Longrightarrow> spending_inv (f tk res ho)"
    for st c f
    using assms that by (auto simp: on_task_def split: option.splits)
  note fin = finalize_spending_inv [OF assms]
  show ?thesis
  proof (cases e)
    case (Connect c dev key now)
    with assms connect_spending_inv [OF assms] show ?thesis by simp
  next
    case (Message c env m)
    with assms message_spending_inv [OF assms] show ?thesis by (auto split: option.splits)
  next
    case (Drop c)
    with assms show ?thesis by (auto split: option.splits intro!: spending_inv_drop [OF assms])
  next
    case (Reopen now ss dur)
    show ?thesis
    proof (cases "hs_pairing (ho_shared ho)")
      case None
      with assms Reopen show ?thesis by simp
    next
      case (Some p)
      have "hi_wins ho \<le> hi_opens ho" using assms by (simp add: spending_inv_def)
      with Reopen Some winnable_steps(2) [of now ss dur p] assms show ?thesis
        by (auto intro!: spending_inv_same [OF assms] simp: still_winnable_def)
    qed
  qed (use on fin assms in auto)
qed

interpretation spending: step_invariant "host_step cr pc" spending_inv for cr pc
  by unfold_locales (rule host_step_spending_inv)

section \<open>Every acknowledged phone\<close>

definition host_after :: "crypto \<Rightarrow> 'b postcard \<Rightarrow> device_id \<Rightarrow> string \<Rightarrow> 'b peer_store \<Rightarrow> host_event list \<Rightarrow> 'b host" where
  "host_after cr pc did name ps es = foldl (host_step cr pc) (started_host did name ps) es"

definition reopens :: "host_event list \<Rightarrow> nat" where
  "reopens es = length (filter (\<lambda>e. case e of Reopen _ _ _ \<Rightarrow> True | _ \<Rightarrow> False) es)"

lemma host_step_opens:
  "hi_opens (host_step cr pc ho e) \<le> hi_opens ho + (case e of Reopen _ _ _ \<Rightarrow> 1 | _ \<Rightarrow> 0)"
proof -
  note task_defs = put_task_def drop_task_def on_task_def Let_def
  show ?thesis
  proof (cases e)
    case (Message c env m)
    have "hi_opens (handshake_message_step cr env m c tk ho) = hi_opens ho" for tk
      by (simp add: handshake_message_step_def task_defs del: server_step.simps
          split: prod.split sum.split handshake_outcome.split handshake_message.split)
    with Message show ?thesis by (simp split: option.split)
  qed (auto simp: connect_def take_permit_def ask_human_def claim_enrollment_def commit_pairing_def acknowledge_def task_defs
      split: option.splits prod.splits sum.splits)
qed

lemma host_after_opens: "hi_opens (host_after cr pc did name ps es) \<le> reopens es"
proof -
  have "hi_opens (foldl (host_step cr pc) ho es) \<le> hi_opens ho + reopens es" for ho
  proof (induction es arbitrary: ho)
    case Nil
    show ?case by simp
  next
    case (Cons e es)
    have "hi_opens (foldl (host_step cr pc) (host_step cr pc ho e) es) \<le> hi_opens (host_step cr pc ho e) + reopens es"
      by (rule Cons.IH)
    with host_step_opens [of cr pc ho e] show ?case
      by (simp add: reopens_def del: host_step.simps split: host_event.splits)
  qed
  from this [of "started_host did name ps"] show ?thesis by (simp add: host_after_def started_host_def)
qed

text \<open>
  C18. Enrolling takes an operator. However the steps of concurrent connections, of \<open>portty pair\<close> and of
  revocations interleave, and whatever the disk does: a host that started closed tells at most as
  many newly enrolled phones that they are paired as the operator reopened pairing, and never serves
  more than eight connections.
\<close>

theorem enrollments_bounded_by_reopens:
  "enrolled_acks (host_after cr pc did name ps es) \<le> reopens es \<and>
   hm_count holds_permit (ho_tasks (host_after cr pc did name ps es)) \<le> 8"
proof -
  have "spending_inv (started_host did name ps)"
    by (simp add: spending_inv_def started_host_def still_winnable_def enrolled_acks_def winnable_def new_pairing_state_def
        new_window_def)
  then have "spending_inv (host_after cr pc did name ps es)"
    unfolding host_after_def by (rule spending.run_inv)
  with host_after_opens [of cr pc did name ps es] show ?thesis
    by (simp add: spending_inv_def MAX_ACTIVE_CONNECTIONS_def)
qed

text \<open>
  C17. Nobody is told \<open>paired\<close> too early. In every such run, for every acknowledgement ever sent: the
  token the phone now holds had been stored for the authenticated device; and unless it was a resume,
  a human had approved exactly this device and comparison code, and a first pair that claimed no
  enrollment opportunity was one of a device the host already held a token for.
\<close>

theorem acknowledged_after_commit:
  assumes "a \<in> set (hi_acks (host_after cr pc did name ps es))"
  shows "(ak_device a, ak_token a) \<in> set (hi_stored (host_after cr pc did name ps es)) \<and>
    (\<not> ak_resumed a \<longrightarrow>
       (ak_device a, ak_code a) \<in> set (hi_approved (host_after cr pc did name ps es)) \<and>
       (ak_epoch a = None \<longrightarrow> ak_held_token a))"
proof -
  have "acks_inv cr (started_host did name ps)" by (simp add: acks_inv_def started_host_def)
  then have "acks_inv cr (host_after cr pc did name ps es)" unfolding host_after_def by (rule acks.run_inv)
  with assms show ?thesis by (auto simp: acks_inv_def ack_ok_def)
qed

section \<open>A closed run\<close>

text \<open>Primitives that return zeros: enough to drive a run, since nothing above depends on them.\<close>

definition null_crypto :: crypto where
  "null_crypto = \<lparr>
     hmac_sha256 = (\<lambda>k m. replicate 32 0), hkdf_sha256 = (\<lambda>salt ikm info. Some (replicate 32 0)),
     x25519_public = (\<lambda>s. replicate 32 0), x25519_shared = (\<lambda>s p. replicate 32 0),
     x25519_contributory = (\<lambda>s p. True),
     aead_encrypt = (\<lambda>k n m a. Some m), aead_decrypt = (\<lambda>k n c a. Some c)\<rparr>"

definition first_pair_run :: "host_event list" where
  "first_pair_run =
     (let env = \<lparr>env_gate_now = 2, env_limit_now = 2, env_nonce = replicate 32 0, env_eph = replicate 32 0\<rparr> in
      [Reopen 0 [Ticket (replicate 16 7)] 10, Connect 0 [5] ''node'' 1,
       Message 0 env (Hello [5] PROTOCOL_VERSION ''phone'' (replicate 32 0)),
       Message 0 env (PairingProof (replicate 32 0)),
       TakePermit 0, Answer 0 True, Claim 0 3, Commit 0, Acknowledge 0 True])"

definition paired_host :: "content host" where
  "paired_host = host_after null_crypto plain_postcard [9] ''host'' empty_store first_pair_run"

lemmas pairing_run_defs =
  new_pairing_state_def new_window_def rotate_def open_window_def snapshot_def current_epoch_def is_open_def
  gate_first_pair_def epoch_is_current_def check_and_reserve_first_pair_def GLOBAL_FIRST_PAIR_CAP_def saturating_add_def
  keyed_check_and_reserve_def gc_cold_def new_limiter_def limiter_check_and_reserve_def limiter_check_def
  keyed_record_success_def consume_first_pair_def window_consume_first_pair_def close_window_def

lemmas handshake_run_defs =
  null_crypto_def server_for_def with_authenticated_device_def with_first_pair_def with_rate_limit_key_def
  with_grace_tokens_def with_resumption_tokens_def new_server_def server_hello_def first_pair_window_def rate_limited_def
  issue_challenge_def generate_ephemeral_def ecdh_shared_def derive_session_from_key_def server_proof_def token_verified_def
  grace_verified_def matched_first_pair_def fp_keys_def verifies_def proof_from_key_def finish_handshake_def for_server_def
  from_session_labels_def derive_subkey_def derive_reconnect_token_def derive_resumption_token_def derive_pair_material_def
  pair_verification_code_def

lemmas commit_run_defs =
  empty_store_def empty_disk_def load_from_def cs_read_def cs_write_def prepare_secret_dir_def write_owner_only_def flush_staged_def
  replace_durably_def sync_parent_def syscall_def unwrap_or_default_def plain_postcard_def revocation_marker_def tokens_def
  grace_tokens_def revoked_def commit_host_handshake_def commit_handshake_def install_generation_def persist_defs
  persist_bytes_def remember_token_def clear_tombstone_def drop_grace_def

lemmas task_run_defs =
  connect_def handshake_message_step_def take_permit_def ask_human_def claim_enrollment_def commit_of_def
  commit_pairing_def ack_of_def acknowledge_def put_task_def drop_task_def on_task_def MAX_ACTIVE_CONNECTIONS_def

theorem acknowledged_after_commit_witness:
  "\<exists>a. hi_acks paired_host = [a] \<and> ak_device a = [5] \<and> \<not> ak_resumed a \<and> ak_epoch a = Some 1 \<and>
     ([5], ak_code a) \<in> set (hi_approved paired_host)"
proof -
  have "map (\<lambda>a. (ak_device a, ak_resumed a, ak_epoch a)) (hi_acks paired_host) = [([5], False, Some 1)]"
    by (simp add: paired_host_def host_after_def first_pair_run_def started_host_def pairing_run_defs handshake_run_defs
        commit_run_defs task_run_defs Let_def hm_contains_def)
  then obtain a where a: "hi_acks paired_host = [a]" "ak_device a = [5]" "\<not> ak_resumed a" "ak_epoch a = Some 1"
    by auto
  from acknowledged_after_commit [of a null_crypto plain_postcard "[9]" "''host''" empty_store first_pair_run] a
  show ?thesis by (auto simp: paired_host_def)
qed

end
