(* ===== verification/Pair_Confirm.thy ===== *)
theory Pair_Confirm
  imports Peer_Store
begin

text \<open>
  Human confirmation of a first pair, \<open>crates/host/src/pair_confirm.rs\<close>: the broker with its console
  registry and its single in-flight slot. A console is a \<open>portty pair\<close> session: an inbox for one request
  (a channel of capacity one), the request it is showing, and whether its receiver is still there. The
  reply channel of a request is identified by the number of the confirmation that created it. Steps of
  consoles, of the confirmation that waits and of new confirmations interleave freely; \<open>confirm\<close> runs
  without an await until it waits, so that part is one step. A reply beyond \<open>REPLY_SLOTS\<close> waits in its
  sender instead of the buffer; since only the first reply is ever read, the buffer here is unbounded.
\<close>

section \<open>Requests, consoles, broker\<close>

record pair_request =
  pq_confirmation :: nat
  pq_device :: device_id
  pq_display_name :: string
  pq_code :: string

record console =
  co_id :: u64
  co_attached :: bool
  co_receiver :: bool
  co_inbox :: "pair_request option"
  co_shown :: "pair_request option"

text \<open>
  \<open>bk_waiting\<close>: the confirmation that holds the in-flight slot, with the answers buffered for it.
  \<open>bk_verdicts\<close> and \<open>bk_answers\<close> record what \<open>confirm\<close> returned and what consoles answered.
\<close>

record broker =
  bk_consoles :: "console list"
  bk_next_id :: u64
  bk_next_confirmation :: nat
  bk_waiting :: "(pair_request \<times> bool list) option"
  bk_verdicts :: "(pair_request \<times> bool) list"
  bk_answers :: "(u64 \<times> pair_request \<times> bool) list"

definition new_broker :: broker where
  "new_broker = \<lparr>bk_consoles = [], bk_next_id = 0, bk_next_confirmation = 0, bk_waiting = None,
     bk_verdicts = [], bk_answers = []\<rparr>"

section \<open>Consoles\<close>

definition attach :: "broker \<Rightarrow> broker" where
  "attach bk =
     bk\<lparr>bk_consoles := bk_consoles bk @ [\<lparr>co_id = bk_next_id bk, co_attached = True, co_receiver = True,
        co_inbox = None, co_shown = None\<rparr>],
        bk_next_id := bk_next_id bk + 1\<rparr>"

definition update_console :: "u64 \<Rightarrow> (console \<Rightarrow> console) \<Rightarrow> broker \<Rightarrow> broker" where
  "update_console cid f bk = bk\<lparr>bk_consoles := map (\<lambda>co. if co_id co = cid then f co else co) (bk_consoles bk)\<rparr>"

text \<open>
  Dropping the guard takes the console out of the registry: it is not asked again, while its receiver
  may still hold a request. Dropping the receiver loses what it held.
\<close>

definition detach :: "u64 \<Rightarrow> broker \<Rightarrow> broker" where
  "detach cid = update_console cid (\<lambda>co. co\<lparr>co_attached := False\<rparr>)"

definition close_receiver :: "u64 \<Rightarrow> broker \<Rightarrow> broker" where
  "close_receiver cid = update_console cid (\<lambda>co. co\<lparr>co_receiver := False, co_inbox := None, co_shown := None\<rparr>)"

text \<open>A console takes the next request off its channel and shows it.\<close>

definition take_request :: "u64 \<Rightarrow> broker \<Rightarrow> broker" where
  "take_request cid =
     update_console cid (\<lambda>co. case co_inbox co of
        None \<Rightarrow> co
      | Some rq \<Rightarrow> co\<lparr>co_inbox := None, co_shown := Some rq\<rparr>)"

text \<open>
  \<open>answer\<close> consumes the request it answers; only the confirmation whose reply channel it carries can
  receive it, and only while that one is still waiting.
\<close>

definition buffer_answer :: "pair_request \<Rightarrow> bool \<Rightarrow> broker \<Rightarrow> broker" where
  "buffer_answer rq accept bk =
     (case bk_waiting bk of
        Some (waiting, buffered) \<Rightarrow>
          if pq_confirmation waiting = pq_confirmation rq
          then bk\<lparr>bk_waiting := Some (waiting, buffered @ [accept])\<rparr> else bk
      | None \<Rightarrow> bk)"

definition answer :: "u64 \<Rightarrow> bool \<Rightarrow> broker \<Rightarrow> broker" where
  "answer cid accept bk =
     (case find (\<lambda>co. co_id co = cid) (bk_consoles bk) of
        None \<Rightarrow> bk
      | Some co \<Rightarrow>
          (case co_shown co of
             None \<Rightarrow> bk
           | Some rq \<Rightarrow>
               buffer_answer rq accept
                 ((update_console cid (\<lambda>co. co\<lparr>co_shown := None\<rparr>) bk)
                   \<lparr>bk_answers := (cid, rq, accept) # bk_answers bk\<rparr>)))"

definition discard :: "u64 \<Rightarrow> broker \<Rightarrow> broker" where
  "discard cid = update_console cid (\<lambda>co. co\<lparr>co_shown := None\<rparr>)"

section \<open>Confirming\<close>

definition verdict :: "pair_request \<Rightarrow> bool \<Rightarrow> broker \<Rightarrow> broker" where
  "verdict rq v bk = bk\<lparr>bk_verdicts := (rq, v) # bk_verdicts bk\<rparr>"

text \<open>\<open>try_send\<close> to a registered console: its receiver is there and its one slot is free.\<close>

definition accepts :: "console \<Rightarrow> bool" where
  "accepts co \<longleftrightarrow> co_attached co \<and> co_receiver co \<and> co_inbox co = None"

definition deliver :: "pair_request \<Rightarrow> console \<Rightarrow> console" where
  "deliver rq co = (if accepts co then co\<lparr>co_inbox := Some rq\<rparr> else co)"

text \<open>
  \<open>confirm\<close> up to the point where it waits: refuse when another confirmation is in flight, when no
  console is attached or when none took the request; otherwise wait.
\<close>

definition begin_confirm :: "device_id \<Rightarrow> string \<Rightarrow> string \<Rightarrow> broker \<Rightarrow> broker" where
  "begin_confirm dev name code bk =
     (let rq = \<lparr>pq_confirmation = bk_next_confirmation bk, pq_device = dev, pq_display_name = name, pq_code = code\<rparr>;
          bk1 = bk\<lparr>bk_next_confirmation := bk_next_confirmation bk + 1\<rparr>
      in if bk_waiting bk \<noteq> None then verdict rq False bk1
         else if filter co_attached (bk_consoles bk) = [] then verdict rq False bk1
         else (let delivered = length (filter accepts (bk_consoles bk));
                   bk2 = bk1\<lparr>bk_consoles := map (deliver rq) (bk_consoles bk)\<rparr>
               in if delivered = 0 then verdict rq False bk2
                  else bk2\<lparr>bk_waiting := Some (rq, [])\<rparr>))"

text \<open>Some console still holds a copy of the request, so its reply channel is open.\<close>

definition reply_open :: "pair_request \<Rightarrow> broker \<Rightarrow> bool" where
  "reply_open rq bk \<longleftrightarrow>
     (\<exists>co \<in> set (bk_consoles bk).
        map_option pq_confirmation (co_inbox co) = Some (pq_confirmation rq) \<or>
        map_option pq_confirmation (co_shown co) = Some (pq_confirmation rq))"

text \<open>The waiting confirmation receives: the first answer decides, a closed channel is a no.\<close>

definition receive :: "broker \<Rightarrow> broker" where
  "receive bk =
     (case bk_waiting bk of
        None \<Rightarrow> bk
      | Some (rq, a # _) \<Rightarrow> verdict rq a (bk\<lparr>bk_waiting := None\<rparr>)
      | Some (rq, []) \<Rightarrow> if reply_open rq bk then bk else verdict rq False (bk\<lparr>bk_waiting := None\<rparr>))"

definition time_out :: "broker \<Rightarrow> broker" where
  "time_out bk =
     (case bk_waiting bk of None \<Rightarrow> bk | Some (rq, _) \<Rightarrow> verdict rq False (bk\<lparr>bk_waiting := None\<rparr>))"

text \<open>The task that runs \<open>confirm\<close> is dropped: the slot is released and nothing is returned.\<close>

definition cancel :: "broker \<Rightarrow> broker" where
  "cancel bk = bk\<lparr>bk_waiting := None\<rparr>"

section \<open>Interleavings\<close>

datatype confirm_event =
    Attach | Detach u64 | CloseReceiver u64 | Take u64 | AnswerConsole u64 bool | Discard u64
  | Confirm device_id string string | Receive | TimeOut | Cancel

fun confirm_step :: "broker \<Rightarrow> confirm_event \<Rightarrow> broker" where
  "confirm_step bk Attach = attach bk"
| "confirm_step bk (Detach cid) = detach cid bk"
| "confirm_step bk (CloseReceiver cid) = close_receiver cid bk"
| "confirm_step bk (Take cid) = take_request cid bk"
| "confirm_step bk (AnswerConsole cid accept) = answer cid accept bk"
| "confirm_step bk (Discard cid) = discard cid bk"
| "confirm_step bk (Confirm dev name code) = begin_confirm dev name code bk"
| "confirm_step bk Receive = receive bk"
| "confirm_step bk TimeOut = time_out bk"
| "confirm_step bk Cancel = cancel bk"

definition broker_after :: "confirm_event list \<Rightarrow> broker" where
  "broker_after es = foldl confirm_step new_broker es"

section \<open>Only an explicit yes\<close>

definition copies :: "broker \<Rightarrow> pair_request set" where
  "copies bk = {rq. \<exists>co \<in> set (bk_consoles bk). co_inbox co = Some rq \<or> co_shown co = Some rq}"

text \<open>
  Confirmation numbers identify requests: two copies, answered requests, verdicts or the waiting
  request with the same number are the same request, and all numbers are below the next one.
\<close>

definition known_requests :: "broker \<Rightarrow> pair_request set" where
  "known_requests bk =
     copies bk \<union> fst ` set (bk_verdicts bk) \<union> (fst \<circ> snd) ` set (bk_answers bk) \<union>
     (case bk_waiting bk of None \<Rightarrow> {} | Some (rq, _) \<Rightarrow> {rq})"

definition broker_inv :: "broker \<Rightarrow> bool" where
  "broker_inv bk \<longleftrightarrow>
     inj_on pq_confirmation (known_requests bk) \<and>
     (\<forall>rq \<in> known_requests bk. pq_confirmation rq < bk_next_confirmation bk) \<and>
     (case bk_waiting bk of None \<Rightarrow> True
      | Some (rq, buffered) \<Rightarrow> \<forall>a \<in> set buffered. (rq, a) \<in> snd ` set (bk_answers bk)) \<and>
     (\<forall>rq. (rq, True) \<in> set (bk_verdicts bk) \<longrightarrow> ((rq, True) \<in> snd ` set (bk_answers bk)))"

lemmas broker_ops =
  attach_def detach_def close_receiver_def take_request_def discard_def verdict_def receive_def time_out_def
  cancel_def answer_def buffer_answer_def begin_confirm_def

lemma broker_inv_shrink:
  assumes "broker_inv bk"
    and "known_requests bk' \<subseteq> known_requests bk" "bk_next_confirmation bk' = bk_next_confirmation bk"
    and "\<And>rq buffered a. bk_waiting bk' = Some (rq, buffered) \<Longrightarrow> a \<in> set buffered \<Longrightarrow>
           (rq, a) \<in> snd ` set (bk_answers bk')"
    and "\<And>rq. (rq, True) \<in> set (bk_verdicts bk') \<Longrightarrow> (rq, True) \<in> snd ` set (bk_answers bk')"
  shows "broker_inv bk'"
  using assms unfolding broker_inv_def
  by (fastforce intro: inj_on_subset split: option.splits)

lemma broker_inv_waiting:
  "broker_inv bk \<Longrightarrow> bk_waiting bk = Some (rq, buffered) \<Longrightarrow> a \<in> set buffered \<Longrightarrow>
     (rq, a) \<in> snd ` set (bk_answers bk)"
  by (auto simp: broker_inv_def)

lemma broker_inv_verdict:
  "broker_inv bk \<Longrightarrow> (rq, True) \<in> set (bk_verdicts bk) \<Longrightarrow> (rq, True) \<in> snd ` set (bk_answers bk)"
  by (auto simp: broker_inv_def)

lemma update_console_fields [simp]:
  "bk_next_confirmation (update_console cid f bk) = bk_next_confirmation bk"
  "bk_waiting (update_console cid f bk) = bk_waiting bk"
  "bk_verdicts (update_console cid f bk) = bk_verdicts bk"
  "bk_answers (update_console cid f bk) = bk_answers bk"
  by (simp_all add: update_console_def)

definition held :: "console \<Rightarrow> pair_request set" where
  "held co = set_option (co_inbox co) \<union> set_option (co_shown co)"

lemma copies_held: "copies bk = \<Union> (held ` set (bk_consoles bk))"
  by (auto simp: copies_def held_def)

lemma copies_update_console: "(\<And>co. held (f co) \<subseteq> held co) \<Longrightarrow> copies (update_console cid f bk) \<subseteq> copies bk"
  by (fastforce simp: copies_held update_console_def)

lemma known_update_console:
  "(\<And>co. held (f co) \<subseteq> held co) \<Longrightarrow> known_requests (update_console cid f bk) \<subseteq> known_requests bk"
  using copies_update_console [of f cid bk] by (auto simp: known_requests_def image_def)

lemma known_conclude:
  "bk_waiting bk = Some (rq, buffered) \<Longrightarrow> known_requests (verdict rq v (bk\<lparr>bk_waiting := None\<rparr>)) \<subseteq> known_requests bk"
  by (auto simp: known_requests_def copies_def verdict_def)

lemma known_attach [simp]: "known_requests (attach bk) = known_requests bk"
  by (auto simp: attach_def known_requests_def copies_def)

lemma known_answer: "known_requests (answer cid accept bk) \<subseteq> known_requests bk"
proof -
  have "copies (answer cid accept bk) \<subseteq> copies bk"
    using copies_update_console [of "\<lambda>co. co\<lparr>co_shown := None\<rparr>" cid bk]
    by (auto simp: answer_def buffer_answer_def copies_def held_def split: option.splits)
  moreover have "rq \<in> copies bk" if "find (\<lambda>co. co_id co = cid) (bk_consoles bk) = Some co" "co_shown co = Some rq" for rq co
    using that by (auto simp: copies_def find_Some_iff)
  ultimately show ?thesis
    by (auto simp: known_requests_def answer_def buffer_answer_def split: option.splits if_splits)
qed

lemma update_console_inv:
  assumes "broker_inv bk" "\<And>co. held (f co) \<subseteq> held co"
  shows "broker_inv (update_console cid f bk)"
  by (rule broker_inv_shrink [OF assms(1) known_update_console [OF assms(2)]])
    (use assms(1) in \<open>auto dest: broker_inv_waiting broker_inv_verdict\<close>)

lemma stop_waiting_inv: "broker_inv bk \<Longrightarrow> broker_inv (bk\<lparr>bk_waiting := None\<rparr>)"
  by (rule broker_inv_shrink) (auto simp: known_requests_def copies_def broker_inv_verdict)

lemma conclude_inv:
  assumes "broker_inv bk" "bk_waiting bk = Some (rq, buffered)" "v \<longrightarrow> v \<in> set buffered"
  shows "broker_inv (verdict rq v (bk\<lparr>bk_waiting := None\<rparr>))"
  by (rule broker_inv_shrink [OF assms(1)])
    (use assms in \<open>auto simp: known_requests_def copies_def verdict_def dest: broker_inv_verdict broker_inv_waiting\<close>)

lemma answer_inv:
  assumes inv: "broker_inv bk"
  shows "broker_inv (answer cid accept bk)"
proof (cases "find (\<lambda>co. co_id co = cid) (bk_consoles bk)")
  case (Some co)
  show ?thesis
  proof (cases "co_shown co")
    case shown: (Some rq)
    let ?bk = "(update_console cid (\<lambda>co. co\<lparr>co_shown := None\<rparr>) bk)\<lparr>bk_answers := (cid, rq, accept) # bk_answers bk\<rparr>"
    have co: "co \<in> set (bk_consoles bk)"
      using Some by (auto simp: find_Some_iff)
    then have known: "rq \<in> known_requests bk"
      using shown by (auto simp: known_requests_def copies_def)
    have same: "waiting = rq"
      if "bk_waiting bk = Some (waiting, buffered)" "pq_confirmation waiting = pq_confirmation rq" for waiting buffered
    proof -
      have "waiting \<in> known_requests bk"
        using that(1) by (simp add: known_requests_def)
      then show ?thesis
        using inv that(2) known by (auto simp: broker_inv_def dest: inj_onD)
    qed
    have "known_requests (buffer_answer rq accept ?bk) \<subseteq> known_requests bk"
      using known_answer [of cid accept bk] Some shown by (simp add: answer_def)
    then have "broker_inv (buffer_answer rq accept ?bk)"
      using inv same
      by (intro broker_inv_shrink [OF inv])
        (auto simp: buffer_answer_def dest: broker_inv_waiting broker_inv_verdict split: option.splits if_splits)
    then show ?thesis
      using Some shown by (simp add: answer_def)
  qed (use Some inv in \<open>simp add: answer_def\<close>)
qed (use inv in \<open>simp add: answer_def\<close>)

lemma fresh_confirmation:
  assumes "broker_inv bk" "known_requests bk' \<subseteq> insert rq (known_requests bk)"
    and "pq_confirmation rq = bk_next_confirmation bk" "bk_next_confirmation bk' = bk_next_confirmation bk + 1"
    and "\<And>rq buffered a. bk_waiting bk' = Some (rq, buffered) \<Longrightarrow> a \<in> set buffered \<Longrightarrow>
           (rq, a) \<in> snd ` set (bk_answers bk')"
    and "\<And>rq. (rq, True) \<in> set (bk_verdicts bk') \<Longrightarrow> (rq, True) \<in> snd ` set (bk_answers bk')"
  shows "broker_inv bk'"
proof -
  have below: "pq_confirmation r < pq_confirmation rq" if "r \<in> known_requests bk" for r
    using assms(1,3) that by (simp add: broker_inv_def)
  then have "inj_on pq_confirmation (insert rq (known_requests bk))"
    using assms(1) by (fastforce simp: broker_inv_def inj_on_def)
  moreover have "pq_confirmation r < bk_next_confirmation bk'" if "r \<in> known_requests bk'" for r
    using below assms(2,3,4) that by fastforce
  ultimately show ?thesis
    using assms(2,5,6) unfolding broker_inv_def by (auto intro: inj_on_subset split: option.splits)
qed

lemma copies_deliver: "bk_consoles bk' = map (deliver rq) (bk_consoles bk) \<Longrightarrow> copies bk' \<subseteq> insert rq (copies bk)"
  by (auto simp: copies_held held_def deliver_def split: if_splits)

lemma known_begin_confirm:
  "known_requests (begin_confirm dev name code bk) \<subseteq>
     insert \<lparr>pq_confirmation = bk_next_confirmation bk, pq_device = dev, pq_display_name = name, pq_code = code\<rparr>
       (known_requests bk)" (is "_ \<subseteq> insert ?rq _")
proof -
  have "copies (begin_confirm dev name code bk) \<subseteq> insert ?rq (copies bk)"
  proof (cases "bk_consoles (begin_confirm dev name code bk) = bk_consoles bk")
    case False
    then have "bk_consoles (begin_confirm dev name code bk) = map (deliver ?rq) (bk_consoles bk)"
      by (auto simp: begin_confirm_def Let_def verdict_def split: if_splits)
    then show ?thesis by (rule copies_deliver)
  qed (auto simp: copies_def)
  then show ?thesis
    by (auto simp: known_requests_def begin_confirm_def Let_def verdict_def image_def split: if_splits option.splits)
qed

lemma begin_confirm_inv:
  assumes "broker_inv bk"
  shows "broker_inv (begin_confirm dev name code bk)"
  by (rule fresh_confirmation [OF assms known_begin_confirm])
    (auto simp: begin_confirm_def Let_def verdict_def broker_inv_waiting [OF assms] broker_inv_verdict [OF assms]
      split: if_splits)

interpretation broker: step_invariant confirm_step broker_inv
proof
  fix bk e
  assume inv: "broker_inv bk"
  show "broker_inv (confirm_step bk e)"
  proof (cases e)
    case Attach
    have "broker_inv (attach bk)"
      by (rule broker_inv_shrink [OF inv eq_refl [OF known_attach]])
        (auto simp: attach_def broker_inv_waiting [OF inv] broker_inv_verdict [OF inv])
    then show ?thesis by (simp add: Attach)
  next
    case Receive
    then show ?thesis
      using inv by (auto simp: receive_def intro!: conclude_inv split: option.splits list.splits)
  next
    case TimeOut
    then show ?thesis
      using inv by (auto simp: time_out_def intro!: conclude_inv split: option.splits)
  qed (use inv in \<open>simp_all add: answer_inv begin_confirm_inv cancel_def stop_waiting_inv detach_def close_receiver_def
      take_request_def discard_def update_console_inv held_def split: option.splits\<close>)
qed

lemma broker_inv_after: "broker_inv (broker_after es)"
  unfolding broker_after_def
  by (rule broker.run_inv) (simp add: new_broker_def broker_inv_def known_requests_def copies_def)

lemma known_step:
  "rq \<in> known_requests (confirm_step bk e) \<Longrightarrow> rq \<notin> known_requests bk \<Longrightarrow>
     e = Confirm (pq_device rq) (pq_display_name rq) (pq_code rq)"
proof (cases e)
  case (Confirm dev name code)
  assume "rq \<in> known_requests (confirm_step bk e)" "rq \<notin> known_requests bk"
  then show ?thesis
    using known_begin_confirm [of dev name code bk] by (auto simp: Confirm)
next
  case Receive
  assume "rq \<in> known_requests (confirm_step bk e)" "rq \<notin> known_requests bk"
  then show ?thesis
    by (auto simp: Receive receive_def dest: known_conclude [THEN subsetD, rotated] split: option.splits list.splits if_splits)
next
  case TimeOut
  assume "rq \<in> known_requests (confirm_step bk e)" "rq \<notin> known_requests bk"
  then show ?thesis
    by (auto simp: TimeOut time_out_def dest: known_conclude [THEN subsetD, rotated] split: option.splits)
next
  case Cancel
  assume "rq \<in> known_requests (confirm_step bk e)" "rq \<notin> known_requests bk"
  then show ?thesis
    by (auto simp: Cancel cancel_def known_requests_def copies_def)
qed (auto simp: detach_def close_receiver_def take_request_def discard_def held_def
    dest!: known_answer [THEN subsetD] known_update_console [THEN subsetD, rotated] split: option.splits)

lemma request_was_asked:
  "rq \<in> known_requests (broker_after es) \<Longrightarrow> Confirm (pq_device rq) (pq_display_name rq) (pq_code rq) \<in> set es"
proof (induction es rule: rev_induct)
  case (snoc e es)
  then show ?case
    using known_step [of rq "broker_after es" e] by (auto simp: broker_after_def)
qed (simp add: broker_after_def new_broker_def known_requests_def copies_def)

lemma find_SomeD: "find P xs = Some x \<Longrightarrow> x \<in> set xs \<and> P x"
  by (auto simp: find_Some_iff)

lemma answers_step:
  "x \<in> set (bk_answers (confirm_step bk e)) \<Longrightarrow> x \<notin> set (bk_answers bk) \<Longrightarrow>
     \<exists>cid rq a co. x = (cid, rq, a) \<and> e = AnswerConsole cid a \<and> co \<in> set (bk_consoles bk) \<and> co_id co = cid \<and>
       co_shown co = Some rq"
  by (cases e)
    (auto simp: broker_ops Let_def dest!: find_SomeD split: option.splits list.splits if_splits)

lemma answered_when_shown:
  "(cid, rq, a) \<in> set (bk_answers (broker_after es)) \<Longrightarrow>
     \<exists>before after co. es = before @ AnswerConsole cid a # after \<and>
       co \<in> set (bk_consoles (broker_after before)) \<and> co_id co = cid \<and> co_shown co = Some rq"
proof (induction es rule: rev_induct)
  case (snoc e es)
  show ?case
  proof (cases "(cid, rq, a) \<in> set (bk_answers (broker_after es))")
    case True
    then obtain before after co where "es = before @ AnswerConsole cid a # after"
      "co \<in> set (bk_consoles (broker_after before))" "co_id co = cid" "co_shown co = Some rq"
      using snoc.IH by blast
    then show ?thesis
      by (intro exI [of _ before] exI [of _ "after @ [e]"] exI [of _ co]) simp
  next
    case False
    then show ?thesis
      using snoc.prems answers_step [of "(cid, rq, a)" "broker_after es" e]
      by (fastforce simp: broker_after_def)
  qed
qed (simp add: broker_after_def new_broker_def)

text \<open>
  C26. Under every interleaving of consoles, confirmations, time-outs and dropped tasks, \<open>confirm\<close>
  returns true for a request only if a console that was showing exactly this request, of this
  confirmation, with its device, name and code, answered yes, after \<open>confirm\<close> had been called with
  that device, name and code. No console, a hang-up, a time-out, an answer to an earlier prompt and a
  second concurrent request all end in a refusal.
\<close>

theorem confirmed_only_by_yes:
  assumes "(rq, True) \<in> set (bk_verdicts (broker_after es))"
  shows "\<exists>before cid after co.
    es = before @ AnswerConsole cid True # after \<and>
    Confirm (pq_device rq) (pq_display_name rq) (pq_code rq) \<in> set before \<and>
    co \<in> set (bk_consoles (broker_after before)) \<and> co_id co = cid \<and> co_shown co = Some rq"
proof -
  obtain cid where "(cid, rq, True) \<in> set (bk_answers (broker_after es))"
    using broker_inv_verdict [OF broker_inv_after assms] by auto
  from answered_when_shown [OF this] obtain before after co where split:
    "es = before @ AnswerConsole cid True # after"
    "co \<in> set (bk_consoles (broker_after before))" "co_id co = cid" "co_shown co = Some rq"
    by blast
  then have "rq \<in> known_requests (broker_after before)"
    by (auto simp: known_requests_def copies_def)
  then show ?thesis
    using split request_was_asked by blast
qed

definition stale_prompt_run :: "device_id \<Rightarrow> device_id \<Rightarrow> confirm_event list" where
  "stale_prompt_run a b =
     [Attach, Confirm a ''old'' ''111111'', Take 0, TimeOut, Confirm b ''new'' ''222222'', AnswerConsole 0 True,
      Receive, Take 0, AnswerConsole 0 True, Receive]"

lemma stale_prompt_verdicts:
  "bk_verdicts (broker_after (stale_prompt_run a b)) =
     [(\<lparr>pq_confirmation = 1, pq_device = b, pq_display_name = ''new'', pq_code = ''222222''\<rparr>, True),
      (\<lparr>pq_confirmation = 0, pq_device = a, pq_display_name = ''old'', pq_code = ''111111''\<rparr>, False)]"
  by (simp add: broker_after_def stale_prompt_run_def new_broker_def broker_ops update_console_def accepts_def
      deliver_def reply_open_def Let_def)

theorem confirmed_only_by_yes_witness:
  "\<exists>before cid after co.
    stale_prompt_run (replicate 16 1) (replicate 16 2) = before @ AnswerConsole cid True # after \<and>
    Confirm (replicate 16 2) ''new'' ''222222'' \<in> set before \<and>
    co \<in> set (bk_consoles (broker_after before)) \<and> co_id co = cid \<and>
    co_shown co = Some \<lparr>pq_confirmation = 1, pq_device = replicate 16 2, pq_display_name = ''new'', pq_code = ''222222''\<rparr>"
  using confirmed_only_by_yes [of "\<lparr>pq_confirmation = 1, pq_device = replicate 16 2, pq_display_name = ''new'',
    pq_code = ''222222''\<rparr>" "stale_prompt_run (replicate 16 1) (replicate 16 2)"]
  by (simp add: stale_prompt_verdicts)

end
