(* ===== verification/Active.thy ===== *)
theory Active
  imports Peer_Store
begin

text \<open>
  The registry of connected phones, \<open>crates/host/src/active.rs\<close>, the revocation watcher that uses it and
  the life of a session task around it (\<open>accept_loop\<close> in \<open>crates/host/src/iroh_serve.rs\<close>: spawn, register,
  wait for the end of the task, deregister). A task is a number that is never used again: an
  \<open>AbortHandle\<close> names it, and it is running until it ends by itself or is aborted. The state file is
  the last state written; the outcome of a write is an argument of the operation that does it.
\<close>

section \<open>State\<close>

record conn_entry =
  ce_device :: device_id
  ce_name :: string
  ce_since :: u64

record active_state =
  as_daemon_pid :: u32
  as_connected :: "conn_entry list"
  as_last_seen :: "(device_id, u64) hashmap"

record conn =
  cn_id :: u64
  cn_abort :: nat
  cn_name :: string
  cn_since :: u64

text \<open>\<open>Revoked { pair_id, event_id }\<close>, the only control message.\<close>

record connection_control =
  cc_pair_id :: bytes
  cc_event_id :: bytes

text \<open>
  \<open>ad_inner\<close>, \<open>ad_last_seen\<close>, \<open>ad_next_connection_id\<close> and the file are the fields of \<open>ActiveDevices\<close>.
  \<open>ad_running\<close> holds the session tasks with their device, \<open>ad_parents\<close> the accept tasks that wait for
  one of them, \<open>ad_timers\<close> the aborts that \<open>notify_revoked\<close> has scheduled, \<open>ad_notices\<close> the control
  messages sent to a task.
\<close>

record active =
  ad_inner :: "(device_id, conn) hashmap"
  ad_last_seen :: "(device_id, u64) hashmap"
  ad_next_connection_id :: u64
  ad_file :: "active_state option"
  ad_next_task :: nat
  ad_running :: "(nat \<times> device_id) list"
  ad_parents :: "(nat \<times> device_id \<times> u64) list"
  ad_timers :: "nat list"
  ad_notices :: "(nat \<times> connection_control) list"

section \<open>The state file\<close>

definition default_state :: active_state where
  "default_state = \<lparr>as_daemon_pid = 0, as_connected = [], as_last_seen = []\<rparr>"

definition load_state :: "active_state option \<Rightarrow> active_state" where
  "load_state file = (case file of None \<Rightarrow> default_state | Some st \<Rightarrow> st)"

text \<open>\<open>pid_alive\<close> asks the operating system.\<close>

definition daemon_alive :: "(u32 \<Rightarrow> bool) \<Rightarrow> active_state \<Rightarrow> bool" where
  "daemon_alive pid_alive st \<longleftrightarrow> as_daemon_pid st \<noteq> 0 \<and> pid_alive (as_daemon_pid st)"

definition connected_since :: "(u32 \<Rightarrow> bool) \<Rightarrow> active_state \<Rightarrow> device_id \<Rightarrow> u64 option" where
  "connected_since pid_alive st d =
     (if \<not> daemon_alive pid_alive st then None
      else map_option ce_since (find (\<lambda>c. ce_device c = d) (as_connected st)))"

definition last_seen :: "active_state \<Rightarrow> device_id \<Rightarrow> u64 option" where
  "last_seen st d = hm_get (as_last_seen st) d"

definition clear_connected :: "bool \<Rightarrow> active_state option \<Rightarrow> active_state option" where
  "clear_connected written file =
     (let prior = load_state file
      in if as_daemon_pid prior = 0 \<and> as_connected prior = [] then file
         else if written then Some \<lparr>as_daemon_pid = 0, as_connected = [], as_last_seen = as_last_seen prior\<rparr>
         else file)"

section \<open>The registry\<close>

definition active_snapshot :: "u32 \<Rightarrow> active \<Rightarrow> active_state" where
  "active_snapshot pid ac =
     \<lparr>as_daemon_pid = pid,
      as_connected = map (\<lambda>(d, c). \<lparr>ce_device = d, ce_name = cn_name c, ce_since = cn_since c\<rparr>) (ad_inner ac),
      as_last_seen = ad_last_seen ac\<rparr>"

definition persist_active :: "u32 \<Rightarrow> bool \<Rightarrow> active \<Rightarrow> active" where
  "persist_active pid written ac = (if written then ac\<lparr>ad_file := Some (active_snapshot pid ac)\<rparr> else ac)"

definition new_active :: "u32 \<Rightarrow> bool \<Rightarrow> active_state option \<Rightarrow> active" where
  "new_active pid written file =
     persist_active pid written
       \<lparr>ad_inner = [], ad_last_seen = as_last_seen (load_state file), ad_next_connection_id = 1, ad_file = file,
        ad_next_task = 0, ad_running = [], ad_parents = [], ad_timers = [], ad_notices = []\<rparr>"

definition abort_task :: "nat \<Rightarrow> active \<Rightarrow> active" where
  "abort_task t ac = ac\<lparr>ad_running := filter (\<lambda>(t', _). t' \<noteq> t) (ad_running ac)\<rparr>"

definition register :: "u32 \<Rightarrow> bool \<Rightarrow> u64 \<Rightarrow> device_id \<Rightarrow> string \<Rightarrow> nat \<Rightarrow> active \<Rightarrow> active \<times> u64" where
  "register pid written now d name task ac =
     (let cid = ad_next_connection_id ac;
          replaced = hm_get (ad_inner ac) d;
          ac1 = ac\<lparr>ad_next_connection_id := cid + 1,
                   ad_inner := hm_insert d \<lparr>cn_id = cid, cn_abort = task, cn_name = name, cn_since = now\<rparr> (ad_inner ac)\<rparr>;
          ac2 = (case replaced of None \<Rightarrow> ac1 | Some old \<Rightarrow> abort_task (cn_abort old) ac1)
      in (persist_active pid written ac2, cid))"

definition deregister :: "u32 \<Rightarrow> bool \<Rightarrow> u64 \<Rightarrow> device_id \<Rightarrow> u64 \<Rightarrow> active \<Rightarrow> active \<times> bool" where
  "deregister pid written now d cid ac =
     (if (case hm_get (ad_inner ac) d of None \<Rightarrow> False | Some c \<Rightarrow> cn_id c = cid)
      then (persist_active pid written
              (ac\<lparr>ad_inner := hm_remove d (ad_inner ac), ad_last_seen := hm_insert d now (ad_last_seen ac)\<rparr>), True)
      else (ac, False))"

text \<open>The loop over the registered connections, with the number of the ones it aborted.\<close>

fun drop_if_revoked :: "(device_id, 'v) hashmap \<Rightarrow> active \<times> nat \<Rightarrow> device_id \<times> conn \<Rightarrow> active \<times> nat" where
  "drop_if_revoked valid (ac, dropped) (d, c) =
     (if hm_contains valid d then (ac, dropped) else (abort_task (cn_abort c) ac, dropped + 1))"

definition drop_revoked :: "(device_id, 'v) hashmap \<Rightarrow> active \<Rightarrow> active \<times> nat" where
  "drop_revoked valid ac = foldl (drop_if_revoked valid) (ac, 0) (ad_inner ac)"

text \<open>
  \<open>notify_revoked\<close>: \<open>in_time\<close> says whether the session task took the notice within half a second. The
  abort is scheduled either way, for the task that was registered at this moment.
\<close>

definition notify_revoked :: "device_id \<Rightarrow> bytes \<Rightarrow> bytes \<Rightarrow> bool \<Rightarrow> active \<Rightarrow> active \<times> bool" where
  "notify_revoked d pair event in_time ac =
     (case hm_get (ad_inner ac) d of
        None \<Rightarrow> (ac, False)
      | Some c \<Rightarrow>
          (let ac1 = (if in_time
             then ac\<lparr>ad_notices := (cn_abort c, \<lparr>cc_pair_id = pair, cc_event_id = event\<rparr>) # ad_notices ac\<rparr> else ac)
           in (ac1\<lparr>ad_timers := cn_abort c # ad_timers ac1\<rparr>, in_time)))"

section \<open>The watcher and the life of a connection\<close>

text \<open>One round of the revocation watcher; a store that cannot be reloaded skips the round.\<close>

definition watch :: "'b postcard \<Rightarrow> 'b peer_store \<Rightarrow> active \<Rightarrow> 'b peer_store \<times> active" where
  "watch pc store ac =
     (case load_from pc (ps_disk store) of
        Inl e \<Rightarrow> (store, ac)
      | Inr fresh \<Rightarrow> (fresh, fst (drop_revoked (tokens fresh) ac)))"

text \<open>After the commit: spawn the session task, register it, then let it start.\<close>

definition start_session :: "u32 \<Rightarrow> bool \<Rightarrow> u64 \<Rightarrow> device_id \<Rightarrow> string \<Rightarrow> active \<Rightarrow> active" where
  "start_session pid written now d name ac =
     (let t = ad_next_task ac;
          (ac1, cid) = register pid written now d name t
            (ac\<lparr>ad_next_task := t + 1, ad_running := (t, d) # ad_running ac\<rparr>)
      in ac1\<lparr>ad_parents := (t, d, cid) # ad_parents ac1\<rparr>)"

text \<open>The accept task comes back from waiting for a session task that is no longer running.\<close>

definition end_session :: "u32 \<Rightarrow> bool \<Rightarrow> u64 \<Rightarrow> nat \<Rightarrow> active \<Rightarrow> active" where
  "end_session pid written now t ac =
     (case find (\<lambda>(t', _, _). t' = t) (ad_parents ac) of
        None \<Rightarrow> ac
      | Some (_, d, cid) \<Rightarrow>
          if t \<in> fst ` set (ad_running ac) then ac
          else (fst (deregister pid written now d cid ac))
                 \<lparr>ad_parents := filter (\<lambda>(t', _, _). t' \<noteq> t) (ad_parents ac)\<rparr>)"

definition fire_timer :: "nat \<Rightarrow> active \<Rightarrow> active" where
  "fire_timer t ac =
     (if t \<in> set (ad_timers ac) then abort_task t (ac\<lparr>ad_timers := removeAll t (ad_timers ac)\<rparr>) else ac)"

datatype active_event =
    StartSession bool u64 device_id string | TaskEnds nat | EndSession bool u64 nat
  | Poll "(device_id, token) hashmap" | Notify device_id bytes bytes bool | FireTimer nat

fun active_step :: "u32 \<Rightarrow> active \<Rightarrow> active_event \<Rightarrow> active" where
  "active_step pid ac (StartSession written now d name) = start_session pid written now d name ac"
| "active_step pid ac (TaskEnds t) = abort_task t ac"
| "active_step pid ac (EndSession written now t) = end_session pid written now t ac"
| "active_step pid ac (Poll valid) = fst (drop_revoked valid ac)"
| "active_step pid ac (Notify d pair event in_time) = fst (notify_revoked d pair event in_time ac)"
| "active_step pid ac (FireTimer t) = fire_timer t ac"

definition active_after :: "u32 \<Rightarrow> active_event list \<Rightarrow> active" where
  "active_after pid es = foldl (active_step pid) (new_active pid True None) es"

section \<open>Every running session is the registered one of its device\<close>

definition id_of :: "nat \<Rightarrow> u64" where
  "id_of t = word_of_nat (t + 1)"

lemma id_of_inj: "id_of t = id_of t' \<Longrightarrow> t < 2 ^ 64 - 1 \<Longrightarrow> t' < 2 ^ 64 - 1 \<Longrightarrow> t = t'"
  by (auto simp: id_of_def word_of_nat_eq_iff take_bit_nat_eq_self simp del: of_nat_add)

definition registered :: "active \<Rightarrow> nat \<times> device_id \<Rightarrow> bool" where
  "registered ac = (\<lambda>(t, d). map_option cn_abort (hm_get (ad_inner ac) d) = Some t)"

definition registry_inv :: "active \<Rightarrow> bool" where
  "registry_inv ac \<longleftrightarrow>
     list_all (registered ac) (ad_running ac) \<and>
     (\<forall>d c. hm_get (ad_inner ac) d = Some c \<longrightarrow> cn_abort c < ad_next_task ac \<and> cn_id c = id_of (cn_abort c)) \<and>
     (\<forall>(t, d, cid) \<in> set (ad_parents ac). t < ad_next_task ac \<and> cid = id_of t) \<and>
     ad_next_connection_id ac = id_of (ad_next_task ac)"

text \<open>Connection identifiers are 64 bits wide; the invariant speaks of the runs before they wrap.\<close>

definition before_wrap :: "active \<Rightarrow> bool" where
  "before_wrap ac \<longleftrightarrow> (ad_next_task ac < 2 ^ 64 \<longrightarrow> registry_inv ac)"

lemma persist_active_fields [simp]:
  "ad_inner (persist_active pid w ac) = ad_inner ac"
  "ad_next_connection_id (persist_active pid w ac) = ad_next_connection_id ac"
  "ad_next_task (persist_active pid w ac) = ad_next_task ac"
  "ad_running (persist_active pid w ac) = ad_running ac"
  "ad_parents (persist_active pid w ac) = ad_parents ac"
  by (simp_all add: persist_active_def)

lemma abort_task_fields [simp]:
  "ad_inner (abort_task t ac) = ad_inner ac"
  "ad_next_connection_id (abort_task t ac) = ad_next_connection_id ac"
  "ad_next_task (abort_task t ac) = ad_next_task ac"
  "ad_parents (abort_task t ac) = ad_parents ac"
  by (simp_all add: abort_task_def)

lemma running_abort_task [simp]: "x \<in> set (ad_running (abort_task t ac)) \<longleftrightarrow> x \<in> set (ad_running ac) \<and> fst x \<noteq> t"
  by (auto simp: abort_task_def)

lemma drop_loop:
  fixes valid :: "(device_id, 'v) hashmap" and n :: nat
  defines "res \<equiv> \<lambda>ac n cs. fst (foldl (drop_if_revoked valid) (ac, n) cs)"
  shows "ad_inner (res ac n cs) = ad_inner ac \<and>
    ad_next_connection_id (res ac n cs) = ad_next_connection_id ac \<and>
    ad_next_task (res ac n cs) = ad_next_task ac \<and> ad_parents (res ac n cs) = ad_parents ac \<and>
    (x \<in> set (ad_running (res ac n cs)) \<longleftrightarrow>
      x \<in> set (ad_running ac) \<and> (\<forall>(d, c) \<in> set cs. hm_contains valid d \<or> cn_abort c \<noteq> fst x))"
  unfolding res_def by (induction cs arbitrary: ac n) (auto split: if_splits)

lemma drop_revoked_fields [simp]:
  "ad_inner (fst (drop_revoked valid ac)) = ad_inner ac"
  "ad_next_connection_id (fst (drop_revoked valid ac)) = ad_next_connection_id ac"
  "ad_next_task (fst (drop_revoked valid ac)) = ad_next_task ac"
  "ad_parents (fst (drop_revoked valid ac)) = ad_parents ac"
  unfolding drop_revoked_def by (simp_all add: drop_loop)

lemma running_drop_revoked:
  "x \<in> set (ad_running (fst (drop_revoked valid ac))) \<longleftrightarrow>
     x \<in> set (ad_running ac) \<and> (\<forall>(d, c) \<in> set (ad_inner ac). hm_contains valid d \<or> cn_abort c \<noteq> fst x)"
  unfolding drop_revoked_def by (simp only: drop_loop)

text \<open>Operations that only stop tasks keep the invariant.\<close>

lemma registry_inv_stop:
  assumes "registry_inv ac" "set (ad_running ac') \<subseteq> set (ad_running ac)" "ad_inner ac' = ad_inner ac"
    and "ad_next_connection_id ac' = ad_next_connection_id ac" "ad_next_task ac' = ad_next_task ac"
    and "ad_parents ac' = ad_parents ac"
  shows "registry_inv ac'"
  using assms by (auto simp: registry_inv_def registered_def list_all_iff)

lemma registry_invD:
  assumes "registry_inv ac"
  shows "(t, d) \<in> set (ad_running ac) \<Longrightarrow> map_option cn_abort (hm_get (ad_inner ac) d) = Some t"
    and "hm_get (ad_inner ac) d = Some c \<Longrightarrow> cn_abort c < ad_next_task ac \<and> cn_id c = id_of (cn_abort c)"
    and "(t, d, cid) \<in> set (ad_parents ac) \<Longrightarrow> t < ad_next_task ac \<and> cid = id_of t"
    and "ad_next_connection_id ac = id_of (ad_next_task ac)"
  using assms by (auto simp: registry_inv_def registered_def list_all_iff)

lemma registry_invI:
  assumes "\<And>t d. (t, d) \<in> set (ad_running ac) \<Longrightarrow> map_option cn_abort (hm_get (ad_inner ac) d) = Some t"
    and "\<And>d c. hm_get (ad_inner ac) d = Some c \<Longrightarrow> cn_abort c < ad_next_task ac \<and> cn_id c = id_of (cn_abort c)"
    and "\<And>t d cid. (t, d, cid) \<in> set (ad_parents ac) \<Longrightarrow> t < ad_next_task ac \<and> cid = id_of t"
    and "ad_next_connection_id ac = id_of (ad_next_task ac)"
  shows "registry_inv ac"
  using assms by (auto simp: registry_inv_def registered_def list_all_iff simp del: map_option_eq_Some)

lemma start_session_fields [simp]:
  "ad_inner (start_session pid w now d name ac) =
     hm_insert d \<lparr>cn_id = ad_next_connection_id ac, cn_abort = ad_next_task ac, cn_name = name, cn_since = now\<rparr>
       (ad_inner ac)"
  "ad_next_connection_id (start_session pid w now d name ac) = ad_next_connection_id ac + 1"
  "ad_next_task (start_session pid w now d name ac) = ad_next_task ac + 1"
  "ad_parents (start_session pid w now d name ac) = (ad_next_task ac, d, ad_next_connection_id ac) # ad_parents ac"
  by (simp_all add: start_session_def register_def Let_def split: option.splits)

lemma running_start_session:
  "x \<in> set (ad_running (start_session pid w now d name ac)) \<longleftrightarrow>
     (x = (ad_next_task ac, d) \<or> x \<in> set (ad_running ac)) \<and>
     map_option cn_abort (hm_get (ad_inner ac) d) \<noteq> Some (fst x)"
  by (auto simp: start_session_def register_def Let_def split: option.splits)

lemma start_session_inv:
  assumes inv: "registry_inv ac"
  shows "registry_inv (start_session pid w now d name ac)"
proof (rule registry_invI)
  fix t' d'
  assume "(t', d') \<in> set (ad_running (start_session pid w now d name ac))"
  then show "map_option cn_abort (hm_get (ad_inner (start_session pid w now d name ac)) d') = Some t'"
    using registry_invD(1) [OF inv, of t' d'] by (auto simp: running_start_session)
next
  fix d' c
  assume "hm_get (ad_inner (start_session pid w now d name ac)) d' = Some c"
  then show "cn_abort c < ad_next_task (start_session pid w now d name ac) \<and> cn_id c = id_of (cn_abort c)"
    using registry_invD(2) [OF inv, of d' c] registry_invD(4) [OF inv] by (auto split: if_splits)
next
  show "ad_next_connection_id (start_session pid w now d name ac) = id_of (ad_next_task (start_session pid w now d name ac))"
    using registry_invD(4) [OF inv] by (simp add: id_of_def)
qed (auto dest: registry_invD(3) [OF inv] simp: registry_invD(4) [OF inv])

lemma deregister_fields [simp]:
  "ad_next_connection_id (fst (deregister pid w now d cid ac)) = ad_next_connection_id ac"
  "ad_next_task (fst (deregister pid w now d cid ac)) = ad_next_task ac"
  "ad_running (fst (deregister pid w now d cid ac)) = ad_running ac"
  "hm_get (ad_inner (fst (deregister pid w now d cid ac))) d' =
     (if d' = d \<and> map_option cn_id (hm_get (ad_inner ac) d) = Some cid then None else hm_get (ad_inner ac) d')"
  by (auto simp: deregister_def split: option.splits)

text \<open>A stale clean-up leaves the newer connection alone: equal identifiers are the same task.\<close>

lemma deregister_inv:
  assumes inv: "registry_inv ac" and bound: "ad_next_task ac < 2 ^ 64"
    and parent: "(t, d, cid) \<in> set (ad_parents ac)" and ended: "t \<notin> fst ` set (ad_running ac)"
  shows "registry_inv ((fst (deregister pid w now d cid ac))\<lparr>ad_parents := filter P (ad_parents ac)\<rparr>)"
    (is "registry_inv ?ac")
proof (rule registry_invI)
  fix t' d'
  assume "(t', d') \<in> set (ad_running ?ac)"
  then have run: "(t', d') \<in> set (ad_running ac)" by simp
  have "t' = t" if same: "d' = d" "map_option cn_id (hm_get (ad_inner ac) d) = Some cid"
  proof (rule id_of_inj)
    obtain c where c: "hm_get (ad_inner ac) d = Some c" "cn_abort c = t'" "cn_id c = cid"
      using registry_invD(1) [OF inv run] same by auto
    then show "id_of t' = id_of t" "t' < 2 ^ 64 - 1" "t < 2 ^ 64 - 1"
      using registry_invD(2) [OF inv c(1)] registry_invD(3) [OF inv parent] bound by auto
  qed
  then have "\<not> (d' = d \<and> map_option cn_id (hm_get (ad_inner ac) d) = Some cid)"
    using run ended by force
  then show "map_option cn_abort (hm_get (ad_inner ?ac) d') = Some t'"
    using registry_invD(1) [OF inv run] by auto
qed (use registry_invD(2-4) [OF inv] in \<open>auto split: if_splits\<close>)

lemma end_session_inv:
  assumes inv: "registry_inv ac" and bound: "ad_next_task ac < 2 ^ 64"
  shows "registry_inv (end_session pid w now t ac)"
proof (cases "find (\<lambda>(t', _, _). t' = t) (ad_parents ac)")
  case (Some parent)
  obtain t' d cid where parent: "parent = (t', d, cid)" by (cases parent)
  then have "(t, d, cid) \<in> set (ad_parents ac)"
    using Some by (auto simp: find_Some_iff) (metis nth_mem)
  then show ?thesis
    using inv deregister_inv [OF inv bound] by (simp add: end_session_def Some parent)
qed (use inv in \<open>simp add: end_session_def\<close>)

interpretation registry: step_invariant "active_step pid" before_wrap
proof
  fix ac e
  assume "before_wrap ac"
  show "before_wrap (active_step pid ac e)"
    unfolding before_wrap_def
  proof
    assume bound: "ad_next_task (active_step pid ac e) < 2 ^ 64"
    have "ad_next_task ac \<le> ad_next_task (active_step pid ac e)"
      by (cases e) (auto simp: start_session_def register_def end_session_def deregister_def notify_revoked_def
          fire_timer_def Let_def split: option.splits)
    then have inv: "registry_inv ac" "ad_next_task ac < 2 ^ 64"
      using \<open>before_wrap ac\<close> bound by (simp_all add: before_wrap_def)
    show "registry_inv (active_step pid ac e)"
    proof (cases e)
      case StartSession
      then show ?thesis using start_session_inv [OF inv(1)] by simp
    next
      case EndSession
      then show ?thesis using end_session_inv [OF inv] by simp
    qed (auto intro!: registry_inv_stop [OF inv(1)] simp: running_drop_revoked notify_revoked_def fire_timer_def
        split: option.splits)
  qed
qed

lemma next_task_after: "ad_next_task (active_after pid es) \<le> length es"
proof (induction es rule: rev_induct)
  case (snoc e es)
  have "ad_next_task (active_step pid ac e) \<le> ad_next_task ac + 1" for ac
    by (cases e) (auto simp: start_session_def register_def end_session_def deregister_def notify_revoked_def
        fire_timer_def Let_def split: option.splits)
  from this [of "active_after pid es"] snoc show ?case by (simp add: active_after_def)
qed (simp add: active_after_def new_active_def)

lemma registry_inv_after: "length es < 2 ^ 64 \<Longrightarrow> registry_inv (active_after pid es)"
proof -
  assume "length es < 2 ^ 64"
  moreover have "before_wrap (active_after pid es)"
    unfolding active_after_def
    by (rule registry.run_inv)
      (simp add: before_wrap_def registry_inv_def new_active_def id_of_def)
  ultimately show ?thesis
    using next_task_after [of pid es] by (simp add: before_wrap_def)
qed

section \<open>What the registry promises\<close>

lemma poll_keeps_valid:
  assumes "registry_inv ac" "(t, d) \<in> set (ad_running (fst (drop_revoked valid ac)))"
  shows "hm_contains valid d"
proof -
  have "(t, d) \<in> set (ad_running ac)"
    using assms(2) by (simp add: running_drop_revoked)
  then obtain c where "(d, c) \<in> set (ad_inner ac)" "cn_abort c = t"
    using registry_invD(1) [OF assms(1), of t d] by (auto dest: map_of_SomeD)
  then show ?thesis
    using assms(2) by (auto simp: running_drop_revoked)
qed


text \<open>
  One authenticated device owns one live session: two running session tasks of the same device
  are the same task, and its registry entry names it, under every interleaving of connections,
  reconnections, late clean-ups of replaced tasks, watcher rounds and notices.
\<close>

theorem one_session_per_device:
  assumes "length es < 2 ^ 64" and "(t, d) \<in> set (ad_running (active_after pid es))"
    and "(t', d) \<in> set (ad_running (active_after pid es))"
  shows "t' = t \<and> map_option cn_abort (hm_get (ad_inner (active_after pid es)) d) = Some t"
  using registry_invD(1) [OF registry_inv_after [OF assms(1)] assms(2)]
    registry_invD(1) [OF registry_inv_after [OF assms(1)] assms(3)] by simp

section \<open>Witnesses\<close>

definition reconnect_run :: "active_event list" where
  "reconnect_run =
     [StartSession True 10 [7] ''phone'', StartSession True 20 [7] ''phone'', EndSession True 30 0,
      StartSession True 40 [8] ''tablet'']"

lemma reconnect_running: "ad_running (active_after 1 reconnect_run) = [(2, [8]), (1, [7])]"
  by code_simp


theorem one_session_per_device_witness:
  "map_option cn_abort (hm_get (ad_inner (active_after 1 reconnect_run)) [7]) = Some 1"
  using one_session_per_device [of reconnect_run 1 "[7]" 1 1] by (simp add: reconnect_running) (simp add: reconnect_run_def)

end
