(* ===== verification/Protocol.thy ===== *)
theory Protocol
  imports Prelude
begin

text \<open>
  The wire frames between host and phone, \<open>crates/protocol/src/lib.rs\<close>: the message types with every variant
  in declaration order, which is the order of the postcard tags, and the direction in which a frame may
  travel. Constructors of enums whose names meet in one namespace carry a short prefix.
\<close>

section \<open>Sessions\<close>

type_synonym session_id = u64
type_synonym transfer_id = u64

definition FILE_CHUNK_BYTES :: nat where "FILE_CHUNK_BYTES = 16 * 1024"

datatype session_kind = Shell | Agent

datatype session_source = Spawned | Adopted

record session_info =
  si_id :: session_id
  si_title :: string
  si_kind :: session_kind
  si_source :: session_source
  si_has_activity :: bool

section \<open>Agents\<close>

datatype permission_option_kind = AllowOnce | AllowAlways | RejectOnce | RejectAlways

record permission_option =
  po_option_id :: string
  po_name :: string
  po_kind :: permission_option_kind

record tool_call_card =
  tc_tool_call_id :: string
  tc_title :: string

datatype agent_provider = ClaudeCode | OpenCode | Codex | Goose

datatype (plugins only: code) agent_tool_kind =
  ToolRead | ToolEdit | ToolDelete | ToolMove | ToolSearch | ToolExecute | ToolThink | ToolFetch | ToolOther

datatype (plugins only: code) permission_category =
  CategoryRead | CategoryWrite | CategoryExecute | CategoryNetwork | CategoryDestructive | CategoryUnknown

datatype workspace_scope = Project | Broad

datatype push_provider = Apns | Fcm

datatype agent_tool_status = ToolPending | ToolInProgress | ToolCompleted | ToolFailed

datatype agent_plan_status = PlanPending | PlanInProgress | PlanCompleted

record agent_plan_entry =
  pe_content :: string
  pe_status :: agent_plan_status

record agent_command =
  cmd_name :: string
  cmd_description :: string
  cmd_input_hint :: "string option"

record agent_session_summary =
  ss_acp_session_id :: string
  ss_provider :: agent_provider
  ss_title :: string
  ss_label :: "string option"
  ss_last_active_at_unix_ms :: u64

record agent_provider_availability =
  pa_provider :: agent_provider
  pa_available :: bool
  pa_detail :: "string option"

record agent_mode =
  am_id :: string
  am_name :: string
  am_description :: "string option"

datatype agent_config_value = Select string | Boolean bool

record agent_config_choice =
  acc_value :: string
  acc_name :: string
  acc_description :: "string option"
  acc_group :: "string option"

record agent_config_option =
  aco_id :: string
  aco_name :: string
  aco_description :: "string option"
  aco_category :: "string option"
  aco_current_value :: agent_config_value
  aco_choices :: "agent_config_choice list"

record agent_auth_method =
  aam_id :: string
  aam_name :: string
  aam_description :: "string option"

datatype (plugins only: code) agent_event =
    EvSessionStarted agent_provider
  | EvUserMessage string
  | EvTurnStarted
  | EvMessageChunk string
  | EvThoughtChunk string
  | EvToolCall string string agent_tool_kind agent_tool_status "string option"
  | EvToolCallUpdate string "string option" "agent_tool_kind option" "agent_tool_status option" "string option"
  | EvPlan "agent_plan_entry list"
  | EvTurnFinished string
  | EvError string
  | EvAvailableCommands "agent_command list"
  | EvModeState string "agent_mode list"
  | EvConfigOptions "agent_config_option list"
  | EvSessionInfo "string option"
  | EvReplaying bool
  | EvAuthRequired "agent_auth_method list"
  | EvUsage u64 u64 "string option"

record agent_timeline_event =
  te_seq :: u64
  te_event :: agent_event

section \<open>Requests\<close>

datatype terminal_root = Workspace | Home

datatype (plugins only: code) request_kind =
    RkNewSession "string option" "string option"
  | RkAttach session_id
  | RkKillSession session_id
  | RkRenameSession session_id string
  | RkNewSessionSized "string option" "string option" u16 u16
  | RkNewAgentSession agent_provider "string option"
  | RkAgentPrompt session_id string
  | RkAgentCancel session_id
  | RkAgentSetMode session_id string
  | RkAgentSetConfigOption session_id string agent_config_value
  | RkAgentAuthenticate session_id string
  | RkListWorkspaceDirs string
  | RkNewAgentSessionIn agent_provider "string option" string
  | RkListAgentSessions string
  | RkResumeAgentSession string string
  | RkListAgentProviders
  | RkNewSessionIn "string option" string
  | RkListTerminalRoots
  | RkListDirsIn terminal_root string
  | RkNewSessionInRoot terminal_root string "string option"
  | RkListAgentSessionsFor string agent_provider

datatype command_outcome = OutcomeOk "session_id option" | OutcomeError string

datatype permission_resolution = Allowed | Rejected | ResolutionCancelled

datatype permission_resolver = Phone | Laptop | System

section \<open>Frames\<close>

datatype (plugins only: code) frame =
    SessionList "session_info list"
  | SessionAdded session_info
  | SessionRemoved session_id
  | Attach session_id
  | Detach
  | Input session_id bytes
  | Output session_id bytes
  | ActivityBlip session_id
  | Resize session_id u16 u16
  | NewSession "string option" "string option"
  | KillSession session_id
  | RequestPermission session_id tool_call_card "permission_option list"
  | PermissionDecision string "string option"
  | PauseStream
  | ResumeStream
  | RenameSession session_id string
  | CommandError string
  | ScreenReset session_id u64
  | Request u64 request_kind
  | CommandResult u64 command_outcome
  | SessionSize session_id u16 u16
  | AgentSnapshot session_id "agent_timeline_event list"
  | AgentTimeline session_id agent_timeline_event
  | AgentPermissionDecision session_id string "string option"
  | AgentPermissionResolved session_id string
  | SequencedOutput session_id u64 bytes
  | OutputResume session_id u64 u64
  | FileGetReq transfer_id string u64 bool
  | FilePutReq transfer_id string u64 "u32 option" bool
  | FileChunk transfer_id u64 bytes
  | FileDone transfer_id u64 bytes
  | FileErr transfer_id string
  | FileRetry transfer_id u64
  | PolicyPermissionRequest session_id tool_call_card "permission_option list" permission_category workspace_scope
  | PushRegister push_provider string bytes
  | PushRegisterAck bool "string option"
  | UnpairSelf u64 bytes
  | UnpairResult u64 bytes bool "string option"
  | PairRevoked bytes bytes
  | AgentPermissionResolvedInfo session_id string permission_resolution permission_resolver
  | WorkspaceDirs u64 string "string list"
  | AgentSessions u64 string "agent_session_summary list"
  | AgentProviders u64 "agent_provider_availability list"
  | TerminalRoots u64 "terminal_root list"

datatype frame_direction = PhoneToHost | HostToPhone | Bidirectional

definition allows_phone_to_host :: "frame_direction \<Rightarrow> bool" where
  "allows_phone_to_host d \<longleftrightarrow> d = PhoneToHost \<or> d = Bidirectional"

definition allows_host_to_phone :: "frame_direction \<Rightarrow> bool" where
  "allows_host_to_phone d \<longleftrightarrow> d = HostToPhone \<or> d = Bidirectional"

primrec direction :: "frame \<Rightarrow> frame_direction" where
  "direction (SessionList _) = HostToPhone"
| "direction (SessionAdded _) = HostToPhone"
| "direction (SessionRemoved _) = HostToPhone"
| "direction (Attach _) = PhoneToHost"
| "direction Detach = PhoneToHost"
| "direction (Input _ _) = PhoneToHost"
| "direction (Output _ _) = HostToPhone"
| "direction (ActivityBlip _) = HostToPhone"
| "direction (Resize _ _ _) = PhoneToHost"
| "direction (NewSession _ _) = PhoneToHost"
| "direction (KillSession _) = PhoneToHost"
| "direction (RequestPermission _ _ _) = HostToPhone"
| "direction (PermissionDecision _ _) = PhoneToHost"
| "direction PauseStream = PhoneToHost"
| "direction ResumeStream = PhoneToHost"
| "direction (RenameSession _ _) = PhoneToHost"
| "direction (CommandError _) = HostToPhone"
| "direction (ScreenReset _ _) = HostToPhone"
| "direction (Request _ _) = PhoneToHost"
| "direction (CommandResult _ _) = HostToPhone"
| "direction (SessionSize _ _ _) = HostToPhone"
| "direction (AgentSnapshot _ _) = HostToPhone"
| "direction (AgentTimeline _ _) = HostToPhone"
| "direction (AgentPermissionDecision _ _ _) = PhoneToHost"
| "direction (AgentPermissionResolved _ _) = HostToPhone"
| "direction (SequencedOutput _ _ _) = HostToPhone"
| "direction (OutputResume _ _ _) = PhoneToHost"
| "direction (FileGetReq _ _ _ _) = PhoneToHost"
| "direction (FilePutReq _ _ _ _ _) = PhoneToHost"
| "direction (FileChunk _ _ _) = Bidirectional"
| "direction (FileDone _ _ _) = Bidirectional"
| "direction (FileErr _ _) = Bidirectional"
| "direction (FileRetry _ _) = Bidirectional"
| "direction (PolicyPermissionRequest _ _ _ _ _) = HostToPhone"
| "direction (PushRegister _ _ _) = PhoneToHost"
| "direction (PushRegisterAck _ _) = HostToPhone"
| "direction (UnpairSelf _ _) = PhoneToHost"
| "direction (UnpairResult _ _ _ _) = HostToPhone"
| "direction (PairRevoked _ _) = HostToPhone"
| "direction (AgentPermissionResolvedInfo _ _ _ _) = HostToPhone"
| "direction (WorkspaceDirs _ _ _) = HostToPhone"
| "direction (AgentSessions _ _ _) = HostToPhone"
| "direction (AgentProviders _ _) = HostToPhone"
| "direction (TerminalRoots _ _) = HostToPhone"

end
