(* ===== verification/Scrollback.thy ===== *)
theory Scrollback
  imports Prelude "HOL-Library.Sublist"
begin

text \<open>
  The output of a session, \<open>crates/host/src/session.rs\<close>: the scrollback ring with its byte cap
  (\<open>ScrollbackRing\<close>), and \<open>SessionInner::push_output\<close>, \<open>Session::snapshot_and_subscribe\<close> and
  \<open>Session::delta_since_and_subscribe\<close> around it. \<open>so_log\<close> is every chunk the session has published, in
  order: what a subscriber of the broadcast channel receives is what was published after it subscribed,
  so a receiver is a position in \<open>so_log\<close>. Each session has one task that reads its output and calls
  \<open>push_output\<close>; the call reserves its sequence number before it takes the lock, so it is two steps.
\<close>

section \<open>The ring\<close>

record output_chunk =
  oc_seq :: u64
  oc_bytes :: bytes

record scrollback_ring =
  rg_chunks :: "output_chunk list"
  rg_bytes :: nat
  rg_min_full_seq :: u64

definition empty_ring :: scrollback_ring where
  "empty_ring = \<lparr>rg_chunks = [], rg_bytes = 0, rg_min_full_seq = 0\<rparr>"

text \<open>The eviction loop of \<open>push\<close>, on the three fields it changes.\<close>

fun evict :: "nat \<Rightarrow> output_chunk list \<Rightarrow> nat \<Rightarrow> u64 \<Rightarrow> output_chunk list \<times> nat \<times> u64" where
  "evict cap (old # c # cs) bytes full =
     (if bytes > cap then evict cap (c # cs) (bytes - length (oc_bytes old)) (oc_seq old + 1)
      else (old # c # cs, bytes, full))"
| "evict cap cs bytes full = (cs, bytes, full)"

definition trim :: "nat \<Rightarrow> output_chunk \<Rightarrow> output_chunk" where
  "trim n c = c\<lparr>oc_bytes := drop n (oc_bytes c)\<rparr>"

fun trim_front :: "nat \<Rightarrow> output_chunk list \<times> nat \<times> u64 \<Rightarrow> output_chunk list \<times> nat \<times> u64" where
  "trim_front cap (cs, bytes, full) =
     (if bytes > cap then
        (case cs of
           [] \<Rightarrow> (cs, bytes, full)
         | front # rest \<Rightarrow> (trim (bytes - cap) front # rest, cap, oc_seq front + 1))
      else (cs, bytes, full))"

definition ring_push :: "output_chunk \<Rightarrow> nat \<Rightarrow> scrollback_ring \<Rightarrow> scrollback_ring" where
  "ring_push chunk cap r =
     (case trim_front cap (evict cap (rg_chunks r @ [chunk]) (rg_bytes r + length (oc_bytes chunk)) (rg_min_full_seq r)) of
        (cs, bytes, full) \<Rightarrow> \<lparr>rg_chunks = cs, rg_bytes = bytes, rg_min_full_seq = full\<rparr>)"

definition output_of :: "output_chunk list \<Rightarrow> bytes" where
  "output_of cs = concat (map oc_bytes cs)"

definition ring_concat :: "scrollback_ring \<Rightarrow> bytes" where
  "ring_concat r = output_of (rg_chunks r)"

definition ring_since :: "scrollback_ring \<Rightarrow> u64 \<Rightarrow> output_chunk list option" where
  "ring_since r after_seq =
     (if after_seq + 1 < rg_min_full_seq r then None
      else Some (filter (\<lambda>c. oc_seq c > after_seq) (rg_chunks r)))"

section \<open>A session's output\<close>

text \<open>\<open>so_reserved\<close> is the chunk of a \<open>push_output\<close> that has its number and waits for the lock.\<close>

record session_output =
  so_ring :: scrollback_ring
  so_cap :: nat
  so_next_seq :: u64
  so_unseen :: bool
  so_size :: "u16 \<times> u16"
  so_activity :: nat
  so_reserved :: "output_chunk option"
  so_log :: "output_chunk list"

definition new_output :: "nat \<Rightarrow> u16 \<times> u16 \<Rightarrow> session_output" where
  "new_output cap dims =
     \<lparr>so_ring = empty_ring, so_cap = cap, so_next_seq = 1, so_unseen = False, so_size = dims, so_activity = 0,
      so_reserved = None, so_log = []\<rparr>"

definition reserve_output :: "bytes \<Rightarrow> session_output \<Rightarrow> session_output" where
  "reserve_output bs so =
     (case so_reserved so of
        Some _ \<Rightarrow> so
      | None \<Rightarrow> so\<lparr>so_next_seq := so_next_seq so + 1,
                   so_reserved := Some \<lparr>oc_seq = so_next_seq so, oc_bytes = bs\<rparr>\<rparr>)"

definition publish_output :: "session_output \<Rightarrow> session_output" where
  "publish_output so =
     (case so_reserved so of
        None \<Rightarrow> so
      | Some chunk \<Rightarrow>
          so\<lparr>so_ring := ring_push chunk (so_cap so) (so_ring so), so_unseen := True,
             so_activity := so_activity so + of_bool (\<not> so_unseen so),
             so_reserved := None, so_log := so_log so @ [chunk]\<rparr>)"

definition push_output :: "bytes \<Rightarrow> session_output \<Rightarrow> session_output" where
  "push_output bs so = publish_output (reserve_output bs so)"

definition mark_seen :: "session_output \<Rightarrow> session_output" where
  "mark_seen so = so\<lparr>so_unseen := False\<rparr>"

definition through_seq :: "session_output \<Rightarrow> u64" where
  "through_seq so = saturating_sub (so_next_seq so) 1"

text \<open>Snapshot, checkpoint and receiver, taken under one lock.\<close>

definition snapshot_and_subscribe :: "session_output \<Rightarrow> session_output \<times> bytes \<times> u64 \<times> nat" where
  "snapshot_and_subscribe so =
     (mark_seen so, ring_concat (so_ring so), through_seq so, length (so_log so))"

definition delta_since_and_subscribe ::
  "u64 \<Rightarrow> session_output \<Rightarrow> (session_output \<times> output_chunk list \<times> u64 \<times> nat) option" where
  "delta_since_and_subscribe after_seq so =
     (if after_seq > through_seq so then None
      else case ring_since (so_ring so) after_seq of
        None \<Rightarrow> None
      | Some chunks \<Rightarrow> Some (mark_seen so, chunks, through_seq so, length (so_log so)))"

section \<open>Sequence numbers\<close>

definition seq_at :: "nat \<Rightarrow> u64" where
  "seq_at i = word_of_nat (i + 1)"

lemma unat_seq_at: "i < 2 ^ 64 - 1 \<Longrightarrow> unat (seq_at i) = i + 1"
  by (simp add: seq_at_def unat_of_nat del: of_nat_add of_nat_Suc)

lemma seq_at_Suc: "seq_at i + 1 = seq_at (Suc i)"
  by (simp add: seq_at_def)

definition in_order :: "output_chunk list \<Rightarrow> bool" where
  "in_order log \<longleftrightarrow> (\<forall>i < length log. oc_seq (log ! i) = seq_at i)"

lemma in_order_nth: "in_order log \<Longrightarrow> i < length log \<Longrightarrow> oc_seq (log ! i) = seq_at i"
  by (simp add: in_order_def)

lemma in_order_snoc: "in_order (log @ [c]) \<longleftrightarrow> in_order log \<and> oc_seq c = seq_at (length log)"
  by (auto simp: in_order_def nth_append less_Suc_eq)

lemma in_order_Nil [simp]: "in_order []"
  by (simp add: in_order_def)

section \<open>The ring refines a suffix of the output\<close>

text \<open>\<open>window log k t\<close>: the log from chunk \<open>k\<close> on, without the first \<open>t\<close> bytes of that chunk.\<close>

definition window :: "output_chunk list \<Rightarrow> nat \<Rightarrow> nat \<Rightarrow> output_chunk list" where
  "window log k t = (case drop k log of [] \<Rightarrow> [] | c # cs \<Rightarrow> trim t c # cs)"

definition first_full :: "nat \<Rightarrow> nat \<Rightarrow> u64" where
  "first_full k t = (if t > 0 then seq_at (k + 1) else if k = 0 then 0 else seq_at k)"

definition size_of :: "output_chunk list \<Rightarrow> nat" where
  "size_of cs = length (output_of cs)"

text \<open>What was dropped was dropped because everything from there on exceeds the cap.\<close>

definition dropped_for_cap :: "output_chunk list \<Rightarrow> nat \<Rightarrow> nat \<Rightarrow> nat \<Rightarrow> bool" where
  "dropped_for_cap log cap k t \<longleftrightarrow>
     (k > 0 \<longrightarrow> size_of (drop (k - 1) log) > cap) \<and> (t > 0 \<longrightarrow> size_of (drop k log) > cap)"

definition ring_at :: "output_chunk list \<Rightarrow> nat \<Rightarrow> nat \<Rightarrow> nat \<Rightarrow> scrollback_ring \<Rightarrow> bool" where
  "ring_at log cap k t r \<longleftrightarrow>
     rg_chunks r = window log k t \<and> rg_bytes r = size_of (window log k t) \<and> rg_min_full_seq r = first_full k t \<and>
     (log \<noteq> [] \<longrightarrow> k < length log \<and> t \<le> length (oc_bytes (log ! k))) \<and> (log = [] \<longrightarrow> k = 0 \<and> t = 0) \<and>
     dropped_for_cap log cap k t"

definition ring_inv :: "output_chunk list \<Rightarrow> nat \<Rightarrow> scrollback_ring \<Rightarrow> bool" where
  "ring_inv log cap r \<longleftrightarrow> rg_bytes r \<le> cap \<and> (\<exists>k t. ring_at log cap k t r)"

lemma output_of_simps [simp]:
  "output_of [] = []" "output_of (c # cs) = oc_bytes c @ output_of cs" "output_of (cs @ ds) = output_of cs @ output_of ds"
  by (simp_all add: output_of_def)

lemma size_of_simps [simp]:
  "size_of [] = 0" "size_of (c # cs) = length (oc_bytes c) + size_of cs" "size_of (cs @ ds) = size_of cs + size_of ds"
  by (simp_all add: size_of_def)

lemma trim_simps [simp]:
  "oc_seq (trim n c) = oc_seq c" "oc_bytes (trim n c) = drop n (oc_bytes c)" "trim 0 c = c"
  "trim m (trim n c) = trim (n + m) c"
  by (simp_all add: trim_def add.commute)

lemma window_Cons: "k < length log \<Longrightarrow> window log k t = trim t (log ! k) # drop (Suc k) log"
  by (simp add: window_def Cons_nth_drop_Suc [symmetric])

lemma window_zero [simp]: "window log k 0 = drop k log"
  by (simp add: window_def split: list.split)

lemma window_snoc: "k < length log \<Longrightarrow> window (log @ [c]) k t = window log k t @ [c]"
  by (simp add: window_Cons nth_append)

lemma size_of_drop_mono: "size_of (drop (Suc k) log) \<le> size_of (drop k log)"
  by (cases "k < length log") (simp_all add: Cons_nth_drop_Suc [symmetric])

lemma size_of_drop_antimono: "i \<le> k \<Longrightarrow> size_of (drop k log) \<le> size_of (drop i log)"
  by (induction rule: inc_induct) (auto intro: order_trans size_of_drop_mono)

lemma dropped_for_cap_snoc: "dropped_for_cap log cap k t \<Longrightarrow> k \<le> length log \<Longrightarrow> dropped_for_cap (log @ [c]) cap k t"
  by (auto simp: dropped_for_cap_def)

lemma evict_more:
  "cs \<noteq> [] \<Longrightarrow> bytes > cap \<Longrightarrow>
     evict cap (old # cs) bytes full = evict cap cs (bytes - length (oc_bytes old)) (oc_seq old + 1)"
  by (cases cs) simp_all

lemma evict_done: "cs = [] \<or> bytes \<le> cap \<Longrightarrow> evict cap (old # cs) bytes full = (old # cs, bytes, full)"
  by (cases cs) auto

text \<open>The eviction loop moves the window forward until it fits or one chunk is left.\<close>

lemma evict_window:
  assumes "in_order log" "k < length log" "t \<le> length (oc_bytes (log ! k))" "dropped_for_cap log cap k t"
  shows "\<exists>k' t'. evict cap (window log k t) (size_of (window log k t)) (first_full k t) =
      (window log k' t', size_of (window log k' t'), first_full k' t') \<and>
    k' < length log \<and> t' \<le> length (oc_bytes (log ! k')) \<and> dropped_for_cap log cap k' t' \<and>
    (size_of (window log k' t') \<le> cap \<or> Suc k' = length log)"
  using assms
proof (induction "length log - k" arbitrary: k t)
  case (Suc n)
  let ?w = "window log k t"
  show ?case
  proof (cases "Suc k < length log \<and> size_of ?w > cap")
    case True
    have w: "?w = trim t (log ! k) # window log (Suc k) 0"
      using Suc.prems(2) by (simp add: window_Cons)
    have more: "window log (Suc k) 0 \<noteq> []"
      using True by simp
    have "evict cap ?w (size_of ?w) (first_full k t) =
        evict cap (window log (Suc k) 0) (size_of ?w - length (oc_bytes (trim t (log ! k)))) (oc_seq (trim t (log ! k)) + 1)"
      unfolding w by (rule evict_more [OF more]) (use True w in simp)
    also have "size_of ?w - length (oc_bytes (trim t (log ! k))) = size_of (window log (Suc k) 0)"
      by (simp add: w)
    also have "oc_seq (trim t (log ! k)) + 1 = first_full (Suc k) 0"
      using Suc.prems(1,2) by (simp add: first_full_def in_order_nth seq_at_Suc)
    finally have step: "evict cap ?w (size_of ?w) (first_full k t) =
        evict cap (window log (Suc k) 0) (size_of (window log (Suc k) 0)) (first_full (Suc k) 0)" .
    have "size_of ?w \<le> size_of (drop k log)"
      using Suc.prems(2) by (simp add: w Cons_nth_drop_Suc [symmetric])
    then have "dropped_for_cap log cap (Suc k) 0"
      using True by (simp add: dropped_for_cap_def)
    then show ?thesis
      unfolding step using Suc.hyps True Suc.prems(1) by (intro Suc.hyps(1)) auto
  next
    case False
    then have "evict cap ?w (size_of ?w) (first_full k t) = (?w, size_of ?w, first_full k t)"
      unfolding window_Cons [OF Suc.prems(2)] by (intro evict_done) auto
    then show ?thesis
      using Suc.prems False by (intro exI [of _ k] exI [of _ t]) auto
  qed
qed simp

lemma ring_at_snoc:
  assumes "ring_at log cap k t r"
  shows "window log k t @ [c] = window (log @ [c]) k t \<and> k < length (log @ [c]) \<and>
    t \<le> length (oc_bytes ((log @ [c]) ! k)) \<and> dropped_for_cap (log @ [c]) cap k t"
proof (cases "log = []")
  case True
  then show ?thesis using assms by (simp add: ring_at_def dropped_for_cap_def)
next
  case False
  then show ?thesis using assms by (simp add: ring_at_def window_snoc nth_append dropped_for_cap_snoc)
qed

lemma ring_push_inv:
  assumes "ring_inv log cap r" "in_order (log @ [c])"
  shows "ring_inv (log @ [c]) cap (ring_push c cap r)"
proof -
  let ?log = "log @ [c]"
  obtain k t where at: "ring_at log cap k t r" and fits: "rg_bytes r \<le> cap"
    using assms(1) by (auto simp: ring_inv_def)
  note snoc = ring_at_snoc [OF at, of c]
  have start: "rg_chunks r @ [c] = window ?log k t" "rg_bytes r + length (oc_bytes c) = size_of (window ?log k t)"
      "rg_min_full_seq r = first_full k t" "k < length ?log" "t \<le> length (oc_bytes (?log ! k))"
      "dropped_for_cap ?log cap k t"
    using at snoc by (simp_all add: ring_at_def flip: conjunct1 [OF snoc])
  obtain k' t' where ev: "evict cap (rg_chunks r @ [c]) (rg_bytes r + length (oc_bytes c)) (rg_min_full_seq r) =
        (window ?log k' t', size_of (window ?log k' t'), first_full k' t')"
      "k' < length ?log" "t' \<le> length (oc_bytes (?log ! k'))" "dropped_for_cap ?log cap k' t'"
      "size_of (window ?log k' t') \<le> cap \<or> Suc k' = length ?log"
    using evict_window [OF assms(2) start(4-6)] start(1-3) by auto
  show ?thesis
  proof (cases "size_of (window ?log k' t') \<le> cap")
    case True
    then have "ring_at ?log cap k' t' (ring_push c cap r)" "rg_bytes (ring_push c cap r) \<le> cap"
      using ev by (simp_all add: ring_push_def ring_at_def)
    then show ?thesis by (auto simp: ring_inv_def)
  next
    case False
    then have last: "Suc k' = length ?log" using ev(5) by simp
    then have w: "window ?log k' t' = [trim t' c]" by (simp add: window_def)
    let ?t = "length (oc_bytes c) - cap"
    have "t' + (length (oc_bytes c) - t' - cap) = ?t" "cap < length (oc_bytes c) - t'"
      using False ev(3) last by (simp_all add: w nth_append)
    moreover have "cap < length (oc_bytes c)" using False by (simp add: w)
    then have "oc_seq c + 1 = first_full k' ?t"
      using last assms(2) by (simp add: in_order_snoc first_full_def seq_at_Suc)
    moreover have "dropped_for_cap ?log cap k' ?t"
      using ev(4) False last by (simp add: dropped_for_cap_def w)
    ultimately have "ring_at ?log cap k' ?t (ring_push c cap r)" "rg_bytes (ring_push c cap r) \<le> cap"
      using False last ev(1,2) by (simp_all add: ring_push_def ring_at_def w window_def nth_append)
    then show ?thesis by (auto simp: ring_inv_def)
  qed
qed

lemma ring_inv_Nil: "ring_inv [] cap empty_ring"
  by (auto simp: ring_inv_def ring_at_def empty_ring_def window_def first_full_def dropped_for_cap_def)

lemma output_window: "suffix (output_of (window log k t)) (output_of log)"
proof (cases "k < length log")
  case True
  have "suffix (drop t (oc_bytes (log ! k)) @ output_of (drop (Suc k) log)) (oc_bytes (log ! k) @ output_of (drop (Suc k) log))"
    by (simp add: suffix_drop)
  then have "suffix (output_of (window log k t)) (output_of (drop k log))"
    using True by (simp add: window_Cons Cons_nth_drop_Suc [symmetric])
  moreover have "output_of log = output_of (take k log) @ output_of (drop k log)"
    by (simp flip: output_of_simps(3))
  ultimately show ?thesis by (auto simp: suffix_def)
qed (simp add: window_def)

lemma ring_concat_suffix:
  assumes "ring_inv log cap r"
  shows "suffix (ring_concat r) (output_of log) \<and> length (ring_concat r) \<le> cap \<and>
    (size_of log \<le> cap \<longrightarrow> ring_concat r = output_of log)"
proof -
  obtain k t where at: "ring_at log cap k t r" "rg_bytes r \<le> cap"
    using assms by (auto simp: ring_inv_def)
  have "k = 0 \<and> t = 0" if "size_of log \<le> cap"
    using at(1) that size_of_drop_antimono [of 0 k log] size_of_drop_antimono [of 0 "k - 1" log]
    by (auto simp: ring_at_def dropped_for_cap_def)
  then show ?thesis
    using at output_window [of log k t] by (auto simp: ring_at_def ring_concat_def size_of_def)
qed

text \<open>A delta is exact, and it is there whenever the missed output fits the cap.\<close>

lemma seq_filter_drop:
  assumes "in_order log" "length log < 2 ^ 64 - 1" "k \<le> n" "n \<le> length log"
  shows "filter (\<lambda>c. oc_seq c > (word_of_nat n :: u64)) (drop k log) = drop n log"
proof -
  have seq: "oc_seq (log ! i) > (word_of_nat n :: u64) \<longleftrightarrow> i \<ge> n" if "i < length log" for i
    using that assms by (simp add: in_order_nth word_less_nat_alt unat_seq_at unat_of_nat less_Suc_eq_le)
  have "drop k log = drop k (take n log) @ drop n log"
    using assms(3,4) by (metis append_take_drop_id drop_append diff_is_0_eq drop0 length_take min.absorb2)
  moreover have "filter (\<lambda>c. oc_seq c > (word_of_nat n :: u64)) (drop k (take n log)) = []"
    using seq assms(4) by (auto simp: filter_empty_conv in_set_conv_nth)
  moreover have "filter (\<lambda>c. oc_seq c > (word_of_nat n :: u64)) (drop n log) = drop n log"
    using seq by (auto simp: filter_id_conv in_set_conv_nth)
  ultimately show ?thesis by simp
qed

lemma ring_since_exact:
  assumes "ring_inv log cap r" "in_order log" "length log < 2 ^ 64 - 1" "n \<le> length log"
  shows "(ring_since r (word_of_nat n) = Some (drop n log) \<or> ring_since r (word_of_nat n) = None) \<and>
    (size_of (drop n log) \<le> cap \<longrightarrow> ring_since r (word_of_nat n) = Some (drop n log))"
proof -
  obtain k t where at: "ring_at log cap k t r"
    using assms(1) by (auto simp: ring_inv_def)
  then have bound: "k < 2 ^ 64 - 2" if "log \<noteq> []"
    using assms(3) that by (simp add: ring_at_def)
  have n: "unat (word_of_nat n + 1 :: u64) = n + 1"
    using assms(3,4) unat_seq_at [of n] by (simp add: seq_at_def add.commute)
  have full: "(word_of_nat n + 1 < first_full k t) = (if t > 0 then n < k + 1 else n < k)" if "log \<noteq> []"
    using bound [OF that] by (simp add: word_less_nat_alt n first_full_def unat_seq_at)
  have served: "ring_since r (word_of_nat n) = (if (if t > 0 then n < k + 1 else n < k) then None else Some (drop n log))"
  proof (cases "log = []")
    case True
    then show ?thesis using at by (simp add: ring_since_def ring_at_def first_full_def window_def)
  next
    case False
    have "filter (\<lambda>c. oc_seq c > (word_of_nat n :: u64)) (window log k t) = drop n log" if "\<not> (if t > 0 then n < k + 1 else n < k)"
    proof (cases "t > 0")
      case True
      then have "k < n" using that by simp
      moreover have "\<not> oc_seq (log ! k) > (word_of_nat n :: u64)"
        using \<open>k < n\<close> assms(2-4) by (simp add: in_order_nth word_less_nat_alt unat_seq_at unat_of_nat)
      ultimately show ?thesis
        using seq_filter_drop [OF assms(2,3), of "Suc k" n] assms(4) at False
        by (simp add: ring_at_def window_Cons)
    next
      case False
      then show ?thesis using that seq_filter_drop [OF assms(2,3), of k n] assms(4) by simp
    qed
    then show ?thesis
      using at False by (simp add: ring_since_def ring_at_def full)
  qed
  have "\<not> (if t > 0 then n < k + 1 else n < k)" if "size_of (drop n log) \<le> cap"
  proof -
    have "size_of (drop k log) \<le> cap" if "n \<le> k"
      using size_of_drop_antimono [OF that, of log] \<open>size_of (drop n log) \<le> cap\<close> by simp
    moreover have "size_of (drop (k - 1) log) \<le> cap" if "n < k"
      using size_of_drop_antimono [of n "k - 1" log] that \<open>size_of (drop n log) \<le> cap\<close> by linarith
    ultimately show ?thesis
      using at by (cases "n \<le> k"; cases "n < k") (simp_all add: ring_at_def dropped_for_cap_def not_le)
  qed
  with served show ?thesis by auto
qed

section \<open>The session invariant\<close>

definition output_inv :: "session_output \<Rightarrow> bool" where
  "output_inv so \<longleftrightarrow>
     in_order (so_log so) \<and> ring_inv (so_log so) (so_cap so) (so_ring so) \<and>
     (case so_reserved so of
        None \<Rightarrow> so_next_seq so = seq_at (length (so_log so))
      | Some c \<Rightarrow> oc_seq c = seq_at (length (so_log so)) \<and> so_next_seq so = seq_at (Suc (length (so_log so))))"

lemma new_output_inv: "output_inv (new_output cap dims)"
  by (simp add: output_inv_def new_output_def ring_inv_Nil seq_at_def)

lemma reserve_output_inv: "output_inv so \<Longrightarrow> output_inv (reserve_output bs so)"
  by (auto simp: output_inv_def reserve_output_def seq_at_Suc split: option.splits)

lemma publish_output_inv: "output_inv so \<Longrightarrow> output_inv (publish_output so)"
  by (auto simp: output_inv_def publish_output_def in_order_snoc intro!: ring_push_inv split: option.splits)

lemma mark_seen_inv [simp]: "output_inv (mark_seen so) = output_inv so"
  by (simp add: output_inv_def mark_seen_def split: option.splits)

lemma mark_seen_fields [simp]:
  "so_log (mark_seen so) = so_log so" "so_reserved (mark_seen so) = so_reserved so" "so_cap (mark_seen so) = so_cap so"
  "so_size (mark_seen so) = so_size so" "so_next_seq (mark_seen so) = so_next_seq so"
  by (simp_all add: mark_seen_def)

text \<open>With no output in flight the checkpoint is the number of published chunks.\<close>

lemma through_seq_settled:
  assumes "output_inv so" "so_reserved so = None" "length (so_log so) < 2 ^ 64 - 1"
  shows "through_seq so = word_of_nat (length (so_log so))"
proof -
  have "so_next_seq so = seq_at (length (so_log so))"
    using assms(1,2) by (simp add: output_inv_def)
  moreover have "1 \<le> seq_at (length (so_log so))"
    using unat_seq_at [OF assms(3)] by (simp add: word_le_nat_alt)
  ultimately show ?thesis
    by (simp add: through_seq_def saturating_sub_def seq_at_def)
qed

interpretation session_output: step_invariant
  "\<lambda>so e. case e of None \<Rightarrow> publish_output so | Some bs \<Rightarrow> reserve_output bs so" output_inv
  by unfold_locales (simp add: publish_output_inv reserve_output_inv split: option.splits)

definition output_after :: "nat \<Rightarrow> u16 \<times> u16 \<Rightarrow> bytes list \<Rightarrow> session_output" where
  "output_after cap dims outputs = foldl (\<lambda>so bs. push_output bs so) (new_output cap dims) outputs"

lemma output_after_snoc: "output_after cap dims (outputs @ [bs]) = push_output bs (output_after cap dims outputs)"
  by (simp add: output_after_def)

lemma output_after_state:
  "output_inv (output_after cap dims outputs) \<and> so_reserved (output_after cap dims outputs) = None \<and>
   so_cap (output_after cap dims outputs) = cap \<and> map oc_bytes (so_log (output_after cap dims outputs)) = outputs"
proof (induction outputs rule: rev_induct)
  case Nil
  show ?case by (simp add: output_after_def new_output_inv) (simp add: new_output_def)
next
  case (snoc bs outputs)
  then show ?case
    unfolding output_after_snoc push_output_def
    by (simp add: publish_output_inv reserve_output_inv) (simp add: publish_output_def reserve_output_def)
qed

text \<open>
  C39. The scrollback ring refines the whole output of the session. After any outputs, a snapshot is
  the end of everything the program wrote, at most the cap long, and all of it when that fits. A delta
  after sequence number \<open>n\<close> is, when it is served, exactly the outputs after the \<open>n\<close>-th with nothing
  missing, repeated or cut, and it is served whenever they fit the cap; a number from the future is
  never served.
\<close>

theorem scrollback_refines_output:
  assumes "length outputs < 2 ^ 64 - 1"
  shows "suffix (ring_concat (so_ring (output_after cap dims outputs))) (concat outputs) \<and>
    length (ring_concat (so_ring (output_after cap dims outputs))) \<le> cap \<and>
    (length (concat outputs) \<le> cap \<longrightarrow> ring_concat (so_ring (output_after cap dims outputs)) = concat outputs) \<and>
    (case delta_since_and_subscribe n (output_after cap dims outputs) of
       Some (_, chunks, through, _) \<Rightarrow>
         unat n \<le> length outputs \<and> map oc_bytes chunks = drop (unat n) outputs \<and> unat through = length outputs
     | None \<Rightarrow> unat n > length outputs \<or> length (concat (drop (unat n) outputs)) > cap)"
proof -
  let ?so = "output_after cap dims outputs"
  have st: "output_inv ?so" "so_reserved ?so = None" "so_cap ?so = cap" "map oc_bytes (so_log ?so) = outputs"
    using output_after_state by auto
  then have len: "length (so_log ?so) = length outputs" by (metis length_map)
  have out: "output_of (drop i (so_log ?so)) = concat (drop i outputs)" for i
    by (simp add: output_of_def drop_map [symmetric] st(4))
  have ring: "ring_inv (so_log ?so) cap (so_ring ?so)" "in_order (so_log ?so)"
    using st(1,3) by (auto simp: output_inv_def)
  have through: "through_seq ?so = word_of_nat (length outputs)"
    using through_seq_settled [OF st(1,2)] assms len by simp
  then have u: "unat (through_seq ?so) = length outputs"
    using assms by (simp add: unat_of_nat)
  have delta: "case delta_since_and_subscribe n ?so of
       Some (_, chunks, through, _) \<Rightarrow>
         unat n \<le> length outputs \<and> map oc_bytes chunks = drop (unat n) outputs \<and> unat through = length outputs
     | None \<Rightarrow> unat n > length outputs \<or> length (concat (drop (unat n) outputs)) > cap"
    using ring_since_exact [OF ring, of "unat n"] assms
    by (auto simp: delta_since_and_subscribe_def word_less_nat_alt u len size_of_def out not_less drop_map [symmetric] st(4)
        split: option.splits)
  show ?thesis
    using ring_concat_suffix [OF ring(1)] out [of 0] delta by (simp add: size_of_def)
qed

theorem scrollback_refines_output_witness:
  "suffix (ring_concat (so_ring (output_after 4 (80, 24) [[1, 2, 3], [4, 5]]))) [1, 2, 3, 4, 5] \<and>
   ring_concat (so_ring (output_after 4 (80, 24) [[1, 2, 3], [4, 5]])) = [4, 5] \<and>
   delta_since_and_subscribe 0 (output_after 4 (80, 24) [[1, 2, 3], [4, 5]]) = None \<and>
   map_option (\<lambda>(_, chunks, _). map oc_bytes chunks)
     (delta_since_and_subscribe 1 (output_after 4 (80, 24) [[1, 2, 3], [4, 5]])) = Some [[4, 5]]"
proof -
  have "ring_concat (so_ring (output_after 4 (80, 24) [[1, 2, 3], [4, 5]])) = [4, 5]"
    "delta_since_and_subscribe 0 (output_after 4 (80, 24) [[1, 2, 3], [4, 5]]) = None" by code_simp+
  moreover have "delta_since_and_subscribe 1 (output_after 4 (80, 24) [[1, 2, 3], [4, 5]]) \<noteq> None" by code_simp
  ultimately show ?thesis
    using scrollback_refines_output [of "[[1, 2, 3], [4, 5]]" 4 "(80, 24)" 1] by auto
qed

end
