(* ===== verification/Streaming.thy ===== *)
theory Streaming
  imports Protocol Scrollback
begin

text \<open>
  Streaming one terminal session to a phone: \<open>attach\<close>, \<open>attach_resume\<close>, \<open>spawn_live_forwarder\<close> and
  \<open>resync_after_lag\<close> of \<open>crates/host/src/iroh_serve.rs\<close>, the queue and the socket of \<open>handle_client\<close>, and what
  the phone does with the frames (\<open>app/src-tauri/src/lib.rs\<close>). The program, the forwarder task, the
  connection task, the network and the phone take their steps in any order; a lag of the broadcast
  channel may be reported at any receive; the link may be lost, the phone may reconnect and resume, and
  the host may restart.

  The phone's terminal is the bytes written to it since the last reset. \<open>ph_filling\<close> records that a reset
  has not yet been followed by its checkpoint; no operation reads it.
\<close>

section \<open>Parts\<close>

definition SNAPSHOT_CHUNK_BYTES :: nat where "SNAPSHOT_CHUNK_BYTES = 256 * 1024"
definition COALESCE_BYTES :: nat where "COALESCE_BYTES = 32 * 1024"
definition OUT_QUEUE_FRAMES :: nat where "OUT_QUEUE_FRAMES = 16"

text \<open>
  The forwarder task: its receiver, the frames it still has to send before it receives again, whether
  a merged frame is among them (the activity flag is cleared once it is sent), and whether it found out
  that it lagged.
\<close>

record forwarder =
  fw_next :: nat
  fw_hand :: "frame list"
  fw_merged :: bool
  fw_lagged :: bool

record link =
  lk_queue :: "frame list"
  lk_wire :: "frame list"
  lk_active :: "forwarder option"

record phone =
  ph_screen :: bytes
  ph_last_seq :: "u64 option"
  ph_generation :: "u64 option"
  ph_size :: "(u16 \<times> u16) option"
  ph_filling :: bool

record stream =
  sm_output :: session_output
  sm_generation :: u64
  sm_link :: "link option"
  sm_phone :: phone

section \<open>Frames of an attach and of a resume\<close>

definition snapshot_frames :: "session_id \<Rightarrow> bytes \<Rightarrow> u64 \<Rightarrow> frame list" where
  "snapshot_frames sid snap through =
     map (Output sid) (chunks_of SNAPSHOT_CHUNK_BYTES snap) @ [SequencedOutput sid through []]"

definition fresh_forwarder :: "nat \<Rightarrow> forwarder" where
  "fresh_forwarder rx = \<lparr>fw_next = rx, fw_hand = [], fw_merged = False, fw_lagged = False\<rparr>"

definition attach :: "session_id \<Rightarrow> u64 \<Rightarrow> session_output \<Rightarrow> link \<Rightarrow> session_output \<times> link" where
  "attach sid generation so lk =
     (case snapshot_and_subscribe so of (so1, snap, through, rx) \<Rightarrow>
        (so1, lk\<lparr>lk_wire := lk_wire lk @ ScreenReset sid generation #
                   SessionSize sid (fst (so_size so)) (snd (so_size so)) # snapshot_frames sid snap through,
                lk_active := Some (fresh_forwarder rx)\<rparr>))"

text \<open>The loop that replays a delta in few frames, each with the number of its last chunk.\<close>

fun replay :: "session_id \<Rightarrow> bytes \<Rightarrow> u64 \<Rightarrow> output_chunk list \<Rightarrow> frame list" where
  "replay sid merged merged_seq [] = (if merged = [] then [] else [SequencedOutput sid merged_seq merged])"
| "replay sid merged merged_seq (c # cs) =
     (let merged' = merged @ oc_bytes c
      in if length merged' \<ge> SNAPSHOT_CHUNK_BYTES then SequencedOutput sid (oc_seq c) merged' # replay sid [] (oc_seq c) cs
         else replay sid merged' (oc_seq c) cs)"

definition attach_resume ::
  "session_id \<Rightarrow> u64 \<Rightarrow> u64 \<Rightarrow> u64 \<Rightarrow> session_output \<Rightarrow> link \<Rightarrow> session_output \<times> link" where
  "attach_resume sid generation after_seq client_generation so lk =
     (if client_generation \<noteq> generation then attach sid generation so lk
      else case delta_since_and_subscribe after_seq so of
        None \<Rightarrow> attach sid generation so lk
      | Some (so1, chunks, through, rx) \<Rightarrow>
          (so1, lk\<lparr>lk_wire := lk_wire lk @ SessionSize sid (fst (so_size so)) (snd (so_size so)) #
                     replay sid [] after_seq chunks @ [SequencedOutput sid through []],
                  lk_active := Some (fresh_forwarder rx)\<rparr>))"

section \<open>The live forwarder\<close>

text \<open>
  Merging what is already queued. \<open>lag\<close> is the number of further receives after which the channel
  reports a lag, if it does. The result: the merged bytes, the last number, how many chunks were taken
  and whether a lag was met.
\<close>

fun merge_queued :: "nat option \<Rightarrow> bytes \<Rightarrow> u64 \<Rightarrow> output_chunk list \<Rightarrow> bytes \<times> u64 \<times> nat \<times> bool" where
  "merge_queued lag merged last_seq cs =
     (if length merged \<ge> COALESCE_BYTES then (merged, last_seq, 0, False)
      else if lag = Some 0 then (merged, last_seq, 0, True)
      else case cs of
        [] \<Rightarrow> (merged, last_seq, 0, False)
      | c # cs' \<Rightarrow>
          (case merge_queued (map_option (\<lambda>n. n - 1) lag) (merged @ oc_bytes c) (oc_seq c) cs' of
             (m, l, n, lagged) \<Rightarrow> (m, l, Suc n, lagged)))"

declare merge_queued.simps [simp del]

definition forward_receive :: "session_id \<Rightarrow> nat option \<Rightarrow> session_output \<Rightarrow> forwarder \<Rightarrow> forwarder" where
  "forward_receive sid lag so fw =
     (if fw_hand fw \<noteq> [] \<or> fw_lagged fw then fw
      else case drop (fw_next fw) (so_log so) of
        [] \<Rightarrow> fw
      | chunk # queued \<Rightarrow>
          (case merge_queued lag (oc_bytes chunk) (oc_seq chunk) queued of
             (merged, last_seq, n, lagged) \<Rightarrow>
               fw\<lparr>fw_next := fw_next fw + Suc n, fw_hand := [SequencedOutput sid last_seq merged], fw_merged := True,
                  fw_lagged := lagged\<rparr>))"

definition forward_lagged :: "forwarder \<Rightarrow> forwarder" where
  "forward_lagged fw = (if fw_hand fw \<noteq> [] then fw else fw\<lparr>fw_lagged := True\<rparr>)"

text \<open>\<open>resync_after_lag\<close>, once everything received before the lag is sent.\<close>

definition resync_after_lag ::
  "session_id \<Rightarrow> u64 \<Rightarrow> session_output \<Rightarrow> forwarder \<Rightarrow> session_output \<times> forwarder" where
  "resync_after_lag sid generation so fw =
     (if fw_hand fw \<noteq> [] \<or> \<not> fw_lagged fw then (so, fw)
      else case snapshot_and_subscribe so of (so1, snap, through, rx) \<Rightarrow>
        (so1, \<lparr>fw_next = rx, fw_hand = ScreenReset sid generation # snapshot_frames sid snap through,
               fw_merged = False, fw_lagged = False\<rparr>))"

text \<open>One \<open>tx.send\<close> of the forwarder: it waits while the queue is full.\<close>

definition forward_send :: "session_output \<Rightarrow> link \<Rightarrow> forwarder \<Rightarrow> session_output \<times> link" where
  "forward_send so lk fw =
     (case fw_hand fw of
        [] \<Rightarrow> (so, lk)
      | f # fs \<Rightarrow>
          if length (lk_queue lk) < OUT_QUEUE_FRAMES then
            (if fw_merged fw then mark_seen so else so,
             lk\<lparr>lk_queue := lk_queue lk @ [f], lk_active := Some (fw\<lparr>fw_hand := fs, fw_merged := False\<rparr>)\<rparr>)
          else (so, lk))"

text \<open>The connection task writes the next queued frame to the socket.\<close>

definition pump :: "link \<Rightarrow> link" where
  "pump lk = (case lk_queue lk of [] \<Rightarrow> lk | f # fs \<Rightarrow> lk\<lparr>lk_queue := fs, lk_wire := lk_wire lk @ [f]\<rparr>)"

section \<open>The phone\<close>

definition new_phone :: phone where
  "new_phone = \<lparr>ph_screen = [], ph_last_seq = None, ph_generation = None, ph_size = None, ph_filling = False\<rparr>"

definition phone_receive :: "session_id \<Rightarrow> frame \<Rightarrow> phone \<Rightarrow> phone" where
  "phone_receive sid f ph =
     (case f of
        Output i bs \<Rightarrow> if i = sid then ph\<lparr>ph_screen := ph_screen ph @ bs\<rparr> else ph
      | SequencedOutput i q bs \<Rightarrow>
          if i = sid then ph\<lparr>ph_last_seq := Some q, ph_screen := ph_screen ph @ bs, ph_filling := False\<rparr> else ph
      | ScreenReset i g \<Rightarrow>
          if i = sid then ph\<lparr>ph_generation := Some g, ph_screen := [], ph_filling := True\<rparr> else ph
      | SessionSize i cols rows \<Rightarrow> if i = sid then ph\<lparr>ph_size := Some (cols, rows)\<rparr> else ph
      | _ \<Rightarrow> ph)"

definition unwrap_or :: "'a \<Rightarrow> 'a option \<Rightarrow> 'a" where
  "unwrap_or d x = (case x of None \<Rightarrow> d | Some v \<Rightarrow> v)"

section \<open>Interleavings\<close>

datatype stream_event =
    Reserve bytes | Publish
  | Connect | LinkLost | DoAttach | PhoneResume | AbortForwarder
  | ForwardReceive "nat option" | ForwardLagged | ForwardResync | ForwardSend | Pump | Deliver
  | HostRestart u64

definition on_link :: "(link \<Rightarrow> stream \<Rightarrow> stream) \<Rightarrow> stream \<Rightarrow> stream" where
  "on_link f sm = (case sm_link sm of None \<Rightarrow> sm | Some lk \<Rightarrow> f lk sm)"

definition on_forwarder :: "(link \<Rightarrow> forwarder \<Rightarrow> stream \<Rightarrow> stream) \<Rightarrow> stream \<Rightarrow> stream" where
  "on_forwarder f = on_link (\<lambda>lk sm. case lk_active lk of None \<Rightarrow> sm | Some fw \<Rightarrow> f lk fw sm)"

definition set_link :: "session_output \<times> link \<Rightarrow> stream \<Rightarrow> stream" where
  "set_link r sm = sm\<lparr>sm_output := fst r, sm_link := Some (snd r)\<rparr>"

fun stream_step :: "session_id \<Rightarrow> stream \<Rightarrow> stream_event \<Rightarrow> stream" where
  "stream_step sid sm (Reserve bs) = sm\<lparr>sm_output := reserve_output bs (sm_output sm)\<rparr>"
| "stream_step sid sm Publish = sm\<lparr>sm_output := publish_output (sm_output sm)\<rparr>"
| "stream_step sid sm Connect =
     (case sm_link sm of None \<Rightarrow> sm\<lparr>sm_link := Some \<lparr>lk_queue = [], lk_wire = [], lk_active = None\<rparr>\<rparr> | Some _ \<Rightarrow> sm)"
| "stream_step sid sm LinkLost = sm\<lparr>sm_link := None\<rparr>"
| "stream_step sid sm DoAttach =
     on_link (\<lambda>lk sm. set_link (attach sid (sm_generation sm) (sm_output sm) lk) sm) sm"
| "stream_step sid sm PhoneResume =
     on_link (\<lambda>lk sm. set_link (attach_resume sid (sm_generation sm) (unwrap_or 0 (ph_last_seq (sm_phone sm)))
       (unwrap_or 0 (ph_generation (sm_phone sm))) (sm_output sm) lk) sm) sm"
| "stream_step sid sm AbortForwarder = on_link (\<lambda>lk sm. sm\<lparr>sm_link := Some (lk\<lparr>lk_active := None\<rparr>)\<rparr>) sm"
| "stream_step sid sm (ForwardReceive lag) =
     on_forwarder (\<lambda>lk fw sm. sm\<lparr>sm_link := Some (lk\<lparr>lk_active := Some (forward_receive sid lag (sm_output sm) fw)\<rparr>)\<rparr>) sm"
| "stream_step sid sm ForwardLagged =
     on_forwarder (\<lambda>lk fw sm. sm\<lparr>sm_link := Some (lk\<lparr>lk_active := Some (forward_lagged fw)\<rparr>)\<rparr>) sm"
| "stream_step sid sm ForwardResync =
     on_forwarder (\<lambda>lk fw sm. case resync_after_lag sid (sm_generation sm) (sm_output sm) fw of (so, fw') \<Rightarrow>
       set_link (so, lk\<lparr>lk_active := Some fw'\<rparr>) sm) sm"
| "stream_step sid sm ForwardSend = on_forwarder (\<lambda>lk fw sm. set_link (forward_send (sm_output sm) lk fw) sm) sm"
| "stream_step sid sm Pump = on_link (\<lambda>lk sm. sm\<lparr>sm_link := Some (pump lk)\<rparr>) sm"
| "stream_step sid sm Deliver =
     on_link (\<lambda>lk sm. case lk_wire lk of [] \<Rightarrow> sm
       | f # fs \<Rightarrow> sm\<lparr>sm_link := Some (lk\<lparr>lk_wire := fs\<rparr>), sm_phone := phone_receive sid f (sm_phone sm)\<rparr>) sm"
| "stream_step sid sm (HostRestart g) =
     sm\<lparr>sm_output := new_output (so_cap (sm_output sm)) (so_size (sm_output sm)), sm_generation := g, sm_link := None\<rparr>"

definition new_stream :: "nat \<Rightarrow> u64 \<Rightarrow> u16 \<times> u16 \<Rightarrow> stream" where
  "new_stream cap generation dims =
     \<lparr>sm_output = new_output cap dims, sm_generation = generation, sm_link = None, sm_phone = new_phone\<rparr>"

section \<open>What the frames on their way will do to the phone\<close>

text \<open>
  A viewer is stale (its screen is of another host lifetime), filling (after a reset, with what was
  written since), or live up to some position of the log.
\<close>

definition lost :: "session_output \<Rightarrow> nat" where
  "lost so = size_of (so_log so) - size_of (rg_chunks (so_ring so))"

text \<open>\<open>covers b xs ys\<close>: \<open>xs\<close> is the end of \<open>ys\<close>, from byte \<open>b\<close> on or from earlier.\<close>

definition covers :: "nat \<Rightarrow> bytes \<Rightarrow> bytes \<Rightarrow> bool" where
  "covers b xs ys \<longleftrightarrow> suffix xs ys \<and> length ys \<le> b + length xs"

lemma covers_mono: "covers b xs ys \<Longrightarrow> b \<le> b' \<Longrightarrow> covers b' xs ys"
  by (simp add: covers_def)

lemma lost_mark_seen [simp]: "lost (mark_seen so) = lost so" "lost (reserve_output bs so) = lost so"
  by (simp_all add: lost_def mark_seen_def reserve_output_def split: option.splits)

lemma size_of_evict: "size_of (fst (evict cap cs bytes full)) \<le> size_of cs"
  by (induction cap cs bytes full rule: evict.induct) auto

lemma size_of_trim_front: "size_of (fst (trim_front cap r)) \<le> size_of (fst r)"
  by (cases r) (auto split: list.splits)

lemma ring_push_size: "size_of (rg_chunks (ring_push c cap r)) \<le> size_of (rg_chunks r) + length (oc_bytes c)"
  using size_of_trim_front [of cap "evict cap (rg_chunks r @ [c]) (rg_bytes r + length (oc_bytes c)) (rg_min_full_seq r)"]
    size_of_evict [of cap "rg_chunks r @ [c]" "rg_bytes r + length (oc_bytes c)" "rg_min_full_seq r"]
  by (simp add: ring_push_def split_beta)

lemma lost_publish: "lost so \<le> lost (publish_output so)"
proof (cases "so_reserved so")
  case (Some c)
  show ?thesis
    using ring_push_size [of c "so_cap so" "so_ring so"] by (simp add: lost_def publish_output_def Some)
qed (simp add: publish_output_def)

datatype mode = Stale | Filling bytes | Live nat

definition segment :: "output_chunk list \<Rightarrow> nat \<Rightarrow> nat \<Rightarrow> bytes" where
  "segment log m n = output_of (drop m (take n log))"

definition advance :: "session_id \<Rightarrow> u64 \<Rightarrow> nat \<Rightarrow> output_chunk list \<Rightarrow> mode \<Rightarrow> frame \<Rightarrow> mode option" where
  "advance sid g b log md f =
     (case f of
        SessionSize i _ _ \<Rightarrow> if i = sid then Some md else None
      | ScreenReset i g' \<Rightarrow> if i = sid \<and> g' = g then Some (Filling []) else None
      | Output i bs \<Rightarrow> (case md of Filling acc \<Rightarrow> if i = sid then Some (Filling (acc @ bs)) else None | _ \<Rightarrow> None)
      | SequencedOutput i q bs \<Rightarrow>
          (if i \<noteq> sid \<or> unat q > length log then None
           else case md of
             Stale \<Rightarrow> None
           | Filling acc \<Rightarrow> if bs = [] \<and> covers b acc (output_of (take (unat q) log)) then Some (Live (unat q)) else None
           | Live m \<Rightarrow> if m \<le> unat q \<and> bs = segment log m (unat q) then Some (Live (unat q)) else None)
      | _ \<Rightarrow> None)"

fun track :: "session_id \<Rightarrow> u64 \<Rightarrow> nat \<Rightarrow> output_chunk list \<Rightarrow> mode \<Rightarrow> frame list \<Rightarrow> mode option" where
  "track sid g b log md [] = Some md"
| "track sid g b log md (f # fs) = (case advance sid g b log md f of None \<Rightarrow> None | Some md' \<Rightarrow> track sid g b log md' fs)"

lemma track_append:
  "track sid g b log md (fs @ gs) = (case track sid g b log md fs of None \<Rightarrow> None | Some md' \<Rightarrow> track sid g b log md' gs)"
  by (induction fs arbitrary: md) (auto split: option.splits)

lemma track_prefix: "track sid g b log md (fs @ gs) = Some md' \<Longrightarrow> \<exists>md''. track sid g b log md fs = Some md''"
  by (auto simp: track_append split: option.splits)

lemma segment_snoc: "n \<le> length log \<Longrightarrow> segment (log @ [c]) m n = segment log m n"
  by (simp add: segment_def)

lemma advance_snoc: "advance sid g b log md f = Some md' \<Longrightarrow> b \<le> b' \<Longrightarrow> advance sid g b' (log @ [c]) md f = Some md'"
  by (cases f) (auto intro: covers_mono simp: advance_def segment_snoc split: mode.splits if_splits)

lemma track_snoc: "track sid g b log md fs = Some md' \<Longrightarrow> b \<le> b' \<Longrightarrow> track sid g b' (log @ [c]) md fs = Some md'"
proof (induction fs arbitrary: md)
  case (Cons f fs)
  then obtain md1 where "advance sid g b log md f = Some md1" "track sid g b log md1 fs = Some md'"
    by (auto split: option.splits)
  then show ?case using Cons.IH Cons.prems(2) advance_snoc [of sid g b log md f md1 b' c] by simp
qed simp

lemma output_take_segment: "m \<le> n \<Longrightarrow> output_of (take n log) = output_of (take m log) @ segment log m n"
  by (metis append_take_drop_id min.absorb1 output_of_simps(3) segment_def take_take)

lemma segment_self [simp]: "segment log m m = []"
  by (simp add: segment_def)

lemma segment_extend: "m \<le> j \<Longrightarrow> j < length log \<Longrightarrow> segment log m (Suc j) = segment log m j @ oc_bytes (log ! j)"
  by (simp add: segment_def take_Suc_conv_app_nth)

lemma segment_join: "m \<le> j \<Longrightarrow> j \<le> n \<Longrightarrow> segment log m n = segment log m j @ segment log j n"
  using output_take_segment [of m n log] output_take_segment [of m j log] output_take_segment [of j n log] by simp

definition phone_mode :: "u64 \<Rightarrow> phone \<Rightarrow> mode" where
  "phone_mode g ph =
     (if ph_generation ph \<noteq> Some g then Stale
      else if ph_filling ph then Filling (ph_screen ph) else Live (unat (unwrap_or 0 (ph_last_seq ph))))"

definition phone_ok :: "u64 \<Rightarrow> nat \<Rightarrow> output_chunk list \<Rightarrow> phone \<Rightarrow> bool" where
  "phone_ok g b log ph \<longleftrightarrow>
     (case phone_mode g ph of
        Stale \<Rightarrow> \<not> ph_filling ph
      | Filling _ \<Rightarrow> True
      | Live m \<Rightarrow> m \<le> length log \<and> covers b (ph_screen ph) (output_of (take m log)))"

lemma covers_snoc_segment:
  "covers b xs (output_of (take m log)) \<Longrightarrow> m \<le> n \<Longrightarrow> covers b (xs @ segment log m n) (output_of (take n log))"
  by (simp add: output_take_segment covers_def)

lemma phone_receive_tracks:
  assumes "phone_ok g b log ph" "advance sid g b log (phone_mode g ph) f = Some md"
  shows "phone_mode g (phone_receive sid f ph) = md \<and> phone_ok g b log (phone_receive sid f ph)"
proof (cases f)
  case (SequencedOutput i q bs)
  then show ?thesis
    using assms
    by (auto simp: advance_def phone_receive_def phone_mode_def phone_ok_def unwrap_or_def covers_snoc_segment
        split: if_splits mode.splits)
qed (use assms in \<open>auto simp: advance_def phone_receive_def phone_mode_def phone_ok_def split: if_splits mode.splits\<close>)

lemma phone_ok_snoc: "phone_ok g b log ph \<Longrightarrow> b \<le> b' \<Longrightarrow> phone_ok g b' (log @ [c]) ph"
  by (auto simp: phone_ok_def intro: covers_mono split: mode.splits)

section \<open>Snapshots, replays and merges track the log\<close>

lemma track_outputs: "track sid g b log (Filling acc) (map (Output sid) bss) = Some (Filling (acc @ concat bss))"
  by (induction bss arbitrary: acc) (simp_all add: advance_def)

lemma track_snapshot:
  assumes "covers b snap (output_of log)" "unat q = length log"
  shows "track sid g b log (Filling []) (snapshot_frames sid snap q) = Some (Live (length log))"
  using assms
  by (simp add: snapshot_frames_def track_append track_outputs concat_chunks_of SNAPSHOT_CHUNK_BYTES_def advance_def)

lemma advance_reset [simp]: "advance sid g b log md (ScreenReset sid g) = Some (Filling [])"
  by (simp add: advance_def)

lemma advance_size [simp]: "advance sid g b log md (SessionSize sid cols rows) = Some md"
  by (simp add: advance_def)

lemma settled_snapshot:
  assumes "output_inv so" "so_reserved so = None" "length (so_log so) < 2 ^ 64 - 1"
  shows "covers (lost so) (ring_concat (so_ring so)) (output_of (so_log so)) \<and> unat (through_seq so) = length (so_log so)"
  using assms ring_concat_suffix through_seq_settled [OF assms]
  by (auto simp: output_inv_def unat_of_nat covers_def lost_def size_of_def ring_concat_def)

lemma track_replay:
  assumes "in_order log" "length log < 2 ^ 64 - 1"
  shows "m \<le> j \<Longrightarrow> j \<le> length log \<Longrightarrow> (m < j \<longrightarrow> unat q = j) \<Longrightarrow>
    \<exists>m'. track sid g b log (Live m) (replay sid (segment log m j) q (drop j log)) = Some (Live m') \<and>
      m' \<le> length log \<and> segment log m' (length log) = []"
proof (induction "length log - j" arbitrary: m j q)
  case 0
  then have "j = length log" by simp
  then show ?case
    using 0 by (cases "segment log m (length log) = []"; cases "m = j") (auto simp: advance_def)
next
  case (Suc n)
  then have j: "j < length log" by simp
  let ?merged = "segment log m (Suc j)"
  have d: "drop j log = log ! j # drop (Suc j) log" and s: "segment log m j @ oc_bytes (log ! j) = ?merged"
    using j Suc.prems by (simp_all add: Cons_nth_drop_Suc segment_extend)
  have q: "unat (oc_seq (log ! j)) = Suc j"
    using j assms by (simp add: in_order_nth unat_seq_at)
  show ?case
  proof (cases "length ?merged \<ge> SNAPSHOT_CHUNK_BYTES")
    case True
    have "\<exists>m'. track sid g b log (Live (Suc j)) (replay sid (segment log (Suc j) (Suc j)) (oc_seq (log ! j)) (drop (Suc j) log)) =
        Some (Live m') \<and> m' \<le> length log \<and> segment log m' (length log) = []"
      using Suc.hyps j by (intro Suc.hyps(1)) auto
    then show ?thesis
      using True Suc.prems(1) j by (simp add: d s Let_def advance_def q)
  next
    case False
    have "\<exists>m'. track sid g b log (Live m) (replay sid ?merged (oc_seq (log ! j)) (drop (Suc j) log)) = Some (Live m') \<and>
        m' \<le> length log \<and> segment log m' (length log) = []"
      using Suc.hyps j q Suc.prems(1) by (intro Suc.hyps(1)) auto
    then show ?thesis
      using False by (simp add: d s Let_def)
  qed
qed

lemma merge_queued_segment:
  assumes "in_order log" "length log < 2 ^ 64 - 1"
  shows "m \<le> j \<Longrightarrow> j \<le> length log \<Longrightarrow> unat q = j \<Longrightarrow>
    merge_queued lag (segment log m j) q (drop j log) = (merged, q', n, lagged) \<Longrightarrow>
    merged = segment log m (j + n) \<and> unat q' = j + n \<and> j + n \<le> length log"
proof (induction "length log - j" arbitrary: lag j q n)
  case 0
  then show ?case by (subst (asm) merge_queued.simps) (auto split: if_splits)
next
  case (Suc k)
  then have j: "j < length log" by simp
  have d: "drop j log = log ! j # drop (Suc j) log"
    and s: "segment log m j @ oc_bytes (log ! j) = segment log m (Suc j)"
    and q: "unat (oc_seq (log ! j)) = Suc j"
    using j Suc.prems(1) assms by (simp_all add: Cons_nth_drop_Suc segment_extend in_order_nth unat_seq_at)
  show ?case
  proof (cases "length (segment log m j) \<ge> COALESCE_BYTES \<or> lag = Some 0")
    case True
    then show ?thesis
      using Suc.prems by (subst (asm) merge_queued.simps) (auto split: if_splits)
  next
    case False
    obtain m1 q1 n1 l1 where rest:
      "merge_queued (map_option (\<lambda>n. n - 1) lag) (segment log m (Suc j)) (oc_seq (log ! j)) (drop (Suc j) log) = (m1, q1, n1, l1)"
      by (metis prod_cases4)
    have "merge_queued lag (segment log m j) q (drop j log) = (m1, q1, Suc n1, l1)"
      by (subst merge_queued.simps) (use False in \<open>simp add: d s rest del: One_nat_def\<close>)
    then have same: "m1 = merged" "q1 = q'" "l1 = lagged" "n = Suc n1"
      using Suc.prems(4) by simp_all
    show ?thesis
      using Suc.hyps(1) [OF _ _ _ q rest [unfolded same(1-3)]] Suc.hyps(2) Suc.prems(1) j same(4) by auto
  qed
qed

section \<open>The invariant of a stream\<close>

definition in_hand :: "link \<Rightarrow> frame list" where
  "in_hand lk = (case lk_active lk of None \<Rightarrow> [] | Some fw \<Rightarrow> fw_hand fw)"

definition in_flight :: "link \<Rightarrow> frame list" where
  "in_flight lk = lk_wire lk @ lk_queue lk @ in_hand lk"

definition forwarder_at :: "output_chunk list \<Rightarrow> link \<Rightarrow> mode \<Rightarrow> bool" where
  "forwarder_at log lk md \<longleftrightarrow>
     (case lk_active lk of
        None \<Rightarrow> True
      | Some fw \<Rightarrow> (case md of Live n \<Rightarrow> n \<le> length log \<and> (\<not> fw_lagged fw \<longrightarrow> n = fw_next fw) | _ \<Rightarrow> False))"

definition link_ok :: "session_id \<Rightarrow> u64 \<Rightarrow> nat \<Rightarrow> output_chunk list \<Rightarrow> mode \<Rightarrow> link \<Rightarrow> bool" where
  "link_ok sid g b log md lk \<longleftrightarrow>
     (case track sid g b log md (in_flight lk) of None \<Rightarrow> False | Some md' \<Rightarrow> forwarder_at log lk md')"

definition stream_inv :: "session_id \<Rightarrow> stream \<Rightarrow> bool" where
  "stream_inv sid sm \<longleftrightarrow>
     output_inv (sm_output sm) \<and> length (so_log (sm_output sm)) < 2 ^ 64 - 1 \<and> sm_generation sm \<noteq> 0 \<and>
     phone_ok (sm_generation sm) (lost (sm_output sm)) (so_log (sm_output sm)) (sm_phone sm) \<and>
     (case sm_link sm of
        None \<Rightarrow> \<not> ph_filling (sm_phone sm)
      | Some lk \<Rightarrow> link_ok sid (sm_generation sm) (lost (sm_output sm)) (so_log (sm_output sm)) (phone_mode (sm_generation sm) (sm_phone sm)) lk)"

text \<open>
  When the steps of the connection are safe. An attach or a resume needs an empty queue (frames of the
  forwarder it replaces would follow its own) and, like a resync, no output that has its number but is
  not yet published; a resume also needs that the phone has received everything sent on this link and
  is not in the middle of a snapshot, and so does losing the link. A restarted host has a new
  generation.
\<close>

definition link_idle :: "(link \<Rightarrow> bool) \<Rightarrow> stream \<Rightarrow> bool" where
  "link_idle P sm \<longleftrightarrow> (case sm_link sm of None \<Rightarrow> True | Some lk \<Rightarrow> P lk)"

fun calm :: "stream \<Rightarrow> stream_event \<Rightarrow> bool" where
  "calm sm Publish = (length (so_log (sm_output sm)) < 2 ^ 64 - 2)"
| "calm sm LinkLost = (\<not> ph_filling (sm_phone sm))"
| "calm sm DoAttach = (so_reserved (sm_output sm) = None \<and> link_idle (\<lambda>lk. lk_queue lk = []) sm)"
| "calm sm PhoneResume =
     (so_reserved (sm_output sm) = None \<and> \<not> ph_filling (sm_phone sm) \<and>
      link_idle (\<lambda>lk. lk_queue lk = [] \<and> lk_wire lk = []) sm)"
| "calm sm ForwardResync = (so_reserved (sm_output sm) = None)"
| "calm sm (HostRestart g) = (g \<noteq> 0 \<and> ph_generation (sm_phone sm) \<noteq> Some g \<and> \<not> ph_filling (sm_phone sm))"
| "calm sm _ = True"

lemma forwarder_at_frame [simp]:
  "forwarder_at log (lk\<lparr>lk_wire := ws\<rparr>) md = forwarder_at log lk md"
  "forwarder_at log (lk\<lparr>lk_queue := qs\<rparr>) md = forwarder_at log lk md"
  by (simp_all add: forwarder_at_def)

lemma link_okI:
  "track sid g b log md (in_flight lk) = Some md' \<Longrightarrow> forwarder_at log lk md' \<Longrightarrow> link_ok sid g b log md lk"
  by (simp add: link_ok_def)

lemma link_okE:
  assumes "link_ok sid g b log md lk"
  obtains md' where "track sid g b log md (in_flight lk) = Some md'" "forwarder_at log lk md'"
  using assms by (auto simp: link_ok_def split: option.splits)

lemma link_ok_snoc: "link_ok sid g b log md lk \<Longrightarrow> b \<le> b' \<Longrightarrow> link_ok sid g b' (log @ [c]) md lk"
  by (elim link_okE, rule link_okI, erule (1) track_snoc) (auto simp: forwarder_at_def split: option.splits mode.splits)

lemma wire_tracks:
  assumes "link_ok sid g b log md lk"
  obtains md' where "track sid g b log md (lk_wire lk) = Some md'"
  using assms by (elim link_okE) (auto simp: in_flight_def dest: track_prefix)

text \<open>One lemma for each operation.\<close>

lemma attach_ok:
  assumes "output_inv so" "so_reserved so = None" "length (so_log so) < 2 ^ 64 - 1"
    and "link_ok sid g (lost so) (so_log so) md lk" "lk_queue lk = []"
  shows "link_ok sid g (lost so) (so_log so) md (snd (attach sid g so lk)) \<and> fst (attach sid g so lk) = mark_seen so"
proof -
  obtain md1 where "track sid g (lost so) (so_log so) md (lk_wire lk) = Some md1"
    using wire_tracks [OF assms(4)] .
  then show ?thesis
    using settled_snapshot [OF assms(1-3)] assms(5)
    by (simp add: attach_def snapshot_and_subscribe_def link_ok_def in_flight_def in_hand_def fresh_forwarder_def
        track_append track_snapshot forwarder_at_def)
qed

lemma attach_resume_ok:
  assumes so: "output_inv so" "so_reserved so = None" "length (so_log so) < 2 ^ 64 - 1"
    and lk: "link_ok sid g (lost so) (so_log so) (phone_mode g ph) lk" "lk_queue lk = []" "lk_wire lk = []"
    and ph: "phone_ok g (lost so) (so_log so) ph" "\<not> ph_filling ph" "g \<noteq> 0"
  shows "link_ok sid g (lost so) (so_log so) (phone_mode g ph)
      (snd (attach_resume sid g (unwrap_or 0 (ph_last_seq ph)) (unwrap_or 0 (ph_generation ph)) so lk)) \<and>
    fst (attach_resume sid g (unwrap_or 0 (ph_last_seq ph)) (unwrap_or 0 (ph_generation ph)) so lk) = mark_seen so"
proof (cases "ph_generation ph = Some g")
  case False
  then have "unwrap_or 0 (ph_generation ph) \<noteq> g"
    using ph(3) by (auto simp: unwrap_or_def split: option.splits)
  then show ?thesis using attach_ok [OF so lk(1,2)] by (simp add: attach_resume_def)
next
  case True
  let ?after = "unwrap_or 0 (ph_last_seq ph)" and ?log = "so_log so"
  have mode: "phone_mode g ph = Live (unat ?after)" and le: "unat ?after \<le> length ?log"
    using True ph(1,2) by (simp_all add: phone_mode_def phone_ok_def)
  have inv: "ring_inv ?log (so_cap so) (so_ring so)" "in_order ?log"
    using so(1) by (auto simp: output_inv_def)
  have through: "unat (through_seq so) = length ?log"
    using settled_snapshot [OF so] by simp
  show ?thesis
  proof (cases "ring_since (so_ring so) ?after")
    case None
    then show ?thesis
      using attach_ok [OF so lk(1,2)] True by (simp add: attach_resume_def delta_since_and_subscribe_def unwrap_or_def)
  next
    case (Some chunks)
    then have chunks: "chunks = drop (unat ?after) ?log"
      using ring_since_exact [OF inv so(3) le] by auto
    obtain m' where "track sid g (lost so) ?log (Live (unat ?after)) (replay sid [] ?after chunks) = Some (Live m')"
      "m' \<le> length ?log" "segment ?log m' (length ?log) = []"
      using track_replay [OF inv(2) so(3), of "unat ?after" "unat ?after" ?after sid g] le chunks by auto
    then show ?thesis
      using True Some lk(2,3) through le
      by (simp add: attach_resume_def delta_since_and_subscribe_def unwrap_or_def [of 0 "Some g"] word_less_nat_alt
          link_ok_def in_flight_def in_hand_def fresh_forwarder_def track_append mode forwarder_at_def advance_def)
  qed
qed

lemma with_active:
  assumes "link_ok sid g b log md lk" "lk_active lk = Some fw"
  obtains n where "track sid g b log md (lk_wire lk @ lk_queue lk @ fw_hand fw) = Some (Live n)" "n \<le> length log"
    "\<not> fw_lagged fw \<Longrightarrow> n = fw_next fw"
  using assms by (auto simp: link_ok_def in_flight_def in_hand_def forwarder_at_def split: option.splits mode.splits)

lemma forward_receive_ok:
  assumes "output_inv so" "length (so_log so) < 2 ^ 64 - 1"
    and ok: "link_ok sid g (lost so) (so_log so) md lk" "lk_active lk = Some fw"
  shows "link_ok sid g (lost so) (so_log so) md (lk\<lparr>lk_active := Some (forward_receive sid lag so fw)\<rparr>)"
proof (cases "fw_hand fw = [] \<and> \<not> fw_lagged fw \<and> fw_next fw < length (so_log so)")
  case True
  let ?log = "so_log so" and ?m = "fw_next fw"
  obtain merged q n lagged where mq:
    "merge_queued lag (oc_bytes (?log ! ?m)) (oc_seq (?log ! ?m)) (drop (Suc ?m) ?log) = (merged, q, n, lagged)"
    by (metis prod_cases4)
  have inv: "in_order ?log" using assms(1) by (simp add: output_inv_def)
  have seg: "oc_bytes (?log ! ?m) = segment ?log ?m (Suc ?m)"
    using True by (simp add: segment_extend)
  have q0: "unat (oc_seq (?log ! ?m)) = Suc ?m"
    using True assms(2) inv by (simp add: in_order_nth unat_seq_at)
  have merged: "merged = segment ?log ?m (?m + Suc n)" "unat q = ?m + Suc n" "?m + Suc n \<le> length ?log"
    using merge_queued_segment [OF inv assms(2) _ _ q0 mq [unfolded seg]] True by auto
  have fwd: "forward_receive sid lag so fw =
      fw\<lparr>fw_next := ?m + Suc n, fw_hand := [SequencedOutput sid q merged], fw_merged := True, fw_lagged := lagged\<rparr>"
    using True mq by (simp add: forward_receive_def Cons_nth_drop_Suc [symmetric])
  have "track sid g (lost so) ?log md (lk_wire lk @ lk_queue lk) = Some (Live ?m)"
    using with_active [OF ok] True by (metis append.right_neutral)
  then have "track sid g (lost so) ?log md ((lk_wire lk @ lk_queue lk) @ [SequencedOutput sid q merged]) = Some (Live (?m + Suc n))"
    unfolding track_append using merged by (simp add: advance_def)
  then show ?thesis
    using merged(3) by (intro link_okI [of _ _ _ _ _ _ "Live (?m + Suc n)"]) (simp_all add: in_flight_def in_hand_def fwd forwarder_at_def)
next
  case False
  then have "forward_receive sid lag so fw = fw" by (auto simp: forward_receive_def)
  moreover have "lk\<lparr>lk_active := Some fw\<rparr> = lk" using ok(2) by simp
  ultimately show ?thesis using ok(1) by simp
qed

lemma forward_lagged_ok:
  assumes "link_ok sid g b log md lk" "lk_active lk = Some fw"
  shows "link_ok sid g b log md (lk\<lparr>lk_active := Some (forward_lagged fw)\<rparr>)"
  using assms
  by (auto simp: link_ok_def in_flight_def in_hand_def forwarder_at_def forward_lagged_def split: option.splits mode.splits)

lemma resync_ok:
  assumes "output_inv so" "so_reserved so = None" "length (so_log so) < 2 ^ 64 - 1"
    and ok: "link_ok sid g (lost so) (so_log so) md lk" "lk_active lk = Some fw"
    and step: "resync_after_lag sid g so fw = (so', fw')"
  shows "link_ok sid g (lost so) (so_log so) md (lk\<lparr>lk_active := Some fw'\<rparr>) \<and> (so' = so \<or> so' = mark_seen so)"
proof (cases "fw_hand fw = [] \<and> fw_lagged fw")
  case True
  obtain n where "track sid g (lost so) (so_log so) md (lk_wire lk @ lk_queue lk) = Some (Live n)"
    using with_active [OF ok] True by (metis append.right_neutral)
  then show ?thesis
    using True step settled_snapshot [OF assms(1-3)]
    by (auto simp: resync_after_lag_def snapshot_and_subscribe_def link_ok_def in_flight_def in_hand_def track_append
        track_snapshot forwarder_at_def split: option.splits)
next
  case False
  moreover have "lk\<lparr>lk_active := Some fw\<rparr> = lk" using ok(2) by simp
  ultimately show ?thesis using step ok(1) by (auto simp: resync_after_lag_def)
qed

lemma forward_send_ok:
  assumes "link_ok sid g b log md lk" "lk_active lk = Some fw"
  shows "link_ok sid g b log md (snd (forward_send so lk fw)) \<and>
    (fst (forward_send so lk fw) = so \<or> fst (forward_send so lk fw) = mark_seen so)"
  using assms
  by (auto simp: forward_send_def link_ok_def in_flight_def in_hand_def forwarder_at_def
      split: list.splits option.splits mode.splits)

lemma pump_ok: "link_ok sid g b log md lk \<Longrightarrow> link_ok sid g b log md (pump lk)"
  by (elim link_okE, rule link_okI)
    (auto simp: pump_def in_flight_def in_hand_def forwarder_at_def split: list.splits)

lemma abort_ok: "link_ok sid g b log md lk \<Longrightarrow> link_ok sid g b log md (lk\<lparr>lk_active := None\<rparr>)"
  by (elim link_okE)
    (auto simp: link_ok_def in_flight_def in_hand_def forwarder_at_def track_append split: option.splits)

lemma deliver_ok:
  assumes "link_ok sid g b log (phone_mode g ph) lk" "lk_wire lk = f # fs" "phone_ok g b log ph"
  shows "link_ok sid g b log (phone_mode g (phone_receive sid f ph)) (lk\<lparr>lk_wire := fs\<rparr>) \<and> phone_ok g b log (phone_receive sid f ph)"
proof -
  obtain md md' where md: "advance sid g b log (phone_mode g ph) f = Some md"
      "track sid g b log md (fs @ lk_queue lk @ in_hand lk) = Some md'" "forwarder_at log lk md'"
    using assms(1,2) by (elim link_okE) (auto simp: in_flight_def split: option.splits)
  show ?thesis
    using phone_receive_tracks [OF assms(3) md(1)] md(2,3)
    by (auto intro!: link_okI simp: in_flight_def in_hand_def)
qed

lemmas stream_ops =
  on_link_def on_forwarder_def set_link_def stream_inv_def link_idle_def

lemma link_step_inv:
  assumes "stream_inv sid sm" "sm_link sm = Some lk"
    and "link_ok sid (sm_generation sm) (lost (sm_output sm)) (so_log (sm_output sm)) (phone_mode (sm_generation sm) (sm_phone sm)) lk'"
    and "so = sm_output sm \<or> so = mark_seen (sm_output sm)"
  shows "stream_inv sid (sm\<lparr>sm_output := so, sm_link := Some lk'\<rparr>)"
  using assms by (auto simp: stream_inv_def)

interpretation stream: conditional_invariant "stream_step sid" "stream_inv sid" calm
proof
  fix sm e
  assume inv: "stream_inv sid sm" and calm: "calm sm e"
  have so: "output_inv (sm_output sm)" "length (so_log (sm_output sm)) < 2 ^ 64 - 1" "sm_generation sm \<noteq> 0"
    and ph: "phone_ok (sm_generation sm) (lost (sm_output sm)) (so_log (sm_output sm)) (sm_phone sm)"
    using inv by (simp_all add: stream_inv_def)
  have lk: "link_ok sid (sm_generation sm) (lost (sm_output sm)) (so_log (sm_output sm)) (phone_mode (sm_generation sm) (sm_phone sm)) lk"
    if "sm_link sm = Some lk" for lk
    using inv that by (simp add: stream_inv_def)
  have same: "sm\<lparr>sm_link := Some lk'\<rparr> = sm\<lparr>sm_output := sm_output sm, sm_link := Some lk'\<rparr>" for lk' by simp
  show "stream_inv sid (stream_step sid sm e)"
  proof (cases e)
    case (Reserve bs)
    moreover have "so_log (reserve_output bs (sm_output sm)) = so_log (sm_output sm)"
      by (simp add: reserve_output_def split: option.splits)
    ultimately show ?thesis using inv by (auto simp: stream_inv_def reserve_output_inv split: option.splits)
  next
    case Publish
    show ?thesis
    proof (cases "so_reserved (sm_output sm)")
      case (Some c)
      then have "so_log (publish_output (sm_output sm)) = so_log (sm_output sm) @ [c]"
        by (simp add: publish_output_def)
      then show ?thesis
        using inv Publish calm phone_ok_snoc [OF _ lost_publish] link_ok_snoc [OF _ lost_publish]
        by (auto simp: stream_inv_def publish_output_inv split: option.splits)
    qed (use inv Publish in \<open>simp add: publish_output_def\<close>)
  next
    case Connect
    then show ?thesis
      using inv by (auto simp: stream_inv_def link_ok_def in_flight_def in_hand_def forwarder_at_def split: option.splits)
  next
    case LinkLost
    then show ?thesis using inv calm by (simp add: stream_inv_def)
  next
    case (HostRestart g)
    then have "phone_ok g b [] (sm_phone sm)" for b
      using calm by (simp add: phone_ok_def phone_mode_def)
    then show ?thesis
      using HostRestart calm new_output_inv by (simp add: stream_inv_def) (simp add: new_output_def)
  next
    case DoAttach
    then show ?thesis
      using calm inv attach_ok [OF so(1) _ so(2) lk]
      by (auto simp: stream_ops split: option.splits intro!: link_step_inv [unfolded stream_inv_def])
  next
    case PhoneResume
    then show ?thesis
      using calm inv attach_resume_ok [OF so(1) _ so(2) lk _ _ ph _ so(3)]
      by (auto simp: stream_ops split: option.splits)
  next
    case (ForwardReceive lag)
    then show ?thesis
      using inv forward_receive_ok [OF so(1,2) lk] by (auto simp: stream_ops split: option.splits)
  next
    case ForwardLagged
    then show ?thesis using inv forward_lagged_ok [OF lk] by (auto simp: stream_ops split: option.splits)
  next
    case ForwardResync
    show ?thesis
    proof (cases "\<exists>lk fw. sm_link sm = Some lk \<and> lk_active lk = Some fw")
      case True
      then obtain lk' fw where l: "sm_link sm = Some lk'" "lk_active lk' = Some fw" by auto
      obtain so' fw' where r: "resync_after_lag (sid :: session_id) (sm_generation sm) (sm_output sm) fw = (so', fw')"
        by (metis prod.collapse)
      show ?thesis
        using resync_ok [OF so(1) _ so(2) lk [OF l(1)] l(2) r] calm ForwardResync l r
        by (auto simp: on_link_def on_forwarder_def set_link_def intro!: link_step_inv [OF inv l(1)])
    qed (use inv ForwardResync in \<open>auto simp: on_link_def on_forwarder_def split: option.splits\<close>)
  next
    case ForwardSend
    then show ?thesis
      using inv forward_send_ok [OF lk]
      by (auto simp: on_link_def on_forwarder_def set_link_def split: option.splits intro!: link_step_inv [OF inv])
  next
    case Pump
    then show ?thesis using inv pump_ok [OF lk] by (auto simp: stream_ops split: option.splits)
  next
    case AbortForwarder
    then show ?thesis using inv abort_ok [OF lk] by (auto simp: stream_ops split: option.splits)
  next
    case Deliver
    then show ?thesis
      using inv deliver_ok [OF lk _ ph] by (auto simp: stream_ops split: option.splits list.splits)
  qed
qed

section \<open>What the phone shows\<close>

text \<open>Nothing is on its way to the phone and the forwarder has received all that was published.\<close>

definition caught_up :: "stream \<Rightarrow> bool" where
  "caught_up sm \<longleftrightarrow>
     (case sm_link sm of
        None \<Rightarrow> False
      | Some lk \<Rightarrow> in_flight lk = [] \<and>
          (case lk_active lk of None \<Rightarrow> False
           | Some fw \<Rightarrow> \<not> fw_lagged fw \<and> fw_next fw = length (so_log (sm_output sm))))"

definition phone_at :: "stream \<Rightarrow> nat" where
  "phone_at sm = unat (unwrap_or 0 (ph_last_seq (sm_phone sm)))"

definition phone_settled :: "stream \<Rightarrow> bool" where
  "phone_settled sm \<longleftrightarrow> ph_generation (sm_phone sm) = Some (sm_generation sm) \<and> \<not> ph_filling (sm_phone sm)"

lemma new_stream_inv: "generation \<noteq> 0 \<Longrightarrow> stream_inv sid (new_stream cap generation dims)"
  using new_output_inv [of cap dims]
  by (simp add: stream_inv_def new_stream_def phone_ok_def phone_mode_def new_phone_def) (simp add: new_output_def)

lemma settled_phone:
  assumes "stream_inv sid sm" "phone_settled sm"
  shows "phone_at sm \<le> length (so_log (sm_output sm)) \<and>
    covers (lost (sm_output sm)) (ph_screen (sm_phone sm)) (output_of (take (phone_at sm) (so_log (sm_output sm))))"
  using assms by (simp add: stream_inv_def phone_settled_def phone_ok_def phone_mode_def phone_at_def)

lemma caught_up_phone:
  assumes "stream_inv sid sm" "caught_up sm"
  shows "phone_settled sm \<and> phone_at sm = length (so_log (sm_output sm))"
proof -
  obtain lk fw where lk: "sm_link sm = Some lk" "in_flight lk = []" "lk_active lk = Some fw" "\<not> fw_lagged fw"
      "fw_next fw = length (so_log (sm_output sm))"
    using assms(2) by (auto simp: caught_up_def split: option.splits)
  then have "forwarder_at (so_log (sm_output sm)) lk (phone_mode (sm_generation sm) (sm_phone sm))"
    using assms(1) by (simp add: stream_inv_def link_ok_def)
  then show ?thesis
    using lk by (simp add: forwarder_at_def phone_settled_def phone_mode_def phone_at_def split: if_splits)
qed

lemma covers_retained:
  assumes "output_inv so" "covers (lost so) xs (output_of (so_log so))"
  shows "suffix (ring_concat (so_ring so)) xs \<and> suffix xs (output_of (so_log so))"
proof -
  have ring: "suffix (ring_concat (so_ring so)) (output_of (so_log so))"
    using assms(1) ring_concat_suffix by (auto simp: output_inv_def)
  then have "length (ring_concat (so_ring so)) \<le> length xs"
    using assms(2) suffix_length_le [OF ring] by (auto simp: covers_def lost_def size_of_def ring_concat_def)
  then show ?thesis
    using suffix_length_suffix [OF ring, of xs] assms(2) by (auto simp: covers_def)
qed

text \<open>
  C7. What the phone shows is what the program wrote. In every interleaving of the program, the
  forwarder, the connection, the network and the phone, with lags, resyncs, lost links, resumes and
  host restarts, that keeps to the conditions of \<open>calm\<close>: a phone that is not in the middle of a
  snapshot shows a stretch of the output that ends with the chunk whose number it remembers, with
  nothing missing, repeated or out of order; and once everything on its way has arrived it shows at
  least all that the scrollback retains and remembers the number of the last chunk.
\<close>

theorem phone_shows_output:
  assumes "generation \<noteq> 0"
    and "run_ok (stream_step sid) calm (new_stream cap generation dims) es"
    and "sm = foldl (stream_step sid) (new_stream cap generation dims) es"
  shows "(phone_settled sm \<longrightarrow> suffix (ph_screen (sm_phone sm)) (output_of (take (phone_at sm) (so_log (sm_output sm))))) \<and>
    (caught_up sm \<longrightarrow>
       phone_settled sm \<and> phone_at sm = length (so_log (sm_output sm)) \<and>
       suffix (ring_concat (so_ring (sm_output sm))) (ph_screen (sm_phone sm)) \<and>
       suffix (ph_screen (sm_phone sm)) (output_of (so_log (sm_output sm))))"
proof -
  have inv: "stream_inv sid sm"
    unfolding assms(3) by (rule stream.conditional_run [OF new_stream_inv [OF assms(1)] assms(2)])
  then have "output_inv (sm_output sm)" by (simp add: stream_inv_def)
  then show ?thesis
    using settled_phone [OF inv] caught_up_phone [OF inv] covers_retained by (auto simp: covers_def)
qed

section \<open>Runs\<close>

text \<open>Evaluation of concrete runs.\<close>

lemma merge_queued_Nil [simp]: "merge_queued None merged q [] = (merged, q, 0, False)"
  by (subst merge_queued.simps) simp

lemmas stream_eval =
  new_stream_def new_output_def empty_ring_def new_phone_def on_link_def on_forwarder_def set_link_def
  reserve_output_def publish_output_def mark_seen_def ring_push_def through_seq_def saturating_sub_def
  snapshot_and_subscribe_def delta_since_and_subscribe_def ring_concat_def ring_since_def output_of_def
  attach_def attach_resume_def snapshot_frames_def fresh_forwarder_def SNAPSHOT_CHUNK_BYTES_def COALESCE_BYTES_def
  OUT_QUEUE_FRAMES_def forward_receive_def forward_lagged_def resync_after_lag_def forward_send_def pump_def
  phone_receive_def unwrap_or_def caught_up_def phone_at_def phone_settled_def in_flight_def in_hand_def link_idle_def

definition example_run :: "stream_event list \<Rightarrow> stream" where
  "example_run es = foldl (stream_step 7) (new_stream 100 1 (80, 24)) es"

theorem phone_shows_output_witness:
  "caught_up (example_run [Reserve [104], Publish, Connect, DoAttach, Deliver, Deliver, Deliver, Deliver,
     Reserve [105], Publish, ForwardReceive None, ForwardSend, Pump, Deliver]) \<and>
   suffix [104, 105] (ph_screen (sm_phone (example_run [Reserve [104], Publish, Connect, DoAttach, Deliver, Deliver, Deliver,
     Deliver, Reserve [105], Publish, ForwardReceive None, ForwardSend, Pump, Deliver])))"
proof -
  let ?es = "[Reserve [104], Publish, Connect, DoAttach, Deliver, Deliver, Deliver, Deliver,
     Reserve [105], Publish, ForwardReceive None, ForwardSend, Pump, Deliver]"
  have run: "run_ok (stream_step 7) calm (new_stream 100 1 (80, 24)) ?es" "caught_up (example_run ?es)"
      "ring_concat (so_ring (sm_output (example_run ?es))) = [104, 105]"
    by (simp_all add: example_run_def stream_eval)
  show ?thesis
    using phone_shows_output [OF _ run(1) refl] run(2,3) by (simp add: example_run_def)
qed

text \<open>
  The conditions of \<open>calm\<close> are needed: each of these runs ends with everything delivered and a
  phone that shows something else than what the program wrote. In the first, the attach takes its
  checkpoint between the sequence number and the publication of a chunk, the link is lost before the
  chunk is sent, and the resume skips it. In the second, a frame of the replaced forwarder waits in the
  queue while the resume replays the same chunk. In the third, the link is lost in the middle of a
  snapshot and the resume appends to the partial screen although the scrollback still has the rest.
\<close>

theorem unsafe_streams:
  "(let sm = example_run [Reserve [104], Connect, DoAttach, Deliver, Deliver, Deliver, LinkLost, Publish,
              Connect, PhoneResume, Deliver, Deliver]
    in caught_up sm \<and> output_of (so_log (sm_output sm)) = [104] \<and> ph_screen (sm_phone sm) = []) \<and>
   (let sm = example_run [Connect, DoAttach, Deliver, Deliver, Deliver, Reserve [104], Publish,
              ForwardReceive None, ForwardSend, PhoneResume, Pump, Deliver, Deliver, Deliver, Deliver]
    in caught_up sm \<and> output_of (so_log (sm_output sm)) = [104] \<and> ph_screen (sm_phone sm) = [104, 104]) \<and>
   (let sm = example_run [Reserve [104], Publish, Connect, DoAttach, Deliver, Deliver, Deliver, Deliver, DoAttach, Deliver,
              LinkLost, Reserve [105], Publish, Connect, PhoneResume, Deliver, Deliver, Deliver]
    in caught_up sm \<and> ring_concat (so_ring (sm_output sm)) = [104, 105] \<and> ph_screen (sm_phone sm) = [105])"
  by (intro conjI) (simp_all add: example_run_def stream_eval)

end
