(* ===== verification/Terminal_Text.thy ===== *)
theory Terminal_Text
  imports Prelude "HOL-Library.Sublist"
begin

text \<open>
  Text of agents and terminals in \<open>crates/host/src/session.rs\<close>: decoding of process output that arrives in
  arbitrary pieces (\<open>decode_terminal_utf8\<close>), the bounded terminal buffer (\<open>append_terminal_output\<close>) and the
  functions that cut a text at a character boundary. A \<open>String\<close> is its UTF-8 bytes. \<open>from_utf8\<close> and
  \<open>from_utf8_lossy\<close> are those of the standard library.
\<close>

section \<open>UTF-8 in the standard library\<close>

definition cont :: "u8 \<Rightarrow> bool" where
  "cont b \<longleftrightarrow> 0x80 \<le> b \<and> b \<le> 0xBF"

text \<open>The second byte after a first byte of a three- or four-byte character.\<close>

definition second_ok :: "u8 \<Rightarrow> u8 \<Rightarrow> bool" where
  "second_ok b c \<longleftrightarrow>
     (if b = 0xE0 then 0xA0 \<le> c \<and> c \<le> 0xBF
      else if b = 0xED then 0x80 \<le> c \<and> c \<le> 0x9F
      else if b = 0xF0 then 0x90 \<le> c \<and> c \<le> 0xBF
      else if b = 0xF4 then 0x80 \<le> c \<and> c \<le> 0x8F
      else cont c)"

datatype utf8_scan = Character nat | Invalid nat | Truncated

definition utf8_char_width :: "u8 \<Rightarrow> nat" where
  "utf8_char_width b =
     (if b < 0x80 then 1
      else if 0xC2 \<le> b \<and> b \<le> 0xDF then 2
      else if 0xE0 \<le> b \<and> b \<le> 0xEF then 3
      else if 0xF0 \<le> b \<and> b \<le> 0xF4 then 4
      else 0)"

text \<open>One step of the validation: the first character, or what is wrong there.\<close>

fun utf8_head :: "bytes \<Rightarrow> utf8_scan" where
  "utf8_head [] = Truncated"
| "utf8_head (b # r) =
     (if utf8_char_width b = 1 then Character 1
      else if utf8_char_width b = 2 then
        (case r of [] \<Rightarrow> Truncated | c # _ \<Rightarrow> if cont c then Character 2 else Invalid 1)
      else if utf8_char_width b = 3 then
        (case r of
           [] \<Rightarrow> Truncated
         | c # r' \<Rightarrow>
             if \<not> second_ok b c then Invalid 1
             else (case r' of [] \<Rightarrow> Truncated | d # _ \<Rightarrow> if cont d then Character 3 else Invalid 2))
      else if utf8_char_width b = 4 then
        (case r of
           [] \<Rightarrow> Truncated
         | c # r' \<Rightarrow>
             if \<not> second_ok b c then Invalid 1
             else (case r' of
                     [] \<Rightarrow> Truncated
                   | d # r'' \<Rightarrow>
                       if \<not> cont d then Invalid 2
                       else (case r'' of [] \<Rightarrow> Truncated | e # _ \<Rightarrow> if cont e then Character 4 else Invalid 3)))
      else Invalid 1)"

lemma utf8_head_bounds:
  "utf8_head bs = Character n \<Longrightarrow> 0 < n \<and> n \<le> length bs"
  "utf8_head bs = Invalid n \<Longrightarrow> 0 < n \<and> n \<le> length bs"
  by (cases bs; auto split: list.splits if_splits)+

lemma utf8_head_append:
  "utf8_head bs \<noteq> Truncated \<Longrightarrow> utf8_head (bs @ xs) = utf8_head bs"
  by (cases bs) (auto split: list.splits if_splits)

datatype utf8_result = Utf8Ok | Utf8Error nat "nat option"

function from_utf8 :: "bytes \<Rightarrow> utf8_result" where
  "from_utf8 bs =
     (if bs = [] then Utf8Ok
      else case utf8_head bs of
        Character n \<Rightarrow>
          (case from_utf8 (drop n bs) of Utf8Ok \<Rightarrow> Utf8Ok | Utf8Error valid_up_to len \<Rightarrow> Utf8Error (n + valid_up_to) len)
      | Invalid k \<Rightarrow> Utf8Error 0 (Some k)
      | Truncated \<Rightarrow> Utf8Error 0 None)"
  by pat_completeness auto
termination by (relation "measure length") (auto dest: utf8_head_bounds)

declare from_utf8.simps [simp del]

definition REPLACEMENT :: bytes where "REPLACEMENT = [0xEF, 0xBF, 0xBD]"

function from_utf8_lossy :: "bytes \<Rightarrow> bytes" where
  "from_utf8_lossy bs =
     (if bs = [] then []
      else case utf8_head bs of
        Character n \<Rightarrow> take n bs @ from_utf8_lossy (drop n bs)
      | Invalid k \<Rightarrow> REPLACEMENT @ from_utf8_lossy (drop k bs)
      | Truncated \<Rightarrow> REPLACEMENT)"
  by pat_completeness auto
termination by (relation "measure length") (auto dest: utf8_head_bounds)

declare from_utf8_lossy.simps [simp del]

lemma from_utf8_error:
  "from_utf8 bs = Utf8Error v e \<Longrightarrow> v < length bs \<and> (\<forall>k. e = Some k \<longrightarrow> 0 < k \<and> v + k \<le> length bs)"
proof (induction bs arbitrary: v rule: from_utf8.induct)
  case (1 bs)
  show ?case
  proof (cases "utf8_head bs")
    case (Character n)
    then obtain v' where "from_utf8 (drop n bs) = Utf8Error v' e" "v = n + v'" "bs \<noteq> []"
      using "1.prems" by (subst (asm) from_utf8.simps) (auto split: if_splits utf8_result.splits)
    then show ?thesis using "1.IH" Character utf8_head_bounds(1) [OF Character] by fastforce
  qed (use "1.prems" utf8_head_bounds(2) [of bs] in \<open>auto simp: from_utf8.simps [of bs] split: if_splits\<close>)
qed

section \<open>Decoding a stream\<close>

function decode_loop :: "bytes \<Rightarrow> bytes \<times> bytes" where
  "decode_loop pending =
     (if pending = [] then ([], [])
      else case from_utf8 pending of
        Utf8Ok \<Rightarrow> (pending, [])
      | Utf8Error valid None \<Rightarrow> (take valid pending, drop valid pending)
      | Utf8Error valid (Some invalid) \<Rightarrow>
          (case decode_loop (drop (valid + invalid) pending) of
             (decoded, rest) \<Rightarrow> (take valid pending @ REPLACEMENT @ decoded, rest)))"
  by pat_completeness auto
termination by (relation "measure length") (auto dest!: from_utf8_error)

declare decode_loop.simps [simp del]

definition decode_terminal_utf8 :: "bytes \<Rightarrow> bytes \<Rightarrow> bool \<Rightarrow> bytes \<times> bytes" where
  "decode_terminal_utf8 pending bs eof =
     (case decode_loop (pending @ bs) of
        (decoded, rest) \<Rightarrow>
          if eof \<and> rest \<noteq> [] then (decoded @ from_utf8_lossy rest, []) else (decoded, rest))"

text \<open>\<open>capture_terminal_output\<close>: the reads of one pipe, then its end.\<close>

fun capture :: "bytes \<Rightarrow> bytes list \<Rightarrow> bytes list" where
  "capture pending [] = [fst (decode_terminal_utf8 pending [] True)]"
| "capture pending (bs # reads) =
     (case decode_terminal_utf8 pending bs False of (text, pending') \<Rightarrow> text # capture pending' reads)"

section \<open>The bounded buffer and cuts at character boundaries\<close>

definition is_char_boundary :: "bytes \<Rightarrow> nat \<Rightarrow> bool" where
  "is_char_boundary s i \<longleftrightarrow> i = 0 \<or> (if i \<ge> length s then i = length s else \<not> cont (s ! i))"

function ceil_boundary :: "bytes \<Rightarrow> nat \<Rightarrow> nat" where
  "ceil_boundary s remove =
     (if remove < length s \<and> \<not> is_char_boundary s remove then ceil_boundary s (remove + 1) else remove)"
  by pat_completeness auto
termination by (relation "measure (\<lambda>(s, remove). length s - remove)") auto

declare ceil_boundary.simps [simp del]

record acp_terminal_state =
  ts_output :: bytes
  ts_output_limit :: nat
  ts_truncated :: bool

definition append_terminal_output :: "bytes \<Rightarrow> acp_terminal_state \<Rightarrow> acp_terminal_state" where
  "append_terminal_output text st =
     (let output = ts_output st @ text in
      if length output > ts_output_limit st then
        st\<lparr>ts_output := drop (ceil_boundary output (length output - ts_output_limit st)) output, ts_truncated := True\<rparr>
      else st\<lparr>ts_output := output\<rparr>)"

primrec floor_boundary :: "bytes \<Rightarrow> nat \<Rightarrow> nat" where
  "floor_boundary s 0 = 0"
| "floor_boundary s (Suc n) = (if is_char_boundary s (Suc n) then Suc n else floor_boundary s n)"

definition MAX_TITLE_BYTES :: nat where "MAX_TITLE_BYTES = 256"
definition MAX_AGENT_EVENT_TEXT_BYTES :: nat where "MAX_AGENT_EVENT_TEXT_BYTES = 64 * 1024"
definition MAX_AGENT_SHORT_TEXT_BYTES :: nat where "MAX_AGENT_SHORT_TEXT_BYTES = 1024"

definition ELLIPSIS :: bytes where "ELLIPSIS = [0xE2, 0x80, 0xA6]"

text \<open>The suffix of \<open>clamp_agent_text\<close>: newline, ellipsis, the words, ellipsis.\<close>

definition TRUNCATED_SUFFIX :: bytes where
  "TRUNCATED_SUFFIX = [10] @ ELLIPSIS @ map (\<lambda>c. of_char c) '' truncated by Portty '' @ ELLIPSIS"

definition clamp_title :: "bytes \<Rightarrow> bytes" where
  "clamp_title title =
     (if length title > MAX_TITLE_BYTES then take (floor_boundary title MAX_TITLE_BYTES) title else title)"

definition clamp_agent_text :: "bytes \<Rightarrow> bytes" where
  "clamp_agent_text text =
     (if length text > MAX_AGENT_EVENT_TEXT_BYTES
      then take (floor_boundary text (MAX_AGENT_EVENT_TEXT_BYTES - length TRUNCATED_SUFFIX)) text @ TRUNCATED_SUFFIX
      else text)"

definition clamp_agent_short_text :: "bytes \<Rightarrow> bytes" where
  "clamp_agent_short_text text =
     (if length text > MAX_AGENT_SHORT_TEXT_BYTES
      then take (floor_boundary text (MAX_AGENT_SHORT_TEXT_BYTES - length ELLIPSIS)) text @ ELLIPSIS
      else text)"

section \<open>Valid text\<close>

abbreviation valid_utf8 :: "bytes \<Rightarrow> bool" where
  "valid_utf8 bs \<equiv> from_utf8 bs = Utf8Ok"

lemma valid_utf8_Nil [simp]: "valid_utf8 []"
  by (simp add: from_utf8.simps)

lemma valid_utf8_step:
  "utf8_head bs = Character n \<Longrightarrow> valid_utf8 bs = valid_utf8 (drop n bs)"
  by (subst from_utf8.simps) (auto split: utf8_result.splits)

lemma valid_utf8_head: "valid_utf8 bs \<Longrightarrow> bs \<noteq> [] \<Longrightarrow> \<exists>n. utf8_head bs = Character n"
  by (subst (asm) from_utf8.simps) (auto split: utf8_scan.splits)

lemma valid_utf8_induct [consumes 1, case_names Nil Char]:
  assumes "valid_utf8 bs" "P []"
    and "\<And>bs n. utf8_head bs = Character n \<Longrightarrow> valid_utf8 (drop n bs) \<Longrightarrow> 0 < n \<Longrightarrow> n \<le> length bs \<Longrightarrow> P (drop n bs) \<Longrightarrow> P bs"
  shows "P bs"
  using assms(1)
proof (induction "length bs" arbitrary: bs rule: less_induct)
  case less
  show ?case
  proof (cases "bs = []")
    case False
    then obtain n where n: "utf8_head bs = Character n" using valid_utf8_head less.prems by blast
    then have "P (drop n bs)"
      using less.prems utf8_head_bounds(1) [OF n] valid_utf8_step [OF n] by (intro less.hyps) auto
    then show ?thesis
      using assms(3) [OF n] less.prems utf8_head_bounds(1) [OF n] valid_utf8_step [OF n] by simp
  qed (simp add: assms(2))
qed

lemma utf8_head_CharacterE:
  assumes "utf8_head bs = Character n"
  obtains (One) b r where "bs = b # r" "utf8_char_width b = 1" "n = 1"
  | (Two) b c r where "bs = b # c # r" "utf8_char_width b = 2" "cont c" "n = 2"
  | (Three) b c d r where "bs = b # c # d # r" "utf8_char_width b = 3" "second_ok b c" "cont d" "n = 3"
  | (Four) b c d e r where "bs = b # c # d # e # r" "utf8_char_width b = 4" "second_ok b c" "cont d" "cont e" "n = 4"
  using assms by (cases bs) (auto split: list.splits if_splits)

lemma utf8_head_take: "utf8_head bs = Character n \<Longrightarrow> utf8_head (take n bs) = Character n"
  by (elim utf8_head_CharacterE) simp_all

lemma second_ok_cont: "second_ok b c \<Longrightarrow> cont c"
  by (auto simp: second_ok_def cont_def word_le_nat_alt split: if_splits)

lemma utf8_head_cont: "utf8_head bs = Character n \<Longrightarrow> 0 < j \<Longrightarrow> j < n \<Longrightarrow> cont (bs ! j)"
  by (elim utf8_head_CharacterE) (auto simp: less_Suc_eq numeral_eq_Suc dest: second_ok_cont)

lemma valid_utf8_append: "valid_utf8 xs \<Longrightarrow> valid_utf8 (xs @ ys) = valid_utf8 ys"
proof (induction rule: valid_utf8_induct)
  case (Char bs n)
  then show ?case
    using utf8_head_append [of bs ys] by (simp add: valid_utf8_step [of "bs @ ys" n])
qed simp

lemma valid_utf8_appendI: "valid_utf8 xs \<Longrightarrow> valid_utf8 ys \<Longrightarrow> valid_utf8 (xs @ ys)"
  by (simp add: valid_utf8_append)

lemma valid_utf8_char: "utf8_head bs = Character n \<Longrightarrow> valid_utf8 (take n bs)"
  using valid_utf8_step [OF utf8_head_take] by simp

lemma valid_utf8_cut:
  "valid_utf8 bs \<Longrightarrow> is_char_boundary bs i \<Longrightarrow> valid_utf8 (take i bs) \<and> valid_utf8 (drop i bs)"
proof (induction arbitrary: i rule: valid_utf8_induct)
  case Nil
  then show ?case by simp
next
  case (Char bs n)
  consider "i = 0" | "0 < i" "i < n" | "n \<le> i" "i \<le> length bs"
    using Char.prems Char.hyps(4) by (cases "i < n"; cases "i \<le> length bs") (auto simp: is_char_boundary_def split: if_splits)
  then show ?case
  proof cases
    case 1
    then show ?thesis using Char.hyps by (simp add: valid_utf8_step)
  next
    case 2
    then show ?thesis
      using utf8_head_cont [OF Char.hyps(1)] Char.prems Char.hyps(4) by (simp add: is_char_boundary_def)
  next
    case 3
    then have "is_char_boundary (drop n bs) (i - n)"
      using Char.prems by (auto simp: is_char_boundary_def split: if_splits)
    moreover have "take i bs = take n bs @ take (i - n) (drop n bs)" "drop (i - n) (drop n bs) = drop i bs"
      using 3 by (simp_all flip: take_add)
    ultimately show ?thesis
      using Char.IH [of "i - n"] valid_utf8_char [OF Char.hyps(1)] by (simp add: valid_utf8_append)
  qed
qed

section \<open>Decoding in pieces is decoding at once\<close>

lemma lossy_Nil [simp]: "from_utf8_lossy [] = []"
  by (simp add: from_utf8_lossy.simps)

lemma lossy_step:
  "utf8_head bs = Character n \<Longrightarrow> from_utf8_lossy bs = take n bs @ from_utf8_lossy (drop n bs)"
  "utf8_head bs = Invalid n \<Longrightarrow> from_utf8_lossy bs = REPLACEMENT @ from_utf8_lossy (drop n bs)"
  by (subst from_utf8_lossy.simps; auto)+

lemma lossy_valid: "valid_utf8 bs \<Longrightarrow> from_utf8_lossy (bs @ xs) = bs @ from_utf8_lossy xs"
proof (induction rule: valid_utf8_induct)
  case (Char bs n)
  then show ?case
    using lossy_step(1) [of "bs @ xs" n] utf8_head_append [of bs xs] by simp
qed simp

lemma from_utf8_split:
  "from_utf8 bs = Utf8Error v e \<Longrightarrow>
     valid_utf8 (take v bs) \<and> drop v bs \<noteq> [] \<and>
     utf8_head (drop v bs) = (case e of None \<Rightarrow> Truncated | Some k \<Rightarrow> Invalid k)"
proof (induction bs arbitrary: v rule: from_utf8.induct)
  case (1 bs)
  show ?case
  proof (cases "utf8_head bs")
    case (Character n)
    then obtain v' where v: "from_utf8 (drop n bs) = Utf8Error v' e" "v = n + v'" "bs \<noteq> []"
      using "1.prems" by (subst (asm) from_utf8.simps) (auto split: if_splits utf8_result.splits)
    then have IH: "valid_utf8 (take v' (drop n bs))" "drop v bs \<noteq> []"
        "utf8_head (drop v bs) = (case e of None \<Rightarrow> Truncated | Some k \<Rightarrow> Invalid k)"
      using "1.IH" [OF v(3) Character v(1)] by (auto simp: add.commute)
    have "take v bs = take n bs @ take v' (drop n bs)" using v(2) by (simp add: take_add)
    then show ?thesis using IH valid_utf8_char [OF Character] by (simp add: valid_utf8_append)
  qed (use "1.prems" in \<open>auto simp: from_utf8.simps [of bs] split: if_splits\<close>)
qed

lemma decode_loop_lossy: "decode_loop bs = (d, r) \<Longrightarrow> from_utf8_lossy (bs @ xs) = d @ from_utf8_lossy (r @ xs)"
proof (induction bs arbitrary: d rule: decode_loop.induct)
  case (1 bs)
  show ?case
  proof (cases "from_utf8 bs")
    case Utf8Ok
    then show ?thesis
      using "1.prems" lossy_valid [OF Utf8Ok] by (cases "bs = []") (auto simp: decode_loop.simps [of bs] decode_loop.simps [of "[]"])
  next
    case (Utf8Error v e)
    have split: "valid_utf8 (take v bs)" "bs \<noteq> []" "bs @ xs = take v bs @ drop v bs @ xs"
      using from_utf8_split [OF Utf8Error] by auto
    then have whole: "from_utf8_lossy (bs @ xs) = take v bs @ from_utf8_lossy (drop v bs @ xs)"
      using lossy_valid [OF split(1), of "drop v bs @ xs"] by (simp only: split(3) [symmetric])
    show ?thesis
    proof (cases e)
      case None
      then show ?thesis using "1.prems" Utf8Error split(2) whole by (simp add: decode_loop.simps [of bs])
    next
      case (Some k)
      obtain d' where d: "decode_loop (drop (v + k) bs) = (d', r)" "d = take v bs @ REPLACEMENT @ d'"
        using "1.prems" Utf8Error Some split(2) by (auto simp: decode_loop.simps [of bs] split: prod.splits)
      have "utf8_head (drop v bs @ xs) = Invalid k" "k \<le> length (drop v bs)"
        using from_utf8_split [OF Utf8Error] utf8_head_append [of "drop v bs" xs] utf8_head_bounds(2) [of "drop v bs" k] Some
        by auto
      then have "from_utf8_lossy (drop v bs @ xs) = REPLACEMENT @ from_utf8_lossy (drop (v + k) bs @ xs)"
        using lossy_step(2) [of "drop v bs @ xs" k] by (simp add: add.commute)
      then show ?thesis
        using "1.IH" [OF split(2) Utf8Error Some d(1)] d(2) whole by simp
    qed
  qed
qed

lemma capture_lossy: "concat (capture pending reads) = from_utf8_lossy (pending @ concat reads)"
proof (induction reads arbitrary: pending)
  case Nil
  obtain d r where d: "decode_loop pending = (d, r)" by (cases "decode_loop pending")
  then show ?case
    using decode_loop_lossy [OF d, of "[]"] by (simp add: decode_terminal_utf8_def)
next
  case (Cons bs reads)
  obtain d r where d: "decode_loop (pending @ bs) = (d, r)" by (cases "decode_loop (pending @ bs)")
  then show ?case
    using decode_loop_lossy [OF d, of "concat reads"] Cons.IH [of r] by (simp add: decode_terminal_utf8_def)
qed

lemma valid_REPLACEMENT: "valid_utf8 REPLACEMENT"
  by (simp add: from_utf8.simps [of REPLACEMENT]) (simp add: REPLACEMENT_def utf8_char_width_def second_ok_def cont_def)

lemma valid_lossy: "valid_utf8 (from_utf8_lossy bs)"
proof (induction bs rule: from_utf8_lossy.induct)
  case (1 bs)
  then show ?case
    by (subst from_utf8_lossy.simps)
      (auto simp: valid_utf8_append valid_utf8_char valid_REPLACEMENT split: utf8_scan.splits)
qed

text \<open>
  C38. However a terminal's output is cut into reads, also in the middle of characters, the text that
  is appended is the lossy decoding of the whole output, and it is valid text: the decoder loses no
  character, invents none, and replaces each malformed sequence once.
\<close>

theorem decode_in_pieces:
  "concat (capture [] reads) = from_utf8_lossy (concat reads) \<and> valid_utf8 (concat (capture [] reads))"
  by (simp add: capture_lossy valid_lossy)

section \<open>Cuts\<close>

lemma boundary_end [simp]: "is_char_boundary s (length s)" "is_char_boundary s 0"
  by (simp_all add: is_char_boundary_def)

lemma cont_no_start: "cont b \<Longrightarrow> utf8_char_width b = 0"
  by (simp add: cont_def utf8_char_width_def word_le_nat_alt word_less_nat_alt)

lemma utf8_head_start: "utf8_head bs = Character n \<Longrightarrow> \<not> cont (bs ! 0)"
  by (elim utf8_head_CharacterE) (auto dest: cont_no_start)

lemma valid_utf8_start: "valid_utf8 bs \<Longrightarrow> bs \<noteq> [] \<Longrightarrow> \<not> cont (bs ! 0)"
  using valid_utf8_head utf8_head_start by blast

lemma boundary_near:
  "valid_utf8 s \<Longrightarrow> i \<le> length s \<Longrightarrow>
     (\<exists>j. i \<le> j \<and> j \<le> i + 3 \<and> j \<le> length s \<and> is_char_boundary s j) \<and> (\<exists>j. j \<le> i \<and> i \<le> j + 3 \<and> is_char_boundary s j)"
proof (induction arbitrary: i rule: valid_utf8_induct)
  case Nil
  then show ?case by (auto intro: exI [of _ 0])
next
  case (Char bs n)
  have n: "n \<le> 4" using Char.hyps(1) by (elim utf8_head_CharacterE) auto
  have shift: "is_char_boundary bs (n + j)" if "is_char_boundary (drop n bs) j" "j \<le> length (drop n bs)" for j
  proof (cases "n + j = length bs")
    case False
    then have less: "n + j < length bs" using that(2) Char.hyps(4) by simp
    then have "\<not> cont (bs ! (n + j))"
      using that(1) valid_utf8_start [OF Char.hyps(2)] less
      by (cases "j = 0") (simp_all add: is_char_boundary_def split: if_splits)
    then show ?thesis using less by (simp add: is_char_boundary_def)
  next
    case True
    then show ?thesis by (metis boundary_end(1))
  qed
  consider "i = 0" | "0 < i" "i < n" | "n \<le> i" by linarith
  then show ?case
  proof cases
    case 1
    then show ?thesis by (auto intro: exI [of _ 0])
  next
    case 2
    then show ?thesis
      using n Char.hyps(4) shift [of 0] by (intro conjI exI [of _ n] exI [of _ 0]) auto
  next
    case 3
    then have "i - n \<le> length (drop n bs)" using Char.prems by simp
    from Char.IH [OF this] obtain j k where "i - n \<le> j" "j \<le> i - n + 3" "j \<le> length (drop n bs)" "is_char_boundary (drop n bs) j"
      "k \<le> i - n" "i - n \<le> k + 3" "is_char_boundary (drop n bs) k"
      by blast
    then show ?thesis
      using 3 Char.prems Char.hyps(4) shift [of j] shift [of k] by (intro conjI exI [of _ "n + j"] exI [of _ "n + k"]) auto
  qed
qed

lemma ceil_boundary_spec:
  "i \<le> length s \<Longrightarrow> i \<le> ceil_boundary s i \<and> ceil_boundary s i \<le> length s \<and> is_char_boundary s (ceil_boundary s i) \<and>
     (\<forall>j. i \<le> j \<longrightarrow> is_char_boundary s j \<longrightarrow> ceil_boundary s i \<le> j)"
proof (induction s i rule: ceil_boundary.induct)
  case (1 s i)
  show ?case
  proof (cases "i < length s \<and> \<not> is_char_boundary s i")
    case True
    then have "ceil_boundary s i = ceil_boundary s (i + 1)" by (subst ceil_boundary.simps) simp
    moreover have "i + 1 \<le> j" if "i \<le> j" "is_char_boundary s j" for j
      using True that by (cases "i = j") auto
    ultimately show ?thesis using 1 True by auto
  next
    case False
    then have "ceil_boundary s i = i" by (subst ceil_boundary.simps) auto
    then show ?thesis using False "1.prems" by (cases "i = length s") auto
  qed
qed

lemma ceil_boundary_near: "valid_utf8 s \<Longrightarrow> i \<le> length s \<Longrightarrow> ceil_boundary s i \<le> i + 3"
  using boundary_near [of s i] ceil_boundary_spec [of i s] by (meson order_trans)

lemma floor_boundary_spec:
  "floor_boundary s i \<le> i \<and> is_char_boundary s (floor_boundary s i) \<and>
     (\<forall>j. j \<le> i \<longrightarrow> is_char_boundary s j \<longrightarrow> j \<le> floor_boundary s i)"
  by (induction i) (auto simp: le_Suc_eq)

lemma floor_boundary_near: "valid_utf8 s \<Longrightarrow> i \<le> length s \<Longrightarrow> i \<le> floor_boundary s i + 3"
  using boundary_near [of s i] floor_boundary_spec [of s i] by (meson add_le_mono1 order_trans)

definition new_terminal :: "nat \<Rightarrow> acp_terminal_state" where
  "new_terminal limit = \<lparr>ts_output = [], ts_output_limit = limit, ts_truncated = False\<rparr>"

definition terminal_inv :: "bytes \<Rightarrow> nat \<Rightarrow> acp_terminal_state \<Rightarrow> bool" where
  "terminal_inv written limit st \<longleftrightarrow>
     ts_output_limit st = limit \<and> valid_utf8 (ts_output st) \<and> suffix (ts_output st) written \<and>
     length (ts_output st) \<le> limit \<and> (ts_truncated st \<longleftrightarrow> ts_output st \<noteq> written) \<and>
     (ts_truncated st \<longrightarrow> limit \<le> length (ts_output st) + 3)"

lemma append_terminal_inv:
  assumes "terminal_inv written limit st" "valid_utf8 new"
  shows "terminal_inv (written @ new) limit (append_terminal_output new st)"
proof -
  define out where "out = ts_output st @ new"
  have v: "valid_utf8 out" and suf: "suffix out (written @ new)" and lim: "ts_output_limit st = limit"
    and tr: "ts_truncated st \<longleftrightarrow> ts_output st \<noteq> written" "ts_truncated st \<longrightarrow> limit \<le> length (ts_output st) + 3"
    using assms by (simp_all add: terminal_inv_def valid_utf8_append out_def)
  show ?thesis
  proof (cases "length out > limit")
    case True
    define cut where "cut = ceil_boundary out (length out - limit)"
    have cut: "length out - limit \<le> cut" "cut \<le> length out" "is_char_boundary out cut" "cut \<le> length out - limit + 3"
      using ceil_boundary_spec [of "length out - limit" out] ceil_boundary_near [OF v, of "length out - limit"]
      by (auto simp: cut_def)
    have "append_terminal_output new st = st\<lparr>ts_output := drop cut out, ts_truncated := True\<rparr>"
      using True by (simp add: append_terminal_output_def Let_def lim cut_def out_def)
    moreover have "suffix (drop cut out) (written @ new)"
      using suf suffix_drop suffix_order.trans by blast
    moreover have "length (drop cut out) \<noteq> length (written @ new)"
      using cut(1,2) True suffix_length_le [OF suf] by simp
    then have "drop cut out \<noteq> written @ new" by metis
    ultimately show ?thesis
      using True cut valid_utf8_cut [OF v cut(3)] lim by (auto simp: terminal_inv_def)
  qed (use v suf lim tr in \<open>auto simp: terminal_inv_def append_terminal_output_def Let_def out_def\<close>)
qed

text \<open>
  The buffer of an agent's terminal: after any texts it holds the end of what was written, is valid
  text, never exceeds its limit, is marked truncated exactly when something is missing, and a cut
  drops at most three bytes more than it has to.
\<close>

theorem terminal_buffer_bounded:
  assumes "list_all valid_utf8 texts"
  shows "terminal_inv (concat texts) limit (foldl (\<lambda>st new. append_terminal_output new st) (new_terminal limit) texts)"
  using assms
proof (induction texts rule: rev_induct)
  case Nil
  show ?case by (simp add: terminal_inv_def new_terminal_def)
next
  case (snoc new texts)
  then show ?case using append_terminal_inv by simp
qed

theorem terminal_buffer_bounded_witness:
  "terminal_inv [97, 0xC3, 0xA9, 98] 2
     (foldl (\<lambda>st new. append_terminal_output new st) (new_terminal 2) [[97, 0xC3, 0xA9], [98]])"
proof -
  have "list_all valid_utf8 [[97, 0xC3, 0xA9], [98]]"
    by (simp add: from_utf8.simps utf8_char_width_def cont_def)
  from terminal_buffer_bounded [OF this] show ?thesis by simp
qed

lemma valid_ascii: "list_all (\<lambda>b. b < 0x80) bs \<Longrightarrow> valid_utf8 bs"
  by (induction bs) (simp_all add: valid_utf8_step [of "_ # _" 1] utf8_char_width_def)

lemma valid_ELLIPSIS: "valid_utf8 ELLIPSIS"
  by (subst valid_utf8_step [of _ 3]) (simp_all add: ELLIPSIS_def utf8_char_width_def second_ok_def cont_def)

text \<open>
  Titles and agent texts are cut at a character boundary: the result fits its limit and is valid
  text, and a text that fits is kept as it is.
\<close>

theorem clamps_valid:
  assumes "valid_utf8 s"
  shows "(valid_utf8 (clamp_title s) \<and> length (clamp_title s) \<le> MAX_TITLE_BYTES \<and> prefix (clamp_title s) s) \<and>
    (valid_utf8 (clamp_agent_text s) \<and> length (clamp_agent_text s) \<le> MAX_AGENT_EVENT_TEXT_BYTES) \<and>
    (valid_utf8 (clamp_agent_short_text s) \<and> length (clamp_agent_short_text s) \<le> MAX_AGENT_SHORT_TEXT_BYTES) \<and>
    (length s \<le> MAX_TITLE_BYTES \<longrightarrow> clamp_title s = s \<and> clamp_agent_text s = s \<and> clamp_agent_short_text s = s)"
proof -
  have suffixes: "valid_utf8 ELLIPSIS" "valid_utf8 TRUNCATED_SUFFIX"
    unfolding TRUNCATED_SUFFIX_def by (intro valid_utf8_appendI valid_ascii valid_ELLIPSIS; simp)+
  have cut: "valid_utf8 (take (floor_boundary s n) s)" "length (take (floor_boundary s n) s) \<le> n" for n
    using valid_utf8_cut [OF assms] floor_boundary_spec [of s n] by auto
  have len: "length TRUNCATED_SUFFIX = 28" "length ELLIPSIS = 3"
    by (simp_all add: TRUNCATED_SUFFIX_def ELLIPSIS_def)
  show ?thesis
    using assms suffixes cut [of MAX_TITLE_BYTES] cut [of "MAX_AGENT_EVENT_TEXT_BYTES - 28"] cut [of "MAX_AGENT_SHORT_TEXT_BYTES - 3"]
    by (auto simp: clamp_title_def clamp_agent_text_def clamp_agent_short_text_def valid_utf8_append len take_is_prefix
        MAX_AGENT_EVENT_TEXT_BYTES_def MAX_AGENT_SHORT_TEXT_BYTES_def MAX_TITLE_BYTES_def)
qed

theorem clamps_valid_witness:
  "valid_utf8 [97, 98] \<and> clamp_title [97, 98] = [97, 98]"
proof -
  have "valid_utf8 [97, 98]" by (simp add: from_utf8.simps utf8_char_width_def)
  with clamps_valid [OF this] show ?thesis by (simp add: MAX_TITLE_BYTES_def)
qed

end
