(* ===== verification/Unix_Files.thy ===== *)
theory Unix_Files
  imports Errors "HOL-Library.Sublist"
begin

text \<open>
  What the host uses of \<open>std::path\<close> and \<open>std::fs\<close> on Unix. A path is a string; \<open>components\<close>, \<open>join\<close>, \<open>parent\<close>,
  \<open>file_name\<close> and \<open>starts_with\<close> are those of \<open>std::path::Path\<close>. The file system is a graph of inodes:
  directories, regular files and symbolic links. Path resolution follows links, at most forty of them
  as Linux does, and remembers the directories it came through, so that \<open>..\<close> goes back to them.
\<close>

section \<open>Paths\<close>

type_synonym path = string

fun split_on :: "'a \<Rightarrow> 'a list \<Rightarrow> 'a list list" where
  "split_on c [] = [[]]"
| "split_on c (x # xs) =
     (if x = c then [] # split_on c xs
      else case split_on c xs of [] \<Rightarrow> [[x]] | p # ps \<Rightarrow> (x # p) # ps)"

fun join_with :: "'a \<Rightarrow> 'a list list \<Rightarrow> 'a list" where
  "join_with c [] = []"
| "join_with c [p] = p"
| "join_with c (p # q # ps) = p @ c # join_with c (q # ps)"

lemma split_on_not_Nil [simp]: "split_on c xs \<noteq> []"
  by (induction xs) (auto split: list.split)

lemma join_split_on: "join_with c (split_on c xs) = xs"
proof (induction xs)
  case (Cons x xs)
  obtain p ps where s: "split_on c xs = p # ps" by (cases "split_on c xs") auto
  with Cons show ?case by (cases ps) auto
qed simp

lemma split_on_pieces: "p \<in> set (split_on c xs) \<Longrightarrow> c \<notin> set p"
  by (induction xs arbitrary: p) (auto split: if_splits list.splits)

lemma split_on_word: "c \<notin> set p \<Longrightarrow> split_on c p = [p]"
  by (induction p) auto

lemma split_on_append: "c \<notin> set p \<Longrightarrow> split_on c (p @ c # xs) = p # split_on c xs"
  by (induction p) auto

lemma split_join_on: "ps \<noteq> [] \<Longrightarrow> (\<forall>p \<in> set ps. c \<notin> set p) \<Longrightarrow> split_on c (join_with c ps) = ps"
  by (induction c ps rule: join_with.induct) (simp_all add: split_on_word split_on_append)

abbreviation slash :: char where "slash \<equiv> CHR ''/''"

definition is_absolute :: "path \<Rightarrow> bool" where
  "is_absolute p \<longleftrightarrow> p \<noteq> [] \<and> hd p = slash"

datatype component = RootDir | CurDir | ParentDir | Normal string

definition component_of :: "string \<Rightarrow> component" where
  "component_of s = (if s = ''..'' then ParentDir else Normal s)"

definition body_components :: "string list \<Rightarrow> component list" where
  "body_components segs = map component_of (filter (\<lambda>s. s \<noteq> [] \<and> s \<noteq> ''.'') segs)"

definition components :: "path \<Rightarrow> component list" where
  "components p =
     (if is_absolute p then RootDir # body_components (split_on slash p)
      else (if hd (split_on slash p) = ''.'' then [CurDir] else []) @ body_components (split_on slash p))"

definition join :: "path \<Rightarrow> path \<Rightarrow> path" where
  "join p q =
     (if is_absolute q then q
      else if p = [] \<or> last p = slash then p @ q else p @ slash # q)"

fun component_string :: "component \<Rightarrow> string" where
  "component_string RootDir = []"
| "component_string CurDir = ''.''"
| "component_string ParentDir = ''..''"
| "component_string (Normal s) = s"

definition path_string :: "component list \<Rightarrow> path" where
  "path_string cs = (if cs = [RootDir] then ''/'' else join_with slash (map component_string cs))"

definition parent :: "path \<Rightarrow> path option" where
  "parent p =
     (if components p = [] \<or> last (components p) = RootDir then None
      else Some (path_string (butlast (components p))))"

definition file_name :: "path \<Rightarrow> string option" where
  "file_name p =
     (if components p = [] then None
      else case last (components p) of Normal s \<Rightarrow> Some s | _ \<Rightarrow> None)"

definition starts_with :: "path \<Rightarrow> path \<Rightarrow> bool" where
  "starts_with p base \<longleftrightarrow> prefix (components base) (components p)"

section \<open>The file system\<close>

type_synonym inode = nat

datatype node = Dir "(string \<times> inode) list" | File bytes u32 | Symlink path

text \<open>A position is the way from the root, innermost first.\<close>

type_synonym position = "(string \<times> inode) list"

record fsys =
  fs_nodes :: "(inode, node) hashmap"
  fs_next :: inode
  fs_cwd :: position

abbreviation node_at :: "fsys \<Rightarrow> inode \<Rightarrow> node option" where
  "node_at fs i \<equiv> hm_get (fs_nodes fs) i"

definition inode_of :: "position \<Rightarrow> inode" where
  "inode_of pos = (case pos of [] \<Rightarrow> 0 | (_, i) # _ \<Rightarrow> i)"

definition MAXSYMLINKS :: nat where "MAXSYMLINKS = 40"

definition io_fail :: "io_kind \<Rightarrow> 'a io_result" where
  "io_fail k = Inl (IoError k '''')"

definition start_at :: "path \<Rightarrow> position \<Rightarrow> position" where
  "start_at p pos = (if is_absolute p then [] else pos)"

fun walk :: "fsys \<Rightarrow> nat \<Rightarrow> position \<Rightarrow> string list \<Rightarrow> position io_result" where
  "walk fs n pos [] = Inr pos"
| "walk fs n pos (s # ss) =
     (case node_at fs (inode_of pos) of
        Some (Dir es) \<Rightarrow>
          if s = [] \<or> s = ''.'' then walk fs n pos ss
          else if s = ''..'' then walk fs n (tl pos) ss
          else (case map_of es s of
                  None \<Rightarrow> io_fail NotFound
                | Some i \<Rightarrow>
                    (case node_at fs i of
                       Some (Symlink t) \<Rightarrow>
                         (case n of
                            0 \<Rightarrow> io_fail OtherKind
                          | Suc n' \<Rightarrow> walk fs n' (start_at t pos) (split_on slash t @ ss))
                     | _ \<Rightarrow> walk fs n ((s, i) # pos) ss))
      | _ \<Rightarrow> io_fail OtherKind)"

definition path_of :: "position \<Rightarrow> path" where
  "path_of pos = slash # join_with slash (rev (map fst pos))"

definition resolve :: "fsys \<Rightarrow> path \<Rightarrow> position io_result" where
  "resolve fs p =
     (if p = [] then io_fail NotFound else walk fs MAXSYMLINKS (start_at p (fs_cwd fs)) (split_on slash p))"

definition canonicalize :: "fsys \<Rightarrow> path \<Rightarrow> path io_result" where
  "canonicalize fs p = (case resolve fs p of Inl e \<Rightarrow> Inl e | Inr pos \<Rightarrow> Inr (path_of pos))"

text \<open>
  The directory entry a path names, for the calls that create, replace or remove one: the last
  component may be missing, and a link there is followed (\<open>open\<close> with \<open>O_CREAT\<close>) or not (\<open>O_EXCL\<close>, \<open>rename\<close>,
  \<open>unlink\<close>, \<open>lstat\<close>).
\<close>

fun locate :: "fsys \<Rightarrow> bool \<Rightarrow> nat \<Rightarrow> position \<Rightarrow> string list \<Rightarrow> (position \<times> string) io_result" where
  "locate fs follow n pos [] = io_fail OtherKind"
| "locate fs follow n pos (s # ss) =
     (case node_at fs (inode_of pos) of
        Some (Dir es) \<Rightarrow>
          if s = [] \<or> s = ''.'' then locate fs follow n pos ss
          else if s = ''..'' then locate fs follow n (tl pos) ss
          else (case map_of es s of
                  None \<Rightarrow> if ss = [] then Inr (pos, s) else io_fail NotFound
                | Some i \<Rightarrow>
                    (case node_at fs i of
                       Some (Symlink t) \<Rightarrow>
                         if ss = [] \<and> \<not> follow then Inr (pos, s)
                         else (case n of
                            0 \<Rightarrow> io_fail OtherKind
                          | Suc n' \<Rightarrow> locate fs follow n' (start_at t pos) (split_on slash t @ ss))
                     | _ \<Rightarrow> if ss = [] then Inr (pos, s) else locate fs follow n ((s, i) # pos) ss))
      | _ \<Rightarrow> io_fail OtherKind)"

definition locate_path :: "fsys \<Rightarrow> bool \<Rightarrow> path \<Rightarrow> (position \<times> string) io_result" where
  "locate_path fs follow p =
     (if p = [] then io_fail NotFound else locate fs follow MAXSYMLINKS (start_at p (fs_cwd fs)) (split_on slash p))"

definition entry :: "fsys \<Rightarrow> position \<times> string \<Rightarrow> inode option" where
  "entry fs e = (case node_at fs (inode_of (fst e)) of Some (Dir es) \<Rightarrow> map_of es (snd e) | _ \<Rightarrow> None)"

text \<open>\<open>symlink_metadata\<close> succeeds.\<close>

definition lstat_ok :: "fsys \<Rightarrow> path \<Rightarrow> bool" where
  "lstat_ok fs p \<longleftrightarrow> (case locate_path fs False p of Inl _ \<Rightarrow> False | Inr e \<Rightarrow> entry fs e \<noteq> None)"

definition set_node :: "inode \<Rightarrow> node \<Rightarrow> fsys \<Rightarrow> fsys" where
  "set_node i nd fs = fs\<lparr>fs_nodes := hm_insert i nd (fs_nodes fs)\<rparr>"

definition add_entry :: "position \<times> string \<Rightarrow> inode \<Rightarrow> fsys \<Rightarrow> fsys" where
  "add_entry e i fs =
     (case node_at fs (inode_of (fst e)) of
        Some (Dir es) \<Rightarrow> set_node (inode_of (fst e)) (Dir (hm_insert (snd e) i es)) fs
      | _ \<Rightarrow> fs)"

definition del_entry :: "position \<times> string \<Rightarrow> fsys \<Rightarrow> fsys" where
  "del_entry e fs =
     (case node_at fs (inode_of (fst e)) of
        Some (Dir es) \<Rightarrow> set_node (inode_of (fst e)) (Dir (hm_remove (snd e) es)) fs
      | _ \<Rightarrow> fs)"

definition new_file :: "position \<times> string \<Rightarrow> bytes \<Rightarrow> u32 \<Rightarrow> fsys \<Rightarrow> fsys" where
  "new_file e bs mode fs = add_entry e (fs_next fs) (set_node (fs_next fs) (File bs mode) (fs\<lparr>fs_next := fs_next fs + 1\<rparr>))"

text \<open>\<open>std::fs::write\<close>: create or truncate, then write.\<close>

definition fs_write :: "fsys \<Rightarrow> path \<Rightarrow> bytes \<Rightarrow> fsys io_result" where
  "fs_write fs p bs =
     (case locate_path fs True p of
        Inl e \<Rightarrow> Inl e
      | Inr e \<Rightarrow>
          (case entry fs e of
             None \<Rightarrow> Inr (new_file e bs 420 fs)
           | Some i \<Rightarrow>
               (case node_at fs i of
                  Some (File _ mode) \<Rightarrow> Inr (set_node i (File bs mode) fs)
                | _ \<Rightarrow> io_fail OtherKind)))"

definition fs_read :: "fsys \<Rightarrow> path \<Rightarrow> bytes io_result" where
  "fs_read fs p =
     (case resolve fs p of
        Inl e \<Rightarrow> Inl e
      | Inr pos \<Rightarrow> (case node_at fs (inode_of pos) of Some (File bs _) \<Rightarrow> Inr bs | _ \<Rightarrow> io_fail OtherKind))"

definition is_dir :: "fsys \<Rightarrow> path \<Rightarrow> bool" where
  "is_dir fs p \<longleftrightarrow>
     (case resolve fs p of
        Inl _ \<Rightarrow> False
      | Inr pos \<Rightarrow> (case node_at fs (inode_of pos) of Some (Dir _) \<Rightarrow> True | _ \<Rightarrow> False))"

section \<open>Canonical positions\<close>

text \<open>A name a directory entry can have.\<close>

definition proper_name :: "string \<Rightarrow> bool" where
  "proper_name s \<longleftrightarrow> s \<noteq> [] \<and> s \<noteq> ''.'' \<and> s \<noteq> ''..'' \<and> slash \<notin> set s"

text \<open>Every step of the position is an entry of a directory and not a link.\<close>

definition real_entry :: "fsys \<Rightarrow> inode \<Rightarrow> string \<Rightarrow> inode \<Rightarrow> bool" where
  "real_entry fs d s i \<longleftrightarrow>
     (case node_at fs d of Some (Dir es) \<Rightarrow> map_of es s = Some i | _ \<Rightarrow> False) \<and>
     (case node_at fs i of Some (Symlink _) \<Rightarrow> False | _ \<Rightarrow> True)"

fun linked :: "fsys \<Rightarrow> position \<Rightarrow> bool" where
  "linked fs [] = True"
| "linked fs ((s, i) # pos) = (proper_name s \<and> real_entry fs (inode_of pos) s i \<and> linked fs pos)"

lemma inode_of_simps [simp]: "inode_of [] = 0" "inode_of ((s, i) # pos) = i"
  by (simp_all add: inode_of_def)

lemma linked_tl: "linked fs pos \<Longrightarrow> linked fs (tl pos)"
  by (cases pos) auto

lemma linked_append: "linked fs (xs @ pos) \<Longrightarrow> linked fs pos"
  by (induction xs) auto

lemma linked_names: "linked fs pos \<Longrightarrow> s \<in> fst ` set pos \<Longrightarrow> proper_name s"
  by (induction fs pos rule: linked.induct) auto

lemma start_at_linked: "linked fs pos \<Longrightarrow> linked fs (start_at p pos)"
  by (simp add: start_at_def)

lemma walk_linked:
  "walk fs n pos ss = Inr pos' \<Longrightarrow> linked fs pos \<Longrightarrow> (\<forall>s \<in> set ss. slash \<notin> set s) \<Longrightarrow> linked fs pos'"
proof (induction fs n pos ss rule: walk.induct)
  case (2 fs n pos s ss)
  obtain es where d: "node_at fs (inode_of pos) = Some (Dir es)"
    using "2.prems"(1) by (auto simp: io_fail_def split: option.splits node.splits)
  consider (skip) "s = [] \<or> s = ''.''" | (up) "s = ''..''"
    | (link) i t n' where "proper_name s" "map_of es s = Some i" "node_at fs i = Some (Symlink t)" "n = Suc n'"
    | (enter) i where "proper_name s" "map_of es s = Some i" "\<nexists>t. node_at fs i = Some (Symlink t)"
    using "2.prems"(1,3) d
    by (cases "map_of es s"; cases "node_at fs (the (map_of es s))"; cases "the (node_at fs (the (map_of es s)))"; cases n)
      (auto simp: proper_name_def io_fail_def split: if_splits)
  then show ?case
  proof cases
    case skip
    then show ?thesis using 2 d by auto
  next
    case up
    then show ?thesis using 2 d linked_tl by auto
  next
    case link
    have "\<forall>s \<in> set (split_on slash t @ ss). slash \<notin> set s"
      using "2.prems"(3) split_on_pieces [of _ slash t] by auto
    moreover have "walk fs n' (start_at t pos) (split_on slash t @ ss) = Inr pos'"
      using link "2.prems"(1) d by (simp add: proper_name_def)
    ultimately show ?thesis
      using "2.IH"(6) [OF d refl _ _ link(2,3) refl link(4)] link(1) "2.prems"(2)
      by (simp add: proper_name_def start_at_linked)
  next
    case enter
    then have "real_entry fs (inode_of pos) s i"
      using d by (auto simp: real_entry_def split: option.splits node.splits)
    moreover have "walk fs n ((s, i) # pos) ss = Inr pos'"
      using enter "2.prems"(1) d by (auto simp: proper_name_def split: option.splits node.splits)
    moreover have "\<not> (s = [] \<or> s = ''.'')" "s \<noteq> ''..''" "\<forall>s \<in> set ss. slash \<notin> set s"
      using enter(1) "2.prems"(3) by (simp_all add: proper_name_def)
    ultimately show ?thesis
      using enter "2.prems"(2) "2.IH"(3-5) [OF d refl _ _ enter(2)]
      by (cases "node_at fs i"; cases "the (node_at fs i)") auto
  qed
qed simp

definition root_dir :: "fsys \<Rightarrow> bool" where
  "root_dir fs \<longleftrightarrow> (case node_at fs 0 of Some (Dir _) \<Rightarrow> True | _ \<Rightarrow> False)"

text \<open>A file system that can exist: the root is a directory, the working directory is real, new inodes are new.\<close>

definition fs_ok :: "fsys \<Rightarrow> bool" where
  "fs_ok fs \<longleftrightarrow> root_dir fs \<and> linked fs (fs_cwd fs) \<and> (\<forall>i \<in> fst ` set (fs_nodes fs). i < fs_next fs)"

lemma fs_ok_fresh: "fs_ok fs \<Longrightarrow> node_at fs (fs_next fs) = None"
  by (auto simp: fs_ok_def map_of_eq_None_iff)

lemma resolve_linked: "resolve fs p = Inr pos \<Longrightarrow> fs_ok fs \<Longrightarrow> linked fs pos"
  using walk_linked [of fs MAXSYMLINKS "start_at p (fs_cwd fs)" "split_on slash p" pos] split_on_pieces [of _ slash p]
  by (auto simp: resolve_def fs_ok_def start_at_linked io_fail_def split: if_splits)

abbreviation names :: "position \<Rightarrow> string list" where
  "names pos \<equiv> rev (map fst pos)"

lemma walk_entry: "linked fs ((s, i) # pos) \<Longrightarrow> walk fs n pos (s # ss) = walk fs n ((s, i) # pos) ss"
  by (cases "node_at fs i"; cases "the (node_at fs i)"; cases "node_at fs (inode_of pos)"; cases "the (node_at fs (inode_of pos))")
    (auto simp: real_entry_def proper_name_def)

lemma walk_names: "linked fs pos \<Longrightarrow> walk fs n [] (names pos @ ss) = walk fs n pos ss"
  by (induction pos arbitrary: ss) (auto simp: walk_entry simp del: walk.simps)

lemma split_path_of: "linked fs pos \<Longrightarrow> split_on slash (path_of pos) = [] # (if pos = [] then [[]] else names pos)"
  using linked_names [of fs pos] by (auto simp: path_of_def proper_name_def intro!: split_join_on)

lemma is_absolute_path_of [simp]: "is_absolute (path_of pos)" "path_of pos \<noteq> []"
  by (simp_all add: is_absolute_def path_of_def)

lemma walk_skip: "root_dir fs \<Longrightarrow> walk fs n [] ([] # ss) = walk fs n [] ss"
  by (auto simp: root_dir_def split: option.splits node.splits)

lemma resolve_path_of: "linked fs pos \<Longrightarrow> fs_ok fs \<Longrightarrow> resolve fs (path_of pos) = Inr pos"
  using walk_names [of fs pos MAXSYMLINKS "[]"]
  by (auto simp: resolve_def start_at_def split_path_of fs_ok_def walk_skip simp del: walk.simps(2))

text \<open>Resolving what \<open>canonicalize\<close> returned leads to the same place.\<close>

lemma canonicalize_resolves:
  assumes "canonicalize fs p = Inr q" "fs_ok fs"
  obtains pos where "resolve fs p = Inr pos" "linked fs pos" "q = path_of pos" "resolve fs q = Inr pos"
  using assms resolve_linked [OF _ assms(2)] resolve_path_of [OF _ assms(2)]
  by (auto simp: canonicalize_def split: sum.splits)

lemma canonicalize_idempotent: "canonicalize fs p = Inr q \<Longrightarrow> fs_ok fs \<Longrightarrow> canonicalize fs q = Inr q"
  by (erule (1) canonicalize_resolves) (simp add: canonicalize_def)

section \<open>Containment\<close>

lemma prefix_map_inj: "inj f \<Longrightarrow> prefix (map f xs) (map f ys) = prefix xs ys"
proof (induction xs arbitrary: ys)
  case (Cons x xs)
  then show ?case by (cases ys) (auto simp: inj_eq)
qed simp

lemma inj_Normal [simp]: "inj Normal"
  by (simp add: inj_on_def)

lemma body_components_proper:
  "(\<forall>s \<in> set ss. proper_name s) \<Longrightarrow> body_components ss = map Normal ss"
  by (induction ss) (auto simp: body_components_def component_of_def proper_name_def)

lemma components_path_of: "linked fs pos \<Longrightarrow> components (path_of pos) = RootDir # map Normal (names pos)"
  using linked_names [of fs pos] body_components_proper [of "names pos"]
  by (cases "pos = []") (auto simp: components_def split_path_of body_components_def)

lemma linked_unique: "linked fs xs \<Longrightarrow> linked fs ys \<Longrightarrow> map fst xs = map fst ys \<Longrightarrow> xs = ys"
proof (induction xs arbitrary: ys)
  case (Cons x xs)
  obtain s i where x: "x = (s, i)" by (cases x)
  obtain j ys' where ys: "ys = (s, j) # ys'" "map fst xs = map fst ys'"
    using Cons.prems(3) x by (cases ys) auto
  then have "xs = ys'" using Cons.IH Cons.prems(1,2) x by simp
  then show ?case
    using Cons.prems(1,2) x ys(1)
    by (auto simp: real_entry_def split: option.splits node.splits)
qed simp

lemma starts_with_position:
  assumes "linked fs pos" "linked fs base" "starts_with (path_of pos) (path_of base)"
  obtains xs where "pos = xs @ base"
proof -
  have "prefix (names base) (names pos)"
    using assms prefix_map_inj [of Normal "names base" "names pos"]
    by (simp add: starts_with_def components_path_of)
  then have "suffix (map fst base) (map fst pos)"
    by (simp add: suffix_to_prefix)
  then obtain zs where "map fst pos = zs @ map fst base" by (auto simp: suffix_def)
  then obtain xs ys where "pos = xs @ ys" "map fst ys = map fst base" by (auto simp: map_eq_append_conv)
  then show ?thesis using that linked_unique linked_append assms(1,2) by metis
qed

text \<open>Inodes below a directory, through entries that are not links.\<close>

inductive descends :: "fsys \<Rightarrow> inode \<Rightarrow> inode \<Rightarrow> bool" for fs r where
  here: "descends fs r r"
| down: "descends fs r d \<Longrightarrow> real_entry fs d s i \<Longrightarrow> descends fs r i"

lemma linked_descends: "linked fs (xs @ base) \<Longrightarrow> descends fs (inode_of base) (inode_of (xs @ base))"
  by (induction xs) (auto intro: descends.intros)

section \<open>Entries\<close>

lemma locate_step:
  assumes "linked fs ((s, i) # pos)" "ss \<noteq> []"
  shows "locate fs follow n pos (s # ss) = locate fs follow n ((s, i) # pos) ss"
proof -
  obtain es where "node_at fs (inode_of pos) = Some (Dir es)" "map_of es s = Some i"
      "\<nexists>t. node_at fs i = Some (Symlink t)" "s \<noteq> []" "s \<noteq> ''.''" "s \<noteq> ''..''"
    using assms(1) by (auto simp: real_entry_def proper_name_def split: option.splits node.splits)
  then show ?thesis using assms(2) by (auto split: option.splits node.splits)
qed

lemma locate_names: "linked fs pos \<Longrightarrow> ss \<noteq> [] \<Longrightarrow> locate fs follow n [] (names pos @ ss) = locate fs follow n pos ss"
  by (induction pos arbitrary: ss) (auto simp: locate_step simp del: locate.simps)

text \<open>A canonical directory and a name that is no link there are located as they are.\<close>

lemma locate_leaf:
  assumes "node_at fs (inode_of pos) = Some (Dir es)" "proper_name s"
    and "\<And>i t. follow \<Longrightarrow> map_of es s = Some i \<Longrightarrow> node_at fs i \<noteq> Some (Symlink t)"
  shows "locate fs follow n pos [s] = Inr (pos, s)"
  using assms by (auto simp: proper_name_def split: option.splits node.splits)

lemma join_with_snoc: "join_with c (ps @ [s]) = (if ps = [] then s else join_with c ps @ c # s)"
  by (induction c ps rule: join_with.induct) auto

lemma last_path_of: "linked fs pos \<Longrightarrow> last (path_of pos) = slash \<longleftrightarrow> pos = []"
proof (cases pos)
  case (Cons e pos')
  moreover assume "linked fs pos"
  ultimately have s: "fst e \<noteq> []" "slash \<notin> set (fst e)"
    by (cases e; simp add: proper_name_def)+
  have "last (join_with slash (names pos' @ [fst e])) = last (fst e)" "join_with slash (names pos' @ [fst e]) \<noteq> []"
    using s(1) by (auto simp: join_with_snoc)
  then show ?thesis
    using s Cons by (simp add: path_of_def) (metis last_in_set)
qed (simp add: path_of_def)

lemma join_path_of:
  assumes "linked fs pos" "proper_name s"
  shows "join (path_of pos) s = slash # join_with slash (names pos @ [s])"
proof -
  have "\<not> is_absolute s" using assms(2) by (cases s) (auto simp: proper_name_def is_absolute_def)
  then show ?thesis
    using last_path_of [OF assms(1)] by (auto simp: join_def path_of_def join_with_snoc)
qed

lemma split_join_path_of:
  "linked fs pos \<Longrightarrow> proper_name s \<Longrightarrow> split_on slash (join (path_of pos) s) = [] # names pos @ [s]"
  using linked_names [of fs pos] by (simp add: join_path_of split_join_on proper_name_def)

lemma body_components_Nil: "body_components ([] # ss) = body_components ss"
  by (simp add: body_components_def)

lemma components_join:
  assumes "linked fs pos" "proper_name s"
  shows "components (join (path_of pos) s) = RootDir # map Normal (names pos @ [s])"
proof -
  have "body_components (names pos @ [s]) = map Normal (names pos @ [s])"
    using linked_names [OF assms(1)] assms(2) by (intro body_components_proper) auto
  moreover have "is_absolute (join (path_of pos) s)"
    by (simp add: join_path_of [OF assms] is_absolute_def)
  ultimately show ?thesis
    by (simp add: components_def split_join_path_of [OF assms] body_components_Nil)
qed

lemma locate_path_join:
  assumes "fs_ok fs" "linked fs pos" "proper_name s"
  shows "locate_path fs follow (join (path_of pos) s) = locate fs follow MAXSYMLINKS pos [s]"
proof -
  have "locate fs follow n [] ([] # names pos @ [s]) = locate fs follow n [] (names pos @ [s])" for n
    using assms(1) by (auto simp: fs_ok_def root_dir_def split: option.splits node.splits)
  moreover have "is_absolute (join (path_of pos) s)" "join (path_of pos) s \<noteq> []"
    by (simp_all add: join_path_of [OF assms(2,3)] is_absolute_def)
  ultimately show ?thesis
    using locate_names [OF assms(2), of "[s]" follow]
    by (simp add: locate_path_def split_join_path_of [OF assms(2,3)] start_at_def del: locate.simps)
qed

lemma locate_path_leaf:
  assumes "fs_ok fs" "linked fs pos" "node_at fs (inode_of pos) = Some (Dir es)" "proper_name s"
    and "\<And>i t. follow \<Longrightarrow> map_of es s = Some i \<Longrightarrow> node_at fs i \<noteq> Some (Symlink t)"
  shows "locate_path fs follow (join (path_of pos) s) = Inr (pos, s)"
  unfolding locate_path_join [OF assms(1,2,4)] by (rule locate_leaf [OF assms(3-5)])

text \<open>A canonical path names the entry it came from.\<close>

lemma path_of_Cons: "linked fs ((s, i) # pos) \<Longrightarrow> path_of ((s, i) # pos) = join (path_of pos) s"
  using last_path_of [of fs pos]
  by (cases s) (auto simp: path_of_def join_def join_with_snoc is_absolute_def proper_name_def)

lemma fs_write_canonical:
  assumes "fs_ok fs" "linked fs ((s, i) # pos)" "fs_write fs (path_of ((s, i) # pos)) bs = Inr fs'"
  obtains bs0 mode where "node_at fs i = Some (File bs0 mode)" "fs' = set_node i (File bs mode) fs"
proof -
  obtain es where es: "node_at fs (inode_of pos) = Some (Dir es)" "map_of es s = Some i"
      "\<nexists>t. node_at fs i = Some (Symlink t)" "proper_name s" "linked fs pos"
    using assms(2) by (auto simp: real_entry_def split: option.splits node.splits)
  then have "locate_path fs True (path_of ((s, i) # pos)) = Inr (pos, s)"
    unfolding path_of_Cons [OF assms(2)] by (intro locate_path_leaf [OF assms(1)]) auto
  then show ?thesis
    using assms(3) es that by (auto simp: fs_write_def entry_def io_fail_def split: option.splits node.splits)
qed

lemma fs_write_missing:
  assumes "fs_ok fs" "linked fs pos" "node_at fs (inode_of pos) = Some (Dir es)" "proper_name s" "map_of es s = None"
  shows "fs_write fs (join (path_of pos) s) bs = Inr (new_file (pos, s) bs 420 fs)"
  using locate_path_leaf [OF assms(1-4), of True] assms(3,5) by (simp add: fs_write_def entry_def)

text \<open>What a new file changes.\<close>

lemma new_file_nodes:
  assumes "fs_ok fs" "node_at fs (inode_of (fst e)) = Some (Dir es)"
  shows "node_at (new_file e bs mode fs) i =
    (if i = inode_of (fst e) then Some (Dir (hm_insert (snd e) (fs_next fs) es))
     else if i = fs_next fs then Some (File bs mode) else node_at fs i)"
  using assms fs_ok_fresh [OF assms(1)] by (auto simp: new_file_def add_entry_def set_node_def)

lemma fs_write_no_directory:
  assumes "fs_ok fs" "linked fs pos" "proper_name s" "\<nexists>es. node_at fs (inode_of pos) = Some (Dir es)"
  shows "isl (fs_write fs (join (path_of pos) s) bs)"
  using assms(4) by (auto simp: fs_write_def locate_path_join [OF assms(1-3)] io_fail_def split: option.splits node.splits)

lemma lstat_leaf:
  assumes "fs_ok fs" "linked fs pos" "node_at fs (inode_of pos) = Some (Dir es)" "proper_name s"
  shows "lstat_ok fs (join (path_of pos) s) \<longleftrightarrow> map_of es s \<noteq> None"
  using locate_path_leaf [OF assms, of False] assms(3) by (simp add: lstat_ok_def entry_def)

lemma file_name_proper: "file_name p = Some s \<Longrightarrow> proper_name s"
proof -
  assume s: "file_name p = Some s"
  then have "components p \<noteq> []" "last (components p) = Normal s"
    by (auto simp: file_name_def split: if_splits component.splits)
  then have "Normal s \<in> set (components p)" using last_in_set by metis
  then show ?thesis
    using split_on_pieces [of s slash p]
    by (auto simp: components_def body_components_def component_of_def proper_name_def split: if_splits)
qed

text \<open>Where a missing leaf of a canonical directory is, relative to a canonical root.\<close>

lemma starts_with_leaf:
  assumes "linked fs pos" "linked fs base" "node_at fs (inode_of pos) = Some (Dir es)" "proper_name s" "map_of es s = None"
    and "starts_with (join (path_of pos) s) (path_of base)"
  obtains xs where "pos = xs @ base"
proof -
  have "prefix (names base) (names pos @ [s])"
    using assms(6) prefix_map_inj [of Normal "names base" "names pos @ [s]"]
    by (simp add: starts_with_def components_path_of [OF assms(2)] components_join [OF assms(1,4)])
  moreover have "names base \<noteq> names pos @ [s]"
  proof
    assume "names base = names pos @ [s]"
    then have "map fst base = s # map fst pos" by (metis rev.simps(2) rev_rev_ident)
    then obtain i pos' where b: "base = (s, i) # pos'" "map fst pos' = map fst pos" by (cases base) auto
    then have "pos' = pos" using linked_unique assms(1,2) by (metis linked.simps(2))
    then show False using assms(2,3,5) b(1) by (simp add: real_entry_def)
  qed
  ultimately have "starts_with (path_of pos) (path_of base)"
    using prefix_map_inj [of Normal "names base" "names pos"]
    by (simp add: starts_with_def components_path_of [OF assms(1)] components_path_of [OF assms(2)])
  then show ?thesis using starts_with_position [OF assms(1,2)] that by blast
qed

text \<open>The root directory is not written.\<close>

lemma fs_write_root: "isl (fs_write fs (path_of []) bs)"
  by (simp add: fs_write_def locate_path_def path_of_def start_at_def is_absolute_def io_fail_def split: option.splits node.splits)

section \<open>What changes of entries leave alone\<close>

text \<open>The inode under a name of a directory, by the inode of the directory.\<close>

definition dent :: "fsys \<Rightarrow> inode \<Rightarrow> string \<Rightarrow> inode option" where
  "dent fs d s = (case node_at fs d of Some (Dir es) \<Rightarrow> map_of es s | _ \<Rightarrow> None)"

definition is_directory :: "fsys \<Rightarrow> inode \<Rightarrow> bool" where
  "is_directory fs i \<longleftrightarrow> (case node_at fs i of Some (Dir _) \<Rightarrow> True | _ \<Rightarrow> False)"

definition dir_position :: "fsys \<Rightarrow> position \<Rightarrow> bool" where
  "dir_position fs pos \<longleftrightarrow> linked fs pos \<and> is_directory fs (inode_of pos)"

lemma entry_dent: "entry fs (pos, s) = dent fs (inode_of pos) s"
  by (simp add: entry_def dent_def split: option.split node.split)

lemma real_entry_dent:
  "real_entry fs d s i \<longleftrightarrow> dent fs d s = Some i \<and> (case node_at fs i of Some (Symlink _) \<Rightarrow> False | _ \<Rightarrow> True)"
  by (auto simp: real_entry_def dent_def split: option.splits node.splits)

lemma dir_positionE:
  assumes "dir_position fs pos"
  obtains es where "linked fs pos" "node_at fs (inode_of pos) = Some (Dir es)"
  using assms by (auto simp: dir_position_def is_directory_def split: option.splits node.splits)

lemma dent_directory: "dent fs d s = Some i \<Longrightarrow> is_directory fs d"
  by (auto simp: dent_def is_directory_def split: option.splits node.splits)

text \<open>A change keeps the tree when directories stay directories and stay where they are.\<close>

definition keeps_tree :: "fsys \<Rightarrow> fsys \<Rightarrow> bool" where
  "keeps_tree fs fs' \<longleftrightarrow>
     (\<forall>i. is_directory fs i \<longrightarrow> is_directory fs' i) \<and>
     (\<forall>d s i. dent fs d s = Some i \<longrightarrow> is_directory fs i \<longrightarrow> dent fs' d s = Some i) \<and>
     fs_cwd fs' = fs_cwd fs \<and> fs_next fs \<le> fs_next fs' \<and> (\<forall>i \<in> fst ` set (fs_nodes fs'). i < fs_next fs')"

lemma keeps_tree_linked:
  "linked fs pos \<Longrightarrow> is_directory fs (inode_of pos) \<Longrightarrow> keeps_tree fs fs' \<Longrightarrow> linked fs' pos"
proof (induction fs pos rule: linked.induct)
  case (2 fs s i pos)
  then have i: "dent fs (inode_of pos) s = Some i" by (simp add: real_entry_dent)
  then have "dent fs' (inode_of pos) s = Some i" "is_directory fs' i"
    using 2 by (simp_all add: keeps_tree_def)
  then have "real_entry fs' (inode_of pos) s i"
    by (auto simp: real_entry_dent is_directory_def split: option.splits node.splits)
  then show ?case using 2 dent_directory [OF i] by simp
qed simp

lemma keeps_tree_position: "dir_position fs pos \<Longrightarrow> keeps_tree fs fs' \<Longrightarrow> dir_position fs' pos"
  using keeps_tree_linked by (auto simp: dir_position_def keeps_tree_def)

lemma keeps_tree_ok:
  assumes "fs_ok fs" "keeps_tree fs fs'" "is_directory fs (inode_of (fs_cwd fs))"
  shows "fs_ok fs'"
proof -
  have "root_dir fs = is_directory fs 0" "root_dir fs' = is_directory fs' 0"
    by (simp_all add: root_dir_def is_directory_def)
  then show ?thesis
    using assms keeps_tree_linked [of fs "fs_cwd fs" fs'] by (auto simp: fs_ok_def keeps_tree_def)
qed

text \<open>The elementary changes.\<close>

lemma dent_set_node: "dent (set_node i nd fs) d s =
    (if d = i then (case nd of Dir es \<Rightarrow> map_of es s | _ \<Rightarrow> None) else dent fs d s)"
  by (simp add: dent_def set_node_def)

lemma is_directory_set_node: "is_directory (set_node i nd fs) j = (if j = i then (case nd of Dir _ \<Rightarrow> True | _ \<Rightarrow> False) else is_directory fs j)"
  by (simp add: is_directory_def set_node_def)

lemma set_node_fields [simp]: "fs_cwd (set_node i nd fs) = fs_cwd fs" "fs_next (set_node i nd fs) = fs_next fs"
  by (simp_all add: set_node_def)

lemma add_entry_fields [simp]: "fs_cwd (add_entry e i fs) = fs_cwd fs" "fs_next (add_entry e i fs) = fs_next fs"
  by (simp_all add: add_entry_def split: option.splits node.splits)

lemma del_entry_fields [simp]: "fs_cwd (del_entry e fs) = fs_cwd fs" "fs_next (del_entry e fs) = fs_next fs"
  by (simp_all add: del_entry_def split: option.splits node.splits)

lemma dent_add_entry: "dent (add_entry (pos, s) i fs) d s' =
    (if d = inode_of pos \<and> s' = s \<and> is_directory fs d then Some i else dent fs d s')"
  by (auto simp: add_entry_def set_node_def is_directory_def dent_def split: option.splits node.splits)

lemma dent_del_entry: "dent (del_entry (pos, s) fs) d s' = (if d = inode_of pos \<and> s' = s then None else dent fs d s')"
  by (auto simp: del_entry_def set_node_def dent_def split: option.splits node.splits)

lemma is_directory_entries [simp]:
  "is_directory (add_entry e i fs) j = is_directory fs j" "is_directory (del_entry e fs) j = is_directory fs j"
  by (auto simp: add_entry_def del_entry_def is_directory_def set_node_def split: option.splits node.splits)

lemma node_entries:
  "\<not> is_directory fs j \<Longrightarrow> node_at (add_entry e i fs) j = node_at fs j"
  "\<not> is_directory fs j \<Longrightarrow> node_at (del_entry e fs) j = node_at fs j"
  by (auto simp: add_entry_def del_entry_def set_node_def is_directory_def split: option.splits node.splits)

lemma inodes_set_node: "fst ` set (fs_nodes (set_node i nd fs)) = insert i (fst ` set (fs_nodes fs))"
  by (simp add: set_node_def dom_update)

lemma inodes_entries [simp]:
  "fst ` set (fs_nodes (add_entry e i fs)) = fst ` set (fs_nodes fs)"
  "fst ` set (fs_nodes (del_entry e fs)) = fst ` set (fs_nodes fs)"
  by (auto simp: add_entry_def del_entry_def inodes_set_node split: option.splits node.splits)
    (metis image_eqI map_of_SomeD fst_conv)+

end
