(* ===== verification/Workspace.thy ===== *)
theory Workspace
  imports Protocol Unix_Files Terminal_Text Pairing_Secret "HOL-Library.List_Lexorder" "HOL-Library.Char_ord"
begin

text \<open>
  Which directories a phone and an agent can reach: \<open>crates/host/src/workspace.rs\<close> (the roots a terminal may
  start in, relative paths, listings, and the Windows spelling of a path) and the file access of agents
  in \<open>crates/host/src/session.rs\<close> (\<open>sandboxed_acp_path\<close>, \<open>read_acp_text_file\<close>, \<open>write_acp_text_file\<close>). Each call sees
  one state of the file system; what another process changes between two system calls of one function
  is outside the model.
\<close>

section \<open>Scope and roots\<close>

definition workspace_scope :: "fsys \<Rightarrow> path option \<Rightarrow> path \<Rightarrow> workspace_scope" where
  "workspace_scope fs home_dir root0 =
     (case canonicalize fs root0 of
        Inl _ \<Rightarrow> Broad
      | Inr root \<Rightarrow>
          if parent root = None then Broad
          else (case home_dir of
                  None \<Rightarrow> Broad
                | Some h \<Rightarrow>
                    (case canonicalize fs h of
                       Inl _ \<Rightarrow> Broad
                     | Inr home \<Rightarrow> if starts_with home root then Broad else Project)))"

definition trim_start :: "rust_str \<Rightarrow> rust_str" where
  "trim_start s = dropWhile is_whitespace s"

definition trim_str :: "rust_str \<Rightarrow> rust_str" where
  "trim_str s = rev (dropWhile is_whitespace (rev (trim_start s)))"

definition terminal_roots_from :: "rust_str option \<Rightarrow> bool \<Rightarrow> terminal_root list" where
  "terminal_roots_from setting home_available =
     (let allow_home = (case setting of
                          Some raw \<Rightarrow>
                            list_ex (\<lambda>token. eq_ignore_ascii_case (trim_str token) (str_of ''home''))
                              (split_str (\<lambda>ch. ch = 44) raw)
                        | None \<Rightarrow> True)
      in [Protocol.Workspace] @ (if allow_home \<and> home_available then [Protocol.Home] else []))"

definition terminal_root_path ::
  "rust_str option \<Rightarrow> path \<Rightarrow> path option \<Rightarrow> terminal_root \<Rightarrow> path option" where
  "terminal_root_path setting workspace_dir home_dir root =
     (if root \<notin> set (terminal_roots_from setting (home_dir \<noteq> None)) then None
      else case root of Protocol.Workspace \<Rightarrow> Some workspace_dir | Home \<Rightarrow> home_dir)"

section \<open>Relative paths\<close>

datatype workspace_error = NotRelative | Escapes | NotADirectory | WorkspaceIo string

fun normal_parts :: "component list \<Rightarrow> workspace_error + string list" where
  "normal_parts [] = Inr []"
| "normal_parts (Normal part # cs) =
     (case normal_parts cs of Inl e \<Rightarrow> Inl e | Inr parts \<Rightarrow> Inr (part # parts))"
| "normal_parts (CurDir # cs) = normal_parts cs"
| "normal_parts (_ # cs) = Inl NotRelative"

definition normalize_rel :: "string \<Rightarrow> workspace_error + string" where
  "normalize_rel rel =
     (if is_absolute rel then Inl NotRelative
      else case normal_parts (components rel) of Inl e \<Rightarrow> Inl e | Inr parts \<Rightarrow> Inr (join_with slash parts))"

definition resolve_within :: "fsys \<Rightarrow> path \<Rightarrow> string \<Rightarrow> workspace_error + path" where
  "resolve_within fs root0 rel0 =
     (case normalize_rel rel0 of
        Inl e \<Rightarrow> Inl e
      | Inr rel \<Rightarrow>
          (case canonicalize fs root0 of
             Inl e \<Rightarrow> Inl (WorkspaceIo (io_error_message e))
           | Inr root \<Rightarrow>
               (case canonicalize fs (join root rel) of
                  Inl e \<Rightarrow> Inl (WorkspaceIo (io_error_message e))
                | Inr resolved \<Rightarrow>
                    if \<not> starts_with resolved root then Inl Escapes
                    else if \<not> is_dir fs resolved then Inl NotADirectory
                    else Inr resolved)))"

definition MAX_WORKSPACE_DIR_ENTRIES :: nat where "MAX_WORKSPACE_DIR_ENTRIES = 500"

definition read_dir :: "fsys \<Rightarrow> path \<Rightarrow> string list io_result" where
  "read_dir fs p =
     (case resolve fs p of
        Inl e \<Rightarrow> Inl e
      | Inr pos \<Rightarrow> (case node_at fs (inode_of pos) of Some (Dir es) \<Rightarrow> Inr (map fst es) | _ \<Rightarrow> io_fail OtherKind))"

definition child_rel :: "string \<Rightarrow> string \<Rightarrow> string" where
  "child_rel normalized name = (if normalized = [] then name else normalized @ slash # name)"

definition listed :: "fsys \<Rightarrow> path \<Rightarrow> string \<Rightarrow> path \<Rightarrow> string \<Rightarrow> bool" where
  "listed fs root normalized dir name \<longleftrightarrow>
     valid_utf8 (map of_char name) \<and> \<not> prefix ''.'' name \<and> is_dir fs (join dir name) \<and>
     \<not> isl (resolve_within fs root (child_rel normalized name))"

definition list_dirs :: "fsys \<Rightarrow> path \<Rightarrow> string \<Rightarrow> workspace_error + string \<times> string list" where
  "list_dirs fs root rel =
     (case normalize_rel rel of
        Inl e \<Rightarrow> Inl e
      | Inr normalized \<Rightarrow>
          (case resolve_within fs root normalized of
             Inl e \<Rightarrow> Inl e
           | Inr dir \<Rightarrow>
               (case read_dir fs dir of
                  Inl e \<Rightarrow> Inl (WorkspaceIo (io_error_message e))
                | Inr entries \<Rightarrow>
                    Inr (normalized,
                         take MAX_WORKSPACE_DIR_ENTRIES (sort (filter (listed fs root normalized dir) entries))))))"

section \<open>File access of agents\<close>

datatype acp_error = InvalidParams string | InternalError io_error

type_synonym 'a acp_result = "acp_error + 'a"

definition sandboxed_acp_path :: "fsys \<Rightarrow> path \<Rightarrow> path \<Rightarrow> bool \<Rightarrow> path acp_result" where
  "sandboxed_acp_path fs workspace requested allow_missing_leaf =
     (if \<not> is_absolute requested then Inl (InvalidParams ''ACP file path must be absolute'')
      else case canonicalize fs workspace of
        Inl e \<Rightarrow> Inl (InternalError e)
      | Inr root \<Rightarrow>
          (let resolved =
             (case canonicalize fs requested of
                Inr p \<Rightarrow> Inr p
              | Inl e \<Rightarrow>
                  if allow_missing_leaf \<and> io_error_kind e = NotFound then
                    (case parent requested of
                       None \<Rightarrow> Inl (InvalidParams ''ACP file path has no parent directory'')
                     | Some up \<Rightarrow>
                         (case canonicalize fs up of
                            Inl e \<Rightarrow> Inl (InternalError e)
                          | Inr dir \<Rightarrow>
                              (case file_name requested of
                                 None \<Rightarrow> Inl (InvalidParams ''ACP file path has no file name'')
                               | Some name \<Rightarrow>
                                   if lstat_ok fs (join dir name)
                                   then Inl (InvalidParams ''ACP file path is a symlink to a missing target'')
                                   else Inr (join dir name))))
                  else Inl (InternalError e))
           in case resolved of
                Inl e \<Rightarrow> Inl e
              | Inr p \<Rightarrow> if \<not> starts_with p root then Inl (InvalidParams ''ACP file access is restricted'') else Inr p))"

definition MAX_ACP_TEXT_FILE_BYTES :: nat where "MAX_ACP_TEXT_FILE_BYTES = 4 * 1024 * 1024"

text \<open>\<open>split_inclusive\<close>: lines with their newline.\<close>

fun split_inclusive :: "bytes \<Rightarrow> bytes list" where
  "split_inclusive [] = []"
| "split_inclusive (b # bs) =
     (if b = 10 then [b] # split_inclusive bs
      else case split_inclusive bs of [] \<Rightarrow> [[b]] | l # ls \<Rightarrow> (b # l) # ls)"

definition select_lines :: "u32 option \<Rightarrow> u32 option \<Rightarrow> bytes \<Rightarrow> bytes" where
  "select_lines line limit content =
     (let start = max (case line of None \<Rightarrow> 1 | Some l \<Rightarrow> unat l) 1;
          chunks = drop (start - 1) (split_inclusive content)
      in concat (case limit of None \<Rightarrow> chunks | Some n \<Rightarrow> take (unat n) chunks))"

definition read_acp_text_file :: "fsys \<Rightarrow> path \<Rightarrow> path \<Rightarrow> u32 option \<Rightarrow> u32 option \<Rightarrow> bytes acp_result" where
  "read_acp_text_file fs workspace requested line limit =
     (case sandboxed_acp_path fs workspace requested False of
        Inl e \<Rightarrow> Inl e
      | Inr p \<Rightarrow>
          (case fs_read fs p of
             Inl e \<Rightarrow> Inl (InternalError e)
           | Inr content \<Rightarrow>
               if length content > MAX_ACP_TEXT_FILE_BYTES then Inl (InvalidParams ''file exceeds the ACP read limit'')
               else if \<not> valid_utf8 content then Inl (InternalError (IoError InvalidData ''''))
               else Inr (select_lines line limit content)))"

definition write_acp_text_file :: "fsys \<Rightarrow> path \<Rightarrow> path \<Rightarrow> bytes \<Rightarrow> fsys acp_result" where
  "write_acp_text_file fs workspace requested content =
     (if length content > MAX_ACP_TEXT_FILE_BYTES then Inl (InvalidParams ''content exceeds the ACP write limit'')
      else case sandboxed_acp_path fs workspace requested True of
        Inl e \<Rightarrow> Inl e
      | Inr p \<Rightarrow> (case fs_write fs p content of Inl e \<Rightarrow> Inl (InternalError e) | Inr fs' \<Rightarrow> Inr fs'))"

section \<open>The Windows spelling of a path\<close>

definition MAX_PLAIN_DIR_UNITS :: nat where "MAX_PLAIN_DIR_UNITS = 258"

abbreviation backslash :: u16 where "backslash \<equiv> 92"

definition units :: "string \<Rightarrow> u16 list" where "units s = map of_char s"

definition PREFIX :: "u16 list" where "PREFIX = [92, 92, 63, 92]"
definition UNC :: "u16 list" where "UNC = [85, 78, 67, 92]"
definition FORBIDDEN_IN_NAME :: "u16 list" where "FORBIDDEN_IN_NAME = [60, 62, 58, 34, 47, 92, 124, 63, 42]"

definition ascii_upper :: "u16 \<Rightarrow> u16" where
  "ascii_upper c = (if 97 \<le> c \<and> c \<le> 122 then c - 32 else c)"

text \<open>The digits of a port name, the superscript ones included.\<close>

definition port_digit :: "u16 \<Rightarrow> bool" where
  "port_digit c \<longleftrightarrow> (48 \<le> c \<and> c \<le> 57) \<or> c = 0xB9 \<or> c = 0xB2 \<or> c = 0xB3"

definition is_reserved_device_name :: "u16 list \<Rightarrow> bool" where
  "is_reserved_device_name part =
     (let stem0 = takeWhile (\<lambda>c. c \<noteq> 46) part;
          stem = map ascii_upper (rev (dropWhile (\<lambda>c. c = 32) (rev stem0)))
      in stem \<in> set (map units [''CON'', ''PRN'', ''AUX'', ''NUL'', ''CONIN$'', ''CONOUT$'']) \<or>
         list_ex (\<lambda>port. prefix port stem \<and>
             (case drop (length port) stem of [d] \<Rightarrow> port_digit d | _ \<Rightarrow> False))
           (map units [''COM'', ''LPT'']))"

definition component_ok :: "u16 list \<Rightarrow> bool" where
  "component_ok part \<longleftrightarrow>
     part \<noteq> [] \<and> last part \<noteq> 46 \<and> last part \<noteq> 32 \<and>
     \<not> list_ex (\<lambda>c. c < 0x20 \<or> c \<in> set FORBIDDEN_IN_NAME) part \<and> \<not> is_reserved_device_name part"

fun components_ok :: "u16 list list \<Rightarrow> bool" where
  "components_ok [] = True"
| "components_ok (part # parts) =
     (if part = [] \<and> parts = [] then True else if \<not> component_ok part then False else components_ok parts)"

definition is_ascii_alphabetic :: "u16 \<Rightarrow> bool" where
  "is_ascii_alphabetic c \<longleftrightarrow> (65 \<le> c \<and> c \<le> 90) \<or> (97 \<le> c \<and> c \<le> 122)"

definition strip_prefix :: "'a list \<Rightarrow> 'a list \<Rightarrow> 'a list option" where
  "strip_prefix p xs = (if prefix p xs then Some (drop (length p) xs) else None)"

definition fits :: "u16 list \<Rightarrow> u16 list option" where
  "fits w = (if length w \<le> MAX_PLAIN_DIR_UNITS then Some w else None)"

definition plain :: "u16 list \<Rightarrow> u16 list option" where
  "plain wide =
     (case strip_prefix PREFIX wide of
        None \<Rightarrow> None
      | Some rest \<Rightarrow>
          (case strip_prefix UNC rest of
             Some tail \<Rightarrow>
               (case split_on backslash tail of
                  server # share # parts \<Rightarrow>
                    if \<not> component_ok server \<or> \<not> component_ok share \<or> \<not> components_ok parts then None
                    else fits ([backslash, backslash] @ tail)
                | _ \<Rightarrow> None)
           | None \<Rightarrow>
               (case rest of
                  letter # colon # root # tail \<Rightarrow>
                    if is_ascii_alphabetic letter \<and> colon = 58 \<and> root = backslash then
                      (if tail \<noteq> [] \<and> \<not> components_ok (split_on backslash tail) then None else fits rest)
                    else None
                | _ \<Rightarrow> None)))"

section \<open>Containment\<close>

definition inode_at :: "fsys \<Rightarrow> path \<Rightarrow> inode option" where
  "inode_at fs p = (case resolve fs p of Inl _ \<Rightarrow> None | Inr pos \<Rightarrow> Some (inode_of pos))"

lemma canonicalize_inode: "canonicalize fs p = Inr q \<Longrightarrow> fs_ok fs \<Longrightarrow> inode_at fs q = inode_at fs p"
  by (erule (1) canonicalize_resolves) (simp add: inode_at_def)

text \<open>A canonical path that starts with the canonical root is below the root.\<close>

lemma canonical_below:
  assumes fs: "fs_ok fs" and root: "canonicalize fs root0 = Inr root" and p: "canonicalize fs q = Inr p" "starts_with p root"
  obtains base xs where "linked fs (xs @ base)" "p = path_of (xs @ base)" "inode_at fs root0 = Some (inode_of base)"
    "resolve fs p = Inr (xs @ base)"
proof -
  obtain base where base: "linked fs base" "root = path_of base" "resolve fs root0 = Inr base"
    using canonicalize_resolves [OF root fs] by blast
  obtain pos where pos: "linked fs pos" "p = path_of pos" "resolve fs p = Inr pos"
    using canonicalize_resolves [OF p(1) fs] by blast
  obtain xs where "pos = xs @ base"
    using starts_with_position [OF pos(1) base(1)] p(2) pos(2) base(2) by blast
  then show ?thesis using that [of xs base] base pos by (simp add: inode_at_def)
qed

lemma resolve_withinE:
  assumes "fs_ok fs" "resolve_within fs root0 rel = Inr p"
  obtains base xs where "linked fs (xs @ base)" "p = path_of (xs @ base)" "inode_at fs root0 = Some (inode_of base)"
    "resolve fs p = Inr (xs @ base)" "is_dir fs p"
proof -
  obtain root q where "canonicalize fs root0 = Inr root" "canonicalize fs q = Inr p" "starts_with p root" "is_dir fs p"
    using assms(2) by (auto simp: resolve_within_def split: sum.splits if_splits)
  then show ?thesis using canonical_below [OF assms(1)] that by metis
qed

lemma resolve_within_below:
  assumes "fs_ok fs" "resolve_within fs root rel = Inr p"
  shows "\<exists>r i. inode_at fs root = Some r \<and> inode_at fs p = Some i \<and> descends fs r i"
  using resolve_withinE [OF assms] linked_descends by (metis inode_at_def sum.simps(6))

text \<open>
  C15. A directory a phone may choose is inside the root: when \<open>resolve_within\<close> accepts a relative path,
  whatever links the tree contains, the result is an existing directory that is reached from the root
  directory itself through directory entries alone, and it is its own canonical path.
\<close>

theorem workspace_confined:
  assumes "fs_ok fs" "resolve_within fs root rel = Inr p"
  shows "(\<exists>r i. inode_at fs root = Some r \<and> inode_at fs p = Some i \<and> descends fs r i) \<and>
    is_dir fs p \<and> canonicalize fs p = Inr p"
proof -
  obtain base xs where b: "linked fs (xs @ base)" "p = path_of (xs @ base)" "inode_at fs root = Some (inode_of base)"
    "resolve fs p = Inr (xs @ base)" "is_dir fs p"
    using resolve_withinE [OF assms] .
  then show ?thesis
    using linked_descends [OF b(1)] by (simp add: inode_at_def canonicalize_def)
qed

text \<open>A root with a directory, a link out of the root, a link into it and a dangling link.\<close>

definition example_fs :: fsys where
  "example_fs = \<lparr>fs_nodes =
     [(0, Dir [(''ws'', 1), (''etc'', 2)]),
      (1, Dir [(''sub'', 3), (''out'', 4), (''note'', 5), (''in'', 7), (''loose'', 8)]),
      (2, Dir [(''passwd'', 6)]), (3, Dir []), (4, Symlink ''/etc''), (5, File [104, 105] 420),
      (6, File [1] 420), (7, Symlink ''sub''), (8, Symlink ''/etc/new'')],
     fs_next = 9, fs_cwd = []\<rparr>"

lemma example_fs_ok: "fs_ok example_fs"
  by (simp add: fs_ok_def example_fs_def root_dir_def)

theorem workspace_confined_witness:
  "resolve_within example_fs ''/ws'' ''./in'' = Inr ''/ws/sub'' \<and>
   resolve_within example_fs ''/ws'' ''out'' = Inl Escapes \<and>
   (\<exists>r i. inode_at example_fs ''/ws'' = Some r \<and> inode_at example_fs ''/ws/sub'' = Some i \<and> descends example_fs r i)"
proof -
  have "resolve_within example_fs ''/ws'' ''./in'' = Inr ''/ws/sub''" "resolve_within example_fs ''/ws'' ''out'' = Inl Escapes"
    by code_simp+
  with workspace_confined [OF example_fs_ok this(1)] show ?thesis by simp
qed

section \<open>The sandbox of an agent\<close>

lemma sandboxed_cases:
  assumes fs: "fs_ok fs" and ok: "sandboxed_acp_path fs workspace requested allow = Inr p"
  obtains (present) xs base where "linked fs (xs @ base)" "p = path_of (xs @ base)" "resolve fs p = Inr (xs @ base)"
      "inode_at fs workspace = Some (inode_of base)"
  | (missing) xs base es s where "allow" "linked fs (xs @ base)" "p = join (path_of (xs @ base)) s" "proper_name s"
      "inode_at fs workspace = Some (inode_of base)"
      "node_at fs (inode_of (xs @ base)) = Some (Dir es)" "map_of es s = None"
  | (nowhere) pos s where "allow" "linked fs pos" "p = join (path_of pos) s" "proper_name s"
      "\<nexists>es. node_at fs (inode_of pos) = Some (Dir es)"
proof -
  obtain root where root: "canonicalize fs workspace = Inr root" "starts_with p root"
    using ok by (auto simp: sandboxed_acp_path_def Let_def split: sum.splits if_splits)
  obtain base where base: "linked fs base" "root = path_of base" "resolve fs workspace = Inr base"
    using canonicalize_resolves [OF root(1) fs] by blast
  show ?thesis
  proof (cases "canonicalize fs requested")
    case (Inr q)
    then have "q = p" using ok by (auto simp: sandboxed_acp_path_def Let_def split: sum.splits if_splits)
    then show ?thesis using canonical_below [OF fs root(1) _ root(2), of requested] Inr present by metis
  next
    case (Inl e)
    then obtain up dir s where m: "allow" "canonicalize fs up = Inr dir" "file_name requested = Some s"
        "\<not> lstat_ok fs (join dir s)" "p = join dir s"
      using ok root(1)
      by (auto simp: sandboxed_acp_path_def Let_def split: sum.splits if_splits option.splits)
    obtain pos where pos: "linked fs pos" "dir = path_of pos"
      using canonicalize_resolves [OF m(2) fs] by blast
    have s: "proper_name s" by (rule file_name_proper [OF m(3)])
    show ?thesis
    proof (cases "\<exists>es. node_at fs (inode_of pos) = Some (Dir es)")
      case True
      then obtain es where es: "node_at fs (inode_of pos) = Some (Dir es)" ..
      then have none: "map_of es s = None" using lstat_leaf [OF fs pos(1) es s] m(4) pos(2) by simp
      then obtain xs where "pos = xs @ base"
        using starts_with_leaf [OF pos(1) base(1) es s] root(2) m(5) pos(2) base(2) by blast
      then show ?thesis using missing m(1,5) pos es none s base(3) by (simp add: inode_at_def)
    qed (use nowhere m pos s in blast)
  qed
qed

text \<open>
  C14. A write through the protocol stays inside the workspace: every file or directory that existed before and is
  changed by one successful \<open>write_acp_text_file\<close> is reached from the workspace directory through directory
  entries alone, whatever links the tree contains and whatever path the agent asked for. The tree is taken not to change
  between the check and the write, and what the adapter does with its own access to the system (its processes, the commands of its terminals) is outside.
\<close>

theorem agent_write_confined:
  assumes "fs_ok fs" "write_acp_text_file fs workspace requested content = Inr fs'"
  shows "\<exists>r. inode_at fs workspace = Some r \<and>
    (\<forall>i. node_at fs i \<noteq> None \<and> node_at fs' i \<noteq> node_at fs i \<longrightarrow> descends fs r i)"
proof -
  obtain p where p: "sandboxed_acp_path fs workspace requested True = Inr p" "fs_write fs p content = Inr fs'"
    using assms(2) by (auto simp: write_acp_text_file_def split: sum.splits if_splits)
  from assms(1) p(1) show ?thesis
  proof (cases rule: sandboxed_cases)
    case (present xs base)
    show ?thesis
    proof (cases "xs @ base")
      case Nil
      then show ?thesis using p(2) present(2) fs_write_root [of fs content] by simp
    next
      case (Cons e pos)
      obtain s i where e: "e = (s, i)" by (cases e)
      obtain mode where "fs' = set_node i (File content mode) fs"
        using fs_write_canonical [OF assms(1), of s i pos content fs'] present(1,2) p(2) Cons e by metis
      then show ?thesis
        using linked_descends [OF present(1)] present(4) Cons e by (auto simp: set_node_def)
    qed
  next
    case (missing xs base es s)
    have "fs' = new_file (xs @ base, s) content 420 fs"
      using fs_write_missing [OF assms(1) missing(2,6,4,7), of content] p(2) missing(3) by simp
    then show ?thesis
      using linked_descends [OF missing(2)] missing(5,6) fs_ok_fresh [OF assms(1)]
        new_file_nodes [OF assms(1), of "(xs @ base, s)" es content 420] by (auto split: if_splits)
  next
    case (nowhere pos s)
    then show ?thesis using fs_write_no_directory [OF assms(1) nowhere(2,4,5), of content] p(2) by simp
  qed
qed

theorem agent_write_confined_witness:
  "\<exists>fs'. write_acp_text_file example_fs ''/ws'' ''/ws/in/new'' [33] = Inr fs' \<and> node_at fs' 3 \<noteq> node_at example_fs 3 \<and>
     write_acp_text_file example_fs ''/ws'' ''/ws/out/passwd'' [33] = Inl (InvalidParams ''ACP file access is restricted'') \<and>
     isl (write_acp_text_file example_fs ''/ws'' ''/ws/loose'' [33]) \<and>
     (\<exists>r. inode_at example_fs ''/ws'' = Some r \<and> descends example_fs r 3)"
proof -
  define fs' where "fs' = projr (write_acp_text_file example_fs ''/ws'' ''/ws/in/new'' [33])"
  have small: "write_acp_text_file fs workspace requested [33] =
      (case sandboxed_acp_path fs workspace requested True of Inl e \<Rightarrow> Inl e
       | Inr p \<Rightarrow> (case fs_write fs p [33] of Inl e \<Rightarrow> Inl (InternalError e) | Inr fs' \<Rightarrow> Inr fs'))"
    for fs workspace requested
    by (simp add: write_acp_text_file_def MAX_ACP_TEXT_FILE_BYTES_def)
  have paths: "sandboxed_acp_path example_fs ''/ws'' ''/ws/in/new'' True = Inr ''/ws/sub/new''"
      "sandboxed_acp_path example_fs ''/ws'' ''/ws/out/passwd'' True = Inl (InvalidParams ''ACP file access is restricted'')"
      "isl (sandboxed_acp_path example_fs ''/ws'' ''/ws/loose'' True)"
    by code_simp+
  have "\<not> isl (fs_write example_fs ''/ws/sub/new'' [33])" "node_at example_fs 3 = Some (Dir [])"
      "node_at (projr (fs_write example_fs ''/ws/sub/new'' [33])) 3 = Some (Dir [(''new'', 9)])"
    by code_simp+
  then have w: "write_acp_text_file example_fs ''/ws'' ''/ws/in/new'' [33] = Inr fs'" "node_at fs' 3 \<noteq> node_at example_fs 3"
      "node_at example_fs 3 \<noteq> None"
    by (auto simp: fs'_def small paths(1) split: sum.splits)
  from agent_write_confined [OF example_fs_ok w(1)] w(2,3)
  have "\<exists>r. inode_at example_fs ''/ws'' = Some r \<and> descends example_fs r 3" by blast
  with w paths(2,3) show ?thesis by (auto simp: small split: sum.splits)
qed

text \<open>
  An agent reads only files of its workspace, at most four MiB, and only text: what
  \<open>read_acp_text_file\<close> returns are the requested lines of a file below the workspace directory.
\<close>

theorem agent_read_confined:
  assumes "fs_ok fs" "read_acp_text_file fs workspace requested line limit = Inr s"
  shows "\<exists>r i content mode. inode_at fs workspace = Some r \<and> descends fs r i \<and> node_at fs i = Some (File content mode) \<and>
    length content \<le> MAX_ACP_TEXT_FILE_BYTES \<and> valid_utf8 content \<and> s = select_lines line limit content"
proof -
  obtain p content where p: "sandboxed_acp_path fs workspace requested False = Inr p" "fs_read fs p = Inr content"
      "length content \<le> MAX_ACP_TEXT_FILE_BYTES" "valid_utf8 content" "s = select_lines line limit content"
    using assms(2) by (auto simp: read_acp_text_file_def not_less split: sum.splits if_splits)
  from assms(1) p(1) show ?thesis
  proof (cases rule: sandboxed_cases)
    case (present xs base)
    then obtain mode where "node_at fs (inode_of (xs @ base)) = Some (File content mode)"
      using p(2) by (auto simp: fs_read_def io_fail_def split: option.splits node.splits)
    then show ?thesis using linked_descends [OF present(1)] present(4) p(3-5) by blast
  qed auto
qed

theorem agent_read_confined_witness:
  "read_acp_text_file example_fs ''/ws'' ''/ws/note'' None None = Inr [104, 105] \<and>
   isl (read_acp_text_file example_fs ''/ws'' ''/ws/out/passwd'' None None) \<and>
   (\<exists>r i content mode. inode_at example_fs ''/ws'' = Some r \<and> descends example_fs r i \<and>
      node_at example_fs i = Some (File content mode) \<and> select_lines None None content = [104, 105])"
proof -
  have "sandboxed_acp_path example_fs ''/ws'' ''/ws/note'' False = Inr ''/ws/note''"
      "fs_read example_fs ''/ws/note'' = Inr [104, 105]" "valid_utf8 [104, 105]"
      "select_lines None None [104, 105] = [104, 105]"
      "isl (sandboxed_acp_path example_fs ''/ws'' ''/ws/out/passwd'' False)"
    by code_simp+
  then have r: "read_acp_text_file example_fs ''/ws'' ''/ws/note'' None None = Inr [104, 105]"
      "isl (read_acp_text_file example_fs ''/ws'' ''/ws/out/passwd'' None None)"
    by (auto simp: read_acp_text_file_def MAX_ACP_TEXT_FILE_BYTES_def split: sum.splits)
  with agent_read_confined [OF example_fs_ok r(1)] show ?thesis by metis
qed

section \<open>Relative paths\<close>

lemma normal_parts_eq:
  "RootDir \<notin> set cs \<Longrightarrow>
     normal_parts cs = (if ParentDir \<in> set cs then Inl NotRelative
       else Inr (concat (map (\<lambda>c. case c of Normal s \<Rightarrow> [s] | _ \<Rightarrow> []) cs)))"
  by (induction cs rule: normal_parts.induct) (auto split: sum.splits)

lemma body_components_parts:
  "ParentDir \<in> set (body_components segs) \<longleftrightarrow> ''..'' \<in> set segs"
  "RootDir \<notin> set (body_components segs)"
  "''..'' \<notin> set segs \<Longrightarrow>
     concat (map (\<lambda>c. case c of Normal s \<Rightarrow> [s] | _ \<Rightarrow> []) (body_components segs)) = filter (\<lambda>s. s \<noteq> [] \<and> s \<noteq> ''.'') segs"
  by (induction segs) (auto simp: body_components_def component_of_def)

lemma normalize_rel_eq:
  "normalize_rel rel =
     (if is_absolute rel \<or> ''..'' \<in> set (split_on slash rel) then Inl NotRelative
      else Inr (join_with slash (filter (\<lambda>s. s \<noteq> [] \<and> s \<noteq> ''.'') (split_on slash rel))))"
  using normal_parts_eq [of "body_components (split_on slash rel)"] body_components_parts [of "split_on slash rel"]
  by (auto simp: normalize_rel_def components_def)

lemma join_with_not_absolute: "list_all proper_name ps \<Longrightarrow> \<not> is_absolute (join_with slash ps)"
  by (cases ps; cases "tl ps") (auto simp: is_absolute_def proper_name_def hd_append dest: hd_in_set)

lemma normalize_rel_join:
  assumes "list_all proper_name parts"
  shows "normalize_rel (join_with slash parts) = Inr (join_with slash parts)"
proof -
  have "split_on slash (join_with slash parts) = (if parts = [] then [[]] else parts)"
    using assms by (auto simp: list_all_iff proper_name_def intro!: split_join_on)
  moreover have "filter (\<lambda>s. s \<noteq> [] \<and> s \<noteq> ''.'') parts = parts" "''..'' \<notin> set parts"
    using assms by (auto simp: list_all_iff proper_name_def filter_id_conv)
  ultimately show ?thesis
    using join_with_not_absolute [OF assms] by (auto simp: normalize_rel_eq)
qed

lemma normalize_rel_parts:
  assumes "normalize_rel rel = Inr r"
  shows "list_all proper_name (filter (\<lambda>s. s \<noteq> [] \<and> s \<noteq> ''.'') (split_on slash rel)) \<and>
    r = join_with slash (filter (\<lambda>s. s \<noteq> [] \<and> s \<noteq> ''.'') (split_on slash rel))"
  using assms split_on_pieces [of _ slash rel]
  by (auto simp: normalize_rel_eq list_all_iff proper_name_def split: if_splits)

lemma normalize_rel_idem: "normalize_rel rel = Inr r \<Longrightarrow> normalize_rel r = Inr r"
  using normalize_rel_parts normalize_rel_join by blast

text \<open>
  Relative paths of the wire: a path is refused exactly when it is absolute or has a \<open>..\<close>; otherwise
  the result is its names joined by single slashes, and normalizing that changes nothing.
\<close>

theorem normalize_rel_characterised:
  "(case normalize_rel rel of
      Inl e \<Rightarrow> e = NotRelative \<and> (is_absolute rel \<or> ''..'' \<in> set (split_on slash rel))
    | Inr r \<Rightarrow> normalize_rel r = Inr r \<and> \<not> is_absolute r \<and>
        (\<exists>parts. list_all proper_name parts \<and> r = join_with slash parts \<and>
           parts = filter (\<lambda>s. s \<noteq> [] \<and> s \<noteq> ''.'') (split_on slash rel)))"
proof (cases "normalize_rel rel")
  case (Inl e)
  then show ?thesis by (auto simp: normalize_rel_eq [of rel] split: if_splits)
next
  case (Inr r)
  then show ?thesis
    using normalize_rel_parts [OF Inr] normalize_rel_idem [OF Inr] join_with_not_absolute by auto
qed

text \<open>
  A listing shows only what can be chosen: its names are in order, at most 500, never hidden, and
  each of them, selected next, resolves to a directory inside the root.
\<close>

theorem listed_dirs_selectable:
  assumes "fs_ok fs" "list_dirs fs root rel = Inr (normalized, shown)"
  shows "sorted shown \<and> length shown \<le> MAX_WORKSPACE_DIR_ENTRIES \<and> normalize_rel normalized = Inr normalized \<and>
    (\<forall>name \<in> set shown. \<not> prefix ''.'' name \<and>
       (\<exists>p r i. resolve_within fs root (child_rel normalized name) = Inr p \<and>
          inode_at fs root = Some r \<and> inode_at fs p = Some i \<and> descends fs r i))"
proof -
  obtain dir entries where d: "normalize_rel rel = Inr normalized" "resolve_within fs root normalized = Inr dir"
      "shown = take MAX_WORKSPACE_DIR_ENTRIES (sort (filter (listed fs root normalized dir) entries))"
    using assms(2) by (auto simp: list_dirs_def split: sum.splits)
  have "normalize_rel normalized = Inr normalized"
    using normalize_rel_idem [OF d(1)] .
  moreover have "listed fs root normalized dir name" if "name \<in> set shown" for name
    using that d(3) set_take_subset [of MAX_WORKSPACE_DIR_ENTRIES] by fastforce
  moreover have "\<exists>p r i. resolve_within fs root q = Inr p \<and> inode_at fs root = Some r \<and> inode_at fs p = Some i \<and> descends fs r i"
    if "\<not> isl (resolve_within fs root q)" for q
    using that resolve_within_below [OF assms(1)] by (cases "resolve_within fs root q") auto
  moreover have "sorted shown" "length shown \<le> MAX_WORKSPACE_DIR_ENTRIES"
    by (simp_all add: d(3) sorted_wrt_take)
  ultimately show ?thesis unfolding listed_def by blast
qed

theorem listed_dirs_selectable_witness:
  "list_dirs example_fs ''/ws'' ''.'' = Inr ('''', [''in'', ''sub'']) \<and>
   (\<exists>p r i. resolve_within example_fs ''/ws'' ''in'' = Inr p \<and>
      inode_at example_fs ''/ws'' = Some r \<and> inode_at example_fs p = Some i \<and> descends example_fs r i)"
proof -
  have "normalize_rel ''.'' = Inr ''''" "resolve_within example_fs ''/ws'' '''' = Inr ''/ws''"
      "read_dir example_fs ''/ws'' = Inr [''sub'', ''out'', ''note'', ''in'', ''loose'']"
      "filter (listed example_fs ''/ws'' '''' ''/ws'') [''sub'', ''out'', ''note'', ''in'', ''loose''] = [''sub'', ''in'']"
    by code_simp+
  moreover have "sort [''sub'', ''in''] = [''in'', ''sub'']"
    by (simp add: list_less_def list_le_def less_char_def)
  ultimately have "list_dirs example_fs ''/ws'' ''.'' = Inr ('''', [''in'', ''sub''])"
    by (simp only: list_dirs_def sum.case) (simp add: MAX_WORKSPACE_DIR_ENTRIES_def)
  from listed_dirs_selectable [OF example_fs_ok this] this show ?thesis by (auto simp: child_rel_def)
qed

section \<open>Plain spellings\<close>

text \<open>The verbatim path a plain one stands for.\<close>

definition verbatim_of :: "u16 list \<Rightarrow> u16 list" where
  "verbatim_of p = PREFIX @ (if prefix [backslash, backslash] p then UNC @ drop 2 p else p)"

lemma strip_prefix_Some: "strip_prefix p xs = Some ys \<longleftrightarrow> xs = p @ ys"
  by (auto simp: strip_prefix_def prefix_def)

lemma components_ok_all:
  "components_ok parts \<Longrightarrow> list_all component_ok (butlast parts) \<and> (parts = [] \<or> last parts = [] \<or> component_ok (last parts))"
  by (induction parts rule: components_ok.induct) (auto split: if_splits)

text \<open>
  The plain spelling names the same directory: whenever a path is rewritten, putting the verbatim
  prefix back gives the original path, it starts with a drive root or a share, fits a working
  directory, and every name in it, the trailing empty one aside, is one Windows leaves unchanged.
\<close>

theorem plain_spelling_faithful:
  assumes "plain wide = Some p"
  shows "verbatim_of p = wide \<and> length p \<le> MAX_PLAIN_DIR_UNITS \<and>
    (\<exists>root tail. p = root @ tail \<and>
       (root = [backslash, backslash] \<or> (\<exists>letter. is_ascii_alphabetic letter \<and> root = [letter, 58, backslash])) \<and>
       list_all component_ok (butlast (split_on backslash tail)) \<and>
       (last (split_on backslash tail) = [] \<or> component_ok (last (split_on backslash tail))))"
proof -
  obtain rest where rest: "wide = PREFIX @ rest"
    using assms by (auto simp: plain_def strip_prefix_Some split: option.splits)
  show ?thesis
  proof (cases "strip_prefix UNC rest")
    case (Some tail)
    then obtain server share parts where s: "split_on backslash tail = server # share # parts"
        "component_ok server" "component_ok share" "components_ok parts" "p = [backslash, backslash] @ tail"
        "length p \<le> MAX_PLAIN_DIR_UNITS"
      using assms rest by (auto simp: plain_def strip_prefix_def fits_def split: list.splits if_splits)
    then show ?thesis
      using Some rest components_ok_all [OF s(4)]
      by (intro conjI exI [of _ "[backslash, backslash]"] exI [of _ tail]) (auto simp: verbatim_of_def strip_prefix_Some)
  next
    case None
    then obtain letter tail where l: "rest = [letter, 58, backslash] @ tail" "is_ascii_alphabetic letter" "p = rest"
        "tail = [] \<or> components_ok (split_on backslash tail)" "length p \<le> MAX_PLAIN_DIR_UNITS"
      using assms rest by (auto simp: plain_def strip_prefix_def [of PREFIX] fits_def split: list.splits if_splits)
    moreover have "letter \<noteq> backslash"
      using l(2) by (auto simp: is_ascii_alphabetic_def)
    moreover have "list_all component_ok (butlast (split_on backslash tail)) \<and>
        (last (split_on backslash tail) = [] \<or> component_ok (last (split_on backslash tail)))"
      using l(4) components_ok_all [of "split_on backslash tail"] by (cases "tail = []") auto
    ultimately show ?thesis
      using rest by (intro conjI exI [of _ "[letter, 58, backslash]"] exI [of _ tail]) (auto simp: verbatim_of_def)
  qed
qed

theorem plain_spelling_faithful_witness:
  "plain (PREFIX @ units ''C:'' @ [backslash] @ units ''w'') = Some (units ''C:'' @ [backslash] @ units ''w'') \<and>
   plain (PREFIX @ units ''C:'' @ [backslash] @ units ''nul.txt'') = None \<and>
   verbatim_of (units ''C:'' @ [backslash] @ units ''w'') = PREFIX @ units ''C:'' @ [backslash] @ units ''w''"
proof -
  have "plain (PREFIX @ units ''C:'' @ [backslash] @ units ''w'') = Some (units ''C:'' @ [backslash] @ units ''w'')"
    "plain (PREFIX @ units ''C:'' @ [backslash] @ units ''nul.txt'') = None"
    by code_simp+
  with plain_spelling_faithful [OF this(1)] show ?thesis by simp
qed

end
