(* ===== verification/File_Transfer.thy ===== *)
theory File_Transfer
  imports Protocol Unix_Files Credential_Store "HOL-Library.List_Lexorder" "HOL-Library.Char_ord"
begin

unbundle bit_operations_syntax

text \<open>
  File transfer on the host, \<open>crates/host/src/file_transfer.rs\<close>: the registry of temporary files that
  survives a crash (\<open>UploadCleanup\<close>), uploads into a temporary file that replaces its target once size
  and checksum agree, and downloads read in one pass. All connections of the host share the file
  system and the registry. The hash function is a parameter; a hasher is the bytes it was given. The
  registry file is a record of the credential store; \<open>None\<close> is a record that does not parse. System calls
  on user files report what the script \<open>en_faults\<close> says, and succeed when it is used up.
\<close>

section \<open>The environment\<close>

record env =
  en_fs :: fsys
  en_store :: "path list option disk"
  en_paths :: "path list"
  en_faults :: "io_error option list"

definition sys :: "env \<Rightarrow> env \<times> io_error option" where
  "sys en = (case en_faults en of [] \<Rightarrow> (en, None) | f # fs \<Rightarrow> (en\<lparr>en_faults := fs\<rparr>, f))"

definition set_fs :: "fsys \<Rightarrow> env \<Rightarrow> env" where
  "set_fs fs en = en\<lparr>en_fs := fs\<rparr>"

text \<open>\<open>create_new\<close>, \<open>remove_file\<close> and \<open>rename\<close> on directory entries.\<close>

definition create_new :: "path \<Rightarrow> u32 \<Rightarrow> env \<Rightarrow> env \<times> inode io_result" where
  "create_new p mode en0 =
     (case sys en0 of
        (en, Some e) \<Rightarrow> (en, Inl e)
      | (en, None) \<Rightarrow>
          (case locate_path (en_fs en) False p of
             Inl e \<Rightarrow> (en, Inl e)
           | Inr e \<Rightarrow>
               (case entry (en_fs en) e of
                  Some _ \<Rightarrow> (en, io_fail AlreadyExists)
                | None \<Rightarrow> (set_fs (new_file e [] mode (en_fs en)) en, Inr (fs_next (en_fs en))))))"

definition remove_file :: "path \<Rightarrow> env \<Rightarrow> env \<times> unit io_result" where
  "remove_file p en0 =
     (case sys en0 of
        (en, Some e) \<Rightarrow> (en, Inl e)
      | (en, None) \<Rightarrow>
          (case locate_path (en_fs en) False p of
             Inl e \<Rightarrow> (en, Inl e)
           | Inr e \<Rightarrow>
               (case entry (en_fs en) e of
                  None \<Rightarrow> (en, io_fail NotFound)
                | Some i \<Rightarrow>
                    if is_directory (en_fs en) i then (en, io_fail OtherKind)
                    else (set_fs (del_entry e (en_fs en)) en, Inr ()))))"

definition rename_file :: "path \<Rightarrow> path \<Rightarrow> env \<Rightarrow> env \<times> unit io_result" where
  "rename_file src dst en0 =
     (case sys en0 of
        (en, Some e) \<Rightarrow> (en, Inl e)
      | (en, None) \<Rightarrow>
          (case (locate_path (en_fs en) False src, locate_path (en_fs en) False dst) of
             (Inr a, Inr b) \<Rightarrow>
               (case (entry (en_fs en) a, entry (en_fs en) b) of
                  (None, _) \<Rightarrow> (en, io_fail NotFound)
                | (Some i, Some j) \<Rightarrow>
                    if i = j then (en, Inr ())
                    else if is_directory (en_fs en) i \<or> is_directory (en_fs en) j then (en, io_fail OtherKind)
                    else (set_fs (add_entry b i (del_entry a (en_fs en))) en, Inr ())
                | (Some i, None) \<Rightarrow> (set_fs (add_entry b i (del_entry a (en_fs en))) en, Inr ()))
           | (Inl e, _) \<Rightarrow> (en, Inl e)
           | (_, Inl e) \<Rightarrow> (en, Inl e)))"

text \<open>Writes through an open handle, and \<open>chmod\<close>.\<close>

definition append_inode :: "inode \<Rightarrow> bytes \<Rightarrow> fsys \<Rightarrow> fsys" where
  "append_inode i bs fs =
     (case node_at fs i of Some (File old mode) \<Rightarrow> set_node i (File (old @ bs) mode) fs | _ \<Rightarrow> fs)"

definition set_permissions :: "path \<Rightarrow> u32 \<Rightarrow> env \<Rightarrow> env \<times> unit io_result" where
  "set_permissions p mode en0 =
     (case sys en0 of
        (en, Some e) \<Rightarrow> (en, Inl e)
      | (en, None) \<Rightarrow>
          (case resolve (en_fs en) p of
             Inl e \<Rightarrow> (en, Inl e)
           | Inr pos \<Rightarrow>
               (case node_at (en_fs en) (inode_of pos) of
                  Some (File bs _) \<Rightarrow> (set_fs (set_node (inode_of pos) (File bs mode) (en_fs en)) en, Inr ())
                | _ \<Rightarrow> (en, Inr ()))))"

section \<open>The registry of temporary files\<close>

definition PENDING_UPLOADS_RECORD :: string where "PENDING_UPLOADS_RECORD = ''pending-uploads.json''"

definition persist_uploads :: "env \<Rightarrow> env \<times> unit io_result" where
  "persist_uploads en =
     (case (if en_paths en = [] then cs_remove (en_store en) PENDING_UPLOADS_RECORD
            else cs_write (en_store en) PENDING_UPLOADS_RECORD (Some (sort (en_paths en))) BestEffort) of
        (d, r) \<Rightarrow> (en\<lparr>en_store := d\<rparr>, r))"

fun dec :: "nat \<Rightarrow> string" where
  "dec n = (if n < 10 then [char_of (48 + n)] else dec (n div 10) @ [char_of (48 + n mod 10)])"

declare dec.simps [simp del]

definition temporary_name :: "transfer_id \<Rightarrow> string" where
  "temporary_name i = ''.portty-upload-'' @ dec (unat i) @ ''.part''"

definition is_ascii_digit :: "char \<Rightarrow> bool" where
  "is_ascii_digit c \<longleftrightarrow> 48 \<le> (of_char c :: nat) \<and> of_char c \<le> (57 :: nat)"

definition temporary_like :: "string \<Rightarrow> bool" where
  "temporary_like name \<longleftrightarrow>
     prefix ''.portty-upload-'' name \<and> suffix ''.part'' (drop 15 name) \<and>
     (let i = take (length name - 20) (drop 15 name) in i \<noteq> [] \<and> list_all is_ascii_digit i)"

definition valid_upload_temporary :: "path \<Rightarrow> bool" where
  "valid_upload_temporary p \<longleftrightarrow>
     is_absolute p \<and> (case file_name p of None \<Rightarrow> False | Some name \<Rightarrow> temporary_like name)"

fun open_paths :: "path list \<Rightarrow> env \<Rightarrow> env \<times> (path list \<times> nat) io_result" where
  "open_paths [] en = (en, Inr ([], 0))"
| "open_paths (p # ps) en =
     (if \<not> valid_upload_temporary p then (en, io_fail InvalidData)
      else case remove_file p en of
        (en1, r) \<Rightarrow>
          (case open_paths ps en1 of
             (en2, Inl e) \<Rightarrow> (en2, Inl e)
           | (en2, Inr (remaining, removed)) \<Rightarrow>
               (case r of
                  Inr _ \<Rightarrow> (en2, Inr (remaining, Suc removed))
                | Inl e \<Rightarrow>
                    if io_error_kind e = NotFound then (en2, Inr (remaining, removed))
                    else (en2, Inr (List.insert p remaining, removed)))))"

definition cleanup_open :: "env \<Rightarrow> env \<times> nat io_result" where
  "cleanup_open en =
     (case cs_read (en_store en) PENDING_UPLOADS_RECORD of
        (d, Inl e) \<Rightarrow> (en\<lparr>en_store := d\<rparr>, Inl e)
      | (d, Inr (Some None)) \<Rightarrow> (en\<lparr>en_store := d\<rparr>, io_fail InvalidData)
      | (d, Inr content) \<Rightarrow>
          (case open_paths (case content of Some (Some ps) \<Rightarrow> ps | _ \<Rightarrow> []) (en\<lparr>en_store := d\<rparr>) of
             (en1, Inl e) \<Rightarrow> (en1, Inl e)
           | (en1, Inr (remaining, removed)) \<Rightarrow>
               (case persist_uploads (en1\<lparr>en_paths := remaining\<rparr>) of
                  (en2, Inl e) \<Rightarrow> (en2, Inl e)
                | (en2, Inr _) \<Rightarrow> (en2, Inr removed))))"

definition track_upload :: "path \<Rightarrow> env \<Rightarrow> env \<times> unit io_result" where
  "track_upload p en =
     (if \<not> valid_upload_temporary p then (en, io_fail InvalidInput)
      else if p \<in> set (en_paths en) then (en, io_fail AlreadyExists)
      else case persist_uploads (en\<lparr>en_paths := p # en_paths en\<rparr>) of
        (en1, Inl e) \<Rightarrow> (en1\<lparr>en_paths := en_paths en\<rparr>, Inl e)
      | (en1, Inr _) \<Rightarrow> (en1, Inr ()))"

definition forget_upload :: "path \<Rightarrow> env \<Rightarrow> env" where
  "forget_upload p en =
     (if p \<notin> set (en_paths en) then en
      else case persist_uploads (en\<lparr>en_paths := removeAll p (en_paths en)\<rparr>) of
        (en1, Inl e) \<Rightarrow> en1\<lparr>en_paths := p # en_paths en1\<rparr>
      | (en1, Inr _) \<Rightarrow> en1)"

section \<open>Transfers of one connection\<close>

definition MAX_REMEMBERED_DOWNLOADS :: nat where "MAX_REMEMBERED_DOWNLOADS = 8"
definition MAX_ACTIVE_TRANSFERS :: nat where "MAX_ACTIVE_TRANSFERS = 4"
definition DEFAULT_MAX_TRANSFER_BYTES :: u64 where "DEFAULT_MAX_TRANSFER_BYTES = 4 * 1024 * 1024 * 1024"

record upload =
  up_target :: path
  up_temporary :: path
  up_inode :: inode
  up_expected_size :: u64
  up_written :: u64
  up_next_seq :: u64
  up_mode :: "u32 option"
  up_hashed :: bytes

text \<open>A handle of a download task is whether the task has finished.\<close>

record transfers =
  tr_home :: path
  tr_max_transfer_bytes :: u64
  tr_downloads :: "(transfer_id, path) hashmap"
  tr_download_order :: "transfer_id list"
  tr_active_downloads :: "(transfer_id, bool) hashmap"
  tr_uploads :: "(transfer_id, upload) hashmap"

definition new_transfers :: "fsys \<Rightarrow> path \<Rightarrow> u64 \<Rightarrow> transfers" where
  "new_transfers fs home max_transfer_bytes =
     \<lparr>tr_home = (case canonicalize fs home of Inl _ \<Rightarrow> home | Inr h \<Rightarrow> h), tr_max_transfer_bytes = max_transfer_bytes,
      tr_downloads = [], tr_download_order = [], tr_active_downloads = [], tr_uploads = []\<rparr>"

type_synonym 'a result = "string + 'a"

definition check_size :: "transfers \<Rightarrow> u64 \<Rightarrow> unit result" where
  "check_size tr n =
     (if tr_max_transfer_bytes tr > 0 \<and> n > tr_max_transfer_bytes tr then Inl ''transfer exceeds the host cap'' else Inr ())"

definition prune_finished_downloads :: "transfers \<Rightarrow> transfers" where
  "prune_finished_downloads tr = tr\<lparr>tr_active_downloads := filter (\<lambda>(_, finished). \<not> finished) (tr_active_downloads tr)\<rparr>"

definition active_transfers :: "transfers \<Rightarrow> nat" where
  "active_transfers tr = length (tr_active_downloads tr) + length (tr_uploads tr)"

definition check_active_slot :: "transfers \<Rightarrow> transfers \<times> unit result" where
  "check_active_slot tr0 =
     (let tr = prune_finished_downloads tr0 in
      if active_transfers tr \<ge> MAX_ACTIVE_TRANSFERS then (tr, Inl ''connection already has 4 active file transfers'')
      else (tr, Inr ()))"

fun evict_downloads :: "transfer_id list \<Rightarrow> (transfer_id, path) hashmap \<Rightarrow> transfer_id list \<times> (transfer_id, path) hashmap" where
  "evict_downloads order ds =
     (if length order > MAX_REMEMBERED_DOWNLOADS
      then (case order of [] \<Rightarrow> (order, ds) | old # rest \<Rightarrow> evict_downloads rest (hm_remove old ds))
      else (order, ds))"

declare evict_downloads.simps [simp del]

definition remember_download :: "transfer_id \<Rightarrow> path \<Rightarrow> transfers \<Rightarrow> transfers" where
  "remember_download i p tr =
     (let (order, ds) =
        (if hm_contains (tr_downloads tr) i then (tr_download_order tr, tr_downloads tr)
         else evict_downloads (tr_download_order tr @ [i]) (tr_downloads tr))
      in tr\<lparr>tr_download_order := order, tr_downloads := hm_insert i p ds\<rparr>)"

definition candidate :: "transfers \<Rightarrow> path \<Rightarrow> path result" where
  "candidate tr p =
     (if p = [] then Inl ''file path is empty'' else Inr (if is_absolute p then p else join (tr_home tr) p))"

definition check_inside_home :: "transfers \<Rightarrow> path \<Rightarrow> bool \<Rightarrow> unit result" where
  "check_inside_home tr canonical allow_outside =
     (if allow_outside \<or> starts_with canonical (tr_home tr) then Inr ()
      else Inl ''path is outside the home directory of the host user'')"

text \<open>The checks of \<open>start_download\<close>: the path to stream, or the reason sent back.\<close>

definition start_download ::
  "transfer_id \<Rightarrow> path \<Rightarrow> bool \<Rightarrow> fsys \<Rightarrow> transfers \<Rightarrow> transfers \<times> path result" where
  "start_download i p allow_outside fs tr0 =
     (case check_active_slot tr0 of
        (tr, Inl reason) \<Rightarrow> (tr, Inl reason)
      | (tr, Inr _) \<Rightarrow>
          if hm_contains (tr_active_downloads tr) i \<or> hm_contains (tr_uploads tr) i
          then (tr, Inl ''transfer id is already active'')
          else case candidate tr p of
            Inl reason \<Rightarrow> (tr, Inl reason)
          | Inr requested \<Rightarrow>
              (case canonicalize fs requested of
                 Inl _ \<Rightarrow> (tr, Inl ''cannot open'')
               | Inr canonical \<Rightarrow>
                   (case check_inside_home tr canonical allow_outside of
                      Inl reason \<Rightarrow> (tr, Inl reason)
                    | Inr _ \<Rightarrow>
                        (case fs_read fs canonical of
                           Inl _ \<Rightarrow> (tr, Inl ''requested path is not a regular file'')
                         | Inr content \<Rightarrow>
                             (case check_size tr (word_of_nat (length content)) of
                                Inl reason \<Rightarrow> (tr, Inl reason)
                              | Inr _ \<Rightarrow>
                                  ((remember_download i canonical tr)
                                     \<lparr>tr_active_downloads := hm_insert i False (tr_active_downloads tr)\<rparr>, Inr canonical))))))"

definition retry_download :: "transfer_id \<Rightarrow> transfers \<Rightarrow> transfers \<times> path result" where
  "retry_download i tr0 =
     (case check_active_slot (tr0\<lparr>tr_active_downloads := hm_remove i (tr_active_downloads tr0)\<rparr>) of
        (tr, Inl reason) \<Rightarrow> (tr, Inl reason)
      | (tr, Inr _) \<Rightarrow>
          (case hm_get (tr_downloads tr) i of
             Some p \<Rightarrow> (tr\<lparr>tr_active_downloads := hm_insert i False (tr_active_downloads tr)\<rparr>, Inr p)
           | None \<Rightarrow> (tr, Inl ''transfer is no longer available; start it again'')))"

definition cancel_download :: "transfer_id \<Rightarrow> transfers \<Rightarrow> transfers" where
  "cancel_download i tr0 =
     (let tr = tr0\<lparr>tr_active_downloads := hm_remove i (tr_active_downloads tr0)\<rparr> in
      if hm_contains (tr_downloads tr) i
      then tr\<lparr>tr_downloads := hm_remove i (tr_downloads tr), tr_download_order := filter (\<lambda>d. d \<noteq> i) (tr_download_order tr)\<rparr>
      else tr)"

section \<open>Uploads\<close>

text \<open>Remove the temporary file and, once it is gone, its entry in the registry.\<close>

definition discard_temporary :: "path \<Rightarrow> env \<Rightarrow> env" where
  "discard_temporary p en =
     (case remove_file p en of
        (en1, r) \<Rightarrow>
          if (case r of Inr _ \<Rightarrow> True | Inl e \<Rightarrow> io_error_kind e = NotFound) then forget_upload p en1 else en1)"

definition cancel_upload :: "transfer_id \<Rightarrow> env \<Rightarrow> transfers \<Rightarrow> env \<times> transfers" where
  "cancel_upload i en tr =
     (case hm_get (tr_uploads tr) i of
        None \<Rightarrow> (en, tr)
      | Some up \<Rightarrow> (discard_temporary (up_temporary up) en, tr\<lparr>tr_uploads := hm_remove i (tr_uploads tr)\<rparr>))"

definition start_upload ::
  "transfer_id \<Rightarrow> path \<Rightarrow> u64 \<Rightarrow> u32 option \<Rightarrow> bool \<Rightarrow> env \<Rightarrow> transfers \<Rightarrow> env \<times> transfers \<times> unit result" where
  "start_upload i p size0 mode allow_outside en tr0 =
     (case check_active_slot tr0 of
        (tr, Inl reason) \<Rightarrow> (en, tr, Inl reason)
      | (tr, Inr _) \<Rightarrow>
          if hm_contains (tr_uploads tr) i \<or> hm_contains (tr_active_downloads tr) i
          then (en, tr, Inl ''upload id is already active'')
          else case check_size tr size0 of
            Inl reason \<Rightarrow> (en, tr, Inl reason)
          | Inr _ \<Rightarrow>
              (case candidate tr p of
                 Inl reason \<Rightarrow> (en, tr, Inl reason)
               | Inr target0 \<Rightarrow>
                   (case parent target0 of
                      None \<Rightarrow> (en, tr, Inl ''upload path has no parent directory'')
                    | Some up \<Rightarrow>
                        (case canonicalize (en_fs en) up of
                           Inl _ \<Rightarrow> (en, tr, Inl ''cannot open upload directory'')
                         | Inr folder \<Rightarrow>
                             (case check_inside_home tr folder allow_outside of
                                Inl reason \<Rightarrow> (en, tr, Inl reason)
                              | Inr _ \<Rightarrow>
                                  (case file_name target0 of
                                     None \<Rightarrow> (en, tr, Inl ''upload path has no file name'')
                                   | Some name \<Rightarrow>
                                       (let temporary = join folder (temporary_name i) in
                                        case track_upload temporary en of
                                          (en1, Inl _) \<Rightarrow> (en1, tr, Inl ''cannot register upload temporary file'')
                                        | (en1, Inr _) \<Rightarrow>
                                            (case create_new temporary 384 en1 of
                                               (en2, Inl _) \<Rightarrow>
                                                 (forget_upload temporary en2, tr, Inl ''cannot create upload temporary file'')
                                             | (en2, Inr ino) \<Rightarrow>
                                                 (en2, tr\<lparr>tr_uploads := hm_insert i
                                                    \<lparr>up_target = join folder name, up_temporary = temporary, up_inode = ino,
                                                     up_expected_size = size0, up_written = 0, up_next_seq = 0,
                                                     up_mode = mode, up_hashed = []\<rparr> (tr_uploads tr)\<rparr>, Inr ())))))))))"

text \<open>\<open>short\<close> is how much of the chunk reaches the file when the write fails.\<close>

definition upload_chunk ::
  "nat \<Rightarrow> transfer_id \<Rightarrow> u64 \<Rightarrow> bytes \<Rightarrow> env \<Rightarrow> transfers \<Rightarrow> env \<times> transfers \<times> frame option result" where
  "upload_chunk short i seq bs en tr =
     (case hm_get (tr_uploads tr) i of
        None \<Rightarrow> (en, tr, Inl ''unknown upload id'')
      | Some up \<Rightarrow>
          if seq \<noteq> up_next_seq up then (en, tr, Inr (Some (FileRetry i (up_next_seq up))))
          else if length bs > FILE_CHUNK_BYTES then (en, tr, Inl ''file chunk exceeds the 16 KiB limit'')
          else let next_size = saturating_add (up_written up) (word_of_nat (length bs)) in
            if next_size > up_expected_size up then (en, tr, Inl ''upload exceeds its declared size'')
            else case sys en of
              (en1, Some _) \<Rightarrow>
                (set_fs (append_inode (up_inode up) (take short bs) (en_fs en1)) en1, tr, Inl ''could not write upload'')
            | (en1, None) \<Rightarrow>
                (set_fs (append_inode (up_inode up) bs (en_fs en1)) en1,
                 tr\<lparr>tr_uploads := hm_insert i
                   (up\<lparr>up_hashed := up_hashed up @ bs, up_written := next_size, up_next_seq := up_next_seq up + 1\<rparr>)
                   (tr_uploads tr)\<rparr>, Inr None))"

definition replace_verified_file :: "path \<Rightarrow> path \<Rightarrow> env \<Rightarrow> env \<times> unit io_result" where
  "replace_verified_file temporary target en =
     (case rename_file temporary target en of
        (en1, Inl e) \<Rightarrow> (en1, Inl e)
      | (en1, Inr _) \<Rightarrow> (case sys en1 of (en2, Some e) \<Rightarrow> (en2, Inl e) | (en2, None) \<Rightarrow> (en2, Inr ())))"

text \<open>The part of \<open>finish_upload\<close> that may fail.\<close>

definition commit_upload ::
  "(bytes \<Rightarrow> bytes) \<Rightarrow> transfer_id \<Rightarrow> u64 \<Rightarrow> bytes \<Rightarrow> upload \<Rightarrow> env \<Rightarrow> env \<times> frame result" where
  "commit_upload blake3 i size0 checksum up en =
     (if size0 \<noteq> up_expected_size up \<or> up_written up \<noteq> up_expected_size up then (en, Inl ''upload size mismatch'')
      else if blake3 (up_hashed up) \<noteq> checksum then (en, Inl ''upload checksum mismatch'')
      else case sys en of
        (en1, Some _) \<Rightarrow> (en1, Inl ''could not flush upload'')
      | (en1, None) \<Rightarrow>
          (case sys en1 of
             (en2, Some _) \<Rightarrow> (en2, Inl ''could not sync upload'')
           | (en2, None) \<Rightarrow>
               (case (case up_mode up of None \<Rightarrow> (en2, Inr ()) | Some mode \<Rightarrow> set_permissions (up_temporary up) (mode AND 511) en2) of
                  (en3, Inl _) \<Rightarrow> (en3, Inl ''could not set upload mode'')
                | (en3, Inr _) \<Rightarrow>
                    (case replace_verified_file (up_temporary up) (up_target up) en3 of
                       (en4, Inl _) \<Rightarrow> (en4, Inl ''could not commit upload'')
                     | (en4, Inr _) \<Rightarrow> (en4, Inr (FileDone i size0 (blake3 (up_hashed up))))))))"

definition finish_upload ::
  "(bytes \<Rightarrow> bytes) \<Rightarrow> transfer_id \<Rightarrow> u64 \<Rightarrow> bytes \<Rightarrow> env \<Rightarrow> transfers \<Rightarrow> env \<times> transfers \<times> frame result" where
  "finish_upload blake3 i size0 checksum en tr0 =
     (case hm_get (tr_uploads tr0) i of
        None \<Rightarrow> (en, tr0, Inl ''unknown upload id'')
      | Some up \<Rightarrow>
          (let tr = tr0\<lparr>tr_uploads := hm_remove i (tr_uploads tr0)\<rparr> in
           case commit_upload blake3 i size0 checksum up en of
             (en1, Inr reply) \<Rightarrow> (forget_upload (up_temporary up) en1, tr, Inr reply)
           | (en1, Inl reason) \<Rightarrow> (discard_temporary (up_temporary up) en1, tr, Inl reason)))"

text \<open>The end of a connection.\<close>

definition drop_transfers :: "transfers \<Rightarrow> env \<Rightarrow> env" where
  "drop_transfers tr en = foldl (\<lambda>en (_, up). discard_temporary (up_temporary up) en) en (tr_uploads tr)"

section \<open>Downloads\<close>

record file_meta =
  fm_len :: u64
  fm_modified :: "nat option"

text \<open>
  Filling the buffer: \<open>reads\<close> is what successive reads deliver, an empty read is the end of the file. A
  read returns at most the room that is left.
\<close>

fun fill :: "nat \<Rightarrow> bytes io_result list \<Rightarrow> (bytes \<times> bytes io_result list) io_result" where
  "fill room [] = Inr ([], [])"
| "fill room (Inl e # rs) = (if room = 0 then Inr ([], Inl e # rs) else Inl e)"
| "fill room (Inr bs # rs) =
     (if room = 0 then Inr ([], Inr bs # rs)
      else if bs = [] then Inr ([], rs)
      else if length bs \<le> room then
        (case fill (room - length bs) rs of Inl e \<Rightarrow> Inl e | Inr (buf, rest) \<Rightarrow> Inr (bs @ buf, rest))
      else Inr (take room bs, Inr (drop room bs) # rs))"

definition read_size :: "bytes io_result list \<Rightarrow> nat" where
  "read_size rs = sum_list (map (\<lambda>r. case r of Inl _ \<Rightarrow> 0 | Inr bs \<Rightarrow> length bs) rs)"

lemma fill_size: "fill room rs = Inr (buf, rest) \<Longrightarrow> read_size rs = length buf + read_size rest \<and> length buf \<le> room"
  by (induction room rs arbitrary: buf rule: fill.induct)
    (auto simp: read_size_def split: if_splits sum.splits prod.splits)

text \<open>One pass over the file: every byte is hashed, chunks from \<open>start_seq\<close> on are sent.\<close>

function download_pass ::
  "transfer_id \<Rightarrow> u64 \<Rightarrow> u64 \<Rightarrow> bytes io_result list \<Rightarrow> bytes \<Rightarrow> frame list \<times> bytes result" where
  "download_pass i start_seq seq rs hashed =
     (case fill FILE_CHUNK_BYTES rs of
        Inl _ \<Rightarrow> ([], Inl ''cannot read download'')
      | Inr (buf, rest) \<Rightarrow>
          if buf = [] then ([], Inr hashed)
          else let sent = (if seq \<ge> start_seq then [FileChunk i seq buf] else [])
            in if length buf < FILE_CHUNK_BYTES then (sent, Inr (hashed @ buf))
               else (case download_pass i start_seq (seq + 1) rest (hashed @ buf) of (fs, r) \<Rightarrow> (sent @ fs, r)))"
  by pat_completeness auto
termination
  by (relation "measure (\<lambda>(_, _, _, rs, _). read_size rs)") (auto dest!: fill_size simp flip: length_greater_0_conv)

declare download_pass.simps [simp del]

definition saturating_mul :: "u64 \<Rightarrow> u64 \<Rightarrow> u64" where
  "saturating_mul a b = (if unat a * unat b < 2 ^ 64 then a * b else - 1)"

text \<open>
  The task of a download: what opening the file gave, what the reads deliver, and what the file's
  metadata is afterwards.
\<close>

definition spawn_download ::
  "(bytes \<Rightarrow> bytes) \<Rightarrow> transfer_id \<Rightarrow> u64 \<Rightarrow> file_meta io_result \<Rightarrow> bytes io_result list \<Rightarrow> file_meta io_result \<Rightarrow> frame list" where
  "spawn_download blake3 i start_seq opened rs current =
     (case opened of
        Inl _ \<Rightarrow> [FileErr i ''cannot open download'']
      | Inr meta \<Rightarrow>
          if saturating_mul start_seq (word_of_nat FILE_CHUNK_BYTES) > fm_len meta
          then [FileErr i ''resume point is beyond the end of the file'']
          else case download_pass i start_seq 0 rs [] of
            (sent, Inl reason) \<Rightarrow> sent @ [FileErr i reason]
          | (sent, Inr hashed) \<Rightarrow>
              if (case current of Inl _ \<Rightarrow> True | Inr now \<Rightarrow> fm_len now \<noteq> fm_len meta \<or> fm_modified now \<noteq> fm_modified meta)
              then sent @ [FileErr i ''file changed during download; start the transfer again'']
              else sent @ [FileDone i (fm_len meta) (blake3 hashed)])"

section \<open>Entries of uploads\<close>

definition located :: "fsys \<Rightarrow> path \<Rightarrow> position \<Rightarrow> string \<Rightarrow> bool" where
  "located fs p pos s \<longleftrightarrow> dir_position fs pos \<and> proper_name s \<and> p = join (path_of pos) s"

definition fs_good :: "fsys \<Rightarrow> bool" where
  "fs_good fs \<longleftrightarrow> fs_ok fs \<and> is_directory fs (inode_of (fs_cwd fs))"

text \<open>What may differ: the entries in \<open>D\<close> and the contents of the inodes in \<open>I\<close>.\<close>

definition changes :: "(inode \<times> string) set \<Rightarrow> inode set \<Rightarrow> fsys \<Rightarrow> fsys \<Rightarrow> bool" where
  "changes D I fs fs' \<longleftrightarrow>
     keeps_tree fs fs' \<and> (\<forall>d s i. dent fs d s = Some i \<longrightarrow> (d, s) \<notin> D \<longrightarrow> dent fs' d s = Some i) \<and>
     (\<forall>i b m. node_at fs i = Some (File b m) \<longrightarrow> i \<notin> I \<longrightarrow> node_at fs' i = Some (File b m))"

lemma located_locate: "fs_good fs \<Longrightarrow> located fs p pos s \<Longrightarrow> locate_path fs False p = Inr (pos, s)"
  by (auto simp: located_def fs_good_def elim!: dir_positionE intro: locate_path_leaf)

lemma changes_located: "changes D I fs fs' \<Longrightarrow> located fs p pos s \<Longrightarrow> located fs' p pos s"
  using keeps_tree_position by (auto simp: changes_def located_def)

lemma changes_good: "changes D I fs fs' \<Longrightarrow> fs_good fs \<Longrightarrow> fs_good fs'"
  using keeps_tree_ok by (auto simp: changes_def fs_good_def keeps_tree_def)

lemma fs_good_bound: "fs_good fs \<Longrightarrow> \<forall>i \<in> fst ` set (fs_nodes fs). i < fs_next fs"
  by (simp add: fs_good_def fs_ok_def)

lemma node_bound: "fs_good fs \<Longrightarrow> node_at fs i = Some nd \<Longrightarrow> i < fs_next fs"
  using fs_good_bound map_of_SomeD by fastforce

lemma changes_refl [simp]: "fs_good fs \<Longrightarrow> changes D I fs fs"
  using fs_good_bound by (auto simp: changes_def keeps_tree_def)

lemma changes_mono: "changes D I fs fs' \<Longrightarrow> D \<subseteq> D' \<Longrightarrow> I \<subseteq> I' \<Longrightarrow> changes D' I' fs fs'"
  unfolding changes_def by (metis subsetD)

lemma changes_trans: "changes D I fs fs1 \<Longrightarrow> changes D I fs1 fs2 \<Longrightarrow> changes D I fs fs2"
proof -
  assume a: "changes D I fs fs1" and b: "changes D I fs1 fs2"
  have "keeps_tree fs fs2"
    using a b by (auto simp: changes_def keeps_tree_def intro: order_trans)
  then show ?thesis using a b unfolding changes_def by (intro conjI) blast+
qed

lemma file_not_directory: "node_at fs i = Some (File b m) \<Longrightarrow> \<not> is_directory fs i"
  by (simp add: is_directory_def)

text \<open>The elementary changes of uploads.\<close>

lemma changes_new_file:
  assumes "fs_good fs" "is_directory fs (inode_of pos)" "dent fs (inode_of pos) s = None"
  shows "changes {} {} fs (new_file (pos, s) b m fs) \<and>
    dent (new_file (pos, s) b m fs) (inode_of pos) s = Some (fs_next fs) \<and>
    node_at (new_file (pos, s) b m fs) (fs_next fs) = Some (File b m)"
proof -
  obtain es where es: "node_at fs (inode_of pos) = Some (Dir es)"
    using assms(2) by (auto simp: is_directory_def split: option.splits node.splits)
  have ok: "fs_ok fs" using assms(1) by (simp add: fs_good_def)
  have bound: "inode_of pos < fs_next fs" using node_bound [OF assms(1) es] .
  note nodes = new_file_nodes [OF ok, of "(pos, s)" es b m, simplified, OF es]
  have "\<forall>i \<in> fst ` set (fs_nodes (new_file (pos, s) b m fs)). i < fs_next (new_file (pos, s) b m fs)"
    using fs_good_bound [OF assms(1)] by (auto simp: new_file_def inodes_set_node)
  moreover have "fs_next (new_file (pos, s) b m fs) = fs_next fs + 1" "fs_cwd (new_file (pos, s) b m fs) = fs_cwd fs"
    by (simp_all add: new_file_def)
  ultimately show ?thesis
    using assms(3) es bound fs_ok_fresh [OF ok]
    by (auto simp: changes_def keeps_tree_def dent_def is_directory_def nodes split: option.splits node.splits)
qed

lemma changes_del_entry:
  assumes "fs_good fs" "dent fs (inode_of pos) s = Some i" "\<not> is_directory fs i"
  shows "changes {(inode_of pos, s)} {} fs (del_entry (pos, s) fs) \<and> dent (del_entry (pos, s) fs) (inode_of pos) s = None"
  using assms fs_good_bound [OF assms(1)]
  by (auto simp: changes_def keeps_tree_def dent_del_entry node_entries file_not_directory)

lemma changes_rename:
  assumes "fs_good fs" "dent fs (inode_of p) s = Some i" "\<not> is_directory fs i" "is_directory fs (inode_of q)"
    and "(inode_of p, s) \<noteq> (inode_of q, t)" "\<And>j. dent fs (inode_of q) t = Some j \<Longrightarrow> \<not> is_directory fs j"
  shows "changes {(inode_of p, s), (inode_of q, t)} {} fs (add_entry (q, t) i (del_entry (p, s) fs)) \<and>
    dent (add_entry (q, t) i (del_entry (p, s) fs)) (inode_of q) t = Some i"
  using assms fs_good_bound [OF assms(1)]
  by (auto simp: changes_def keeps_tree_def dent_del_entry dent_add_entry node_entries file_not_directory)

lemma changes_set_file:
  assumes "fs_good fs" "node_at fs i = Some (File b0 m0)"
  shows "changes {} {i} fs (set_node i (File b m) fs)"
  using assms fs_good_bound [OF assms(1)] node_bound [OF assms] file_not_directory [OF assms(2)]
  by (auto simp: changes_def keeps_tree_def dent_set_node is_directory_set_node inodes_set_node dest: dent_directory)
    (simp_all add: set_node_def dent_def)

section \<open>One upload\<close>

definition upload_at :: "fsys \<Rightarrow> upload \<Rightarrow> position \<Rightarrow> string \<Rightarrow> bool" where
  "upload_at fs up pos s \<longleftrightarrow>
     located fs (up_temporary up) pos s \<and> temporary_like s \<and> dent fs (inode_of pos) s = Some (up_inode up) \<and>
     (\<exists>m. node_at fs (up_inode up) = Some (File (up_hashed up) m)) \<and> length (up_hashed up) = unat (up_written up)"

definition target_at :: "fsys \<Rightarrow> upload \<Rightarrow> position \<Rightarrow> string \<Rightarrow> bool" where
  "target_at fs up pos t \<longleftrightarrow> located fs (up_target up) pos t \<and> \<not> temporary_like t"

definition upload_ok :: "fsys \<Rightarrow> upload \<Rightarrow> bool" where
  "upload_ok fs up \<longleftrightarrow> (\<exists>pos s. upload_at fs up pos s) \<and> (\<exists>pos t. target_at fs up pos t)"

text \<open>An upload is not disturbed by changes to other entries and files.\<close>

lemma upload_ok_frame:
  assumes "upload_ok fs up" "changes D I fs fs'" "up_inode up \<notin> I"
    and "\<And>d s. (d, s) \<in> D \<Longrightarrow> temporary_like s \<Longrightarrow> dent fs d s \<noteq> Some (up_inode up)"
  shows "upload_ok fs' up"
proof -
  obtain pos s q t where u: "upload_at fs up pos s" "target_at fs up q t" using assms(1) by (auto simp: upload_ok_def)
  have "(inode_of pos, s) \<notin> D" using assms(4) u(1) by (auto simp: upload_at_def)
  then have "upload_at fs' up pos s"
    using u(1) assms(2,3) changes_located by (auto simp: upload_at_def changes_def)
  moreover have "target_at fs' up q t" using u(2) assms(2) changes_located by (auto simp: target_at_def)
  ultimately show ?thesis by (auto simp: upload_ok_def)
qed

lemma sys_frame: "sys en = (en', f) \<Longrightarrow> en_fs en' = en_fs en \<and> en_paths en' = en_paths en \<and> en_store en' = en_store en"
  by (auto simp: sys_def split: list.splits)

lemma set_fs_fields [simp]: "en_fs (set_fs fs en) = fs" "en_paths (set_fs fs en) = en_paths en"
    "en_store (set_fs fs en) = en_store en" "en_faults (set_fs fs en) = en_faults en"
  by (simp_all add: set_fs_def)

lemma persist_uploads_fs: "persist_uploads en = (en', r) \<Longrightarrow> en_fs en' = en_fs en \<and> en_paths en' = en_paths en"
  by (auto simp: persist_uploads_def split: prod.splits)

lemma track_upload_fs: "track_upload p en = (en', r) \<Longrightarrow> en_fs en' = en_fs en"
  by (auto simp: track_upload_def split: if_splits prod.splits sum.splits dest: persist_uploads_fs)

lemma forget_upload_fs [simp]: "en_fs (forget_upload p en) = en_fs en"
  by (auto simp: forget_upload_def split: prod.splits sum.splits dest: persist_uploads_fs)

lemma remove_file_spec:
  assumes "fs_good (en_fs en)" "located (en_fs en) p pos s" "remove_file p en = (en', r)"
  shows "changes {(inode_of pos, s)} {} (en_fs en) (en_fs en') \<and> en_paths en' = en_paths en \<and> en_store en' = en_store en \<and>
    (r = Inr () \<longrightarrow> dent (en_fs en') (inode_of pos) s = None)"
proof -
  obtain en1 f where s: "sys en = (en1, f)" by (cases "sys en")
  note e = sys_frame [OF s]
  have l: "locate_path (en_fs en1) False p = Inr (pos, s)" using located_locate assms(1,2) e by simp
  show ?thesis
    using assms(1,3) s l e changes_del_entry [OF assms(1), of pos s]
    by (auto simp: remove_file_def entry_dent io_fail_def split: option.splits if_splits)
qed

lemma create_new_spec:
  assumes "fs_good (en_fs en)" "located (en_fs en) p pos s" "create_new p m en = (en', r)"
  shows "changes {} {} (en_fs en) (en_fs en') \<and>
    (\<forall>i. r = Inr i \<longrightarrow> i = fs_next (en_fs en) \<and> dent (en_fs en') (inode_of pos) s = Some i \<and>
       node_at (en_fs en') i = Some (File [] m))"
proof -
  obtain en1 f where s: "sys en = (en1, f)" by (cases "sys en")
  note e = sys_frame [OF s]
  have l: "locate_path (en_fs en1) False p = Inr (pos, s)" using located_locate assms(1,2) e by simp
  have d: "is_directory (en_fs en) (inode_of pos)" using assms(2) by (simp add: located_def dir_position_def)
  show ?thesis
    using assms(1,3) s l e changes_new_file [OF assms(1) d, of s]
    by (auto simp: create_new_def entry_dent io_fail_def split: option.splits if_splits)
qed

lemma rename_file_spec:
  assumes good: "fs_good (en_fs en)" and src: "located (en_fs en) p pos s" "dent (en_fs en) (inode_of pos) s = Some i"
    "node_at (en_fs en) i = Some (File b m)" and dst: "located (en_fs en) p' q t"
    and step: "rename_file p p' en = (en', r)"
  shows "changes {(inode_of pos, s), (inode_of q, t)} {} (en_fs en) (en_fs en') \<and>
    (r = Inr () \<longrightarrow> dent (en_fs en') (inode_of q) t = Some i)"
proof -
  obtain en1 f where s: "sys en = (en1, f)" by (cases "sys en")
  note e = sys_frame [OF s]
  have l: "locate_path (en_fs en1) False p = Inr (pos, s)" "locate_path (en_fs en1) False p' = Inr (q, t)"
    using located_locate [OF good] src(1) dst e by simp_all
  have d: "is_directory (en_fs en) (inode_of q)" "\<not> is_directory (en_fs en) i"
    using dst src(3) by (simp_all add: located_def dir_position_def file_not_directory)
  show ?thesis
  proof (cases "dent (en_fs en) (inode_of q) t = Some i")
    case True
    then show ?thesis
      using step s l e src(2) good by (auto simp: rename_file_def entry_dent split: option.splits)
  next
    case False
    then have "(inode_of pos, s) \<noteq> (inode_of q, t)" using src(2) by auto
    note moved = changes_rename [OF good src(2) d(2) d(1) this]
    show ?thesis
      using False step s l e src(2) good d moved
      by (auto simp: rename_file_def entry_dent io_fail_def split: option.splits if_splits)
  qed
qed

lemma resolve_located:
  assumes "fs_good fs" "located fs p pos s" "dent fs (inode_of pos) s = Some i" "node_at fs i = Some (File b m)"
  shows "resolve fs p = Inr ((s, i) # pos)"
proof -
  have "linked fs ((s, i) # pos)"
    using assms(2-4) by (simp add: located_def dir_position_def real_entry_dent)
  then show ?thesis
    using resolve_path_of [of fs "(s, i) # pos"] path_of_Cons [of fs s i pos] assms(1,2)
    by (simp add: fs_good_def located_def)
qed

lemma set_permissions_spec:
  assumes "fs_good (en_fs en)" "located (en_fs en) p pos s" "dent (en_fs en) (inode_of pos) s = Some i"
    "node_at (en_fs en) i = Some (File b m)" "set_permissions p m' en = (en', r)"
  shows "changes {} {i} (en_fs en) (en_fs en') \<and> (\<exists>m''. node_at (en_fs en') i = Some (File b m''))"
proof -
  obtain en1 f where s: "sys en = (en1, f)" by (cases "sys en")
  note e = sys_frame [OF s]
  have "resolve (en_fs en1) p = Inr ((s, i) # pos)" using resolve_located [OF assms(1-4)] e by simp
  then show ?thesis
    using assms(1,4,5) s e changes_set_file [OF assms(1,4), of b m']
    by (auto simp: set_permissions_def set_node_def split: option.splits)
qed

lemma changes_dent: "changes D I fs fs' \<Longrightarrow> dent fs d s = Some i \<Longrightarrow> (d, s) \<notin> D \<Longrightarrow> dent fs' d s = Some i"
  by (simp add: changes_def)

lemma changes_file:
  "changes D I fs fs' \<Longrightarrow> node_at fs i = Some (File b m) \<Longrightarrow> i \<notin> I \<Longrightarrow> node_at fs' i = Some (File b m)"
  by (simp add: changes_def)

lemma replace_verified_file_spec:
  assumes "fs_good (en_fs en)" "located (en_fs en) p pos s" "dent (en_fs en) (inode_of pos) s = Some i"
    "node_at (en_fs en) i = Some (File b m)" "located (en_fs en) p' q t" "replace_verified_file p p' en = (en', r)"
  shows "changes {(inode_of pos, s), (inode_of q, t)} {} (en_fs en) (en_fs en') \<and>
    (r = Inr () \<longrightarrow> dent (en_fs en') (inode_of q) t = Some i)"
proof -
  obtain en1 r1 where r1: "rename_file p p' en = (en1, r1)" by (cases "rename_file p p' en")
  show ?thesis
    using rename_file_spec [OF assms(1-5) r1] assms(6) r1
    by (auto simp: replace_verified_file_def split: sum.splits prod.splits option.splits dest: sys_frame)
qed

text \<open>Committing touches the temporary entry, the target entry and the mode of the file.\<close>

lemma commit_upload_spec:
  assumes good: "fs_good (en_fs en)" and up: "upload_at (en_fs en) up pos s" "target_at (en_fs en) up q t"
    and step: "commit_upload blake3 i n checksum up en = (en', r)"
  shows "changes {(inode_of pos, s), (inode_of q, t)} {up_inode up} (en_fs en) (en_fs en') \<and>
    (\<exists>m. node_at (en_fs en') (up_inode up) = Some (File (up_hashed up) m)) \<and>
    (\<forall>reply. r = Inr reply \<longrightarrow>
       reply = FileDone i n checksum \<and> blake3 (up_hashed up) = checksum \<and> length (up_hashed up) = unat n \<and>
       dent (en_fs en') (inode_of q) t = Some (up_inode up))"
proof (cases "n = up_expected_size up \<and> up_written up = up_expected_size up \<and> blake3 (up_hashed up) = checksum")
  case False
  then show ?thesis using step good up(1) by (auto simp: commit_upload_def upload_at_def split: if_splits)
next
  case True
  obtain m where u: "located (en_fs en) (up_temporary up) pos s" "dent (en_fs en) (inode_of pos) s = Some (up_inode up)"
      "node_at (en_fs en) (up_inode up) = Some (File (up_hashed up) m)" "length (up_hashed up) = unat (up_written up)"
    using up(1) by (auto simp: upload_at_def)
  have tgt: "located (en_fs en) (up_target up) q t" using up(2) by (simp add: target_at_def)
  let ?D = "{(inode_of pos, s), (inode_of q, t)}" and ?I = "{up_inode up}"
  obtain en1 f1 where s1: "sys en = (en1, f1)" by (cases "sys en")
  obtain en2 f2 where s2: "sys en1 = (en2, f2)" by (cases "sys en1")
  note e = sys_frame [OF s1] sys_frame [OF s2]
  obtain en3 r3 where s3: "(case up_mode up of None \<Rightarrow> (en2, Inr ())
      | Some mode \<Rightarrow> set_permissions (up_temporary up) (mode AND 511) en2) = (en3, r3)" by fastforce
  have c3: "changes {} ?I (en_fs en) (en_fs en3) \<and> (\<exists>m. node_at (en_fs en3) (up_inode up) = Some (File (up_hashed up) m))"
    using s3 e u(3) good set_permissions_spec [of en2 "up_temporary up" pos s "up_inode up" "up_hashed up" m] u
    by (cases "up_mode up") auto
  then obtain m3 where m3: "node_at (en_fs en3) (up_inode up) = Some (File (up_hashed up) m3)" by blast
  obtain en4 r4 where s4: "replace_verified_file (up_temporary up) (up_target up) en3 = (en4, r4)"
    by (cases "replace_verified_file (up_temporary up) (up_target up) en3")
  have c4: "changes ?D {} (en_fs en3) (en_fs en4)" "r4 = Inr () \<longrightarrow> dent (en_fs en4) (inode_of q) t = Some (up_inode up)"
    using replace_verified_file_spec [OF changes_good [OF _ good] changes_located [OF _ u(1)] _ m3 changes_located [OF _ tgt] s4]
      c3 changes_dent [OF _ u(2), of "{}" ?I "en_fs en3"] by auto
  have all: "changes ?D ?I (en_fs en) (en_fs en3)" "changes ?D ?I (en_fs en) (en_fs en4)"
    using changes_mono [of "{}" ?I] changes_trans [of ?D ?I] changes_mono [OF c4(1), of ?D ?I] c3 by blast+
  have "node_at (en_fs en4) (up_inode up) = Some (File (up_hashed up) m3)" using changes_file [OF c4(1) m3] by simp
  moreover have "(en_fs en' = en_fs en \<or> en_fs en' = en_fs en3 \<or> en_fs en' = en_fs en4) \<and>
      (\<forall>reply. r = Inr reply \<longrightarrow> r4 = Inr () \<and> en' = en4 \<and> reply = FileDone i n checksum)"
    using step True s1 s2 s3 s4 e
    by (cases f1; cases f2; cases r3; cases r4) (simp_all add: commit_upload_def, auto)
  ultimately show ?thesis
    using True all m3 c4(2) u(3,4) good by auto
qed

lemma discard_temporary_spec:
  assumes "fs_good (en_fs en)" "located (en_fs en) p pos s"
  shows "changes {(inode_of pos, s)} {} (en_fs en) (en_fs (discard_temporary p en))"
proof -
  obtain en1 r where r: "remove_file p en = (en1, r)" by (cases "remove_file p en")
  then show ?thesis using remove_file_spec [OF assms r] by (auto simp: discard_temporary_def)
qed

section \<open>All connections\<close>

record file_world =
  wd_env :: env
  wd_conns :: "(nat, transfers) hashmap"

datatype file_event =
    OpenConn nat path u64
  | PutReq nat transfer_id path u64 "u32 option" bool
  | PutChunk nat nat transfer_id u64 bytes
  | PutDone nat transfer_id u64 bytes
  | PeerErr nat transfer_id
  | GetReq nat transfer_id path bool
  | GetRetry nat transfer_id
  | GetEnded nat transfer_id
  | CloseConn nat

definition on_conn :: "nat \<Rightarrow> (env \<Rightarrow> transfers \<Rightarrow> env \<times> transfers) \<Rightarrow> file_world \<Rightarrow> file_world" where
  "on_conn c f w =
     (case hm_get (wd_conns w) c of
        None \<Rightarrow> w
      | Some tr \<Rightarrow> (case f (wd_env w) tr of (en, tr') \<Rightarrow> w\<lparr>wd_env := en, wd_conns := hm_insert c tr' (wd_conns w)\<rparr>))"

text \<open>The frames of one connection as \<open>handle_client\<close> treats them; a refused chunk cancels its upload.\<close>

fun file_step :: "(bytes \<Rightarrow> bytes) \<Rightarrow> file_world \<Rightarrow> file_event \<Rightarrow> file_world" where
  "file_step blake3 w (OpenConn c home limit) =
     (case hm_get (wd_conns w) c of
        Some _ \<Rightarrow> w
      | None \<Rightarrow> w\<lparr>wd_conns := hm_insert c (new_transfers (en_fs (wd_env w)) home limit) (wd_conns w)\<rparr>)"
| "file_step blake3 w (PutReq c i p n mode allow_outside) =
     on_conn c (\<lambda>en tr. case start_upload i p n mode allow_outside en tr of (en', tr', _) \<Rightarrow> (en', tr')) w"
| "file_step blake3 w (PutChunk c short i seq bs) =
     on_conn c (\<lambda>en tr. case upload_chunk short i seq bs en tr of
        (en', tr', Inl _) \<Rightarrow> cancel_upload i en' tr'
      | (en', tr', Inr _) \<Rightarrow> (en', tr')) w"
| "file_step blake3 w (PutDone c i n checksum) =
     on_conn c (\<lambda>en tr. case finish_upload blake3 i n checksum en tr of (en', tr', _) \<Rightarrow> (en', tr')) w"
| "file_step blake3 w (PeerErr c i) = on_conn c (\<lambda>en tr. cancel_upload i en (cancel_download i tr)) w"
| "file_step blake3 w (GetReq c i p allow_outside) =
     on_conn c (\<lambda>en tr. (en, fst (start_download i p allow_outside (en_fs en) tr))) w"
| "file_step blake3 w (GetRetry c i) = on_conn c (\<lambda>en tr. (en, fst (retry_download i tr))) w"
| "file_step blake3 w (GetEnded c i) =
     on_conn c (\<lambda>en tr. (en, if hm_contains (tr_active_downloads tr) i
        then tr\<lparr>tr_active_downloads := hm_insert i True (tr_active_downloads tr)\<rparr> else tr)) w"
| "file_step blake3 w (CloseConn c) =
     (case hm_get (wd_conns w) c of
        None \<Rightarrow> w
      | Some tr \<Rightarrow> w\<lparr>wd_env := drop_transfers tr (wd_env w), wd_conns := hm_remove c (wd_conns w)\<rparr>)"

text \<open>No upload is aimed at a name of the form the host gives its temporary files.\<close>

fun apart :: "file_world \<Rightarrow> file_event \<Rightarrow> bool" where
  "apart w (PutReq c i p n mode allow_outside) =
     (n \<noteq> - 1 \<and>
      (case hm_get (wd_conns w) c of
         None \<Rightarrow> True
       | Some tr \<Rightarrow>
           (case candidate tr p of
              Inl _ \<Rightarrow> True
            | Inr target \<Rightarrow> (case file_name target of None \<Rightarrow> True | Some name \<Rightarrow> \<not> temporary_like name))))"
| "apart w _ = True"

section \<open>Uploads do not disturb each other\<close>

type_synonym live = "nat \<times> transfer_id \<Rightarrow> upload option"

definition live :: "file_world \<Rightarrow> live" where
  "live w = (\<lambda>(c, i). case hm_get (wd_conns w) c of None \<Rightarrow> None | Some tr \<Rightarrow> hm_get (tr_uploads tr) i)"

definition live_inv :: "fsys \<Rightarrow> live \<Rightarrow> bool" where
  "live_inv fs L \<longleftrightarrow>
     fs_good fs \<and> (\<forall>k up. L k = Some up \<longrightarrow> upload_ok fs up \<and> up_expected_size up \<noteq> - 1) \<and>
     (\<forall>k k' up up'. L k = Some up \<longrightarrow> L k' = Some up' \<longrightarrow> k \<noteq> k' \<longrightarrow> up_inode up \<noteq> up_inode up')"

lemma live_inv_good: "live_inv fs L \<Longrightarrow> fs_good fs"
  by (simp add: live_inv_def)

lemma live_inv_ok: "live_inv fs L \<Longrightarrow> L k = Some up \<Longrightarrow> upload_ok fs up \<and> up_expected_size up \<noteq> - 1"
  unfolding live_inv_def by blast

lemma live_inv_distinct:
  "live_inv fs L \<Longrightarrow> L k = Some up \<Longrightarrow> L k' = Some up' \<Longrightarrow> k \<noteq> k' \<Longrightarrow> up_inode up \<noteq> up_inode up'"
  unfolding live_inv_def by blast

lemma live_invI:
  assumes "fs_good fs" "\<And>k up. L k = Some up \<Longrightarrow> upload_ok fs up \<and> up_expected_size up \<noteq> - 1"
    and "\<And>k k' up up'. L k = Some up \<Longrightarrow> L k' = Some up' \<Longrightarrow> k \<noteq> k' \<Longrightarrow> up_inode up \<noteq> up_inode up'"
  shows "live_inv fs L"
  using assms unfolding live_inv_def by blast

lemma live_inv_changes:
  assumes "live_inv fs L" "L k = Some up" "changes D {up_inode up} fs fs'"
    and "\<And>d s. (d, s) \<in> D \<Longrightarrow> temporary_like s \<Longrightarrow> dent fs d s = Some (up_inode up)"
    and "\<And>up'. v = Some up' \<Longrightarrow> upload_ok fs' up' \<and> up_inode up' = up_inode up \<and> up_expected_size up' \<noteq> - 1"
  shows "live_inv fs' (L(k := v))"
proof -
  have others: "upload_ok fs' up2" "up_inode up2 \<noteq> up_inode up" if "L k2 = Some up2" "k2 \<noteq> k" for k2 up2
    using live_inv_distinct [OF assms(1) that(1) assms(2) that(2)] live_inv_ok [OF assms(1) that(1)]
      upload_ok_frame [OF _ assms(3), of up2] assms(4) by auto
  show ?thesis
  proof (rule live_invI)
    show "fs_good fs'" using changes_good [OF assms(3) live_inv_good [OF assms(1)]] .
  next
    fix k2 up2 assume "(L(k := v)) k2 = Some up2"
    then show "upload_ok fs' up2 \<and> up_expected_size up2 \<noteq> - 1"
      using others live_inv_ok [OF assms(1)] assms(5) by (cases "k2 = k") auto
  next
    fix k1 k2 up1 up2
    assume "(L(k := v)) k1 = Some up1" "(L(k := v)) k2 = Some up2" "k1 \<noteq> k2"
    then show "up_inode up1 \<noteq> up_inode up2"
      using others(2) [of k1 up1] others(2) [of k2 up2] assms(5) live_inv_distinct [OF assms(1), of k1 up1 k2 up2] by (cases "k1 = k"; cases "k2 = k") auto
  qed
qed

lemma upload_ok_bound: "fs_good fs \<Longrightarrow> upload_ok fs up \<Longrightarrow> up_inode up < fs_next fs"
  using node_bound by (auto simp: upload_ok_def upload_at_def)

lemma live_inv_new:
  assumes "live_inv fs L" "changes {} {} fs fs'" "upload_ok fs' up" "up_inode up = fs_next fs" "up_expected_size up \<noteq> - 1"
    and "L k = None"
  shows "live_inv fs' (L(k := Some up))"
proof -
  have others: "upload_ok fs' up2" "up_inode up2 \<noteq> fs_next fs" if "L k2 = Some up2" for k2 up2
    using live_inv_ok [OF assms(1) that] upload_ok_frame [OF _ assms(2), of up2] upload_ok_bound [OF live_inv_good [OF assms(1)], of up2]
    by auto
  show ?thesis
  proof (rule live_invI)
    show "fs_good fs'" using changes_good [OF assms(2) live_inv_good [OF assms(1)]] .
  next
    fix k2 up2 assume "(L(k := Some up)) k2 = Some up2"
    then show "upload_ok fs' up2 \<and> up_expected_size up2 \<noteq> - 1"
      using others live_inv_ok [OF assms(1)] assms(3,5) by (cases "k2 = k") auto
  next
    fix k1 k2 up1 up2
    assume "(L(k := Some up)) k1 = Some up1" "(L(k := Some up)) k2 = Some up2" "k1 \<noteq> k2"
    then show "up_inode up1 \<noteq> up_inode up2"
      using others(2) [of k1 up1] others(2) [of k2 up2] assms(4) live_inv_distinct [OF assms(1), of k1 up1 k2 up2] by (cases "k1 = k"; cases "k2 = k") auto
  qed
qed

lemma dec_digits: "dec n \<noteq> [] \<and> list_all is_ascii_digit (dec n)"
proof (induction n rule: dec.induct)
  case (1 n)
  have "is_ascii_digit (char_of (48 + k))" if "k < 10" for k :: nat
    using that by (simp add: is_ascii_digit_def)
  then show ?case using 1 by (subst (1 2) dec.simps) auto
qed

lemma temporary_name_like: "temporary_like (temporary_name i)"
  using dec_digits [of "unat i"] by (simp add: temporary_like_def temporary_name_def suffix_def Let_def)

lemma temporary_name_proper: "proper_name (temporary_name i)"
proof -
  have "slash \<notin> set (dec (unat i))"
    using dec_digits [of "unat i"] by (auto simp: list_all_iff is_ascii_digit_def)
  then show ?thesis by (auto simp: proper_name_def temporary_name_def)
qed

lemma create_new_no_directory:
  assumes "fs_good (en_fs en)" "linked (en_fs en) pos" "proper_name s" "\<not> is_directory (en_fs en) (inode_of pos)"
    and "create_new (join (path_of pos) s) m en = (en', r)"
  shows "isl r \<and> en_fs en' = en_fs en"
proof -
  obtain en1 f where s: "sys en = (en1, f)" by (cases "sys en")
  note e = sys_frame [OF s]
  have "isl (locate_path (en_fs en1) False (join (path_of pos) s))"
    using assms(1,4) e locate_path_join [OF _ assms(2,3), of False]
    by (auto simp: fs_good_def is_directory_def io_fail_def split: option.splits node.splits)
  then show ?thesis
    using assms(5) s e by (auto simp: create_new_def split: option.splits sum.splits)
qed

text \<open>What each operation does to the live uploads.\<close>

lemma discard_live:
  assumes "live_inv (en_fs en) L" "L k = Some up"
  shows "live_inv (en_fs (discard_temporary (up_temporary up) en)) (L(k := None))"
proof -
  obtain pos s where u: "upload_at (en_fs en) up pos s"
    using live_inv_ok [OF assms] by (auto simp: upload_ok_def)
  then have "changes {(inode_of pos, s)} {} (en_fs en) (en_fs (discard_temporary (up_temporary up) en))"
    using discard_temporary_spec [OF live_inv_good [OF assms(1)]] by (auto simp: upload_at_def)
  then have "changes {(inode_of pos, s)} {up_inode up} (en_fs en) (en_fs (discard_temporary (up_temporary up) en))"
    by (rule changes_mono) auto
  then show ?thesis
    by (rule live_inv_changes [OF assms]) (use u in \<open>auto simp: upload_at_def\<close>)
qed

lemma finish_live:
  assumes "live_inv (en_fs en) L" "L k = Some up" "commit_upload blake3 i n checksum up en = (en1, r)"
  shows "live_inv (en_fs en1) (L(k := None)) \<and> live_inv (en_fs (discard_temporary (up_temporary up) en1)) (L(k := None))"
proof -
  note good = live_inv_good [OF assms(1)]
  obtain pos s q t where u: "upload_at (en_fs en) up pos s" "target_at (en_fs en) up q t"
    using live_inv_ok [OF assms(1,2)] by (auto simp: upload_ok_def)
  let ?D = "{(inode_of pos, s), (inode_of q, t)}" and ?I = "{up_inode up}"
  have c1: "changes ?D ?I (en_fs en) (en_fs en1)"
    using commit_upload_spec [OF good u assms(3)] by blast
  have "located (en_fs en1) (up_temporary up) pos s"
    using changes_located [OF c1] u(1) by (simp add: upload_at_def)
  then have "changes {(inode_of pos, s)} {} (en_fs en1) (en_fs (discard_temporary (up_temporary up) en1))"
    using discard_temporary_spec [OF changes_good [OF c1 good]] by blast
  then have c2: "changes ?D ?I (en_fs en) (en_fs (discard_temporary (up_temporary up) en1))"
    using changes_trans [OF c1] changes_mono by blast
  have D: "dent (en_fs en) d x = Some (up_inode up)" if "(d, x) \<in> ?D" "temporary_like x" for d x
    using that u by (auto simp: upload_at_def target_at_def)
  show ?thesis
    using live_inv_changes [OF assms(1,2) c1 D, of None] live_inv_changes [OF assms(1,2) c2 D, of None] by simp
qed

lemma chunk_length:
  assumes "saturating_add w (word_of_nat (length bs)) \<le> (limit :: u64)" "limit \<noteq> - 1" "length bs \<le> FILE_CHUNK_BYTES"
  shows "unat (saturating_add w (word_of_nat (length bs))) = unat w + length bs"
proof -
  have "unat (word_of_nat (length bs) :: u64) = length bs"
    using assms(3) by (simp add: unat_of_nat FILE_CHUNK_BYTES_def)
  moreover have "saturating_add w (word_of_nat (length bs)) \<noteq> - 1"
    using assms(1,2) word_order.extremum_uniqueI by metis
  ultimately show ?thesis
    by (auto simp: saturating_add_def unat_plus_no_overflow split: if_splits)
qed

lemma upload_chunk_live:
  assumes "live_inv (en_fs en) L" "L k = hm_get (tr_uploads tr) i" "upload_chunk short i seq bs en tr = (en', tr', r)"
  shows "live_inv (en_fs en') (L(k := hm_get (tr_uploads tr') i)) \<or>
    (\<exists>up. isl r \<and> tr' = tr \<and> hm_get (tr_uploads tr) i = Some up \<and>
       live_inv (en_fs (discard_temporary (up_temporary up) en')) (L(k := None)))"
proof (cases "hm_get (tr_uploads tr) i")
  case None
  then show ?thesis using assms by (auto simp: upload_chunk_def fun_upd_idem)
next
  case (Some up)
  have k: "L k = Some up" using Some assms(2) by simp
  note good = live_inv_good [OF assms(1)]
  obtain pos s q t m where u: "upload_at (en_fs en) up pos s" "target_at (en_fs en) up q t"
      "node_at (en_fs en) (up_inode up) = Some (File (up_hashed up) m)"
    using live_inv_ok [OF assms(1) k] by (auto simp: upload_ok_def upload_at_def)
  obtain en1 f where s: "sys en = (en1, f)" by (cases "sys en")
  note e = sys_frame [OF s]
  have app: "append_inode (up_inode up) xs (en_fs en) = set_node (up_inode up) (File (up_hashed up @ xs) m) (en_fs en)" for xs
    using u(3) by (simp add: append_inode_def)
  have ch: "changes {} {up_inode up} (en_fs en) (append_inode (up_inode up) xs (en_fs en))" for xs
    unfolding app by (rule changes_set_file [OF good u(3)])
  let ?next = "saturating_add (up_written up) (word_of_nat (length bs))"
  show ?thesis
  proof (cases "seq = up_next_seq up \<and> length bs \<le> FILE_CHUNK_BYTES \<and> ?next \<le> up_expected_size up")
    case False
    then have "en' = en" "tr' = tr"
      using assms(3) Some by (auto simp: upload_chunk_def Let_def not_le split: if_splits)
    then show ?thesis using assms(1,2) by (simp add: fun_upd_idem)
  next
    case True
    then have fits: "seq = up_next_seq up" "\<not> length bs > FILE_CHUNK_BYTES" "\<not> ?next > up_expected_size up"
      by (simp_all add: not_less)
    show ?thesis
    proof (cases f)
      case None
      let ?up = "up\<lparr>up_hashed := up_hashed up @ bs, up_written := ?next, up_next_seq := up_next_seq up + 1\<rparr>"
      have len: "length (up_hashed up @ bs) = unat ?next"
        using chunk_length [of "up_written up" bs "up_expected_size up"] True u(1) live_inv_ok [OF assms(1) k]
        by (simp add: upload_at_def)
      have "upload_at (append_inode (up_inode up) bs (en_fs en)) ?up pos s" "target_at (append_inode (up_inode up) bs (en_fs en)) ?up q t"
        using u ch [of bs] len changes_located [OF ch] changes_dent [OF ch]
        by (auto simp: upload_at_def target_at_def app set_node_def)
      then have "upload_ok (append_inode (up_inode up) bs (en_fs en)) ?up" by (auto simp: upload_ok_def)
      then have "live_inv (append_inode (up_inode up) bs (en_fs en)) (L(k := Some ?up))"
        using live_inv_ok [OF assms(1) k] by (intro live_inv_changes [OF assms(1) k ch]) auto
      then show ?thesis
        using assms(3) fits Some None s e by (auto simp: upload_chunk_def Let_def)
    next
      case (Some x)
      then have r: "isl r" "tr' = tr" "en_fs en' = append_inode (up_inode up) (take short bs) (en_fs en)"
        using assms(3) fits \<open>hm_get (tr_uploads tr) i = Some up\<close> s e by (auto simp: upload_chunk_def Let_def)
      have "located (en_fs en') (up_temporary up) pos s"
        using changes_located [OF ch] u(1) r(3) by (simp add: upload_at_def)
      then have "changes {(inode_of pos, s)} {} (en_fs en') (en_fs (discard_temporary (up_temporary up) en'))"
        using changes_good [OF ch good] r(3) by (intro discard_temporary_spec) auto
      then have "changes {(inode_of pos, s)} {up_inode up} (en_fs en') (en_fs (discard_temporary (up_temporary up) en'))"
        by (rule changes_mono) auto
      moreover have "changes {(inode_of pos, s)} {up_inode up} (en_fs en) (en_fs en')"
        unfolding r(3) by (rule changes_mono [OF ch]) auto
      ultimately have "changes {(inode_of pos, s)} {up_inode up} (en_fs en) (en_fs (discard_temporary (up_temporary up) en'))"
        by (rule changes_trans [rotated])
      then have "live_inv (en_fs (discard_temporary (up_temporary up) en')) (L(k := None))"
        by (rule live_inv_changes [OF assms(1) k]) (use u in \<open>auto simp: upload_at_def\<close>)
      then show ?thesis using r \<open>hm_get (tr_uploads tr) i = Some up\<close> by blast
    qed
  qed
qed

lemma create_new_refused: "create_new p m en = (en', Inl e) \<Longrightarrow> en_fs en' = en_fs en"
  by (auto simp: create_new_def io_fail_def split: prod.splits option.splits sum.splits dest: sys_frame)

lemma check_active_slot_keeps:
  "check_active_slot tr = (tr', r) \<Longrightarrow> tr_uploads tr' = tr_uploads tr \<and> tr_home tr' = tr_home tr"
  by (auto simp: check_active_slot_def prune_finished_downloads_def Let_def split: if_splits)

lemma start_upload_cases:
  assumes "start_upload i p n mode allow en tr = (en', tr', r)"
  obtains (refused) "en_fs en' = en_fs en" "tr_uploads tr' = tr_uploads tr"
  | (started) target up folder name en1 ino where
      "candidate tr p = Inr target" "canonicalize (en_fs en) up = Inr folder" "file_name target = Some name"
      "en_fs en1 = en_fs en" "create_new (join folder (temporary_name i)) 384 en1 = (en', Inr ino)"
      "hm_get (tr_uploads tr) i = None"
      "tr_uploads tr' = hm_insert i \<lparr>up_target = join folder name, up_temporary = join folder (temporary_name i),
         up_inode = ino, up_expected_size = n, up_written = 0, up_next_seq = 0, up_mode = mode, up_hashed = []\<rparr> (tr_uploads tr)"
proof -
  obtain tr1 r1 where t: "check_active_slot tr = (tr1, r1)" by (cases "check_active_slot tr")
  note k = check_active_slot_keeps [OF t]
  have c: "candidate tr1 p = candidate tr p" using k by (simp add: candidate_def)
  show ?thesis
    using assms t k c refused
    by (auto simp: start_upload_def Let_def hm_contains_def split: sum.splits if_splits option.splits prod.splits
        dest!: track_upload_fs create_new_refused) (erule (2) started [OF sym]; simp)
qed

lemma start_upload_live:
  assumes inv: "live_inv (en_fs en) L" and k: "L k = hm_get (tr_uploads tr) i"
    and apart: "n \<noteq> - 1" "\<forall>target name. candidate tr p = Inr target \<longrightarrow> file_name target = Some name \<longrightarrow> \<not> temporary_like name"
    and step: "start_upload i p n mode allow en tr = (en', tr', r)"
  shows "live_inv (en_fs en') (L(k := hm_get (tr_uploads tr') i))"
  using step
proof (cases rule: start_upload_cases)
  case refused
  then show ?thesis using inv k by (simp add: fun_upd_idem)
next
  case (started target up folder name en1 ino)
  note good = live_inv_good [OF inv]
  obtain pos where pos: "linked (en_fs en) pos" "folder = path_of pos"
    using canonicalize_resolves [OF started(2)] good by (auto simp: fs_good_def)
  have dir: "is_directory (en_fs en) (inode_of pos)"
    using create_new_no_directory [of en1 pos "temporary_name i" 384 en' "Inr ino"] good pos started(4,5) temporary_name_proper
    by auto
  then have loc: "located (en_fs en) (join folder s) pos s" if "proper_name s" for s
    using pos that by (simp add: located_def dir_position_def)
  have new: "changes {} {} (en_fs en) (en_fs en')" "ino = fs_next (en_fs en)"
      "dent (en_fs en') (inode_of pos) (temporary_name i) = Some ino" "node_at (en_fs en') ino = Some (File [] 384)"
    using create_new_spec [OF _ _ started(5)] good loc [OF temporary_name_proper] started(4) by auto
  let ?up = "\<lparr>up_target = join folder name, up_temporary = join folder (temporary_name i),
         up_inode = ino, up_expected_size = n, up_written = 0, up_next_seq = 0, up_mode = mode, up_hashed = []\<rparr>"
  have "upload_at (en_fs en') ?up pos (temporary_name i)" "target_at (en_fs en') ?up pos name"
    using new(3,4) changes_located [OF new(1) loc] temporary_name_proper temporary_name_like file_name_proper [OF started(3)]
      apart(2) started(1,3) by (auto simp: upload_at_def target_at_def)
  then have "upload_ok (en_fs en') ?up" by (auto simp: upload_ok_def)
  then show ?thesis
    using live_inv_new [OF inv new(1), of ?up k] new(2) apart(1) k started(6,7) by simp
qed

definition files_inv :: "file_world \<Rightarrow> bool" where
  "files_inv w \<longleftrightarrow>
     live_inv (en_fs (wd_env w)) (live w) \<and> (\<forall>c tr. hm_get (wd_conns w) c = Some tr \<longrightarrow> hm_wf (tr_uploads tr))"

lemma live_at: "hm_get (wd_conns w) c = Some tr \<Longrightarrow> live w (c, i) = hm_get (tr_uploads tr) i"
  by (simp add: live_def)

lemma live_update:
  assumes "hm_get (wd_conns w) c = Some tr" "\<And>j. j \<noteq> i \<Longrightarrow> hm_get (tr_uploads tr') j = hm_get (tr_uploads tr) j"
  shows "live (w\<lparr>wd_env := en, wd_conns := hm_insert c tr' (wd_conns w)\<rparr>) = (live w)((c, i) := hm_get (tr_uploads tr') i)"
  using assms by (auto simp: live_def fun_eq_iff split: option.splits)

text \<open>A step of one connection that changes at most one upload.\<close>

lemma on_conn_inv:
  assumes inv: "files_inv w"
    and step: "\<And>tr en tr'. hm_get (wd_conns w) c = Some tr \<Longrightarrow> f (wd_env w) tr = (en, tr') \<Longrightarrow>
      (\<forall>j. j \<noteq> i \<longrightarrow> hm_get (tr_uploads tr') j = hm_get (tr_uploads tr) j) \<and>
      (hm_wf (tr_uploads tr) \<longrightarrow> hm_wf (tr_uploads tr')) \<and>
      live_inv (en_fs en) ((live w)((c, i) := hm_get (tr_uploads tr') i))"
  shows "files_inv (on_conn c f w)"
proof (cases "hm_get (wd_conns w) c")
  case (Some tr)
  obtain en tr' where f: "f (wd_env w) tr = (en, tr')" by (cases "f (wd_env w) tr")
  have "live (w\<lparr>wd_env := en, wd_conns := hm_insert c tr' (wd_conns w)\<rparr>) = (live w)((c, i) := hm_get (tr_uploads tr') i)"
    using step [OF Some f] by (intro live_update [OF Some]) auto
  then show ?thesis
    using inv Some f step [OF Some f] by (auto simp: files_inv_def on_conn_def)
qed (use inv in \<open>simp add: on_conn_def\<close>)

lemma drop_live:
  assumes "live_inv (en_fs en) L" "distinct (map fst ups)" "\<And>i up. (i, up) \<in> set ups \<Longrightarrow> L (c, i) = Some up"
  shows "live_inv (en_fs (foldl (\<lambda>en (_, up). discard_temporary (up_temporary up) en) en ups))
    (\<lambda>k. if fst k = c \<and> snd k \<in> fst ` set ups then None else L k)"
  using assms
proof (induction ups arbitrary: en L)
  case (Cons x ups)
  obtain i up where x: "x = (i, up)" by (cases x)
  define L' where "L' = L((c, i) := None)"
  have "live_inv (en_fs (discard_temporary (up_temporary up) en)) L'"
    using Cons.prems x unfolding L'_def by (intro discard_live) auto
  moreover have "L' (c, j) = Some v" if "(j, v) \<in> set ups" for j v
    using Cons.prems(2,3) that x by (auto simp: image_iff L'_def)
  ultimately have "live_inv (en_fs (foldl (\<lambda>en (_, up). discard_temporary (up_temporary up) en) (discard_temporary (up_temporary up) en) ups))
      (\<lambda>k. if fst k = c \<and> snd k \<in> fst ` set ups then None else L' k)"
    using Cons.prems(2) by (intro Cons.IH) auto
  moreover have "(\<lambda>k. if fst k = c \<and> snd k \<in> fst ` set ups then None else L' k) =
      (\<lambda>k. if fst k = c \<and> snd k \<in> fst ` set (x # ups) then None else L k)"
    by (auto simp: fun_eq_iff x L'_def)
  ultimately show ?case by (simp add: x)
qed simp

lemma finish_upload_step:
  assumes "live_inv (en_fs en) L" "L k = hm_get (tr_uploads tr) i" "finish_upload blake3 i n checksum en tr = (en', tr', r)"
  shows "tr_uploads tr' = hm_remove i (tr_uploads tr) \<and> live_inv (en_fs en') (L(k := None))"
proof (cases "hm_get (tr_uploads tr) i")
  case None
  then have "hm_remove i (tr_uploads tr) = tr_uploads tr"
    by (intro hm_remove_absent) (auto simp: map_of_eq_None_iff)
  then show ?thesis using None assms by (auto simp: finish_upload_def fun_upd_idem)
next
  case (Some up)
  obtain en1 r1 where c: "commit_upload blake3 i n checksum up en = (en1, r1)" by (cases "commit_upload blake3 i n checksum up en")
  then show ?thesis
    using Some assms(3) finish_live [OF assms(1) _ c, of k] assms(2)
    by (auto simp: finish_upload_def Let_def split: sum.splits)
qed

lemma cancel_upload_step:
  assumes "live_inv (en_fs en) L" "L k = hm_get (tr_uploads tr) i" "cancel_upload i en tr = (en', tr')"
  shows "tr_uploads tr' = hm_remove i (tr_uploads tr) \<and> live_inv (en_fs en') (L(k := None))"
proof (cases "hm_get (tr_uploads tr) i")
  case None
  then have "hm_remove i (tr_uploads tr) = tr_uploads tr"
    by (intro hm_remove_absent) (auto simp: map_of_eq_None_iff)
  then show ?thesis using None assms by (auto simp: cancel_upload_def fun_upd_idem)
next
  case (Some up)
  then show ?thesis using assms discard_live [OF assms(1), of k up] by (auto simp: cancel_upload_def)
qed

lemma upload_chunk_uploads:
  "upload_chunk short i seq bs en tr = (en', tr', r) \<Longrightarrow>
     (\<forall>j. j \<noteq> i \<longrightarrow> hm_get (tr_uploads tr') j = hm_get (tr_uploads tr) j) \<and> (hm_wf (tr_uploads tr) \<longrightarrow> hm_wf (tr_uploads tr'))"
  by (auto simp: upload_chunk_def Let_def split: option.splits if_splits prod.splits)

lemma upload_chunk_step:
  assumes "live_inv (en_fs en) L" "L k = hm_get (tr_uploads tr) i" "upload_chunk short i seq bs en tr = (en', tr', r)"
  shows "(isl r \<longrightarrow> live_inv (en_fs (fst (cancel_upload i en' tr'))) (L(k := None))) \<and>
    (\<not> isl r \<longrightarrow> live_inv (en_fs en') (L(k := hm_get (tr_uploads tr') i)))"
  using upload_chunk_live [OF assms]
proof
  assume inv: "live_inv (en_fs en') (L(k := hm_get (tr_uploads tr') i))"
  obtain en2 tr2 where c: "cancel_upload i en' tr' = (en2, tr2)" by (cases "cancel_upload i en' tr'")
  show ?thesis using cancel_upload_step [OF inv _ c, of k] inv c by simp
qed (auto simp: cancel_upload_def)

lemma download_uploads [simp]:
  "tr_uploads (fst (start_download i p a fs tr)) = tr_uploads tr"
  "tr_uploads (fst (retry_download i tr)) = tr_uploads tr"
  "tr_uploads (cancel_download i tr) = tr_uploads tr"
  by (auto simp: start_download_def retry_download_def cancel_download_def remember_download_def Let_def
      split: prod.splits sum.splits option.splits if_splits dest!: check_active_slot_keeps)

lemma start_upload_uploads:
  "start_upload i p n mode a en tr = (en', tr', r) \<Longrightarrow>
     (\<forall>j. j \<noteq> i \<longrightarrow> hm_get (tr_uploads tr') j = hm_get (tr_uploads tr) j) \<and> (hm_wf (tr_uploads tr) \<longrightarrow> hm_wf (tr_uploads tr'))"
  by (erule start_upload_cases) auto

interpretation file_world: conditional_invariant "file_step blake3" files_inv apart
proof
  fix w e
  assume inv: "files_inv w" and ok: "apart w e"
  have live: "live_inv (en_fs (wd_env w)) (live w)" using inv by (simp add: files_inv_def)
  have same: "files_inv (on_conn c f w)"
    if "\<And>tr en tr'. f (wd_env w) tr = (en, tr') \<Longrightarrow> en = wd_env w \<and> tr_uploads tr' = tr_uploads tr" for c f
    using that live by (intro on_conn_inv [OF inv, where i = 0]) (auto simp: live_at [symmetric])
  show "files_inv (file_step blake3 w e)"
  proof (cases e)
    case (OpenConn c home limit)
    show ?thesis
    proof (cases "hm_get (wd_conns w) c")
      case None
      then have "live (w\<lparr>wd_conns := hm_insert c (new_transfers fs home limit) (wd_conns w)\<rparr>) = live w" for fs
        by (auto simp: live_def fun_eq_iff new_transfers_def split: option.splits)
      then show ?thesis using OpenConn None inv by (auto simp: files_inv_def new_transfers_def)
    qed (use OpenConn inv in simp)
  next
    case (PutReq c i p n mode allow)
    show ?thesis
      unfolding PutReq file_step.simps
    proof (rule on_conn_inv [OF inv])
      fix tr en tr'
      assume tr: "hm_get (wd_conns w) c = Some tr"
        and "(case start_upload i p n mode allow (wd_env w) tr of (en', tr', _) \<Rightarrow> (en', tr')) = (en, tr')"
      then obtain r where s: "start_upload i p n mode allow (wd_env w) tr = (en, tr', r)" by (auto split: prod.splits)
      have "n \<noteq> - 1" "\<forall>target name. candidate tr p = Inr target \<longrightarrow> file_name target = Some name \<longrightarrow> \<not> temporary_like name"
        using ok PutReq tr by auto
      from start_upload_live [OF live live_at [OF tr] this s] start_upload_uploads [OF s]
      show "(\<forall>j. j \<noteq> i \<longrightarrow> hm_get (tr_uploads tr') j = hm_get (tr_uploads tr) j) \<and>
          (hm_wf (tr_uploads tr) \<longrightarrow> hm_wf (tr_uploads tr')) \<and> live_inv (en_fs en) ((live w)((c, i) := hm_get (tr_uploads tr') i))"
        by blast
    qed
  next
    case (PutChunk c short i seq bs)
    show ?thesis
      unfolding PutChunk file_step.simps
    proof (rule on_conn_inv [OF inv])
      fix tr en tr'
      assume tr: "hm_get (wd_conns w) c = Some tr"
        and f: "(case upload_chunk short i seq bs (wd_env w) tr of (en', tr', Inl _) \<Rightarrow> cancel_upload i en' tr'
          | (en', tr', Inr _) \<Rightarrow> (en', tr')) = (en, tr')"
      obtain en1 tr1 r where s: "upload_chunk short i seq bs (wd_env w) tr = (en1, tr1, r)" by (metis prod_cases3)
      from upload_chunk_step [OF live live_at [OF tr] s] upload_chunk_uploads [OF s] f s
      show "(\<forall>j. j \<noteq> i \<longrightarrow> hm_get (tr_uploads tr') j = hm_get (tr_uploads tr) j) \<and>
          (hm_wf (tr_uploads tr) \<longrightarrow> hm_wf (tr_uploads tr')) \<and> live_inv (en_fs en) ((live w)((c, i) := hm_get (tr_uploads tr') i))"
        by (cases r) (auto simp: cancel_upload_def split: option.splits)
    qed
  next
    case (PutDone c i n checksum)
    show ?thesis
      unfolding PutDone file_step.simps
    proof (rule on_conn_inv [OF inv])
      fix tr en tr'
      assume tr: "hm_get (wd_conns w) c = Some tr"
        and "(case finish_upload blake3 i n checksum (wd_env w) tr of (en', tr', _) \<Rightarrow> (en', tr')) = (en, tr')"
      then obtain r where s: "finish_upload blake3 i n checksum (wd_env w) tr = (en, tr', r)" by (auto split: prod.splits)
      from finish_upload_step [OF live live_at [OF tr] s]
      show "(\<forall>j. j \<noteq> i \<longrightarrow> hm_get (tr_uploads tr') j = hm_get (tr_uploads tr) j) \<and>
          (hm_wf (tr_uploads tr) \<longrightarrow> hm_wf (tr_uploads tr')) \<and> live_inv (en_fs en) ((live w)((c, i) := hm_get (tr_uploads tr') i))"
        by auto
    qed
  next
    case (PeerErr c i)
    show ?thesis
      unfolding PeerErr file_step.simps
    proof (rule on_conn_inv [OF inv])
      fix tr en tr'
      assume tr: "hm_get (wd_conns w) c = Some tr" and s: "cancel_upload i (wd_env w) (cancel_download i tr) = (en, tr')"
      from cancel_upload_step [OF live _ s, of "(c, i)"] live_at [OF tr]
      show "(\<forall>j. j \<noteq> i \<longrightarrow> hm_get (tr_uploads tr') j = hm_get (tr_uploads tr) j) \<and>
          (hm_wf (tr_uploads tr) \<longrightarrow> hm_wf (tr_uploads tr')) \<and> live_inv (en_fs en) ((live w)((c, i) := hm_get (tr_uploads tr') i))"
        by auto
    qed
  next
    case (CloseConn c)
    show ?thesis
    proof (cases "hm_get (wd_conns w) c")
      case (Some tr)
      have wf: "hm_wf (tr_uploads tr)" using inv Some by (auto simp: files_inv_def)
      have "live w (c, i) = Some up" if "(i, up) \<in> set (tr_uploads tr)" for i up
        using that wf Some by (simp add: live_def)
      note dropped = drop_live [OF live wf this]
      have "live (w\<lparr>wd_env := en, wd_conns := hm_remove c (wd_conns w)\<rparr>) =
          (\<lambda>k. if fst k = c \<and> snd k \<in> fst ` set (tr_uploads tr) then None else live w k)" for en
        using Some by (auto simp: live_def fun_eq_iff split: option.splits) (metis map_of_eq_None_iff)
      then show ?thesis
        using CloseConn Some dropped inv by (auto simp: files_inv_def drop_transfers_def)
    qed (use CloseConn inv in simp)
  qed (auto intro!: same)
qed

section \<open>What an upload installs\<close>

definition new_world :: "env \<Rightarrow> file_world" where
  "new_world en = \<lparr>wd_env = en, wd_conns = []\<rparr>"

lemma new_world_inv: "fs_good (en_fs en) \<Longrightarrow> files_inv (new_world en)"
  by (simp add: files_inv_def new_world_def live_inv_def live_def)

lemma finish_upload_installs:
  assumes inv: "files_inv w" and up: "hm_get (wd_conns w) c = Some tr" "hm_get (tr_uploads tr) i = Some up"
    and fin: "finish_upload blake3 i n checksum (wd_env w) tr = (en', tr', Inr reply)"
  shows "reply = FileDone i n checksum \<and> blake3 (up_hashed up) = checksum \<and> length (up_hashed up) = unat n \<and>
    fs_read (en_fs en') (up_target up) = Inr (up_hashed up)"
proof -
  have live: "live_inv (en_fs (wd_env w)) (live w)" "live w (c, i) = Some up"
    using inv up by (simp_all add: files_inv_def live_def)
  note good = live_inv_good [OF live(1)]
  obtain pos s q t where u: "upload_at (en_fs (wd_env w)) up pos s" "target_at (en_fs (wd_env w)) up q t"
    using live_inv_ok [OF live] by (auto simp: upload_ok_def)
  obtain en1 where c: "commit_upload blake3 i n checksum up (wd_env w) = (en1, Inr reply)" "en' = forget_upload (up_temporary up) en1"
    using fin up(2) by (auto simp: finish_upload_def Let_def split: prod.splits sum.splits)
  have spec: "changes {(inode_of pos, s), (inode_of q, t)} {up_inode up} (en_fs (wd_env w)) (en_fs en1)"
      "\<exists>m. node_at (en_fs en1) (up_inode up) = Some (File (up_hashed up) m)"
      "reply = FileDone i n checksum" "blake3 (up_hashed up) = checksum" "length (up_hashed up) = unat n"
      "dent (en_fs en1) (inode_of q) t = Some (up_inode up)"
    using commit_upload_spec [OF good u c(1)] by auto
  then obtain m where m: "node_at (en_fs en1) (up_inode up) = Some (File (up_hashed up) m)" by blast
  have "located (en_fs en1) (up_target up) q t"
    using changes_located [OF spec(1)] u(2) by (simp add: target_at_def)
  then have "resolve (en_fs en1) (up_target up) = Inr ((t, up_inode up) # q)"
    using resolve_located [OF changes_good [OF spec(1) good] _ spec(6) m] by blast
  then show ?thesis using spec(3-5) m c(2) by (simp add: fs_read_def)
qed

text \<open>
  C8. An upload is acknowledged only when what was verified is what is installed: in every interleaving
  of the transfers of all connections, with failing system calls, refused and repeated chunks, aborts
  and lost connections, and with no upload aimed at a name of the form of the host's own temporary
  files: when \<open>finish_upload\<close> answers \<open>FileDone\<close>, the bytes accepted for this upload have the announced
  length and checksum, and reading the target gives exactly these bytes.
\<close>

theorem upload_commits_verified:
  assumes "fs_good (en_fs en)" "run_ok (file_step blake3) apart (new_world en) es"
    and "w = foldl (file_step blake3) (new_world en) es"
    and "hm_get (wd_conns w) c = Some tr" "hm_get (tr_uploads tr) i = Some up"
    and "finish_upload blake3 i n checksum (wd_env w) tr = (en', tr', Inr reply)"
  shows "reply = FileDone i n checksum \<and> blake3 (up_hashed up) = checksum \<and> length (up_hashed up) = unat n \<and>
    fs_read (en_fs en') (up_target up) = Inr (up_hashed up)"
proof -
  have "files_inv w"
    unfolding assms(3) by (rule file_world.conditional_run [OF new_world_inv [OF assms(1)] assms(2)])
  from finish_upload_installs [OF this assms(4-6)] show ?thesis .
qed

definition home_fs :: fsys where
  "home_fs = \<lparr>fs_nodes = [(0, Dir [(''h'', 1)]), (1, Dir [(''a'', 2)]), (2, File [1] 420)], fs_next = 3, fs_cwd = []\<rparr>"

definition home_env :: env where
  "home_env = \<lparr>en_fs = home_fs, en_store = empty_disk [], en_paths = [], en_faults = []\<rparr>"

lemma home_fs_good: "fs_good (en_fs home_env)"
  by (simp add: home_env_def home_fs_def fs_good_def fs_ok_def root_dir_def is_directory_def)

definition put_world :: file_world where
  "put_world = foldl (file_step (\<lambda>bs. 9 # bs)) (new_world home_env) [OpenConn 1 ''/h'' 0, PutReq 1 7 ''a'' 1 None False]"

definition put_upload :: upload where
  "put_upload = \<lparr>up_target = ''/h/a'', up_temporary = ''/h/.portty-upload-7.part'', up_inode = 3, up_expected_size = 1,
     up_written = 0, up_next_seq = 0, up_mode = None, up_hashed = []\<rparr>"

definition put_conn :: transfers where
  "put_conn = \<lparr>tr_home = ''/h'', tr_max_transfer_bytes = 0, tr_downloads = [], tr_download_order = [],
     tr_active_downloads = [], tr_uploads = [(7, put_upload)]\<rparr>"

definition sent_env :: env where
  "sent_env = set_fs (append_inode 3 [8] (en_fs (wd_env put_world))) (wd_env put_world)"

definition sent_upload :: upload where
  "sent_upload = put_upload\<lparr>up_hashed := [8], up_written := 1, up_next_seq := 1\<rparr>"

definition sent_conn :: transfers where
  "sent_conn = put_conn\<lparr>tr_uploads := [(7, sent_upload)]\<rparr>"

lemma put_world_conns: "wd_conns put_world = [(1, put_conn)]"
  by code_simp

lemma put_world_sys: "en_faults (wd_env put_world) = []"
  by code_simp

lemma put_chunk: "upload_chunk 0 7 0 [8] (wd_env put_world) put_conn = (sent_env, sent_conn, Inr None)"
  by (simp add: upload_chunk_def put_conn_def put_upload_def FILE_CHUNK_BYTES_def sys_def put_world_sys saturating_add_def
      sent_env_def sent_conn_def sent_upload_def)

lemma sent_world:
  "foldl (file_step (\<lambda>bs. 9 # bs)) (new_world home_env) [OpenConn 1 ''/h'' 0, PutReq 1 7 ''a'' 1 None False, PutChunk 1 0 7 0 [8]] =
   \<lparr>wd_env = sent_env, wd_conns = [(1, sent_conn)]\<rparr>"
proof -
  have "file_step (\<lambda>bs. 9 # bs) put_world (PutChunk 1 0 7 0 [8]) = \<lparr>wd_env = sent_env, wd_conns = [(1, sent_conn)]\<rparr>"
    by (simp add: on_conn_def put_world_conns put_chunk)
  then show ?thesis by (simp add: put_world_def)
qed

lemma sent_ok:
  "run_ok (file_step (\<lambda>bs. 9 # bs)) apart (new_world home_env)
    [OpenConn 1 ''/h'' 0, PutReq 1 7 ''a'' 1 None False, PutChunk 1 0 7 0 [8]]"
proof -
  have "run_ok (file_step (\<lambda>bs. 9 # bs)) apart (new_world home_env) [OpenConn 1 ''/h'' 0, PutReq 1 7 ''a'' 1 None False]"
    by code_simp
  then show ?thesis by simp
qed

lemma sent_finishes:
  "case finish_upload (\<lambda>bs. 9 # bs) 7 1 [9, 8] sent_env sent_conn of (en, tr, r) \<Rightarrow> r = Inr (FileDone 7 1 [9, 8])"
  by code_simp

theorem upload_commits_verified_witness:
  "\<exists>en tr. finish_upload (\<lambda>bs. 9 # bs) 7 1 [9, 8] sent_env sent_conn = (en, tr, Inr (FileDone 7 1 [9, 8])) \<and>
    fs_read (en_fs en) ''/h/a'' = Inr [8]"
proof -
  obtain en tr where f: "finish_upload (\<lambda>bs. 9 # bs) 7 1 [9, 8] sent_env sent_conn = (en, tr, Inr (FileDone 7 1 [9, 8]))"
    using sent_finishes by (auto split: prod.splits)
  from upload_commits_verified [OF home_fs_good sent_ok sent_world [symmetric], of 1 sent_conn 7 sent_upload 1 "[9, 8]" en tr] f
  show ?thesis by (simp add: sent_world sent_conn_def sent_upload_def put_upload_def)
qed

text \<open>
  The restriction on names is needed: while upload 7 is in progress, a second upload aimed at
  \<open>.portty-upload-7.part\<close> replaces the temporary file, and \<open>finish_upload\<close> answers \<open>FileDone\<close> for 7 with the
  announced checksum although the target then holds the other upload's bytes.
\<close>

definition crossed_world :: file_world where
  "crossed_world = foldl (file_step (\<lambda>bs. 9 # bs)) \<lparr>wd_env = sent_env, wd_conns = [(1, sent_conn)]\<rparr>
     [PutReq 1 2 ''.portty-upload-7.part'' 0 None False, PutDone 1 2 0 [9]]"

lemma upload_through_temporary_name:
  "case hm_get (wd_conns crossed_world) 1 of
     None \<Rightarrow> False
   | Some tr \<Rightarrow>
       (case finish_upload (\<lambda>bs. 9 # bs) 7 1 [9, 8] (wd_env crossed_world) tr of
          (en, _, r) \<Rightarrow> r = Inr (FileDone 7 1 [9, 8]) \<and> fs_read (en_fs en) ''/h/a'' = Inr [])"
  by code_simp

section \<open>What a download sends\<close>

lemma fill_reads:
  "[] \<notin> set bss \<Longrightarrow>
   \<exists>rest. fill room (map Inr bss) = Inr (take room (concat bss), map Inr rest) \<and> concat rest = drop room (concat bss) \<and> [] \<notin> set rest"
proof (induction bss arbitrary: room)
  case (Cons bs bss)
  show ?case
  proof (cases "room < length bs")
    case True
    then show ?thesis
      using Cons.prems by (cases "room = 0") (auto intro: exI [of _ "bs # bss"] exI [of _ "drop room bs # bss"])
  next
    case False
    obtain rest where r: "fill (room - length bs) (map Inr bss) = Inr (take (room - length bs) (concat bss), map Inr rest)"
      "concat rest = drop (room - length bs) (concat bss)" "[] \<notin> set rest"
      using Cons by (metis list.set_intros(2))
    moreover have "room \<noteq> 0" using Cons.prems False by (cases bs) auto
    ultimately show ?thesis using Cons.prems False by (auto intro: exI [of _ rest])
  qed
qed (simp add: exI [of _ "[]"])

definition numbered_chunks :: "transfer_id \<Rightarrow> nat \<Rightarrow> nat \<Rightarrow> bytes \<Rightarrow> frame list" where
  "numbered_chunks i from n content =
     map (\<lambda>(j, bs). FileChunk i (word_of_nat j) bs)
       (filter (\<lambda>(j, _). from \<le> j) (enumerate n (chunks_of FILE_CHUNK_BYTES content)))"

lemma FILE_CHUNK_BYTES_pos: "0 < FILE_CHUNK_BYTES"
  by (simp add: FILE_CHUNK_BYTES_def)

lemma numbered_chunks_step:
  "content \<noteq> [] \<Longrightarrow> numbered_chunks i from n content =
     (if from \<le> n then [FileChunk i (word_of_nat n) (take FILE_CHUNK_BYTES content)] else []) @
     numbered_chunks i from (Suc n) (drop FILE_CHUNK_BYTES content)"
  using FILE_CHUNK_BYTES_pos by (subst numbered_chunks_def, subst chunks_of.simps) (simp add: numbered_chunks_def)

lemma numbered_chunks_empty [simp]: "numbered_chunks i from n [] = []"
  by (subst numbered_chunks_def, subst chunks_of.simps) simp

lemma download_pass_chunks:
  "[] \<notin> set bss \<Longrightarrow> n + length (concat bss) < 2 ^ 64 \<Longrightarrow>
   download_pass i k (word_of_nat n) (map Inr bss) h = (numbered_chunks i (unat k) n (concat bss), Inr (h @ concat bss))"
proof (induction "length (concat bss)" arbitrary: bss n h rule: less_induct)
  case less
  let ?c = "concat bss"
  obtain rest where f: "fill FILE_CHUNK_BYTES (map Inr bss) = Inr (take FILE_CHUNK_BYTES ?c, map Inr rest)"
    and rest: "concat rest = drop FILE_CHUNK_BYTES ?c" "[] \<notin> set rest"
    using fill_reads [OF less.prems(1)] by blast
  show ?case
  proof (cases "?c = []")
    case True
    then have "numbered_chunks i (unat k) n ?c = []" by (simp del: concat_eq_Nil_conv)
    with True show ?thesis by (subst download_pass.simps) (simp add: f)
  next
    case False
    have n: "unat (word_of_nat n :: u64) = n" using less.prems(2) by (simp add: unat_of_nat)
    have ge: "k \<le> word_of_nat n \<longleftrightarrow> unat k \<le> n" by (simp add: word_le_nat_alt n)
    show ?thesis
    proof (cases "length ?c < FILE_CHUNK_BYTES")
      case True
      then show ?thesis
        using False by (subst download_pass.simps) (simp add: f numbered_chunks_step [OF False] ge)
    next
      case long: False
      have shorter: "length (concat rest) < length ?c"
        unfolding rest length_drop using False FILE_CHUNK_BYTES_pos by (metis diff_less length_greater_0_conv)
      have bound: "Suc n + length (concat rest) < 2 ^ 64"
        using shorter less.prems(2) by linarith
      have ih: "download_pass i k (word_of_nat n + 1) (map Inr rest) (h @ take FILE_CHUNK_BYTES ?c) =
          (numbered_chunks i (unat k) (Suc n) (drop FILE_CHUNK_BYTES ?c), Inr (h @ ?c))"
        using less.hyps [OF shorter rest(2) bound, of "h @ take FILE_CHUNK_BYTES ?c"] by (simp add: rest(1) add.commute)
      have full: "length (take FILE_CHUNK_BYTES ?c) = FILE_CHUNK_BYTES" using long by simp
      have some: "take FILE_CHUNK_BYTES ?c \<noteq> []" using full FILE_CHUNK_BYTES_pos by fastforce
      show ?thesis
        unfolding download_pass.simps [of i k "word_of_nat n"] f numbered_chunks_step [OF False]
        by (simp only: sum.case prod.case some full ge Let_def if_False append_assoc append_take_drop_id less_irrefl
            split: if_split) (simp add: ih)
    qed
  qed
qed

text \<open>
  C37. However the reads of the file are cut, a download sends the chunks of the whole content cut every
  \<open>FILE_CHUNK_BYTES\<close> bytes, numbered from 0, without those before the resume point, and then the checksum of
  the whole content: chunk \<open>n\<close> always holds the bytes from \<open>n * FILE_CHUNK_BYTES\<close> on, which is what the
  phone relies on when it resumes.
\<close>

theorem download_chunks_fixed:
  assumes "[] \<notin> set bss" "length (concat bss) < 2 ^ 64" "saturating_mul k (word_of_nat FILE_CHUNK_BYTES) \<le> fm_len meta"
  shows "spawn_download blake3 i k (Inr meta) (map Inr bss) (Inr meta) =
     map (\<lambda>(j, bs). FileChunk i (word_of_nat j) bs)
       (filter (\<lambda>(j, _). unat k \<le> j) (enumerate 0 (chunks_of FILE_CHUNK_BYTES (concat bss)))) @
     [FileDone i (fm_len meta) (blake3 (concat bss))]"
  using assms(3) download_pass_chunks [of bss 0 i k "[]"] assms(1,2)
  by (simp add: spawn_download_def numbered_chunks_def leD)

theorem download_chunks_fixed_witness:
  "spawn_download (\<lambda>bs. bs) 3 0 (Inr \<lparr>fm_len = 3, fm_modified = None\<rparr>) [Inr [1, 2], Inr [3]] (Inr \<lparr>fm_len = 3, fm_modified = None\<rparr>) =
     [FileChunk 3 0 [1, 2, 3], FileDone 3 3 [1, 2, 3]]"
  using download_chunks_fixed [of "[[1, 2], [3]]" 0 "\<lparr>fm_len = 3, fm_modified = None\<rparr>" "\<lambda>bs. bs" 3]
  by (simp add: saturating_mul_def FILE_CHUNK_BYTES_def)

end
