(* ===== verification/Utf8.thy ===== *)
theory Utf8
  imports Terminal_Text Wordlist
begin

text \<open>
  Rust strings as lists of code points and as UTF-8 bytes (standard library): \<open>char::encode_utf8\<close>,
  \<open>String::from_utf8\<close>, \<open>str::len\<close> and slices. The validation is that of \<open>Terminal_Text\<close>.
\<close>

text \<open>A \<open>char\<close>: a Unicode scalar value.\<close>

definition scalar :: "nat \<Rightarrow> bool" where
  "scalar c \<longleftrightarrow> c < 0xD800 \<or> 0xE000 \<le> c \<and> c \<le> 0x10FFFF"

definition encode_char :: "nat \<Rightarrow> bytes" where
  "encode_char c =
     (if c < 0x80 then [word_of_nat c]
      else if c < 0x800 then [word_of_nat (0xC0 + c div 64), word_of_nat (0x80 + c mod 64)]
      else if c < 0x10000 then
        [word_of_nat (0xE0 + c div 4096), word_of_nat (0x80 + c div 64 mod 64), word_of_nat (0x80 + c mod 64)]
      else
        [word_of_nat (0xF0 + c div 262144), word_of_nat (0x80 + c div 4096 mod 64),
         word_of_nat (0x80 + c div 64 mod 64), word_of_nat (0x80 + c mod 64)])"

definition utf8_encode :: "rust_str \<Rightarrow> bytes" where
  "utf8_encode s = concat (map encode_char s)"

fun char_value :: "bytes \<Rightarrow> nat" where
  "char_value [a] = unat a"
| "char_value [a, b] = (unat a - 0xC0) * 64 + (unat b - 0x80)"
| "char_value [a, b, c] = (unat a - 0xE0) * 4096 + (unat b - 0x80) * 64 + (unat c - 0x80)"
| "char_value [a, b, c, d] =
     (unat a - 0xF0) * 262144 + (unat b - 0x80) * 4096 + (unat c - 0x80) * 64 + (unat d - 0x80)"
| "char_value _ = 0"

definition decode_char :: "bytes \<Rightarrow> (nat \<times> bytes) option" where
  "decode_char bs = (case utf8_head bs of Character n \<Rightarrow> Some (char_value (take n bs), drop n bs) | _ \<Rightarrow> None)"

lemma decode_char_shorter: "decode_char bs = Some (c, rest) \<Longrightarrow> length rest < length bs"
  by (auto simp: decode_char_def dest: utf8_head_bounds split: utf8_scan.splits)

function utf8_decode :: "bytes \<Rightarrow> rust_str option" where
  "utf8_decode bs =
     (if bs = [] then Some []
      else case decode_char bs of
        None \<Rightarrow> None
      | Some (c, rest) \<Rightarrow> map_option (\<lambda>s. c # s) (utf8_decode rest))"
  by pat_completeness auto
termination by (relation "measure length") (auto dest: decode_char_shorter)

declare utf8_decode.simps [simp del]

definition len_utf8 :: "nat \<Rightarrow> nat" where
  "len_utf8 c = (if c < 0x80 then 1 else if c < 0x800 then 2 else if c < 0x10000 then 3 else 4)"

definition str_len :: "rust_str \<Rightarrow> nat" where
  "str_len s = sum_list (map len_utf8 s)"

text \<open>The longest whole characters within the first \<open>n\<close> bytes.\<close>

fun str_take :: "nat \<Rightarrow> rust_str \<Rightarrow> rust_str" where
  "str_take n [] = []"
| "str_take n (c # s) = (if len_utf8 c \<le> n then c # str_take (n - len_utf8 c) s else [])"

section \<open>Decoding inverts encoding\<close>

lemma unat_small_byte: "n < 256 \<Longrightarrow> unat (word_of_nat n :: u8) = n"
  by (simp add: unat_of_nat)

lemma byte_le: "m < 256 \<Longrightarrow> n < 256 \<Longrightarrow> (word_of_nat m :: u8) \<le> word_of_nat n \<longleftrightarrow> m \<le> n"
  by (simp add: word_le_nat_alt unat_small_byte)

lemma byte_less: "m < 256 \<Longrightarrow> n < 256 \<Longrightarrow> (word_of_nat m :: u8) < word_of_nat n \<longleftrightarrow> m < n"
  by (simp add: word_less_nat_alt unat_small_byte)

lemma byte_eq: "m < 256 \<Longrightarrow> n < 256 \<Longrightarrow> (word_of_nat m :: u8) = word_of_nat n \<longleftrightarrow> m = n"
  by (metis unat_small_byte)

lemma utf8_char_width_nat:
  "n < 256 \<Longrightarrow> utf8_char_width (word_of_nat n) =
     (if n < 0x80 then 1 else if 0xC2 \<le> n \<and> n \<le> 0xDF then 2 else if 0xE0 \<le> n \<and> n \<le> 0xEF then 3
      else if 0xF0 \<le> n \<and> n \<le> 0xF4 then 4 else 0)"
  using byte_less [of n "0x80"] byte_le [of "0xC2" n] byte_le [of n "0xDF"] byte_le [of "0xE0" n] byte_le [of n "0xEF"]
    byte_le [of "0xF0" n] byte_le [of n "0xF4"]
  by (simp add: utf8_char_width_def)

lemma cont_nat: "n < 256 \<Longrightarrow> cont (word_of_nat n) \<longleftrightarrow> 0x80 \<le> n \<and> n \<le> 0xBF"
  using byte_le [of "0x80" n] byte_le [of n "0xBF"] by (simp add: cont_def)

lemma second_ok_nat:
  "m < 256 \<Longrightarrow> n < 256 \<Longrightarrow> second_ok (word_of_nat m) (word_of_nat n) \<longleftrightarrow>
     (if m = 0xE0 then 0xA0 \<le> n \<and> n \<le> 0xBF else if m = 0xED then 0x80 \<le> n \<and> n \<le> 0x9F
      else if m = 0xF0 then 0x90 \<le> n \<and> n \<le> 0xBF else if m = 0xF4 then 0x80 \<le> n \<and> n \<le> 0x8F
      else 0x80 \<le> n \<and> n \<le> 0xBF)"
  using byte_eq [of m "0xE0"] byte_eq [of m "0xED"] byte_eq [of m "0xF0"] byte_eq [of m "0xF4"]
    byte_le [of "0xA0" n] byte_le [of n "0xBF"] byte_le [of "0x80" n] byte_le [of n "0x9F"]
    byte_le [of "0x90" n] byte_le [of n "0x8F"] cont_nat [of n]
  by (simp add: second_ok_def)

lemma decode_two:
  "0xC2 \<le> a \<Longrightarrow> a \<le> 0xDF \<Longrightarrow> 0x80 \<le> b \<Longrightarrow> b \<le> 0xBF \<Longrightarrow>
   decode_char (word_of_nat a # word_of_nat b # rest) = Some ((a - 0xC0) * 64 + (b - 0x80), rest)"
  by (simp add: decode_char_def utf8_char_width_nat cont_nat unat_small_byte)

lemma decode_three:
  "0xE0 \<le> a \<Longrightarrow> a \<le> 0xEF \<Longrightarrow> second_ok (word_of_nat a) (word_of_nat b) \<Longrightarrow> b \<le> 0xBF \<Longrightarrow> 0x80 \<le> c \<Longrightarrow> c \<le> 0xBF \<Longrightarrow>
   decode_char (word_of_nat a # word_of_nat b # word_of_nat c # rest) =
     Some ((a - 0xE0) * 4096 + (b - 0x80) * 64 + (c - 0x80), rest)"
  by (simp add: decode_char_def utf8_char_width_nat cont_nat unat_small_byte)

lemma decode_four:
  "0xF0 \<le> a \<Longrightarrow> a \<le> 0xF4 \<Longrightarrow> second_ok (word_of_nat a) (word_of_nat b) \<Longrightarrow> b \<le> 0xBF \<Longrightarrow> 0x80 \<le> c \<Longrightarrow> c \<le> 0xBF \<Longrightarrow>
   0x80 \<le> d \<Longrightarrow> d \<le> 0xBF \<Longrightarrow>
   decode_char (word_of_nat a # word_of_nat b # word_of_nat c # word_of_nat d # rest) =
     Some ((a - 0xF0) * 262144 + (b - 0x80) * 4096 + (c - 0x80) * 64 + (d - 0x80), rest)"
  by (simp add: decode_char_def utf8_char_width_nat cont_nat unat_small_byte)

lemma sextets:
  fixes c :: nat
  shows "c = c div 4096 * 4096 + c div 64 mod 64 * 64 + c mod 64"
    "c = c div 262144 * 262144 + c div 4096 mod 64 * 4096 + c div 64 mod 64 * 64 + c mod 64"
proof -
  have a: "c = c div 64 * 64 + c mod 64" by (rule div_mult_mod_eq [symmetric])
  have b: "c div 64 = c div 4096 * 64 + c div 64 mod 64"
    using div_mult_mod_eq [of "c div 64" 64] by (simp add: div_mult2_eq [of c 64 64, simplified])
  have d: "c div 4096 = c div 262144 * 64 + c div 4096 mod 64"
    using div_mult_mod_eq [of "c div 4096" 64] by (simp add: div_mult2_eq [of c 4096 64, simplified])
  show "c = c div 4096 * 4096 + c div 64 mod 64 * 64 + c mod 64" using a b by linarith
  then show "c = c div 262144 * 262144 + c div 4096 mod 64 * 4096 + c div 64 mod 64 * 64 + c mod 64" using d by linarith
qed

lemma encode_two:
  assumes "0x80 \<le> c" "c < 0x800"
  shows "decode_char (encode_char c @ rest) = Some (c, rest)"
proof -
  have "c div 64 < 32" "2 \<le> c div 64" "c mod 64 < 64"
    using assms div_le_mono [of 128 c 64] by (simp_all add: less_mult_imp_div_less)
  then show ?thesis
    using assms decode_two [of "0xC0 + c div 64" "0x80 + c mod 64" rest] unfolding encode_char_def by simp
qed

lemma encode_three:
  assumes "0x800 \<le> c" "c < 0x10000" "scalar c"
  shows "decode_char (encode_char c @ rest) = Some (c, rest)"
proof -
  define x y z where xyz: "x = c div 4096" "y = c div 64 mod 64" "z = c mod 64"
  have c: "c = x * 4096 + y * 64 + z" unfolding xyz by (rule sextets(1))
  have b: "x < 16" "y < 64" "z < 64" using assms(2) by (simp_all add: xyz less_mult_imp_div_less)
  have "x = 0 \<Longrightarrow> 32 \<le> y" "x = 13 \<Longrightarrow> y < 32" using assms c b by (auto simp: scalar_def)
  then have "second_ok (word_of_nat (0xE0 + x)) (word_of_nat (0x80 + y))"
    using b by (subst second_ok_nat) auto
  then have "decode_char ([word_of_nat (0xE0 + x), word_of_nat (0x80 + y), word_of_nat (0x80 + z)] @ rest) = Some (c, rest)"
    using decode_three [of "0xE0 + x" "0x80 + y" "0x80 + z" rest] b c by simp
  then show ?thesis using assms unfolding encode_char_def xyz by simp
qed

lemma encode_four:
  assumes "0x10000 \<le> c" "c \<le> 0x10FFFF"
  shows "decode_char (encode_char c @ rest) = Some (c, rest)"
proof -
  define w x y z where xyz: "w = c div 262144" "x = c div 4096 mod 64" "y = c div 64 mod 64" "z = c mod 64"
  have c: "c = w * 262144 + x * 4096 + y * 64 + z" unfolding xyz by (rule sextets(2))
  have b: "w < 5" "x < 64" "y < 64" "z < 64" using assms(2) by (simp_all add: xyz less_mult_imp_div_less)
  have "w = 0 \<Longrightarrow> 16 \<le> x" "w = 4 \<Longrightarrow> x < 16" using assms c b by auto
  then have "second_ok (word_of_nat (0xF0 + w)) (word_of_nat (0x80 + x))"
    using b by (subst second_ok_nat) auto
  then have "decode_char ([word_of_nat (0xF0 + w), word_of_nat (0x80 + x), word_of_nat (0x80 + y), word_of_nat (0x80 + z)] @ rest) =
      Some (c, rest)"
    using decode_four [of "0xF0 + w" "0x80 + x" "0x80 + y" "0x80 + z" rest] b c by simp
  then show ?thesis using assms unfolding encode_char_def xyz by simp
qed

interpretation utf8: wire_codec scalar encode_char decode_char
proof
  fix c rest
  assume "scalar c"
  show "decode_char (encode_char c @ rest) = Some (c, rest)"
  proof (cases "c < 0x80")
    case True
    then show ?thesis by (simp add: encode_char_def decode_char_def utf8_char_width_nat unat_small_byte)
  next
    case False
    then show ?thesis
      using encode_two [of c rest] encode_three [of c rest] encode_four [of c rest] \<open>scalar c\<close>
      by (cases "c < 0x800"; cases "c < 0x10000") (auto simp: scalar_def)
  qed
qed

lemma encode_char_not_Nil [simp]: "encode_char c \<noteq> []"
  by (simp add: encode_char_def)

lemma utf8_decode_encode: "list_all scalar s \<Longrightarrow> utf8_decode (utf8_encode s) = Some s"
  by (induction s) (simp_all add: utf8_encode_def utf8_decode.simps utf8.dec_enc)

lemma utf8_encode_append [simp]: "utf8_encode (s @ t) = utf8_encode s @ utf8_encode t"
  "utf8_encode [] = []" "utf8_encode (c # s) = encode_char c @ utf8_encode s"
  by (simp_all add: utf8_encode_def)

lemma str_len_simps [simp]: "str_len [] = 0" "str_len (c # s) = len_utf8 c + str_len s"
  "str_len (s @ t) = str_len s + str_len t"
  by (simp_all add: str_len_def)

lemma str_len_encode: "str_len s = length (utf8_encode s)"
  by (induction s) (simp_all add: encode_char_def len_utf8_def)

lemma str_take_len: "str_len (str_take n s) \<le> n"
  by (induction n s rule: str_take.induct) auto

lemma str_take_prefix: "prefix (str_take n s) s"
  by (induction n s rule: str_take.induct) auto

lemma str_take_all: "str_len s \<le> n \<Longrightarrow> str_take n s = s"
  by (induction n s rule: str_take.induct) auto

end
