(* ===== verification/Local_Files.thy ===== *)
theory Local_Files
  imports Utf8 Workspace
begin

text \<open>
  The phone's local files, \<open>app/src-tauri/src/local_files.rs\<close>: which file a picker's answer may name on each
  platform, the name offered to the host for an upload, and the copy of a verified download into a
  document. Strings are lists of code points. What the content providers and the file system answer
  are arguments.
\<close>

section \<open>Which files may be named\<close>

datatype discard_outcome = Removed | HoldsData | Unchecked rust_str | DiscardFailed rust_str

definition CONTENT_SCHEME :: rust_str where "CONTENT_SCHEME = str_of ''content://''"
definition FILE_SCHEME :: rust_str where "FILE_SCHEME = str_of ''file://''"
definition PICKER_ONLY :: string where
  "PICKER_ONLY = ''only a file chosen in the system file picker can be transferred''"
definition MAX_FILE_NAME_BYTES :: nat where "MAX_FILE_NAME_BYTES = 255"

datatype platform = Desktop | Android | Ios

datatype local_file = LocalPath rust_str | LocalDocument rust_str

text \<open>\<open>char::is_control\<close>, \<open>char::to_digit(16)\<close> and tests on ASCII characters.\<close>

definition is_control :: "nat \<Rightarrow> bool" where
  "is_control c \<longleftrightarrow> c < 32 \<or> 127 \<le> c \<and> c < 160"

definition to_digit16 :: "nat \<Rightarrow> nat option" where
  "to_digit16 c =
     (if 48 \<le> c \<and> c \<le> 57 then Some (c - 48)
      else if 65 \<le> c \<and> c \<le> 70 then Some (c - 55)
      else if 97 \<le> c \<and> c \<le> 102 then Some (c - 87)
      else None)"

definition ascii_digit :: "nat \<Rightarrow> bool" where
  "ascii_digit c \<longleftrightarrow> 48 \<le> c \<and> c \<le> 57"

definition ascii_alphanumeric :: "nat \<Rightarrow> bool" where
  "ascii_alphanumeric c \<longleftrightarrow> ascii_digit c \<or> 65 \<le> c \<and> c \<le> 90 \<or> 97 \<le> c \<and> c \<le> 122"

fun percent_bytes :: "bytes \<Rightarrow> bytes option" where
  "percent_bytes [] = Some []"
| "percent_bytes (b # tail) =
     (if b = 37 then
        (case tail of
           high # low # rest \<Rightarrow>
             (case (to_digit16 (unat high), to_digit16 (unat low)) of
                (Some h, Some l) \<Rightarrow> map_option (\<lambda>r. word_of_nat (h * 16 + l) # r) (percent_bytes rest)
              | _ \<Rightarrow> None)
         | _ \<Rightarrow> None)
      else map_option (\<lambda>r. b # r) (percent_bytes tail))"

definition percent_decode :: "rust_str \<Rightarrow> rust_str option" where
  "percent_decode s = Option.bind (percent_bytes (utf8_encode s)) utf8_decode"

definition file_url_to_path :: "rust_str \<Rightarrow> rust_str option" where
  "file_url_to_path url =
     (case strip_prefix FILE_SCHEME url of
        None \<Rightarrow> None
      | Some encoded \<Rightarrow>
          if \<not> prefix [47] encoded \<or> 63 \<in> set encoded \<or> 35 \<in> set encoded then None
          else case percent_decode encoded of
            None \<Rightarrow> None
          | Some p \<Rightarrow>
              (let plain_segments = list_all (\<lambda>segment. segment \<noteq> [] \<and> segment \<noteq> [46] \<and> segment \<noteq> [46, 46])
                     (split_on 47 (tl p))
               in if \<not> plain_segments \<or> list_ex is_control p then None else Some p))"

definition plain_authority :: "rust_str \<Rightarrow> bool" where
  "plain_authority provider \<longleftrightarrow>
     provider \<noteq> [] \<and> list_all (\<lambda>c. ascii_alphanumeric c \<or> c = 46 \<or> c = 95 \<or> c = 45) provider"

text \<open>The authority without the user part \<open>digits@\<close>; an authority with any other user part is refused.\<close>

definition provider_of :: "rust_str \<Rightarrow> rust_str option" where
  "provider_of authority =
     (if 64 \<in> set authority then
        (let user = takeWhile (\<lambda>c. c \<noteq> 64) authority
         in if user \<noteq> [] \<and> list_all ascii_digit user then Some (tl (dropWhile (\<lambda>c. c \<noteq> 64) authority)) else None)
      else Some authority)"

definition is_foreign_document :: "rust_str \<Rightarrow> rust_str \<Rightarrow> bool" where
  "is_foreign_document uri own_package \<longleftrightarrow>
     \<not> list_ex is_control uri \<and>
     (case strip_prefix CONTENT_SCHEME uri of
        None \<Rightarrow> False
      | Some rest \<Rightarrow>
          (case provider_of (takeWhile (\<lambda>c. c \<noteq> 47 \<and> c \<noteq> 63 \<and> c \<noteq> 35) rest) of
             None \<Rightarrow> False
           | Some provider \<Rightarrow>
               plain_authority provider \<and>
               (let p = map to_ascii_lowercase provider; own = map to_ascii_lowercase own_package
                in p \<noteq> own \<and> \<not> prefix (own @ [46]) p)))"

definition classify_local_file :: "rust_str \<Rightarrow> platform \<Rightarrow> rust_str \<Rightarrow> string + local_file" where
  "classify_local_file raw platform own_package =
     (case platform of
        Desktop \<Rightarrow> Inr (LocalPath raw)
      | Android \<Rightarrow> if is_foreign_document raw own_package then Inr (LocalDocument raw) else Inl PICKER_ONLY
      | Ios \<Rightarrow> (case file_url_to_path raw of None \<Rightarrow> Inl PICKER_ONLY | Some p \<Rightarrow> Inr (LocalPath p)))"

definition picker_copy :: "fsys \<Rightarrow> path \<Rightarrow> path \<Rightarrow> string + path" where
  "picker_copy fs p copies0 =
     (case canonicalize fs copies0 of
        Inl _ \<Rightarrow> Inl ''cannot find the app's temporary directory''
      | Inr copies \<Rightarrow>
          (case canonicalize fs p of
             Inl _ \<Rightarrow> Inl ''cannot open upload''
           | Inr file \<Rightarrow> if starts_with file copies \<and> file \<noteq> copies then Inr file else Inl PICKER_ONLY))"

definition check_download_supported :: "platform \<Rightarrow> string + unit" where
  "check_download_supported platform =
     (if platform = Ios then Inl ''saving downloads is not supported on iOS yet'' else Inr ())"

section \<open>Names\<close>

text \<open>The part after the last character of a set, and \<open>str::trim_end\<close>.\<close>

definition after_last :: "(nat \<Rightarrow> bool) \<Rightarrow> rust_str \<Rightarrow> rust_str" where
  "after_last p s = rev (takeWhile (\<lambda>c. \<not> p c) (rev s))"

definition trim_end :: "rust_str \<Rightarrow> rust_str" where
  "trim_end s = rev (dropWhile is_whitespace (rev s))"

definition windows_reserved :: "nat \<Rightarrow> bool" where
  "windows_reserved c \<longleftrightarrow> c \<in> {60, 62, 58, 34, 124, 63, 42}"

definition plain_file_name :: "rust_str \<Rightarrow> rust_str option" where
  "plain_file_name raw =
     (let last = after_last (\<lambda>c. c = 47 \<or> c = 92) raw;
          cleaned = trim_str (map (\<lambda>c. if windows_reserved c then 95 else c) (filter (\<lambda>c. \<not> is_control c) last))
      in if cleaned = [] \<or> cleaned = [46] \<or> cleaned = [46, 46] then None
         else Some (trim_end (str_take (min (str_len cleaned) MAX_FILE_NAME_BYTES) cleaned)))"

definition name_in_document_uri :: "rust_str \<Rightarrow> rust_str option" where
  "name_in_document_uri uri =
     (case strip_prefix CONTENT_SCHEME uri of
        None \<Rightarrow> None
      | Some rest \<Rightarrow>
          (let p = takeWhile (\<lambda>c. c \<noteq> 63 \<and> c \<noteq> 35) rest
           in if 47 \<notin> set p then None
              else case percent_decode (after_last (\<lambda>c. c = 47) p) of
                None \<Rightarrow> None
              | Some i \<Rightarrow> if 47 \<notin> set i then None else plain_file_name i))"

definition or_else :: "'a option \<Rightarrow> 'a option \<Rightarrow> 'a option" where
  "or_else x y = (case x of None \<Rightarrow> y | Some _ \<Rightarrow> x)"

definition suggested_upload_name :: "rust_str option \<Rightarrow> rust_str \<Rightarrow> rust_str" where
  "suggested_upload_name display_name local =
     (case or_else (Option.bind display_name plain_file_name)
        (if prefix CONTENT_SCHEME local then name_in_document_uri local
         else if prefix FILE_SCHEME local then Option.bind (file_url_to_path local) plain_file_name
         else plain_file_name local)
      of None \<Rightarrow> str_of ''upload'' | Some name \<Rightarrow> name)"

definition document_label :: "rust_str option \<Rightarrow> rust_str \<Rightarrow> rust_str" where
  "document_label display_name uri =
     (case or_else (Option.bind display_name plain_file_name) (name_in_document_uri uri)
      of None \<Rightarrow> str_of ''the chosen file'' | Some name \<Rightarrow> name)"

section \<open>Copying into a document\<close>

text \<open>
  \<open>reads\<close> is what successive reads of the staged file give, up to an empty read or the end of the list.
  \<open>writes\<close> scripts the destination: \<open>Some n\<close> is a write that fails after \<open>n\<close> bytes. Result: the contents of the
  destination, and an error or what was copied.
\<close>

fun copy_loop ::
  "u64 \<Rightarrow> bytes io_result list \<Rightarrow> nat option list \<Rightarrow> u64 \<Rightarrow> bytes \<Rightarrow> bytes \<Rightarrow> bytes \<times> (u64 \<times> bytes) io_result" where
  "copy_loop size0 [] writes copied hashed dest = (dest, Inr (copied, hashed))"
| "copy_loop size0 (Inl e # reads) writes copied hashed dest =
     (if io_error_kind e = Interrupted then copy_loop size0 reads writes copied hashed dest else (dest, Inl e))"
| "copy_loop size0 (Inr buf # reads) writes copied hashed dest =
     (if buf = [] then (dest, Inr (copied, hashed))
      else let copied' = copied + word_of_nat (length buf) in
        if copied' > size0 then (dest, io_fail InvalidData)
        else case writes of
          Some n # ws \<Rightarrow> (dest @ take n buf, io_fail OtherKind)
        | _ \<Rightarrow> copy_loop size0 reads (tl writes) copied' (hashed @ buf) (dest @ buf))"

definition copy_verified ::
  "(bytes \<Rightarrow> bytes) \<Rightarrow> u64 \<Rightarrow> bytes \<Rightarrow> bytes io_result list \<Rightarrow> nat option list \<Rightarrow> io_error option \<Rightarrow> io_error option \<Rightarrow>
   bytes \<times> unit io_result" where
  "copy_verified blake3 size0 checksum reads writes flush sync_all =
     (case copy_loop size0 reads writes 0 [] [] of
        (dest, Inl e) \<Rightarrow> (dest, Inl e)
      | (dest, Inr (copied, hashed)) \<Rightarrow>
          if copied \<noteq> size0 \<or> blake3 hashed \<noteq> checksum then (dest, io_fail InvalidData)
          else case flush of
            Some e \<Rightarrow> (dest, Inl e)
          | None \<Rightarrow>
              (case sync_all of
                 Some e \<Rightarrow> if io_error_kind e = InvalidInput then (dest, Inr ()) else (dest, Inl e)
               | None \<Rightarrow> (dest, Inr ())))"

record commit_failure =
  cf_destination_opened :: bool
  cf_emptied :: bool

text \<open>
  \<open>old\<close> is what the destination holds; opening it truncates it. \<open>set_len\<close> is whether cutting it back to
  empty fails.
\<close>

definition commit_by_copy ::
  "(bytes \<Rightarrow> bytes) \<Rightarrow> bytes io_result list io_result \<Rightarrow> u64 \<Rightarrow> bytes \<Rightarrow> io_error option \<Rightarrow> nat option list \<Rightarrow>
   io_error option \<Rightarrow> io_error option \<Rightarrow> io_error option \<Rightarrow> bytes \<Rightarrow> bytes \<times> (commit_failure + unit)" where
  "commit_by_copy blake3 staging size0 checksum open_destination writes flush sync_all set_len old =
     (case staging of
        Inl _ \<Rightarrow> (old, Inl \<lparr>cf_destination_opened = False, cf_emptied = False\<rparr>)
      | Inr reads \<Rightarrow>
          (case open_destination of
             Some _ \<Rightarrow> (old, Inl \<lparr>cf_destination_opened = False, cf_emptied = False\<rparr>)
           | None \<Rightarrow>
               (case copy_verified blake3 size0 checksum reads writes flush sync_all of
                  (dest, Inr _) \<Rightarrow> (dest, Inr ())
                | (dest, Inl _) \<Rightarrow>
                    (case set_len of
                       None \<Rightarrow> ([], Inl \<lparr>cf_destination_opened = True, cf_emptied = True\<rparr>)
                     | Some _ \<Rightarrow> (dest, Inl \<lparr>cf_destination_opened = True, cf_emptied = False\<rparr>)))))"

definition cleanup_note :: "discard_outcome \<Rightarrow> bool" where
  "cleanup_note outcome = (case outcome of DiscardFailed _ \<Rightarrow> True | Unchecked _ \<Rightarrow> True | _ \<Rightarrow> False)"

text \<open>What the message after a failed copy says about the destination.\<close>

datatype leftover = LeftRemoved | LeftEmpty | LeftIncomplete | LeftNothingWritten | LeftUnsaid

definition commit_failure_message :: "commit_failure \<Rightarrow> discard_outcome \<Rightarrow> leftover" where
  "commit_failure_message failure outcome =
     (case outcome of
        Removed \<Rightarrow> LeftRemoved
      | DiscardFailed _ \<Rightarrow> LeftEmpty
      | Unchecked _ \<Rightarrow>
          if cf_emptied failure then LeftEmpty
          else if cf_destination_opened failure then LeftIncomplete
          else LeftNothingWritten
      | HoldsData \<Rightarrow> if cf_destination_opened failure then LeftIncomplete else LeftUnsaid)"

section \<open>Only documents of other apps\<close>

text \<open>
  On Android only a \<open>content://\<close> document is accepted, and the provider that Android would ask, the
  authority without its user part, is a plain name that is neither this app's package nor below it, in
  any spelling of upper and lower case.
\<close>

lemma provider_of_split:
  assumes "provider_of authority = Some provider"
  obtains user where "authority = user @ provider"
    "user = [] \<or> (\<exists>ds. user = ds @ [64] \<and> ds \<noteq> [] \<and> list_all ascii_digit ds)"
proof (cases "64 \<in> set authority")
  case True
  let ?user = "takeWhile (\<lambda>c. c \<noteq> 64) authority"
  have d: "dropWhile (\<lambda>c. c \<noteq> 64) authority = 64 # tl (dropWhile (\<lambda>c. c \<noteq> 64) authority)"
    using True by (metis (mono_tags, lifting) dropWhile_eq_Nil_conv hd_dropWhile list.collapse)
  from assms True have u: "provider = tl (dropWhile (\<lambda>c. c \<noteq> 64) authority)" "?user \<noteq> []" "list_all ascii_digit ?user"
    by (auto simp: provider_of_def Let_def split: if_splits)
  have "authority = (?user @ [64]) @ provider"
    using takeWhile_dropWhile_id [of "\<lambda>c. c \<noteq> 64" authority] d u(1) by simp
  then show thesis using that u by blast
next
  case False
  then show thesis using assms that [of "[]"] by (simp add: provider_of_def)
qed

text \<open>
  On Android a file is accepted only as a document of another app: the address starts with
  \<open>content://\<close>, what follows is an optional user number and a provider name of plain characters up to a
  slash, a question mark or a hash, and the provider is neither this app nor one of its own providers
  however its letters are written.
\<close>

theorem android_document_foreign:
  assumes "classify_local_file raw Android own_package = Inr f"
  shows "f = LocalDocument raw \<and>
    (\<exists>user provider rest. raw = CONTENT_SCHEME @ user @ provider @ rest \<and>
       (user = [] \<or> (\<exists>ds. user = ds @ [64] \<and> list_all ascii_digit ds)) \<and>
       (rest = [] \<or> hd rest \<in> {47, 63, 35}) \<and> plain_authority provider \<and>
       map to_ascii_lowercase provider \<noteq> map to_ascii_lowercase own_package \<and>
       \<not> prefix (map to_ascii_lowercase own_package @ [46]) (map to_ascii_lowercase provider))"
proof -
  from assms obtain rest provider where *: "f = LocalDocument raw" "raw = CONTENT_SCHEME @ rest"
    and p: "provider_of (takeWhile (\<lambda>c. c \<noteq> 47 \<and> c \<noteq> 63 \<and> c \<noteq> 35) rest) = Some provider" "plain_authority provider"
      "map to_ascii_lowercase provider \<noteq> map to_ascii_lowercase own_package"
      "\<not> prefix (map to_ascii_lowercase own_package @ [46]) (map to_ascii_lowercase provider)"
    by (auto simp: classify_local_file_def is_foreign_document_def strip_prefix_Some Let_def split: if_splits option.splits)
  let ?a = "\<lambda>c :: nat. c \<noteq> 47 \<and> c \<noteq> 63 \<and> c \<noteq> 35"
  obtain user where u: "takeWhile ?a rest = user @ provider"
    "user = [] \<or> (\<exists>ds. user = ds @ [64] \<and> ds \<noteq> [] \<and> list_all ascii_digit ds)"
    by (rule provider_of_split [OF p(1)])
  have "raw = CONTENT_SCHEME @ user @ provider @ dropWhile ?a rest"
    using *(2) takeWhile_dropWhile_id [of ?a rest] u(1) by (metis append.assoc)
  moreover have "dropWhile ?a rest = [] \<or> hd (dropWhile ?a rest) \<in> {47, 63, 35}"
    using hd_dropWhile [of ?a rest] by auto
  ultimately show ?thesis using *(1) p(2-4) u(2) by blast
qed

theorem android_document_foreign_witness:
  "classify_local_file (str_of ''content://10@com.android/x'') Android (str_of ''Com.Me'') =
     Inr (LocalDocument (str_of ''content://10@com.android/x'')) \<and>
   (\<exists>user provider rest. str_of ''content://10@com.android/x'' = CONTENT_SCHEME @ user @ provider @ rest \<and> plain_authority provider)"
proof -
  have c: "classify_local_file (str_of ''content://10@com.android/x'') Android (str_of ''Com.Me'') =
     Inr (LocalDocument (str_of ''content://10@com.android/x''))"
    by code_simp
  from android_document_foreign [OF this] c show ?thesis by blast
qed

section \<open>Paths of file URLs\<close>

definition plain_path :: "rust_str \<Rightarrow> bool" where
  "plain_path p \<longleftrightarrow>
     prefix [47] p \<and> list_all (\<lambda>segment. segment \<noteq> [] \<and> segment \<noteq> [46] \<and> segment \<noteq> [46, 46]) (split_on 47 (tl p)) \<and>
     \<not> list_ex is_control p"

definition hex_digit :: "nat \<Rightarrow> nat" where
  "hex_digit n = (if n < 10 then 48 + n else 55 + n)"

definition unreserved :: "u8 \<Rightarrow> bool" where
  "unreserved b \<longleftrightarrow> ascii_alphanumeric (unat b) \<or> unat b \<in> {45, 46, 95, 126, 47}"

definition percent_encode :: "rust_str \<Rightarrow> rust_str" where
  "percent_encode p =
     concat (map (\<lambda>b. if unreserved b then [unat b] else [37, hex_digit (unat b div 16), hex_digit (unat b mod 16)])
       (utf8_encode p))"

lemma to_digit16_hex: "n < 16 \<Longrightarrow> to_digit16 (hex_digit n) = Some n"
  by (auto simp: to_digit16_def hex_digit_def)

lemma encode_char_ascii: "c < 128 \<Longrightarrow> encode_char c = [word_of_nat c]"
  by (simp add: encode_char_def)

lemma hex_digit_bound: "n < 16 \<Longrightarrow> hex_digit n < 128"
  by (simp add: hex_digit_def)

lemma hex_byte: "n < 16 \<Longrightarrow> unat (word_of_nat (hex_digit n) :: u8) = hex_digit n"
  by (rule unat_small_byte) (simp add: hex_digit_def)

lemma unreserved_bound: "unreserved b \<Longrightarrow> unat b < 128 \<and> b \<noteq> 37"
  by (auto simp: unreserved_def ascii_alphanumeric_def ascii_digit_def)

lemma percent_bytes_encode:
  "percent_bytes (utf8_encode (concat (map (\<lambda>b. if unreserved b then [unat b]
     else [37, hex_digit (unat b div 16), hex_digit (unat b mod 16)]) bs))) = Some bs"
proof (induction bs)
  case (Cons b bs)
  show ?case
  proof (cases "unreserved b")
    case True
    then show ?thesis using Cons unreserved_bound [OF True] by (simp add: encode_char_ascii)
  next
    case False
    have "unat b < 256" by (rule unat_byte)
    then have h: "unat b div 16 < 16" "unat b mod 16 < 16" by (simp_all add: less_mult_imp_div_less)
    have "hex_digit (unat b div 16) < 128" "hex_digit (unat b mod 16) < 128" by (simp_all add: hex_digit_bound h)
    then show ?thesis
      using Cons False h by (simp add: encode_char_ascii to_digit16_hex hex_byte del: unat_of_nat)
  qed
qed simp

lemma percent_decode_encode: "list_all scalar p \<Longrightarrow> percent_decode (percent_encode p) = Some p"
  unfolding percent_decode_def percent_encode_def percent_bytes_encode by (simp add: utf8_decode_encode)

lemma percent_encode_safe: "63 \<notin> set (percent_encode p) \<and> 35 \<notin> set (percent_encode p)"
  by (auto simp: percent_encode_def hex_digit_def unreserved_def ascii_alphanumeric_def ascii_digit_def split: if_splits)

lemma percent_encode_slash: "percent_encode (47 # p) = 47 # percent_encode p"
  by (simp add: percent_encode_def encode_char_def unreserved_def)

lemma utf8_decode_slash: "utf8_decode (47 # bs) = Some p \<Longrightarrow> prefix [47] p"
  by (subst (asm) utf8_decode.simps) (auto simp: decode_char_def utf8_char_width_def)

lemma percent_decode_slash: "percent_decode (47 # s) = Some p \<Longrightarrow> prefix [47] p"
  by (auto simp: percent_decode_def encode_char_def bind_eq_Some_conv intro: utf8_decode_slash)

text \<open>
  Which path a \<open>file://\<close> URL names: only an absolute path without empty, single-dot or double-dot
  segments and without control characters, whatever the escapes in the URL; and every such path is
  named by its percent-encoded URL.
\<close>

theorem file_url_paths:
  assumes "list_all scalar p"
  shows "(plain_path p \<longleftrightarrow> file_url_to_path (FILE_SCHEME @ percent_encode p) = Some p) \<and>
    (\<forall>url. file_url_to_path url = Some p \<longrightarrow> plain_path p)"
proof -
  have only: "plain_path p" if "file_url_to_path url = Some p" for url
    using that percent_decode_slash
    by (auto simp: file_url_to_path_def plain_path_def Let_def prefix_def split: option.splits if_splits)
  have "file_url_to_path (FILE_SCHEME @ percent_encode p) = Some p" if plain: "plain_path p"
  proof -
    obtain q where q: "p = 47 # q" using plain by (cases p) (auto simp: plain_path_def)
    then show ?thesis
      using plain percent_decode_encode [OF assms] percent_encode_safe [of q]
      by (simp add: file_url_to_path_def strip_prefix_def plain_path_def percent_encode_slash)
  qed
  with only show ?thesis by blast
qed

theorem file_url_paths_witness:
  "list_all scalar (str_of ''/a b'') \<and> percent_encode (str_of ''/a b'') = str_of ''/a%20b'' \<and>
   file_url_to_path (FILE_SCHEME @ percent_encode (str_of ''/a b'')) = Some (str_of ''/a b'')"
proof -
  have a: "list_all scalar (str_of ''/a b'')"
    by (simp add: str_of_def scalar_def)
  have p: "plain_path (str_of ''/a b'')"
    by (simp add: str_of_def plain_path_def is_control_def)
  have e: "percent_encode (str_of ''/a b'') = str_of ''/a%20b''"
    by (simp add: str_of_def percent_encode_def encode_char_def unreserved_def ascii_alphanumeric_def ascii_digit_def hex_digit_def)
  from a e conjunct1 [OF file_url_paths [OF a]] p show ?thesis by (simp only: simp_thms)
qed

section \<open>Names offered for uploads\<close>

definition name_char :: "nat \<Rightarrow> bool" where
  "name_char c \<longleftrightarrow> \<not> is_control c \<and> c \<noteq> 47 \<and> c \<noteq> 92 \<and> \<not> windows_reserved c"

definition plain_name :: "rust_str \<Rightarrow> bool" where
  "plain_name name \<longleftrightarrow>
     name \<noteq> [] \<and> str_len name \<le> MAX_FILE_NAME_BYTES \<and> list_all name_char name \<and>
     \<not> is_whitespace (hd name) \<and> \<not> is_whitespace (last name)"

lemma trim_end_prefix: "prefix (trim_end s) s"
  using suffix_dropWhile [of is_whitespace "rev s"] by (simp add: trim_end_def suffix_to_prefix)

lemma hd_prefix: "prefix xs ys \<Longrightarrow> xs \<noteq> [] \<Longrightarrow> hd xs = hd ys"
  by (auto simp: prefix_def)

lemma trim_end_hd: "s \<noteq> [] \<Longrightarrow> \<not> is_whitespace (hd s) \<Longrightarrow> trim_end s \<noteq> []"
  by (auto simp: trim_end_def hd_in_set)

lemma trim_end_last: "trim_end s \<noteq> [] \<Longrightarrow> \<not> is_whitespace (last (trim_end s))"
  using hd_dropWhile [of is_whitespace "rev s"] by (auto simp: trim_end_def last_rev)

lemma trim_str_eq: "trim_str s = trim_end (dropWhile is_whitespace s)"
  by (simp add: trim_str_def trim_end_def trim_start_def)

lemma trim_str_set: "set (trim_str s) \<subseteq> set s"
  unfolding trim_str_eq
  by (rule subset_trans [OF set_mono_prefix [OF trim_end_prefix]]) (auto dest: set_mono_suffix [OF suffix_dropWhile, THEN subsetD])

lemma trim_str_hd: "trim_str s \<noteq> [] \<Longrightarrow> \<not> is_whitespace (hd (trim_str s))"
proof -
  assume ne: "trim_str s \<noteq> []"
  then have "hd (trim_str s) = hd (dropWhile is_whitespace s)"
    unfolding trim_str_eq by (intro hd_prefix trim_end_prefix) simp_all
  moreover have "dropWhile is_whitespace s \<noteq> []"
    using ne unfolding trim_str_eq trim_end_def by (metis dropWhile.simps(1) rev.simps(1))
  ultimately show ?thesis using hd_dropWhile [of is_whitespace s] by simp
qed

lemma after_last_free: "c \<in> set (after_last p s) \<Longrightarrow> \<not> p c"
  by (auto simp: after_last_def dest: set_takeWhileD)

lemma len_utf8_bounds: "0 < len_utf8 c \<and> len_utf8 c \<le> 4"
  by (simp add: len_utf8_def)

lemma plain_file_name_plain:
  assumes "plain_file_name raw = Some name"
  shows "plain_name name"
proof -
  define chars where "chars = map (\<lambda>c. if windows_reserved c then 95 else c) (filter (\<lambda>c. \<not> is_control c) (after_last (\<lambda>c. c = 47 \<or> c = 92) raw))"
  define cleaned where "cleaned = trim_str chars"
  define cut where "cut = str_take (min (str_len cleaned) MAX_FILE_NAME_BYTES) cleaned"
  have name: "name = trim_end cut" and ne: "cleaned \<noteq> []"
    using assms by (auto simp: plain_file_name_def chars_def cleaned_def cut_def Let_def split: if_splits)
  have "list_all name_char chars"
    by (auto simp: chars_def name_char_def list_all_iff windows_reserved_def is_control_def dest: after_last_free)
  then have cleaned: "list_all name_char cleaned" "\<not> is_whitespace (hd cleaned)"
    using trim_str_set [of chars] trim_str_hd [of chars] ne by (auto simp: cleaned_def list_all_iff)
  obtain c s where "cleaned = c # s" using ne by (cases cleaned) auto
  then have cut: "cut \<noteq> []" using len_utf8_bounds [of c] by (simp add: cut_def MAX_FILE_NAME_BYTES_def)
  then have hd_cut: "hd cut = hd cleaned" unfolding cut_def by (intro hd_prefix str_take_prefix)
  have pre: "prefix name cut" "name \<noteq> []"
    using trim_end_prefix trim_end_hd [OF cut] cleaned(2) hd_cut by (simp_all add: name)
  have "prefix name cleaned" using pre(1) str_take_prefix prefix_order.trans unfolding cut_def by blast
  moreover have "str_len name \<le> MAX_FILE_NAME_BYTES"
    using pre(1) str_take_len [of "min (str_len cleaned) MAX_FILE_NAME_BYTES" cleaned] by (auto simp: prefix_def cut_def)
  ultimately show ?thesis
    using pre cleaned hd_cut hd_prefix [OF pre] trim_end_last [of cut] set_mono_prefix [of name cleaned]
    by (auto simp: plain_name_def name list_all_iff)
qed

lemma name_in_document_uri_plain: "name_in_document_uri uri = Some name \<Longrightarrow> plain_name name"
  by (auto simp: name_in_document_uri_def Let_def split: option.splits if_splits intro: plain_file_name_plain)

lemma plain_name_upload: "plain_name (str_of ''upload'')"
  by (simp add: plain_name_def str_of_def MAX_FILE_NAME_BYTES_def len_utf8_def name_char_def is_control_def
      windows_reserved_def is_whitespace_def)

text \<open>
  Whatever a document provider, a path or a URL calls a file, the name offered to the host is one
  plain file name: not empty, at most 255 bytes, without separators, control characters or characters
  Windows reserves, and without blanks at its ends.
\<close>

theorem suggested_name_plain: "plain_name (suggested_upload_name display_name local)"
  using plain_file_name_plain name_in_document_uri_plain plain_name_upload
  by (auto simp: suggested_upload_name_def or_else_def bind_eq_Some_conv split: option.splits if_splits)

text \<open>
  Cutting a long name comes after the test for the two dot names, so a dot, many blanks and a letter
  give the name \<open>.\<close> itself.
\<close>

lemma str_take_blanks: "n \<le> m \<Longrightarrow> str_take n (replicate m 32 @ s) = replicate n 32"
proof (induction m arbitrary: n)
  case 0
  then show ?case by (cases s) (simp_all add: len_utf8_def)
next
  case (Suc m)
  then show ?case by (cases n) (simp_all add: len_utf8_def)
qed

lemma dot_name_offered: "254 \<le> n \<Longrightarrow> plain_file_name (46 # replicate n 32 @ [120]) = Some [46]"
proof -
  assume n: "254 \<le> n"
  let ?s = "46 # replicate n 32 @ [120 :: nat]"
  have chars: "map (\<lambda>c. if windows_reserved c then 95 else c) (filter (\<lambda>c. \<not> is_control c) (after_last (\<lambda>c. c = 47 \<or> c = 92) ?s)) = ?s"
    by (simp add: after_last_def takeWhile_append windows_reserved_def is_control_def)
  have trim: "trim_str ?s = ?s" by (simp add: trim_str_def trim_start_def is_whitespace_def)
  have len: "min (str_len ?s) MAX_FILE_NAME_BYTES = 255"
    using n by (simp add: str_len_def MAX_FILE_NAME_BYTES_def len_utf8_def sum_list_replicate)
  have "str_take 255 ?s = 46 # replicate 254 32"
    using str_take_blanks [OF n, of "[120]"] by (simp add: len_utf8_def)
  moreover have "trim_end (46 # replicate 254 32) = [46]"
    by (simp add: trim_end_def is_whitespace_def dropWhile_append)
  ultimately show ?thesis using n unfolding plain_file_name_def chars Let_def trim len by simp
qed

section \<open>The copy is what was verified\<close>

text \<open>What the reads of a file deliver.\<close>

fun delivered :: "bytes io_result list \<Rightarrow> bytes" where
  "delivered [] = []"
| "delivered (Inl e # reads) = delivered reads"
| "delivered (Inr buf # reads) = (if buf = [] then [] else buf @ delivered reads)"

lemma copy_loop_copies:
  "copy_loop size0 reads writes copied hashed dest = (dest', Inr (copied', hashed')) \<Longrightarrow>
   dest' = dest @ delivered reads \<and> hashed' = hashed @ delivered reads \<and> copied' = copied + word_of_nat (length (delivered reads))"
  by (induction size0 reads writes copied hashed dest rule: copy_loop.induct)
    (auto simp: Let_def add.assoc io_fail_def split: if_splits list.splits option.splits)

lemma copy_verified_copies:
  assumes "copy_verified blake3 size0 checksum reads writes flush sync_all = (dest, Inr ())"
  shows "dest = delivered reads \<and> blake3 dest = checksum \<and> word_of_nat (length dest) = size0"
  using assms by (auto simp: copy_verified_def io_fail_def dest!: copy_loop_copies split: prod.splits sum.splits if_splits option.splits)

text \<open>
  Copying a verified download into a document either succeeds, and then the document holds exactly
  the bytes of the staged file and they have the verified length and checksum; or fails, and then a
  destination that was never opened is unchanged and one reported as emptied is empty.
\<close>

theorem commit_by_copy_exact:
  "case commit_by_copy blake3 staging size0 checksum open_destination writes flush sync_all set_len old of
     (dest, Inr _) \<Rightarrow> (\<exists>reads. staging = Inr reads \<and> dest = delivered reads) \<and> blake3 dest = checksum \<and> word_of_nat (length dest) = size0
   | (dest, Inl failure) \<Rightarrow>
       (\<not> cf_destination_opened failure \<longrightarrow> dest = old) \<and> (cf_emptied failure \<longrightarrow> dest = [])"
  using copy_verified_copies [of blake3 size0 checksum _ writes flush sync_all]
  by (auto simp: commit_by_copy_def split: sum.splits option.splits prod.splits)

theorem commit_by_copy_exact_witness:
  "commit_by_copy (\<lambda>bs. bs) (Inr [Inr [1, 2], Inl (IoError Interrupted []), Inr [3]]) 3 [1, 2, 3] None [] None None None [7] =
     ([1, 2, 3], Inr ()) \<and>
   (\<exists>reads. Inr [Inr [1, 2], Inl (IoError Interrupted []), Inr [3]] = (Inr reads :: bytes io_result list io_result) \<and>
      [1, 2, 3] = delivered reads)"
proof -
  have c: "commit_by_copy (\<lambda>bs. bs) (Inr [Inr [1, 2], Inl (IoError Interrupted []), Inr [3]]) 3 [1, 2, 3] None [] None None None [7] =
      ([1, 2, 3], Inr ())"
    by (simp add: commit_by_copy_def copy_verified_def)
  from commit_by_copy_exact [where ?blake3.0 = "\<lambda>bs. bs" and staging = "Inr [Inr [1, 2], Inl (IoError Interrupted []), Inr [3]]"
      and ?size0.0 = 3 and checksum = "[1, 2, 3]" and open_destination = None and writes = "[]" and flush = None and sync_all = None
      and set_len = None and old = "[7]"]
  show ?thesis unfolding c by simp
qed

end
