(* ===== verification/Phone_Transfer.thy ===== *)
theory Phone_Transfer
  imports Local_Files File_Transfer
begin

text \<open>
  The phone's side of file transfers: \<open>ClientTransfers\<close>, the transfer arms of \<open>session_loop\<close>, the commands
  \<open>download_file\<close> and \<open>upload_file\<close> and the upload task of \<open>app/src-tauri/src/lib.rs\<close>, and the probes of
  \<open>download_probe.rs\<close>. Several links to several hosts may be alive at once; every frame comes with the
  pairing it arrived on. The hash function is a parameter, a hasher is the bytes it was given, and
  whether a file operation fails is part of the event. A temporary file is the contents behind its
  handle.
\<close>

section \<open>Transfers\<close>

definition MAX_ACTIVE_FILE_TRANSFERS :: nat where "MAX_ACTIVE_FILE_TRANSFERS = 4"
definition MAX_DOWNLOAD_BYTES :: u64 where "MAX_DOWNLOAD_BYTES = 4 * 1024 * 1024 * 1024"
definition MAX_TOTAL_DOWNLOAD_BYTES :: u64 where "MAX_TOTAL_DOWNLOAD_BYTES = 6 * 1024 * 1024 * 1024"
definition MAX_DOWNLOAD_RESTARTS :: u32 where "MAX_DOWNLOAD_RESTARTS = 3"
definition PROBE_ID_BIT :: u64 where "PROBE_ID_BIT = 0x8000000000000000"

record transfer_owner =
  ow_peer_device_id :: bytes
  ow_pair_id :: bytes

record upload_transfer =
  ul_owner :: transfer_owner
  ul_file :: bytes
  ul_remote_path :: string
  ul_size :: u64

record file_handle =
  fh_content :: bytes
  fh_pos :: nat

datatype download_target = TargetPath path | TargetDocument rust_str

record download_transfer =
  dl_owner :: transfer_owner
  dl_restarts :: u32
  dl_remote_path :: string
  dl_target :: download_target
  dl_temporary :: path
  dl_file :: file_handle
  dl_next_seq :: u64
  dl_written :: u64
  dl_hashed :: bytes
  dl_allow_outside_home :: bool

text \<open>A verified download that is being copied into its document holds its slot until the copy ends.\<close>

record document_commit =
  dc_id :: transfer_id
  dc_temporary :: path
  dc_uri :: rust_str
  dc_size :: u64
  dc_checksum :: bytes

text \<open>
  \<open>cl_tasks\<close> are the running upload tasks with the epoch each was started with; \<open>cl_epochs\<close> and
  \<open>cl_cancelled\<close> are the shared cells of an upload, which outlive its entry.
\<close>

record client =
  cl_next_id :: u64
  cl_downloads :: "(transfer_id, download_transfer) hashmap"
  cl_uploads :: "(transfer_id, upload_transfer) hashmap"
  cl_commits :: "document_commit list"
  cl_tasks :: "(transfer_id \<times> u64) list"
  cl_epochs :: "(transfer_id, u64) hashmap"
  cl_cancelled :: "transfer_id list"
  cl_probes :: "(transfer_id, transfer_owner) hashmap"
  cl_temps :: "path list"
  cl_files :: "(path, bytes) hashmap"
  cl_documents :: "(rust_str, bytes) hashmap"

definition new_client :: client where
  "new_client = \<lparr>cl_next_id = 1, cl_downloads = [], cl_uploads = [], cl_commits = [], cl_tasks = [], cl_epochs = [],
     cl_cancelled = [], cl_probes = [], cl_temps = [], cl_files = [], cl_documents = []\<rparr>"

datatype app_event =
    TransferProgress transfer_id u64
  | TransferComplete transfer_id
  | TransferError transfer_id string
  | ProbeAnswer transfer_id bool

type_synonym effect = "client \<times> frame list \<times> app_event list"

text \<open>Permits in use: a download and a copy hold one each; an upload shares one with its tasks.\<close>

definition slots_used :: "client \<Rightarrow> nat" where
  "slots_used cl = length (cl_downloads cl) + length (cl_commits cl) + length (remdups (map fst (cl_uploads cl) @ map fst (cl_tasks cl)))"

definition handle_write :: "bytes \<Rightarrow> file_handle \<Rightarrow> file_handle" where
  "handle_write bs h =
     (let old = fh_content h; p = fh_pos h
      in \<lparr>fh_content = take p (old @ replicate (p - length old) 0) @ bs @ drop (p + length bs) old, fh_pos = p + length bs\<rparr>)"

definition remove_temporary :: "path \<Rightarrow> client \<Rightarrow> client" where
  "remove_temporary p cl = cl\<lparr>cl_temps := removeAll p (cl_temps cl)\<rparr>"

definition take_owned_download ::
  "transfer_id \<Rightarrow> transfer_owner \<Rightarrow> client \<Rightarrow> client \<times> download_transfer option" where
  "take_owned_download i owner cl =
     (case hm_get (cl_downloads cl) i of
        Some d \<Rightarrow> if dl_owner d = owner then (cl\<lparr>cl_downloads := hm_remove i (cl_downloads cl)\<rparr>, Some d) else (cl, None)
      | None \<Rightarrow> (cl, None))"

definition take_owned_upload ::
  "transfer_id \<Rightarrow> transfer_owner \<Rightarrow> client \<Rightarrow> client \<times> upload_transfer option" where
  "take_owned_upload i owner cl =
     (case hm_get (cl_uploads cl) i of
        Some u \<Rightarrow> if ul_owner u = owner then (cl\<lparr>cl_uploads := hm_remove i (cl_uploads cl)\<rparr>, Some u) else (cl, None)
      | None \<Rightarrow> (cl, None))"

definition take_transfers_not_owned_by ::
  "client \<Rightarrow> transfer_owner \<Rightarrow> client \<times> (transfer_id \<times> path option) list" where
  "take_transfers_not_owned_by cl owner =
     (let stale_downloads = filter (\<lambda>(_, d). dl_owner d \<noteq> owner) (cl_downloads cl);
          stale_uploads = filter (\<lambda>(_, u). ul_owner u \<noteq> owner) (cl_uploads cl)
      in (cl\<lparr>cl_downloads := filter (\<lambda>(_, d). dl_owner d = owner) (cl_downloads cl),
             cl_uploads := filter (\<lambda>(_, u). ul_owner u = owner) (cl_uploads cl),
             cl_cancelled := map fst stale_uploads @ cl_cancelled cl\<rparr>,
          map (\<lambda>(i, d). (i, Some (dl_temporary d))) stale_downloads @ map (\<lambda>(i, _). (i, None)) stale_uploads))"

text \<open>A new link: transfers of other pairings end, interrupted downloads of this one are asked for again.\<close>

definition link_established :: "transfer_owner \<Rightarrow> client \<Rightarrow> effect" where
  "link_established owner cl =
     (case take_transfers_not_owned_by cl owner of
        (cl1, cancelled) \<Rightarrow>
          (foldl (\<lambda>cl (_, p). case p of None \<Rightarrow> cl | Some temporary \<Rightarrow> remove_temporary temporary cl) cl1 cancelled,
           map (\<lambda>(i, d). FileGetReq i (dl_remote_path d) (dl_next_seq d) (dl_allow_outside_home d))
             (filter (\<lambda>(_, d). dl_owner d = owner) (cl_downloads cl1)),
           map (\<lambda>(i, _). TransferError i ''transfer canceled - it belonged to a different host'') cancelled))"

section \<open>Probes\<close>

definition is_probe :: "transfer_id \<Rightarrow> bool" where
  "is_probe i \<longleftrightarrow> and i PROBE_ID_BIT \<noteq> 0"

definition probe_answer :: "transfer_id \<Rightarrow> transfer_owner \<Rightarrow> bool \<Rightarrow> bool \<Rightarrow> client \<Rightarrow> effect" where
  "probe_answer i owner served cancel cl =
     (if hm_get (cl_probes cl) i = Some owner
      then (cl\<lparr>cl_probes := hm_remove i (cl_probes cl)\<rparr>,
            if cancel then [FileErr i ''the phone only checked that the file can be read''] else [],
            [ProbeAnswer i served])
      else (cl, [], []))"

text \<open>\<open>probe_download\<close> up to its request; \<open>enqueued\<close> is whether the queue took it.\<close>

definition probe_download :: "transfer_owner option \<Rightarrow> string \<Rightarrow> bool \<Rightarrow> bool \<Rightarrow> client \<Rightarrow> effect" where
  "probe_download connection remote_path allow_outside_home enqueued cl =
     (case connection of
        None \<Rightarrow> (cl, [], [])
      | Some owner \<Rightarrow>
          (let i = or PROBE_ID_BIT (cl_next_id cl);
               cl1 = cl\<lparr>cl_next_id := cl_next_id cl + 1\<rparr>
           in if enqueued
              then (cl1\<lparr>cl_probes := hm_insert i owner (cl_probes cl1)\<rparr>, [FileGetReq i remote_path 0 allow_outside_home], [])
              else (cl1\<lparr>cl_probes := hm_remove i (cl_probes cl1)\<rparr>, [], [])))"

definition probe_timeout :: "transfer_id \<Rightarrow> client \<Rightarrow> effect" where
  "probe_timeout i cl =
     (if hm_contains (cl_probes cl) i
      then (cl\<lparr>cl_probes := hm_remove i (cl_probes cl)\<rparr>, [FileErr i ''the phone stopped waiting''], [ProbeAnswer i False])
      else (cl, [], []))"

section \<open>Frames of a download\<close>

text \<open>\<open>fails\<close>: the write fails after so many bytes.\<close>

definition file_chunk :: "transfer_owner \<Rightarrow> transfer_id \<Rightarrow> u64 \<Rightarrow> bytes \<Rightarrow> nat option \<Rightarrow> client \<Rightarrow> effect" where
  "file_chunk owner i seq bs fails cl =
     (if is_probe i then probe_answer i owner True True cl
      else let live_total = sum_list (map (\<lambda>(_, d). dl_written d) (cl_downloads cl)) in
        case hm_get (cl_downloads cl) i of
          None \<Rightarrow> (cl, [], [])
        | Some d \<Rightarrow>
            if dl_owner d \<noteq> owner then (cl, [], [])
            else if seq \<noteq> dl_next_seq d then (cl, [FileRetry i (dl_next_seq d)], [])
            else if saturating_add (dl_written d) (word_of_nat (length bs)) > MAX_DOWNLOAD_BYTES \<or>
                    saturating_add live_total (word_of_nat (length bs)) > MAX_TOTAL_DOWNLOAD_BYTES
            then (remove_temporary (dl_temporary d) (cl\<lparr>cl_downloads := hm_remove i (cl_downloads cl)\<rparr>),
                  [FileErr i ''download exceeded the phone's size limit''],
                  [TransferError i ''download stopped: transfers may not exceed 4 GiB each or 6 GiB in total''])
            else if length bs > FILE_CHUNK_BYTES
            then (cl, [], [TransferError i ''host sent an oversized file chunk''])
            else case fails of
              Some n \<Rightarrow>
                (remove_temporary (dl_temporary d) (cl\<lparr>cl_downloads := hm_remove i (cl_downloads cl)\<rparr>),
                 [FileErr i ''phone could not save the download''], [TransferError i ''could not save download''])
            | None \<Rightarrow>
                (cl\<lparr>cl_downloads := hm_insert i
                   (d\<lparr>dl_file := handle_write bs (dl_file d), dl_hashed := dl_hashed d @ bs,
                      dl_written := dl_written d + word_of_nat (length bs), dl_next_seq := dl_next_seq d + 1\<rparr>)
                   (cl_downloads cl)\<rparr>,
                 [], [TransferProgress i (dl_written d + word_of_nat (length bs))]))"

text \<open>Which of the file operations of a \<open>FileDone\<close> succeed.\<close>

record done_io =
  io_set_len :: bool
  io_seek :: bool
  io_flush :: bool
  io_sync :: bool
  io_rename :: bool

definition restart_file :: "done_io \<Rightarrow> file_handle \<Rightarrow> file_handle" where
  "restart_file io h =
     (let h1 = (if io_set_len io then h\<lparr>fh_content := []\<rparr> else h)
      in if io_seek io then h1\<lparr>fh_pos := 0\<rparr> else h1)"

definition restart_download :: "done_io \<Rightarrow> download_transfer \<Rightarrow> download_transfer" where
  "restart_download io d =
     d\<lparr>dl_file := restart_file io (dl_file d), dl_next_seq := 0, dl_written := 0, dl_hashed := []\<rparr>"

text \<open>A verified download moves to its target.\<close>

definition install_download ::
  "transfer_id \<Rightarrow> u64 \<Rightarrow> bytes \<Rightarrow> done_io \<Rightarrow> download_transfer \<Rightarrow> client \<Rightarrow> effect" where
  "install_download i size0 checksum io d cl =
     (if \<not> io_flush io then
        (remove_temporary (dl_temporary d) cl, [], [TransferError i ''could not flush verified download''])
      else if \<not> io_sync io then
        (remove_temporary (dl_temporary d) cl, [], [TransferError i ''could not sync verified download''])
      else case dl_target d of
        TargetDocument uri \<Rightarrow>
          (cl\<lparr>cl_commits := \<lparr>dc_id = i, dc_temporary = dl_temporary d, dc_uri = uri, dc_size = size0, dc_checksum = checksum\<rparr>
               # cl_commits cl\<rparr>, [], [])
      | TargetPath target \<Rightarrow>
          if io_rename io
          then (remove_temporary (dl_temporary d) (cl\<lparr>cl_files := hm_insert target (fh_content (dl_file d)) (cl_files cl)\<rparr>),
                [], [TransferComplete i])
          else (remove_temporary (dl_temporary d) cl, [], [TransferError i ''could not install download'']))"

definition file_done ::
  "(bytes \<Rightarrow> bytes) \<Rightarrow> transfer_owner \<Rightarrow> transfer_id \<Rightarrow> u64 \<Rightarrow> bytes \<Rightarrow> done_io \<Rightarrow> client \<Rightarrow> effect" where
  "file_done blake3 owner i size0 checksum io cl =
     (if is_probe i then probe_answer i owner True False cl
      else case take_owned_download i owner cl of
        (cl1, None) \<Rightarrow>
          (case take_owned_upload i owner cl1 of
             (cl2, Some u) \<Rightarrow> (cl2, [], [TransferComplete i])
           | (cl2, None) \<Rightarrow> (cl2, [], []))
      | (cl1, Some d) \<Rightarrow>
          if dl_written d \<noteq> size0 \<or> blake3 (dl_hashed d) \<noteq> checksum then
            (let restarts = saturating_add (dl_restarts d) 1 in
             if restarts > MAX_DOWNLOAD_RESTARTS
             then (remove_temporary (dl_temporary d) cl1,
                   [FileErr i ''phone gave up after repeated verification failures''],
                   [TransferError i ''download failed verification 3 times - giving up''])
             else (cl1\<lparr>cl_downloads := hm_insert i (restart_download io (d\<lparr>dl_restarts := restarts\<rparr>)) (cl_downloads cl1)\<rparr>,
                   [FileRetry i 0], []))
          else install_download i size0 checksum io d cl1)"

text \<open>A retry starts another task for the upload, with the next epoch.\<close>

definition spawn_upload_range :: "transfer_id \<Rightarrow> client \<Rightarrow> client" where
  "spawn_upload_range i cl =
     (let epoch = (case hm_get (cl_epochs cl) i of None \<Rightarrow> 0 | Some e \<Rightarrow> e) + 1
      in cl\<lparr>cl_epochs := hm_insert i epoch (cl_epochs cl), cl_tasks := (i, epoch) # cl_tasks cl\<rparr>)"

definition file_retry :: "transfer_owner \<Rightarrow> transfer_id \<Rightarrow> client \<Rightarrow> effect" where
  "file_retry owner i cl =
     (case hm_get (cl_uploads cl) i of
        Some u \<Rightarrow> if ul_owner u = owner then (spawn_upload_range i cl, [], []) else (cl, [], [])
      | None \<Rightarrow> (cl, [], []))"

definition file_err :: "transfer_owner \<Rightarrow> transfer_id \<Rightarrow> string \<Rightarrow> client \<Rightarrow> effect" where
  "file_err owner i reason cl =
     (if is_probe i then probe_answer i owner False False cl
      else let (cl1, d) = take_owned_download i owner cl;
               cl2 = (case d of None \<Rightarrow> cl1 | Some d \<Rightarrow> remove_temporary (dl_temporary d) cl1);
               (cl3, u) = take_owned_upload i owner cl2;
               cl4 = (case u of None \<Rightarrow> cl3 | Some _ \<Rightarrow> cl3\<lparr>cl_cancelled := i # cl_cancelled cl3\<rparr>)
        in (cl4, [], if d \<noteq> None \<or> u \<noteq> None then [TransferError i reason] else []))"

section \<open>Commands\<close>

text \<open>
  \<open>target\<close> and \<open>temporary\<close> are what \<open>prepare_download_target\<close> and the random suffix gave; \<open>created\<close> is whether the
  directory and the file could be created.
\<close>

definition download_file ::
  "transfer_owner option \<Rightarrow> string \<Rightarrow> download_target \<Rightarrow> path \<Rightarrow> bool \<Rightarrow> bool \<Rightarrow> bool \<Rightarrow> client \<Rightarrow> effect" where
  "download_file connection remote_path target temporary allow_outside_home created enqueued cl =
     (if slots_used cl \<ge> MAX_ACTIVE_FILE_TRANSFERS then (cl, [], [])
      else case connection of
        None \<Rightarrow> (cl, [], [])
      | Some owner \<Rightarrow>
          (let i = cl_next_id cl;
               cl1 = cl\<lparr>cl_next_id := i + 1\<rparr>
           in if \<not> created \<or> temporary \<in> set (cl_temps cl) \<or> hm_contains (cl_files cl) temporary then (cl1, [], [])
              else if enqueued
              then (cl1\<lparr>cl_temps := temporary # cl_temps cl,
                        cl_downloads := hm_insert i
                          \<lparr>dl_owner = owner, dl_restarts = 0, dl_remote_path = remote_path, dl_target = target,
                           dl_temporary = temporary, dl_file = \<lparr>fh_content = [], fh_pos = 0\<rparr>, dl_next_seq = 0, dl_written = 0,
                           dl_hashed = [], dl_allow_outside_home = allow_outside_home\<rparr> (cl_downloads cl)\<rparr>,
                    [FileGetReq i remote_path 0 allow_outside_home], [])
              else (cl1\<lparr>cl_downloads := hm_remove i (cl_downloads cl)\<rparr>, [], [])))"

text \<open>\<open>source\<close> is the opened file, or nothing when it cannot be opened or is not a regular file.\<close>

definition upload_file ::
  "transfer_owner option \<Rightarrow> bytes option \<Rightarrow> string \<Rightarrow> u32 option \<Rightarrow> bool \<Rightarrow> bool \<Rightarrow> bool \<Rightarrow> client \<Rightarrow> effect" where
  "upload_file connection source remote_path mode picked allow_outside_home sent cl =
     (if slots_used cl \<ge> MAX_ACTIVE_FILE_TRANSFERS then (cl, [], [])
      else case source of
        None \<Rightarrow> (cl, [], [])
      | Some content \<Rightarrow>
          (let i = cl_next_id cl;
               cl1 = cl\<lparr>cl_next_id := i + 1\<rparr>
           in case connection of
             None \<Rightarrow> (cl1, [], [])
           | Some owner \<Rightarrow>
               if sent
               then (spawn_upload_range i (cl1\<lparr>cl_uploads := hm_insert i
                       \<lparr>ul_owner = owner, ul_file = content, ul_remote_path = remote_path, ul_size = word_of_nat (length content)\<rparr>
                       (cl_uploads cl)\<rparr>),
                     [FilePutReq i remote_path (word_of_nat (length content))
                        (if picked then None else map_option (\<lambda>m. and m 511) mode) allow_outside_home], [])
               else (cl1\<lparr>cl_uploads := hm_remove i (cl_uploads cl)\<rparr>, [], [])))"

section \<open>The upload task\<close>

text \<open>
  The loop of the task over what the reads deliver_frame. \<open>stop\<close> is after how many rounds the task finds itself
  cancelled or replaced; then it ends quietly. A link that closes ends it like a failed read.
\<close>

fun upload_pass ::
  "transfer_id \<Rightarrow> u64 \<Rightarrow> u64 \<Rightarrow> bytes io_result list \<Rightarrow> nat option \<Rightarrow> bytes \<Rightarrow> frame list \<times> bytes option result" where
  "upload_pass i from_seq seq rs (Some 0) hashed = ([], Inr None)"
| "upload_pass i from_seq seq [] stop hashed = ([], Inr (Some hashed))"
| "upload_pass i from_seq seq (Inl e # rs) stop hashed = ([], Inl ''cannot read upload'')"
| "upload_pass i from_seq seq (Inr buf # rs) stop hashed =
     (if buf = [] then ([], Inr (Some hashed))
      else case upload_pass i from_seq (seq + 1) rs (map_option (\<lambda>n. n - 1) stop) (hashed @ buf) of
        (fs, r) \<Rightarrow> ((if seq \<ge> from_seq then [FileChunk i seq buf] else []) @ fs, r))"

definition upload_range ::
  "(bytes \<Rightarrow> bytes) \<Rightarrow> transfer_id \<Rightarrow> u64 \<Rightarrow> u64 \<Rightarrow> bytes io_result list \<Rightarrow> nat option \<Rightarrow> frame list \<times> unit result" where
  "upload_range blake3 i size0 from_seq rs stop =
     (case upload_pass i from_seq 0 rs stop [] of
        (fs, Inl reason) \<Rightarrow> (fs, Inl reason)
      | (fs, Inr None) \<Rightarrow> (fs, Inr ())
      | (fs, Inr (Some hashed)) \<Rightarrow> (fs @ [FileDone i size0 (blake3 hashed)], Inr ()))"

text \<open>The end of a task: a failure of the live one ends its upload.\<close>

definition upload_task_ended :: "transfer_id \<Rightarrow> u64 \<Rightarrow> bool \<Rightarrow> client \<Rightarrow> effect" where
  "upload_task_ended i epoch failed cl =
     (let cl1 = cl\<lparr>cl_tasks := remove1 (i, epoch) (cl_tasks cl)\<rparr>
      in if (i, epoch) \<notin> set (cl_tasks cl) \<or> \<not> failed \<or> hm_get (cl_epochs cl) i \<noteq> Some epoch then (cl1, [], [])
         else (cl1\<lparr>cl_cancelled := i # cl_cancelled cl, cl_uploads := hm_remove i (cl_uploads cl)\<rparr>, [],
               [TransferError i ''upload failed'']))"

text \<open>
  The end of the copy of a verified download into its document. The arguments are those of
  \<open>commit_by_copy\<close>: what reading the staged file gives and which operations fail.
\<close>

definition document_commit_ended ::
  "(bytes \<Rightarrow> bytes) \<Rightarrow> nat \<Rightarrow> bytes io_result list io_result \<Rightarrow> io_error option \<Rightarrow> nat option list \<Rightarrow> io_error option \<Rightarrow>
   io_error option \<Rightarrow> io_error option \<Rightarrow> client \<Rightarrow> effect" where
  "document_commit_ended blake3 n staged open_destination writes flush sync_all set_len cl =
     (if n \<ge> length (cl_commits cl) then (cl, [], [])
      else let c = cl_commits cl ! n;
               old = (case hm_get (cl_documents cl) (dc_uri c) of None \<Rightarrow> [] | Some bs \<Rightarrow> bs);
               (dest, r) = commit_by_copy blake3 staged (dc_size c) (dc_checksum c) open_destination writes flush sync_all set_len old
        in (cl\<lparr>cl_commits := take n (cl_commits cl) @ drop (Suc n) (cl_commits cl),
               cl_temps := removeAll (dc_temporary c) (cl_temps cl), cl_documents := hm_insert (dc_uri c) dest (cl_documents cl)\<rparr>,
            [], [case r of Inr _ \<Rightarrow> TransferComplete (dc_id c) | Inl _ \<Rightarrow> TransferError (dc_id c) ''could not save the download'']))"

section \<open>All events\<close>

datatype client_event =
    LinkEstablished transfer_owner
  | RxFileChunk transfer_owner transfer_id u64 bytes "nat option"
  | RxFileDone transfer_owner transfer_id u64 bytes done_io
  | RxFileRetry transfer_owner transfer_id
  | RxFileErr transfer_owner transfer_id string
  | DownloadCmd "transfer_owner option" string download_target path bool bool bool
  | UploadCmd "transfer_owner option" "bytes option" string "u32 option" bool bool bool
  | ProbeCmd "transfer_owner option" string bool bool
  | ProbeTimeout transfer_id
  | UploadTaskEnded transfer_id u64 bool
  | CommitEnded nat "bytes io_result list io_result" "io_error option" "nat option list" "io_error option" "io_error option"
      "io_error option"

fun client_effect :: "(bytes \<Rightarrow> bytes) \<Rightarrow> client_event \<Rightarrow> client \<Rightarrow> effect" where
  "client_effect blake3 (LinkEstablished owner) cl = link_established owner cl"
| "client_effect blake3 (RxFileChunk owner i seq bs fails) cl = file_chunk owner i seq bs fails cl"
| "client_effect blake3 (RxFileDone owner i size0 checksum io) cl = file_done blake3 owner i size0 checksum io cl"
| "client_effect blake3 (RxFileRetry owner i) cl = file_retry owner i cl"
| "client_effect blake3 (RxFileErr owner i reason) cl = file_err owner i reason cl"
| "client_effect blake3 (DownloadCmd connection remote target temporary allow created enqueued) cl =
     download_file connection remote target temporary allow created enqueued cl"
| "client_effect blake3 (UploadCmd connection source remote mode picked allow sent) cl =
     upload_file connection source remote mode picked allow sent cl"
| "client_effect blake3 (ProbeCmd connection remote allow enqueued) cl = probe_download connection remote allow enqueued cl"
| "client_effect blake3 (ProbeTimeout i) cl = probe_timeout i cl"
| "client_effect blake3 (UploadTaskEnded i epoch failed) cl = upload_task_ended i epoch failed cl"
| "client_effect blake3 (CommitEnded n staged opened writes flush sync_all set_len) cl =
     document_commit_ended blake3 n staged opened writes flush sync_all set_len cl"

definition transfer_step :: "(bytes \<Rightarrow> bytes) \<Rightarrow> client \<Rightarrow> client_event \<Rightarrow> client" where
  "transfer_step blake3 cl ev = fst (client_effect blake3 ev cl)"

section \<open>Sums over a map\<close>

definition hm_sum :: "('v \<Rightarrow> nat) \<Rightarrow> ('k, 'v) hashmap \<Rightarrow> nat" where
  "hm_sum f m = sum_list (map (\<lambda>(_, v). f v) m)"

lemma hm_sum_simps [simp]: "hm_sum f [] = 0" "hm_sum f ((k, v) # m) = f v + hm_sum f m"
  by (simp_all add: hm_sum_def)

lemma hm_sum_insert:
  "hm_wf m \<Longrightarrow> hm_sum f (hm_insert k v m) + (case hm_get m k of None \<Rightarrow> 0 | Some u \<Rightarrow> f u) = hm_sum f m + f v"
  by (induction m) auto

lemma hm_sum_remove:
  "hm_wf m \<Longrightarrow> hm_sum f (hm_remove k m) + (case hm_get m k of None \<Rightarrow> 0 | Some u \<Rightarrow> f u) = hm_sum f m"
  by (induction m) (auto simp: hm_remove_absent)

lemma hm_sum_filter: "hm_sum f (filter P m) \<le> hm_sum f m"
  by (induction m) auto

lemma hm_sum_get: "hm_get m k = Some v \<Longrightarrow> f v \<le> hm_sum f m"
  by (induction m) (auto split: if_splits)

lemma length_hm_sum: "length m = hm_sum (\<lambda>_. 1) m"
  by (induction m) auto

lemma hm_set_insert: "hm_wf m \<Longrightarrow> set (hm_insert k v m) = insert (k, v) {e \<in> set m. fst e \<noteq> k}"
  by (induction m) (auto simp: image_iff)

lemma hm_set_remove: "set (hm_remove k m) = {e \<in> set m. fst e \<noteq> k}"
  by (induction m) auto

section \<open>What hosts can make the phone store\<close>

definition total_received :: "client \<Rightarrow> nat" where
  "total_received cl = hm_sum (\<lambda>d. length (dl_hashed d)) (cl_downloads cl)"

definition download_ok :: "download_transfer \<Rightarrow> bool" where
  "download_ok d \<longleftrightarrow>
     dl_written d = word_of_nat (length (dl_hashed d)) \<and> length (dl_hashed d) \<le> unat MAX_DOWNLOAD_BYTES \<and>
     dl_restarts d \<le> MAX_DOWNLOAD_RESTARTS"

definition budget_inv :: "client \<Rightarrow> bool" where
  "budget_inv cl \<longleftrightarrow>
     hm_wf (cl_downloads cl) \<and> (\<forall>(i, d) \<in> set (cl_downloads cl). download_ok d) \<and>
     total_received cl \<le> unat MAX_TOTAL_DOWNLOAD_BYTES \<and> slots_used cl \<le> MAX_ACTIVE_FILE_TRANSFERS"

lemma live_total:
  assumes "\<forall>(i, d) \<in> set ds. download_ok d"
  shows "sum_list (map (\<lambda>(_, d). dl_written d) ds) = word_of_nat (hm_sum (\<lambda>d. length (dl_hashed d)) ds)"
  using assms by (induction ds) (auto simp: download_ok_def)

lemma max_bytes: "unat MAX_DOWNLOAD_BYTES = 4294967296" "unat MAX_TOTAL_DOWNLOAD_BYTES = 6442450944"
  by (simp_all add: MAX_DOWNLOAD_BYTES_def MAX_TOTAL_DOWNLOAD_BYTES_def)

lemma within_budget:
  fixes limit :: u64
  assumes "\<not> limit < saturating_add (word_of_nat a) (word_of_nat b)" "a \<le> unat limit" "unat limit < 2 ^ 63" "b < 2 ^ 62"
  shows "a + b \<le> unat limit"
proof -
  have "unat (word_of_nat a :: u64) = a" "unat (word_of_nat b :: u64) = b"
    using assms by (simp_all add: unat_of_nat)
  then have "unat (saturating_add (word_of_nat a) (word_of_nat b) :: u64) = a + b"
    using assms by (simp add: unat_saturating_add)
  with assms(1) show ?thesis by (simp add: word_less_nat_alt)
qed

lemma slots_card:
  "slots_used cl = length (cl_downloads cl) + length (cl_commits cl) + card (fst ` set (cl_uploads cl) \<union> fst ` set (cl_tasks cl))"
  by (simp add: slots_used_def length_remdups_card_conv)

text \<open>The budget depends on the downloads and on the slots only.\<close>

lemma budget_inv_remove:
  assumes "budget_inv cl" "cl_downloads cl' = hm_remove i (cl_downloads cl)" "slots_used cl' \<le> slots_used cl"
  shows "budget_inv cl'"
  using assms hm_sum_remove [of "cl_downloads cl" "\<lambda>d. length (dl_hashed d)" i]
  by (auto simp: budget_inv_def total_received_def hm_set_remove split: option.splits)

lemma budget_inv_same:
  assumes "budget_inv cl" "cl_downloads cl' = cl_downloads cl" "slots_used cl' \<le> MAX_ACTIVE_FILE_TRANSFERS"
  shows "budget_inv cl'"
  using assms by (simp add: budget_inv_def total_received_def)

lemma budget_inv_insert:
  assumes "budget_inv cl" "cl_downloads cl' = hm_insert i d (cl_downloads cl)" "slots_used cl' \<le> MAX_ACTIVE_FILE_TRANSFERS"
    and "download_ok d"
    and "length (dl_hashed d) + total_received cl \<le>
      unat MAX_TOTAL_DOWNLOAD_BYTES + (case hm_get (cl_downloads cl) i of None \<Rightarrow> 0 | Some u \<Rightarrow> length (dl_hashed u))"
  shows "budget_inv cl'"
  using assms hm_sum_insert [of "cl_downloads cl" "\<lambda>d. length (dl_hashed d)" i d]
  by (auto simp: budget_inv_def total_received_def hm_set_insert)

lemma length_hm_insert: "hm_wf m \<Longrightarrow> length (hm_insert k v m) = length m + (case hm_get m k of None \<Rightarrow> 1 | Some _ \<Rightarrow> 0)"
  using hm_sum_insert [of m "\<lambda>_. 1" k v] by (cases "hm_get m k") (simp_all add: length_hm_sum)

lemma length_hm_remove: "hm_wf m \<Longrightarrow> length (hm_remove k m) + (case hm_get m k of None \<Rightarrow> 0 | Some _ \<Rightarrow> 1) = length m"
  using hm_sum_remove [of m "\<lambda>_. 1" k] by (cases "hm_get m k") (simp_all add: length_hm_sum)

lemma slots_temporary [simp]: "slots_used (remove_temporary p cl) = slots_used cl"
  "cl_downloads (remove_temporary p cl) = cl_downloads cl" "cl_uploads (remove_temporary p cl) = cl_uploads cl"
  "cl_files (remove_temporary p cl) = cl_files cl"
  by (simp_all add: remove_temporary_def slots_used_def)

lemma slots_remove_download: "slots_used (cl\<lparr>cl_downloads := hm_remove i (cl_downloads cl)\<rparr>) \<le> slots_used cl"
  by (simp add: slots_used_def length_delete_le)

lemma slots_remove_upload: "slots_used (cl\<lparr>cl_uploads := hm_remove i (cl_uploads cl)\<rparr>) \<le> slots_used cl"
  unfolding slots_card by (auto simp: hm_set_remove intro!: card_mono)

lemma slots_probes [simp]: "slots_used (cl\<lparr>cl_probes := p\<rparr>) = slots_used cl" "slots_used (cl\<lparr>cl_next_id := n\<rparr>) = slots_used cl"
  "slots_used (cl\<lparr>cl_cancelled := c\<rparr>) = slots_used cl" "slots_used (cl\<lparr>cl_files := f\<rparr>) = slots_used cl"
  "slots_used (cl\<lparr>cl_temps := t\<rparr>) = slots_used cl" "slots_used (cl\<lparr>cl_documents := ds\<rparr>) = slots_used cl"
  by (simp_all add: slots_used_def)

lemma budget_inv_slots: "budget_inv cl \<Longrightarrow> slots_used cl \<le> MAX_ACTIVE_FILE_TRANSFERS"
  by (simp add: budget_inv_def)

lemma probe_answer_budget: "budget_inv cl \<Longrightarrow> budget_inv (fst (probe_answer i owner served cancel cl))"
  by (rule budget_inv_same [of cl]) (auto simp: probe_answer_def budget_inv_slots)

lemma file_chunk_budget:
  assumes inv: "budget_inv cl"
  shows "budget_inv (fst (file_chunk owner i seq bs fails cl))"
proof -
  have drop: "budget_inv (remove_temporary p (cl\<lparr>cl_downloads := hm_remove i (cl_downloads cl)\<rparr>))" for p
    by (rule budget_inv_remove [OF inv]) (simp_all add: slots_remove_download)
  show ?thesis
  proof (cases "hm_get (cl_downloads cl) i")
    case (Some d)
    let ?d = "d\<lparr>dl_file := handle_write bs (dl_file d), dl_hashed := dl_hashed d @ bs,
      dl_written := dl_written d + word_of_nat (length bs), dl_next_seq := dl_next_seq d + 1\<rparr>"
    let ?total = "hm_sum (\<lambda>d. length (dl_hashed d)) (cl_downloads cl)"
    have ok: "download_ok d" using inv map_of_SomeD [OF Some] by (auto simp: budget_inv_def)
    have live: "sum_list (map (\<lambda>(_, d). dl_written d) (cl_downloads cl)) = word_of_nat ?total"
      using inv by (intro live_total) (simp add: budget_inv_def)
    have "budget_inv (cl\<lparr>cl_downloads := hm_insert i ?d (cl_downloads cl)\<rparr>)"
      if "\<not> MAX_DOWNLOAD_BYTES < saturating_add (dl_written d) (word_of_nat (length bs))"
        "\<not> MAX_TOTAL_DOWNLOAD_BYTES < saturating_add (word_of_nat ?total) (word_of_nat (length bs))"
        "length bs \<le> FILE_CHUNK_BYTES"
    proof -
      have small: "length bs < 2 ^ 62" using that(3) by (simp add: FILE_CHUNK_BYTES_def)
      have "length (dl_hashed d) + length bs \<le> unat MAX_DOWNLOAD_BYTES"
        using that(1) ok small by (intro within_budget) (auto simp: download_ok_def max_bytes)
      then have "download_ok ?d" using ok by (simp add: download_ok_def)
      moreover have "?total + length bs \<le> unat MAX_TOTAL_DOWNLOAD_BYTES"
        using that(2) inv small by (intro within_budget) (auto simp: budget_inv_def total_received_def max_bytes)
      moreover have "slots_used (cl\<lparr>cl_downloads := hm_insert i ?d (cl_downloads cl)\<rparr>) = slots_used cl"
        using inv Some by (simp add: slots_used_def length_hm_insert budget_inv_def)
      ultimately show ?thesis
        using inv Some by (intro budget_inv_insert [OF inv, of _ i ?d]) (auto simp: total_received_def budget_inv_def)
    qed
    then show ?thesis
      using inv drop Some live by (auto simp: file_chunk_def Let_def probe_answer_budget split: option.splits)
  qed (use inv in \<open>auto simp: file_chunk_def Let_def probe_answer_budget\<close>)
qed

lemma take_owned_download_cases:
  assumes "take_owned_download i owner cl = (cl1, r)"
  obtains (none) "cl1 = cl" "r = None"
  | (taken) d where "cl1 = cl\<lparr>cl_downloads := hm_remove i (cl_downloads cl)\<rparr>" "r = Some d"
      "hm_get (cl_downloads cl) i = Some d" "dl_owner d = owner"
proof (cases "hm_get (cl_downloads cl) i")
  case (Some x)
  then show thesis
    using assms none taken [of x] by (cases "dl_owner x = owner") (simp_all add: take_owned_download_def)
qed (use assms none in \<open>simp add: take_owned_download_def\<close>)

lemma take_owned_upload_cases:
  assumes "take_owned_upload i owner cl = (cl1, r)"
  obtains (none) "cl1 = cl" "r = None"
  | (taken) u where "cl1 = cl\<lparr>cl_uploads := hm_remove i (cl_uploads cl)\<rparr>" "r = Some u"
      "hm_get (cl_uploads cl) i = Some u" "ul_owner u = owner"
proof (cases "hm_get (cl_uploads cl) i")
  case (Some x)
  then show thesis
    using assms none taken [of x] by (cases "ul_owner x = owner") (simp_all add: take_owned_upload_def)
qed (use assms none in \<open>simp add: take_owned_upload_def\<close>)

lemma remove_upload_budget: "budget_inv cl \<Longrightarrow> budget_inv (cl\<lparr>cl_uploads := hm_remove i (cl_uploads cl)\<rparr>)"
  by (rule budget_inv_same [of cl]) (simp_all add: order_trans [OF slots_remove_upload] budget_inv_slots)

lemma remove_download_budget: "budget_inv cl \<Longrightarrow> budget_inv (cl\<lparr>cl_downloads := hm_remove i (cl_downloads cl)\<rparr>)"
  by (rule budget_inv_remove [of cl]) (simp_all add: slots_remove_download)

lemma take_owned_upload_budget: "budget_inv cl \<Longrightarrow> take_owned_upload i owner cl = (cl1, r) \<Longrightarrow> budget_inv cl1"
  by (erule take_owned_upload_cases) (simp_all add: remove_upload_budget)

lemma take_owned_download_budget: "budget_inv cl \<Longrightarrow> take_owned_download i owner cl = (cl1, r) \<Longrightarrow> budget_inv cl1"
  by (erule take_owned_download_cases) (simp_all add: remove_download_budget)

lemma cancelled_budget: "budget_inv cl \<Longrightarrow> budget_inv (cl\<lparr>cl_cancelled := c\<rparr>)"
  by (rule budget_inv_same [of cl]) (simp_all add: budget_inv_slots)

lemma remove_temporary_budget: "budget_inv cl \<Longrightarrow> budget_inv (remove_temporary p cl)"
  by (rule budget_inv_same [of cl]) (simp_all add: budget_inv_slots)

lemma slots_taken:
  "hm_wf (cl_downloads cl) \<Longrightarrow> hm_get (cl_downloads cl) i = Some d \<Longrightarrow>
   slots_used (cl\<lparr>cl_downloads := hm_remove i (cl_downloads cl)\<rparr>) + 1 = slots_used cl"
  using length_hm_remove [of "cl_downloads cl" i] by (simp add: slots_used_def)

lemma install_download_budget:
  assumes "budget_inv cl" "slots_used cl < MAX_ACTIVE_FILE_TRANSFERS"
  shows "budget_inv (fst (install_download i size0 checksum io d cl))"
proof (rule budget_inv_same [OF assms(1)])
  show "cl_downloads (fst (install_download i size0 checksum io d cl)) = cl_downloads cl"
    by (auto simp: install_download_def split: download_target.splits)
  show "slots_used (fst (install_download i size0 checksum io d cl)) \<le> MAX_ACTIVE_FILE_TRANSFERS"
    using assms(2) by (auto simp: install_download_def slots_used_def remove_temporary_def split: download_target.splits)
qed

lemma download_ok_restart:
  "restarts \<le> MAX_DOWNLOAD_RESTARTS \<Longrightarrow> download_ok (restart_download io (d\<lparr>dl_restarts := restarts\<rparr>))"
  by (simp add: download_ok_def restart_download_def)

lemma file_done_budget:
  assumes inv: "budget_inv cl"
  shows "budget_inv (fst (file_done blake3 owner i size0 checksum io cl))"
proof (cases "is_probe i")
  case False
  obtain cl1 r where t: "take_owned_download i owner cl = (cl1, r)" by (meson surj_pair)
  note inv1 = take_owned_download_budget [OF inv t]
  from t show ?thesis
  proof (cases rule: take_owned_download_cases)
    case none
    obtain cl2 u where "take_owned_upload i owner cl1 = (cl2, u)" by (meson surj_pair)
    then show ?thesis
      using t none False take_owned_upload_budget [OF inv1] by (auto simp: file_done_def split: option.splits)
  next
    case (taken d)
    have wf: "hm_wf (cl_downloads cl)" using inv by (simp add: budget_inv_def)
    have slots: "slots_used cl1 < MAX_ACTIVE_FILE_TRANSFERS"
      using slots_taken [OF wf taken(3)] budget_inv_slots [OF inv] by (simp add: taken(1))
    have none: "hm_get (cl_downloads cl1) i = None" by (simp add: taken(1))
    have "budget_inv (cl1\<lparr>cl_downloads := hm_insert i (restart_download io (d\<lparr>dl_restarts := rs\<rparr>)) (cl_downloads cl1)\<rparr>)"
      if "\<not> MAX_DOWNLOAD_RESTARTS < rs" for rs
    proof (rule budget_inv_insert [OF inv1])
      show "slots_used (cl1\<lparr>cl_downloads := hm_insert i (restart_download io (d\<lparr>dl_restarts := rs\<rparr>)) (cl_downloads cl1)\<rparr>)
          \<le> MAX_ACTIVE_FILE_TRANSFERS"
        using slots none inv1 by (simp add: slots_used_def length_hm_insert budget_inv_def)
      show "download_ok (restart_download io (d\<lparr>dl_restarts := rs\<rparr>))" using that by (intro download_ok_restart) simp
      show "length (dl_hashed (restart_download io (d\<lparr>dl_restarts := rs\<rparr>))) + total_received cl1 \<le> unat MAX_TOTAL_DOWNLOAD_BYTES +
          (case hm_get (cl_downloads cl1) i of None \<Rightarrow> 0 | Some u \<Rightarrow> length (dl_hashed u))"
        using inv1 none by (simp add: restart_download_def budget_inv_def)
    qed simp
    then show ?thesis
      using t taken(2) False inv1 slots
      by (auto simp: file_done_def Let_def remove_temporary_budget install_download_budget)
  qed
qed (simp add: file_done_def probe_answer_budget inv)

lemma file_err_budget:
  assumes inv: "budget_inv cl"
  shows "budget_inv (fst (file_err owner i reason cl))"
proof (cases "is_probe i")
  case False
  obtain cl1 d where d: "take_owned_download i owner cl = (cl1, d)" by (meson surj_pair)
  define cl2 where "cl2 = (case d of None \<Rightarrow> cl1 | Some d \<Rightarrow> remove_temporary (dl_temporary d) cl1)"
  obtain cl3 u where u: "take_owned_upload i owner cl2 = (cl3, u)" by (meson surj_pair)
  have "budget_inv cl2"
    using take_owned_download_budget [OF inv d] by (auto simp: cl2_def remove_temporary_budget split: option.splits)
  then have "budget_inv cl3" by (rule take_owned_upload_budget [OF _ u])
  then show ?thesis
    using False d u by (auto simp: file_err_def Let_def cl2_def cancelled_budget split: option.splits)
qed (simp add: file_err_def probe_answer_budget inv)

lemma link_established_budget:
  assumes inv: "budget_inv cl"
  shows "budget_inv (fst (link_established owner cl))"
proof -
  define cl1 where "cl1 = fst (take_transfers_not_owned_by cl owner)"
  have "total_received cl1 \<le> total_received cl"
    by (simp add: cl1_def take_transfers_not_owned_by_def Let_def total_received_def hm_sum_filter)
  moreover have "slots_used cl1 \<le> slots_used cl"
    unfolding slots_card cl1_def
    by (auto simp: take_transfers_not_owned_by_def Let_def intro!: add_mono card_mono)
  ultimately have "budget_inv cl1"
    using inv by (auto simp: budget_inv_def cl1_def take_transfers_not_owned_by_def Let_def)
  moreover have "budget_inv (foldl (\<lambda>cl (_, p). case p of None \<Rightarrow> cl | Some temporary \<Rightarrow> remove_temporary temporary cl) c ps)"
    if "budget_inv c" for c and ps :: "(transfer_id \<times> path option) list"
    using that by (induction ps arbitrary: c) (auto simp: remove_temporary_budget split: option.splits)
  ultimately show ?thesis by (simp add: link_established_def cl1_def split_beta)
qed

lemma slots_spawn:
  "slots_used (spawn_upload_range i cl) \<le> slots_used cl + (if i \<in> fst ` set (cl_uploads cl) then 0 else 1)"
proof -
  let ?S = "fst ` set (cl_uploads cl) \<union> fst ` set (cl_tasks cl)"
  have "card (insert i ?S) \<le> card ?S + (if i \<in> fst ` set (cl_uploads cl) then 0 else 1)"
    by (simp add: card_insert_if)
  then show ?thesis by (simp add: slots_card spawn_upload_range_def Let_def)
qed

lemma spawn_downloads [simp]: "cl_downloads (spawn_upload_range i cl) = cl_downloads cl"
  by (simp add: spawn_upload_range_def Let_def)

lemma file_retry_budget:
  assumes inv: "budget_inv cl"
  shows "budget_inv (fst (file_retry owner i cl))"
proof (cases "hm_get (cl_uploads cl) i")
  case (Some u)
  then have "i \<in> fst ` set (cl_uploads cl)" by (force dest: map_of_SomeD)
  then have "slots_used (spawn_upload_range i cl) \<le> MAX_ACTIVE_FILE_TRANSFERS"
    using slots_spawn [of i cl] budget_inv_slots [OF inv] by simp
  then show ?thesis using Some inv budget_inv_same [OF inv, of "spawn_upload_range i cl"] by (simp add: file_retry_def)
qed (use inv in \<open>simp add: file_retry_def\<close>)

lemma download_file_budget:
  assumes inv: "budget_inv cl"
  shows "budget_inv (fst (download_file connection remote target temporary allow created enqueued cl))"
proof -
  have same: "budget_inv (cl\<lparr>cl_next_id := n\<rparr>)" for n
    by (rule budget_inv_same [OF inv]) (simp_all add: budget_inv_slots inv)
  have gone: "budget_inv (cl\<lparr>cl_next_id := n, cl_downloads := hm_remove i (cl_downloads cl)\<rparr>)" for n i
    using remove_download_budget [OF same [of n], of i] by simp
  have new: "budget_inv (cl\<lparr>cl_next_id := n, cl_temps := ts, cl_downloads := hm_insert i d (cl_downloads cl)\<rparr>)"
    if "slots_used cl < MAX_ACTIVE_FILE_TRANSFERS" "dl_hashed d = []" "dl_written d = 0" "dl_restarts d = 0" for n i ts d
  proof (rule budget_inv_insert [OF inv])
    show "slots_used (cl\<lparr>cl_next_id := n, cl_temps := ts, cl_downloads := hm_insert i d (cl_downloads cl)\<rparr>) \<le> MAX_ACTIVE_FILE_TRANSFERS"
      using that inv by (simp add: slots_used_def length_hm_insert budget_inv_def split: option.splits)
  qed (use that inv in \<open>auto simp: download_ok_def budget_inv_def MAX_DOWNLOAD_RESTARTS_def intro: trans_le_add1\<close>)
  show ?thesis
    using same gone new inv by (auto simp: download_file_def Let_def split: option.splits)
qed

lemma upload_file_budget:
  assumes inv: "budget_inv cl"
  shows "budget_inv (fst (upload_file connection source remote mode picked allow sent cl))"
proof -
  have same: "budget_inv (cl\<lparr>cl_next_id := n\<rparr>)" for n
    by (rule budget_inv_same [OF inv]) (simp_all add: budget_inv_slots inv)
  have gone: "budget_inv (cl\<lparr>cl_next_id := n, cl_uploads := hm_remove i (cl_uploads cl)\<rparr>)" for n i
    using remove_upload_budget [OF same [of n], of i] by simp
  have new: "budget_inv (spawn_upload_range i (cl\<lparr>cl_next_id := n, cl_uploads := hm_insert i u (cl_uploads cl)\<rparr>))"
    if "slots_used cl < MAX_ACTIVE_FILE_TRANSFERS" for n i u
  proof (rule budget_inv_same [OF inv])
    have "fst ` set (hm_insert i u (cl_uploads cl)) = insert i (fst ` set (cl_uploads cl))"
      by (simp add: dom_update [of i u "cl_uploads cl", unfolded dom_map_of_conv_image_fst])
    then show "slots_used (spawn_upload_range i (cl\<lparr>cl_next_id := n, cl_uploads := hm_insert i u (cl_uploads cl)\<rparr>)) \<le> MAX_ACTIVE_FILE_TRANSFERS"
      using that by (simp add: slots_card spawn_upload_range_def Let_def card_insert_if)
  qed simp
  show ?thesis
    using same gone new inv by (auto simp: upload_file_def Let_def split: option.splits)
qed

lemma upload_task_ended_budget:
  assumes inv: "budget_inv cl"
  shows "budget_inv (fst (upload_task_ended i epoch failed cl))"
proof -
  have task: "budget_inv (cl\<lparr>cl_tasks := remove1 x (cl_tasks cl)\<rparr>)" for x
  proof (rule budget_inv_same [OF inv])
    have "slots_used (cl\<lparr>cl_tasks := remove1 x (cl_tasks cl)\<rparr>) \<le> slots_used cl"
      unfolding slots_card by (auto intro!: card_mono dest: notin_set_remove1 set_remove1_subset [THEN subsetD])
    then show "slots_used (cl\<lparr>cl_tasks := remove1 x (cl_tasks cl)\<rparr>) \<le> MAX_ACTIVE_FILE_TRANSFERS"
      using budget_inv_slots [OF inv] by simp
  qed simp
  have "budget_inv (cl\<lparr>cl_tasks := remove1 x (cl_tasks cl), cl_cancelled := c, cl_uploads := hm_remove i (cl_uploads cl)\<rparr>)" for x c
    using remove_upload_budget [OF cancelled_budget [OF task]] by simp
  with task show ?thesis by (simp add: upload_task_ended_def Let_def)
qed

lemma document_commit_ended_budget:
  assumes inv: "budget_inv cl"
  shows "budget_inv (fst (document_commit_ended blake3 n staged opened writes flush sync_all set_len cl))"
  by (rule budget_inv_same [OF inv])
    (use budget_inv_slots [OF inv] in \<open>auto simp: document_commit_ended_def Let_def slots_used_def split_beta\<close>)

lemma probe_commands_budget:
  "budget_inv cl \<Longrightarrow> budget_inv (fst (probe_download connection remote allow enqueued cl))"
  "budget_inv cl \<Longrightarrow> budget_inv (fst (probe_timeout i cl))"
  by (rule budget_inv_same [of cl]; auto simp: probe_download_def probe_timeout_def Let_def budget_inv_slots split: option.splits)+

interpretation client_budget: step_invariant "transfer_step blake3" budget_inv
proof
  fix cl ev
  assume "budget_inv cl"
  then show "budget_inv (transfer_step blake3 cl ev)"
    by (cases ev)
      (simp_all add: transfer_step_def link_established_budget file_chunk_budget file_done_budget file_retry_budget file_err_budget
        download_file_budget upload_file_budget probe_commands_budget upload_task_ended_budget document_commit_ended_budget)
qed

lemma new_client_budget: "budget_inv new_client"
  by (simp add: budget_inv_def new_client_def total_received_def slots_used_def)

text \<open>A verified file that waits to be copied into its document was received within the bound of a download.\<close>

definition commits_ok :: "client \<Rightarrow> bool" where
  "commits_ok cl \<longleftrightarrow> (\<forall>c \<in> set (cl_commits cl). unat (dc_size c) \<le> unat MAX_DOWNLOAD_BYTES)"

lemma fold_temporary_commits [simp]:
  "cl_commits (remove_temporary p cl) = cl_commits cl"
  "cl_commits (foldl (\<lambda>cl (_, p). case p of None \<Rightarrow> cl | Some temporary \<Rightarrow> remove_temporary temporary cl) c ps) = cl_commits c"
proof -
  show commits: "cl_commits (remove_temporary p cl) = cl_commits cl" for p cl by (simp add: remove_temporary_def)
  show "cl_commits (foldl (\<lambda>cl (_, p). case p of None \<Rightarrow> cl | Some temporary \<Rightarrow> remove_temporary temporary cl) c ps) = cl_commits c"
    by (induction ps arbitrary: c) (auto simp: commits split: option.splits)
qed

lemma commits_unchanged:
  "cl_commits (fst (link_established owner cl)) = cl_commits cl"
  "cl_commits (fst (file_chunk owner i seq bs fails cl)) = cl_commits cl"
  "cl_commits (fst (file_retry owner i cl)) = cl_commits cl"
  "cl_commits (fst (file_err owner i reason cl)) = cl_commits cl"
  "cl_commits (fst (download_file connection remote target temporary allow created enqueued cl)) = cl_commits cl"
  "cl_commits (fst (upload_file connection source remote mode picked allow sent cl)) = cl_commits cl"
  "cl_commits (fst (probe_download connection remote allow enqueued cl)) = cl_commits cl"
  "cl_commits (fst (probe_timeout i cl)) = cl_commits cl"
  "cl_commits (fst (probe_answer i owner served cancel cl)) = cl_commits cl"
  "cl_commits (fst (upload_task_ended i epoch failed cl)) = cl_commits cl"
  by (auto simp: link_established_def take_transfers_not_owned_by_def file_chunk_def file_retry_def file_err_def download_file_def
      upload_file_def probe_download_def probe_timeout_def probe_answer_def upload_task_ended_def spawn_upload_range_def
      take_owned_download_def take_owned_upload_def Let_def split_beta split: option.splits)

lemma file_done_commits:
  assumes "budget_inv cl" "commits_ok cl"
  shows "commits_ok (fst (file_done blake3 owner i size0 checksum io cl))"
proof -
  obtain cl1 r where t: "take_owned_download i owner cl = (cl1, r)" by (meson surj_pair)
  from t show ?thesis
  proof (cases rule: take_owned_download_cases)
    case none
    then show ?thesis using assms(2) t
      by (auto simp: file_done_def take_owned_upload_def commits_ok_def commits_unchanged split: option.splits)
  next
    case (taken d)
    then have "unat (dl_written d) \<le> unat MAX_DOWNLOAD_BYTES"
      using assms(1) map_of_SomeD by (fastforce simp: budget_inv_def download_ok_def max_bytes unat_of_nat)
    then show ?thesis using assms(2) t taken
      by (auto simp: file_done_def install_download_def remove_temporary_def commits_ok_def commits_unchanged Let_def split: download_target.splits)
  qed
qed

lemma document_commit_ended_commits:
  "commits_ok cl \<Longrightarrow> commits_ok (fst (document_commit_ended blake3 n staged opened writes flush sync_all set_len cl))"
  by (auto simp: document_commit_ended_def commits_ok_def remove_temporary_def Let_def split_beta dest: in_set_takeD in_set_dropD)

interpretation client_commits: step_invariant "transfer_step blake3" "\<lambda>cl. budget_inv cl \<and> commits_ok cl"
proof
  fix cl ev
  assume inv: "budget_inv cl \<and> commits_ok cl"
  then have "budget_inv (transfer_step blake3 cl ev)" using client_budget.step_inv by blast
  moreover have "commits_ok (transfer_step blake3 cl ev)"
    using inv commits_unchanged
    by (cases ev) (simp_all add: transfer_step_def file_done_commits document_commit_ended_commits, simp_all add: commits_ok_def)
  ultimately show "budget_inv (transfer_step blake3 cl ev) \<and> commits_ok (transfer_step blake3 cl ev)" ..
qed

section \<open>What is installed\<close>

text \<open>The contents of a temporary file are the bytes that were hashed.\<close>

definition content_ok :: "download_transfer \<Rightarrow> bool" where
  "content_ok d \<longleftrightarrow> dl_file d = \<lparr>fh_content = dl_hashed d, fh_pos = length (dl_hashed d)\<rparr>"

definition contents_inv :: "client \<Rightarrow> bool" where
  "contents_inv cl \<longleftrightarrow> budget_inv cl \<and> (\<forall>(i, d) \<in> set (cl_downloads cl). content_ok d)"

text \<open>A restart really empties the file: the code ignores the results of these two calls.\<close>

fun truncates :: "client_event \<Rightarrow> bool" where
  "truncates (RxFileDone owner i size0 checksum io) = (io_set_len io \<and> io_seek io)"
| "truncates _ = True"

lemma content_ok_write:
  "content_ok d \<Longrightarrow> content_ok (d\<lparr>dl_file := handle_write bs (dl_file d), dl_hashed := dl_hashed d @ bs, dl_written := w, dl_next_seq := n\<rparr>)"
  by (simp add: content_ok_def handle_write_def Let_def)

lemma content_ok_restart: "io_set_len io \<Longrightarrow> io_seek io \<Longrightarrow> content_ok (restart_download io d)"
  by (simp add: content_ok_def restart_download_def restart_file_def)

text \<open>Downloads change only at one place.\<close>

lemma contents_inv_step:
  assumes "contents_inv cl" "budget_inv cl'"
    and "\<And>i d. (i, d) \<in> set (cl_downloads cl') \<Longrightarrow> (i, d) \<in> set (cl_downloads cl) \<or> content_ok d"
  shows "contents_inv cl'"
  using assms by (fastforce simp: contents_inv_def)

lemma downloads_after_probe [simp]: "cl_downloads (fst (probe_answer i owner served cancel cl)) = cl_downloads cl"
  "cl_files (fst (probe_answer i owner served cancel cl)) = cl_files cl"
  by (simp_all add: probe_answer_def)

lemma downloads_after_install [simp]: "cl_downloads (fst (install_download i size0 checksum io d cl)) = cl_downloads cl"
  by (auto simp: install_download_def split: download_target.splits)

lemma fold_remove_temporary [simp]:
  "cl_downloads (foldl (\<lambda>cl (_, p). case p of None \<Rightarrow> cl | Some temporary \<Rightarrow> remove_temporary temporary cl) c ps) = cl_downloads c"
  "cl_files (foldl (\<lambda>cl (_, p). case p of None \<Rightarrow> cl | Some temporary \<Rightarrow> remove_temporary temporary cl) c ps) = cl_files c"
  by (induction ps arbitrary: c) (auto simp: remove_temporary_def split: option.splits)

lemma file_chunk_downloads:
  assumes "contents_inv cl" "(j, d) \<in> set (cl_downloads (fst (file_chunk owner i seq bs fails cl)))"
  shows "(j, d) \<in> set (cl_downloads cl) \<or> content_ok d"
proof (cases "hm_get (cl_downloads cl) i")
  case (Some d0)
  have wf: "hm_wf (cl_downloads cl)" using assms(1) by (simp add: contents_inv_def budget_inv_def)
  have "content_ok d0" using assms(1) map_of_SomeD [OF Some] by (auto simp: contents_inv_def)
  then show ?thesis
    using assms(2) Some wf
    by (auto simp: file_chunk_def Let_def hm_set_remove hm_set_insert content_ok_write split: if_splits option.splits)
qed (use assms(2) in \<open>auto simp: file_chunk_def Let_def split: if_splits\<close>)

lemma file_done_downloads:
  assumes "contents_inv cl" "io_set_len io" "io_seek io"
    and "(j, d) \<in> set (cl_downloads (fst (file_done blake3 owner i size0 checksum io cl)))"
  shows "(j, d) \<in> set (cl_downloads cl) \<or> content_ok d"
proof -
  obtain cl1 r where t: "take_owned_download i owner cl = (cl1, r)" by (meson surj_pair)
  have wf: "hm_wf (cl_downloads cl)" using assms(1) by (simp add: contents_inv_def budget_inv_def)
  from t show ?thesis
  proof (cases rule: take_owned_download_cases)
    case none
    then show ?thesis
      using assms(4) t by (auto simp: file_done_def take_owned_upload_def split: if_splits option.splits)
  next
    case (taken d0)
    then show ?thesis
      using assms t wf by (auto simp: file_done_def Let_def hm_set_insert hm_set_remove content_ok_restart split: if_splits)
  qed
qed

lemma file_err_downloads:
  "(j, d) \<in> set (cl_downloads (fst (file_err owner i reason cl))) \<Longrightarrow> (j, d) \<in> set (cl_downloads cl)"
  by (auto simp: file_err_def take_owned_download_def take_owned_upload_def Let_def hm_set_remove split: if_splits option.splits)

lemma download_file_downloads:
  assumes "contents_inv cl" "(j, d) \<in> set (cl_downloads (fst (download_file connection remote target temporary allow created enqueued cl)))"
  shows "(j, d) \<in> set (cl_downloads cl) \<or> content_ok d"
  using assms
  by (auto simp: download_file_def Let_def contents_inv_def budget_inv_def hm_set_insert hm_set_remove content_ok_def
      split: if_splits option.splits)

lemma other_downloads:
  "cl_downloads (fst (file_retry owner i cl)) = cl_downloads cl"
  "cl_downloads (fst (upload_file connection source remote mode picked allow sent cl)) = cl_downloads cl"
  "cl_downloads (fst (probe_download connection remote allow enqueued cl)) = cl_downloads cl"
  "cl_downloads (fst (probe_timeout j cl)) = cl_downloads cl"
  "cl_downloads (fst (upload_task_ended i epoch failed cl)) = cl_downloads cl"
  "cl_downloads (fst (document_commit_ended blake3 n staged opened writes flush sync_all set_len cl)) = cl_downloads cl"
  by (auto simp: file_retry_def upload_file_def probe_download_def probe_timeout_def upload_task_ended_def document_commit_ended_def
      Let_def split_beta split: option.splits)

interpretation client_contents: guarded_invariant "transfer_step blake3" contents_inv truncates
proof
  fix cl ev
  assume inv: "contents_inv cl" and ok: "truncates ev"
  have "budget_inv (transfer_step blake3 cl ev)"
    using inv by (intro client_budget.step_inv) (simp add: contents_inv_def)
  with inv show "contents_inv (transfer_step blake3 cl ev)"
  proof (rule contents_inv_step)
    fix j d
    assume "(j, d) \<in> set (cl_downloads (transfer_step blake3 cl ev))"
    then show "(j, d) \<in> set (cl_downloads cl) \<or> content_ok d"
      using inv ok
      by (cases ev)
        (auto simp: transfer_step_def other_downloads link_established_def take_transfers_not_owned_by_def Let_def split_beta
          dest: file_chunk_downloads file_done_downloads file_err_downloads download_file_downloads)
  qed
qed

lemma new_client_contents: "contents_inv new_client"
  using new_client_budget by (simp add: contents_inv_def) (simp add: new_client_def)

text \<open>
  C40. The storage hosts can make the phone use is bounded: whatever the hosts send, in any order and on any number of links, whichever
  creations, writes, flushes and renames fail and whatever the user commands, as long as a restart of a download could empty its temporary file (the code ignores the
  results of these two calls): the temporary file of no running download holds more than 4 GiB and those of all running downloads together no more than
  6 GiB; a verified file that waits to be copied into its document, which is not counted in these 6 GiB, has at most 4 GiB; no download is
  restarted more than three times; and at most four transfers hold a slot.
\<close>

theorem phone_storage_bounded:
  assumes "list_all truncates es" "cl = foldl (transfer_step blake3) new_client es"
  shows "list_all (\<lambda>(i, d). length (fh_content (dl_file d)) \<le> 4 * 1024 ^ 3 \<and> dl_restarts d \<le> 3) (cl_downloads cl) \<and>
     sum_list (map (\<lambda>(i, d). length (fh_content (dl_file d))) (cl_downloads cl)) \<le> 6 * 1024 ^ 3 \<and>
     list_all (\<lambda>c. unat (dc_size c) \<le> 4 * 1024 ^ 3) (cl_commits cl) \<and> slots_used cl \<le> 4"
proof -
  have inv: "contents_inv cl" unfolding assms(2) by (rule client_contents.guarded_run [OF new_client_contents assms(1)])
  then have held: "length (fh_content (dl_file d)) = length (dl_hashed d)" if "(i, d) \<in> set (cl_downloads cl)" for i d
    using that by (auto simp: contents_inv_def content_ok_def)
  then have same: "map (\<lambda>(i, d). length (fh_content (dl_file d))) (cl_downloads cl) = map (\<lambda>(i, d). length (dl_hashed d)) (cl_downloads cl)" by auto
  moreover have "commits_ok cl"
    using client_commits.run_inv [of new_client blake3 es] new_client_budget assms(2) by (simp add: commits_ok_def) (simp add: new_client_def)
  ultimately show ?thesis unfolding same using inv held
    by (auto simp: contents_inv_def budget_inv_def download_ok_def total_received_def hm_sum_def max_bytes list_all_iff commits_ok_def
      MAX_DOWNLOAD_RESTARTS_def MAX_ACTIVE_FILE_TRANSFERS_def)
qed

lemma files_unchanged:
  "cl_files (fst (link_established owner cl)) = cl_files cl"
  "cl_files (fst (file_chunk owner i seq bs fails cl)) = cl_files cl"
  "cl_files (fst (file_retry owner i cl)) = cl_files cl"
  "cl_files (fst (file_err owner i reason cl)) = cl_files cl"
  "cl_files (fst (download_file connection remote target temporary allow created enqueued cl)) = cl_files cl"
  "cl_files (fst (upload_file connection source remote mode picked allow sent cl)) = cl_files cl"
  "cl_files (fst (probe_download connection remote allow enqueued cl)) = cl_files cl"
  "cl_files (fst (probe_timeout i cl)) = cl_files cl"
  "cl_files (fst (upload_task_ended i epoch failed cl)) = cl_files cl"
  "cl_files (fst (document_commit_ended blake3 n staged opened writes flush sync_all set_len cl)) = cl_files cl"
  by (auto simp: link_established_def take_transfers_not_owned_by_def file_chunk_def file_retry_def file_err_def download_file_def
      upload_file_def probe_download_def probe_timeout_def upload_task_ended_def document_commit_ended_def spawn_upload_range_def
      take_owned_download_def take_owned_upload_def Let_def split_beta split: option.splits)

lemma file_done_files:
  assumes "hm_get (cl_files (fst (file_done blake3 owner i size0 checksum io cl))) p \<noteq> hm_get (cl_files cl) p"
  obtains d where "hm_get (cl_downloads cl) i = Some d" "dl_owner d = owner" "dl_target d = TargetPath p"
    "dl_written d = size0" "blake3 (dl_hashed d) = checksum"
    "hm_get (cl_files (fst (file_done blake3 owner i size0 checksum io cl))) p = Some (fh_content (dl_file d))"
proof -
  obtain cl1 r where t: "take_owned_download i owner cl = (cl1, r)" by (meson surj_pair)
  from t show thesis
  proof (cases rule: take_owned_download_cases)
    case none
    then show thesis using assms t by (auto simp: file_done_def take_owned_upload_def split: if_splits option.splits)
  next
    case (taken d)
    then show thesis
      using assms t that [of d]
      by (auto simp: file_done_def install_download_def Let_def split: if_splits download_target.splits)
  qed
qed

text \<open>
  C9. The files at the paths the user chose change only by verified downloads: in every run in which a restart of a download
  could empty its temporary file (\<open>truncates\<close>: the code ignores the results of \<open>set_len\<close> and \<open>seek\<close>), whatever the hosts send, a step that changes the file at a path is
  a \<open>FileDone\<close> from the pairing that was asked for this download to this path, and the file then holds
  exactly the received bytes, with the announced length and checksum. Documents of other apps, written through their provider, are not files at a path; the
  names of the temporary files are taken to be none of the paths the user chooses.
\<close>

theorem download_installs_verified:
  assumes "list_all truncates es" "cl = foldl (transfer_step blake3) new_client es"
    and "hm_get (cl_files (transfer_step blake3 cl ev)) p \<noteq> hm_get (cl_files cl) p"
  shows "\<exists>owner i size0 checksum io d. ev = RxFileDone owner i size0 checksum io \<and> hm_get (cl_downloads cl) i = Some d \<and>
    dl_owner d = owner \<and> dl_target d = TargetPath p \<and> hm_get (cl_files (transfer_step blake3 cl ev)) p = Some (dl_hashed d) \<and>
    blake3 (dl_hashed d) = checksum \<and> length (dl_hashed d) = unat size0"
proof -
  have inv: "contents_inv cl"
    unfolding assms(2) by (rule client_contents.guarded_run [OF new_client_contents assms(1)])
  show ?thesis
  proof (cases ev)
    case (RxFileDone owner i size0 checksum io)
    with assms(3) obtain d where d: "hm_get (cl_downloads cl) i = Some d" "dl_owner d = owner" "dl_target d = TargetPath p"
      "dl_written d = size0" "blake3 (dl_hashed d) = checksum" "hm_get (cl_files (transfer_step blake3 cl ev)) p = Some (fh_content (dl_file d))"
      by (auto simp: transfer_step_def elim: file_done_files)
    have ok: "content_ok d" "download_ok d"
      using inv map_of_SomeD [OF d(1)] by (auto simp: contents_inv_def budget_inv_def)
    then have "length (dl_hashed d) = unat size0"
      using d(4) by (auto simp: download_ok_def max_bytes unat_of_nat)
    with d ok(1) RxFileDone show ?thesis by (auto simp: content_ok_def)
  qed (use assms(3) in \<open>simp_all add: transfer_step_def files_unchanged\<close>)
qed

definition all_done :: done_io where
  "all_done = \<lparr>io_set_len = True, io_seek = True, io_flush = True, io_sync = True, io_rename = True\<rparr>"

definition some_owner :: transfer_owner where
  "some_owner = \<lparr>ow_peer_device_id = [1], ow_pair_id = [2]\<rparr>"

lemma not_probe_one: "\<not> is_probe 1"
  by (simp add: is_probe_def PROBE_ID_BIT_def)

lemmas client_evaluation =
  transfer_step_def download_file_def file_chunk_def file_done_def install_download_def take_owned_download_def
  slots_used_def new_client_def handle_write_def remove_temporary_def restart_download_def restart_file_def
  MAX_ACTIVE_FILE_TRANSFERS_def MAX_DOWNLOAD_BYTES_def MAX_TOTAL_DOWNLOAD_BYTES_def MAX_DOWNLOAD_RESTARTS_def
  FILE_CHUNK_BYTES_def saturating_add_def not_probe_one all_done_def Let_def

definition received_one :: client where
  "received_one = foldl (transfer_step (\<lambda>bs. bs)) new_client
     [DownloadCmd (Some some_owner) ''r'' (TargetPath ''t'') ''p'' False True True, RxFileChunk some_owner 1 0 [8] None]"

lemma received_one_files: "cl_files received_one = []"
  "cl_files (transfer_step (\<lambda>bs. bs) received_one (RxFileDone some_owner 1 1 [8] all_done)) = [(''t'', [8])]"
  by (simp_all add: received_one_def client_evaluation)

theorem download_installs_verified_witness:
  "hm_get (cl_files (transfer_step (\<lambda>bs. bs) received_one (RxFileDone some_owner 1 1 [8] all_done))) ''t'' = Some [8] \<and>
   (\<exists>d. hm_get (cl_downloads received_one) 1 = Some d \<and> dl_owner d = some_owner \<and> dl_hashed d = [8])"
proof -
  have ok: "list_all truncates [DownloadCmd (Some some_owner) ''r'' (TargetPath ''t'') ''p'' False True True,
      RxFileChunk some_owner 1 0 [8] None]"
    by simp
  have change: "hm_get (cl_files (transfer_step (\<lambda>bs. bs) received_one (RxFileDone some_owner 1 1 [8] all_done))) ''t'' \<noteq>
      hm_get (cl_files received_one) ''t''"
    by (simp add: received_one_files)
  from download_installs_verified [OF ok received_one_def change] show ?thesis
    by (auto simp: received_one_files)
qed

theorem phone_storage_bounded_witness:
  "list_all truncates [DownloadCmd (Some some_owner) ''r'' (TargetPath ''t'') ''p'' False True True, RxFileChunk some_owner 1 0 [8] None] \<and>
   list_all (\<lambda>(i, d). length (fh_content (dl_file d)) \<le> 4 * 1024 ^ 3 \<and> dl_restarts d \<le> 3) (cl_downloads received_one) \<and>
   map (\<lambda>(i, d). fh_content (dl_file d)) (cl_downloads received_one) = [[8]]"
proof -
  have ok: "list_all truncates [DownloadCmd (Some some_owner) ''r'' (TargetPath ''t'') ''p'' False True True, RxFileChunk some_owner 1 0 [8] None]" by simp
  have "map (\<lambda>(i, d). fh_content (dl_file d)) (cl_downloads received_one) = [[8]]" by (simp add: received_one_def client_evaluation)
  with ok phone_storage_bounded [OF ok received_one_def] show ?thesis by blast
qed

text \<open>
  When emptying the file fails, a restarted download that is shorter than the first attempt is
  installed with the end of the old bytes behind the verified ones.
\<close>

lemma restart_keeps_old_bytes:
  "cl_files (foldl (transfer_step (\<lambda>bs. bs)) new_client
     [DownloadCmd (Some some_owner) ''r'' (TargetPath ''t'') ''p'' False True True, RxFileChunk some_owner 1 0 [1, 2] None,
      RxFileDone some_owner 1 2 [] (all_done\<lparr>io_set_len := False\<rparr>), RxFileChunk some_owner 1 0 [7] None,
      RxFileDone some_owner 1 1 [7] all_done]) = [(''t'', [7, 2])]"
  by (simp add: client_evaluation)

section \<open>Frames of another host\<close>

fun sent_by :: "client_event \<Rightarrow> transfer_owner option" where
  "sent_by (RxFileChunk owner i seq bs fails) = Some owner"
| "sent_by (RxFileDone owner i size0 checksum io) = Some owner"
| "sent_by (RxFileRetry owner i) = Some owner"
| "sent_by (RxFileErr owner i reason) = Some owner"
| "sent_by _ = None"

lemma uploads_after [simp]:
  "cl_uploads (fst (probe_answer i owner served cancel cl)) = cl_uploads cl"
  "cl_uploads (fst (file_chunk owner i seq bs fails cl)) = cl_uploads cl"
  "cl_uploads (fst (install_download i size0 checksum io d cl)) = cl_uploads cl"
  "cl_uploads (fst (file_retry owner i cl)) = cl_uploads cl"
  by (auto simp: probe_answer_def file_chunk_def install_download_def file_retry_def spawn_upload_range_def Let_def
      split: option.splits download_target.splits)

lemma foreign_chunk:
  "hm_get (cl_downloads cl) i = Some d \<Longrightarrow> dl_owner d \<noteq> owner \<Longrightarrow>
   hm_get (cl_downloads (fst (file_chunk owner j seq bs fails cl))) i = Some d"
  by (cases "i = j") (auto simp: file_chunk_def Let_def split: option.splits)

lemma foreign_taken:
  assumes "take_owned_download j owner cl = (cl1, r)" "take_owned_upload j owner cl = (cl2, r')"
  shows "hm_get (cl_downloads cl) i = Some d \<Longrightarrow> dl_owner d \<noteq> owner \<Longrightarrow> hm_get (cl_downloads cl1) i = Some d \<and> (r \<noteq> None \<longrightarrow> i \<noteq> j)"
    and "hm_get (cl_uploads cl) i = Some u \<Longrightarrow> ul_owner u \<noteq> owner \<Longrightarrow> hm_get (cl_uploads cl2) i = Some u"
    and "cl_uploads cl1 = cl_uploads cl" and "cl_downloads cl2 = cl_downloads cl"
  using assms by (cases "i = j"; auto simp: take_owned_download_def take_owned_upload_def split: option.splits if_splits)+

lemma foreign_done:
  assumes t: "take_owned_download j owner cl = (cl1, r)" "take_owned_upload j owner cl1 = (cl2, r')"
  shows "hm_get (cl_downloads cl) i = Some d \<Longrightarrow> dl_owner d \<noteq> owner \<Longrightarrow>
      hm_get (cl_downloads (fst (file_done blake3 owner j size0 checksum io cl))) i = Some d"
    and "hm_get (cl_uploads cl) i = Some u \<Longrightarrow> ul_owner u \<noteq> owner \<Longrightarrow>
      hm_get (cl_uploads (fst (file_done blake3 owner j size0 checksum io cl))) i = Some u"
proof -
  obtain cl0 r0 where t0: "take_owned_upload j owner cl = (cl0, r0)" by (meson surj_pair)
  obtain cl3 r3 where t3: "take_owned_download j owner cl1 = (cl3, r3)" by (meson surj_pair)
  note a = foreign_taken [OF t(1) t0] and b = foreign_taken [OF t3 t(2)]
  show "hm_get (cl_downloads (fst (file_done blake3 owner j size0 checksum io cl))) i = Some d"
    if "hm_get (cl_downloads cl) i = Some d" "dl_owner d \<noteq> owner"
    using a(1) [OF that] b(4) that t by (cases r; cases r') (simp_all add: file_done_def Let_def)
  show "hm_get (cl_uploads (fst (file_done blake3 owner j size0 checksum io cl))) i = Some u"
    if "hm_get (cl_uploads cl) i = Some u" "ul_owner u \<noteq> owner"
    using a(3) b(2) that t by (cases r; cases r') (simp_all add: file_done_def Let_def)
qed

lemma foreign_err:
  "hm_get (cl_downloads cl) i = Some d \<Longrightarrow> dl_owner d \<noteq> owner \<Longrightarrow> hm_get (cl_downloads (fst (file_err owner j reason cl))) i = Some d"
  "hm_get (cl_uploads cl) i = Some u \<Longrightarrow> ul_owner u \<noteq> owner \<Longrightarrow> hm_get (cl_uploads (fst (file_err owner j reason cl))) i = Some u"
  by (cases "i = j"; auto simp: file_err_def take_owned_download_def take_owned_upload_def Let_def split: option.splits)+

text \<open>
  A host reaches only the transfers that were started with it: a transfer frame from one pairing
  leaves every download and every upload of all other pairings exactly as they were.
\<close>

theorem foreign_frames_ignored:
  assumes "sent_by ev = Some owner"
  shows "(hm_get (cl_downloads cl) i = Some d \<and> dl_owner d \<noteq> owner \<longrightarrow> hm_get (cl_downloads (transfer_step blake3 cl ev)) i = Some d) \<and>
    (hm_get (cl_uploads cl) i = Some u \<and> ul_owner u \<noteq> owner \<longrightarrow> hm_get (cl_uploads (transfer_step blake3 cl ev)) i = Some u)"
proof (cases ev)
  case (RxFileDone owner' j size0 checksum io)
  obtain cl1 r cl2 r' where "take_owned_download j owner cl = (cl1, r)" "take_owned_upload j owner cl1 = (cl2, r')"
    by (meson surj_pair)
  from foreign_done [OF this] show ?thesis using assms RxFileDone by (simp add: transfer_step_def)
qed (use assms in \<open>simp_all add: transfer_step_def foreign_chunk foreign_err other_downloads\<close>)

theorem foreign_frames_ignored_witness:
  "\<exists>d. hm_get (cl_downloads received_one) 1 = Some d \<and>
    hm_get (cl_downloads (transfer_step (\<lambda>bs. bs) received_one (RxFileErr \<lparr>ow_peer_device_id = [9], ow_pair_id = [2]\<rparr> 1 ''x''))) 1 = Some d"
proof -
  obtain d where d: "hm_get (cl_downloads received_one) 1 = Some d" "dl_owner d = some_owner"
    by (simp add: received_one_def client_evaluation)
  moreover have "sent_by (RxFileErr \<lparr>ow_peer_device_id = [9], ow_pair_id = [2]\<rparr> 1 ''x'') = Some \<lparr>ow_peer_device_id = [9], ow_pair_id = [2]\<rparr>"
    by simp
  ultimately show ?thesis
    using foreign_frames_ignored [of "RxFileErr \<lparr>ow_peer_device_id = [9], ow_pair_id = [2]\<rparr> 1 ''x''" _ received_one 1 d]
    by (auto simp: some_owner_def)
qed

section \<open>A download from the host to the phone\<close>

text \<open>What a link does with the frames of a download when nothing fails on the phone.\<close>

definition deliver_frame :: "(bytes \<Rightarrow> bytes) \<Rightarrow> transfer_owner \<Rightarrow> client \<Rightarrow> frame \<Rightarrow> client" where
  "deliver_frame blake3 owner cl f =
     (case f of
        FileChunk i seq bs \<Rightarrow> transfer_step blake3 cl (RxFileChunk owner i seq bs None)
      | FileDone i size0 checksum \<Rightarrow> transfer_step blake3 cl (RxFileDone owner i size0 checksum all_done)
      | FileErr i reason \<Rightarrow> transfer_step blake3 cl (RxFileErr owner i reason)
      | _ \<Rightarrow> cl)"

lemma numbered_chunks_resume: "numbered_chunks i (n + k) n content = numbered_chunks i 0 (n + k) (drop (k * FILE_CHUNK_BYTES) content)"
proof (induction k arbitrary: n content)
  case 0
  have "filter (\<lambda>(j, _). n \<le> j) (enumerate n xs) = enumerate n xs" for xs :: "bytes list"
    by (simp add: filter_id_conv in_set_enumerate_eq split_beta)
  then show ?case by (simp add: numbered_chunks_def split_beta)
next
  case (Suc k)
  show ?case
  proof (cases "content = []")
    case False
    then show ?thesis
      using Suc.IH [of "Suc n" "drop FILE_CHUNK_BYTES content"]
      by (simp add: numbered_chunks_step [OF False] add.commute)
  qed simp
qed

lemma fits_saturating:
  fixes limit :: u64
  assumes "a + b \<le> unat limit" "unat limit < 2 ^ 63"
  shows "\<not> limit < saturating_add (word_of_nat a) (word_of_nat b)"
proof -
  have "unat (word_of_nat a :: u64) = a" "unat (word_of_nat b :: u64) = b"
    using assms by (simp_all add: unat_of_nat)
  then have "unat (saturating_add (word_of_nat a) (word_of_nat b) :: u64) = a + b"
    using assms by (simp add: unat_saturating_add)
  with assms(1) show ?thesis by (simp add: word_less_nat_alt)
qed

definition extended :: "bytes \<Rightarrow> nat \<Rightarrow> download_transfer \<Rightarrow> download_transfer" where
  "extended bs n d =
     d\<lparr>dl_file := handle_write bs (dl_file d), dl_hashed := dl_hashed d @ bs,
       dl_written := dl_written d + word_of_nat (length bs), dl_next_seq := dl_next_seq d + word_of_nat n\<rparr>"

lemma file_chunk_accepts:
  assumes inv: "budget_inv cl" and d: "hm_get (cl_downloads cl) i = Some d" "dl_owner d = owner" "\<not> is_probe i"
    and bs: "length bs \<le> FILE_CHUNK_BYTES" "length (dl_hashed d) + length bs \<le> unat MAX_DOWNLOAD_BYTES"
      "total_received cl + length bs \<le> unat MAX_TOTAL_DOWNLOAD_BYTES"
  shows "transfer_step blake3 cl (RxFileChunk owner i (dl_next_seq d) bs None) =
    cl\<lparr>cl_downloads := hm_insert i (extended bs 1 d) (cl_downloads cl)\<rparr>"
proof -
  have "dl_written d = word_of_nat (length (dl_hashed d))"
    using inv map_of_SomeD [OF d(1)] by (auto simp: budget_inv_def download_ok_def)
  then have "\<not> MAX_DOWNLOAD_BYTES < saturating_add (dl_written d) (word_of_nat (length bs))"
    using fits_saturating [OF bs(2)] by (simp add: max_bytes)
  moreover have "sum_list (map (\<lambda>(_, d). dl_written d) (cl_downloads cl)) = word_of_nat (total_received cl)"
    unfolding total_received_def using inv by (intro live_total) (simp add: budget_inv_def)
  then have "\<not> MAX_TOTAL_DOWNLOAD_BYTES < saturating_add (sum_list (map (\<lambda>(_, d). dl_written d) (cl_downloads cl))) (word_of_nat (length bs))"
    using fits_saturating [OF bs(3)] by (simp add: max_bytes)
  ultimately show ?thesis
    using d bs(1) by (simp add: transfer_step_def file_chunk_def Let_def extended_def)
qed

lemma extended_twice: "content_ok d \<Longrightarrow> extended ys n (extended xs m d) = extended (xs @ ys) (m + n) d"
  by (simp add: extended_def content_ok_def handle_write_def Let_def)

lemma content_ok_extended: "content_ok d \<Longrightarrow> content_ok (extended bs n d)"
  unfolding extended_def by (rule content_ok_write)

lemma receive_chunks:
  assumes "budget_inv cl" "hm_get (cl_downloads cl) i = Some d" "dl_owner d = owner" "\<not> is_probe i" "content_ok d"
    and "dl_next_seq d = word_of_nat n" "length (dl_hashed d) + length rest \<le> unat MAX_DOWNLOAD_BYTES"
    and "total_received cl + length rest \<le> unat MAX_TOTAL_DOWNLOAD_BYTES"
  shows "\<exists>m. let cl' = foldl (deliver_frame blake3 owner) cl (numbered_chunks i 0 n rest) in
    budget_inv cl' \<and> cl_files cl' = cl_files cl \<and> hm_get (cl_downloads cl') i = Some (extended rest m d)"
  using assms
proof (induction "length rest" arbitrary: cl d n rest rule: less_induct)
  case less
  show ?case
  proof (cases "rest = []")
    case True
    have "extended [] 0 d = d"
      using less.prems(5) by (simp add: extended_def handle_write_def content_ok_def Let_def)
    with True less.prems show ?thesis by (auto intro!: exI [of _ 0])
  next
    case False
    let ?bs = "take FILE_CHUNK_BYTES rest" and ?rest = "drop FILE_CHUNK_BYTES rest"
    let ?cl = "cl\<lparr>cl_downloads := hm_insert i (extended ?bs 1 d) (cl_downloads cl)\<rparr>"
    have step: "transfer_step blake3 cl (RxFileChunk owner i (dl_next_seq d) ?bs None) = ?cl"
      using less.prems by (intro file_chunk_accepts) auto
    then have inv: "budget_inv ?cl"
      using client_budget.step_inv [OF less.prems(1), of blake3 "RxFileChunk owner i (dl_next_seq d) ?bs None"] by simp
    have sum: "length ?bs + length ?rest = length rest" by simp
    have "total_received ?cl = total_received cl + length ?bs"
      using hm_sum_insert [of "cl_downloads cl" "\<lambda>d. length (dl_hashed d)" i "extended ?bs 1 d"] less.prems(1,2)
      by (simp add: total_received_def budget_inv_def extended_def)
    then have total: "total_received ?cl + length ?rest \<le> unat MAX_TOTAL_DOWNLOAD_BYTES"
      using less.prems(8) sum by linarith
    have shorter: "length ?rest < length rest" using False FILE_CHUNK_BYTES_pos by simp
    have own: "length (dl_hashed (extended ?bs 1 d)) + length ?rest \<le> unat MAX_DOWNLOAD_BYTES"
      using less.prems(7) sum by (simp add: extended_def)
    have "dl_next_seq (extended ?bs 1 d) = word_of_nat (Suc n)" "dl_owner (extended ?bs 1 d) = owner"
      using less.prems(3,6) by (simp_all add: extended_def add.commute)
    from less.hyps [OF shorter inv _ this(2) less.prems(4) content_ok_extended [OF less.prems(5)] this(1) own total]
    obtain m where "let cl' = foldl (deliver_frame blake3 owner) ?cl (numbered_chunks i 0 (Suc n) ?rest) in
        budget_inv cl' \<and> cl_files cl' = cl_files ?cl \<and> hm_get (cl_downloads cl') i = Some (extended ?rest m (extended ?bs 1 d))"
      by auto
    moreover have "extended ?rest m (extended ?bs 1 d) = extended rest (1 + m) d"
      by (simp only: extended_twice [OF less.prems(5)] append_take_drop_id)
    moreover have "deliver_frame blake3 owner cl (FileChunk i (word_of_nat n) ?bs) = ?cl"
      using step less.prems(6) by (simp add: deliver_frame_def)
    ultimately show ?thesis
      unfolding numbered_chunks_step [OF False] by (intro exI [of _ "1 + m"]) (simp add: Let_def)
  qed
qed

lemma resume_point:
  assumes "k * FILE_CHUNK_BYTES < 2 ^ 64"
  shows "unat (saturating_mul (word_of_nat k) (word_of_nat FILE_CHUNK_BYTES)) = k * FILE_CHUNK_BYTES"
proof -
  have k: "k < 2 ^ 64"
    using assms FILE_CHUNK_BYTES_pos by (metis (no_types, lifting) le_less_trans mult_le_mono2 nat_mult_1_right Suc_leI One_nat_def)
  have c: "unat (word_of_nat FILE_CHUNK_BYTES :: u64) = FILE_CHUNK_BYTES" by (simp add: FILE_CHUNK_BYTES_def)
  have u: "unat (word_of_nat k :: u64) = k" using k by (simp add: unat_of_nat)
  have "unat (word_of_nat k * word_of_nat FILE_CHUNK_BYTES :: u64) = k * FILE_CHUNK_BYTES"
    using assms by (simp add: unat_word_ariths c u)
  then show ?thesis using assms by (simp add: saturating_mul_def c u)
qed


text \<open>A download resumed after its first chunk.\<close>

definition whole_chunk :: bytes where
  "whole_chunk = replicate FILE_CHUNK_BYTES 7"

definition one_chunk_received :: client where
  "one_chunk_received = foldl (transfer_step (\<lambda>bs. bs)) new_client
     [DownloadCmd (Some some_owner) ''r'' (TargetPath ''t'') ''p'' False True True, RxFileChunk some_owner 1 0 whole_chunk None]"

lemma whole_chunk_length: "length whole_chunk = FILE_CHUNK_BYTES"
  by (simp add: whole_chunk_def)


lemma length_chunks_of: "0 < n \<Longrightarrow> length bs \<le> length (chunks_of n bs) * n \<and> length (chunks_of n bs) \<le> length bs"
proof (induction n bs rule: chunks_of.induct)
  case (1 n bs)
  show ?case
  proof (cases "bs = []")
    case False
    then have "length (drop n bs) \<le> length (chunks_of n (drop n bs)) * n" "length (chunks_of n (drop n bs)) \<le> length (drop n bs)"
      using 1 by auto
    moreover have "length (drop n bs) < length bs" using False 1(2) by simp
    moreover have "chunks_of n bs = take n bs # chunks_of n (drop n bs)" using False 1(2) by (subst chunks_of.simps) simp
    ultimately show ?thesis by (auto simp: algebra_simps)
  qed simp
qed

text \<open>
  A download that has received all its chunks cannot be resumed: unless the length of the file is a
  multiple of the chunk size, asking for the chunk after the last one is refused, and the refusal makes
  the phone drop the complete file, although only the final \<open>FileDone\<close> was missing.
\<close>

theorem resume_after_last_chunk_refused:
  assumes "length content mod FILE_CHUNK_BYTES \<noteq> 0" "length content < 2 ^ 48" "fm_len meta = word_of_nat (length content)"
    and "hm_get (cl_downloads cl) i = Some d" "dl_owner d = owner" "\<not> is_probe i"
    and "dl_next_seq d = word_of_nat (length (chunks_of FILE_CHUNK_BYTES content))"
  shows "hm_get (cl_downloads (foldl (deliver_frame blake3 owner) cl
    (spawn_download blake3 i (dl_next_seq d) (Inr meta) reads current))) i = None"
proof -
  let ?m = "length (chunks_of FILE_CHUNK_BYTES content)"
  have m: "length content \<le> ?m * FILE_CHUNK_BYTES" "?m \<le> length content"
    using length_chunks_of [OF FILE_CHUNK_BYTES_pos, of content] by auto
  have "length content \<noteq> ?m * FILE_CHUNK_BYTES" using assms(1) by auto
  then have lt: "length content < ?m * FILE_CHUNK_BYTES" using m(1) by simp
  have "?m * FILE_CHUNK_BYTES < 2 ^ 64" using m(2) assms(2) by (simp add: FILE_CHUNK_BYTES_def)
  from resume_point [OF this] lt have "fm_len meta < saturating_mul (dl_next_seq d) (word_of_nat FILE_CHUNK_BYTES)"
    using assms(2) by (simp add: assms(3,7) word_less_nat_alt unat_of_nat)
  then have "spawn_download blake3 i (dl_next_seq d) (Inr meta) reads current = [FileErr i ''resume point is beyond the end of the file'']"
    by (simp add: spawn_download_def)
  then show ?thesis
    using assms(4-6) by (simp add: deliver_frame_def transfer_step_def file_err_def take_owned_download_def take_owned_upload_def
        Let_def split: option.splits)
qed

theorem resume_after_last_chunk_refused_witness:
  "\<exists>d. hm_get (cl_downloads received_one) 1 = Some d \<and> dl_hashed d = [8] \<and>
    hm_get (cl_downloads (foldl (deliver_frame (\<lambda>bs. bs) some_owner) received_one
      (spawn_download (\<lambda>bs. bs) 1 (dl_next_seq d) (Inr \<lparr>fm_len = 1, fm_modified = None\<rparr>) [Inr [8]] (Inr \<lparr>fm_len = 1, fm_modified = None\<rparr>)))) 1 = None"
proof -
  obtain d where d: "hm_get (cl_downloads received_one) 1 = Some d" "dl_owner d = some_owner" "dl_next_seq d = 1" "dl_hashed d = [8]"
    by (simp add: received_one_def client_evaluation)
  with resume_after_last_chunk_refused [OF _ _ _ d(1,2) not_probe_one, of "[8]" "\<lparr>fm_len = 1, fm_modified = None\<rparr>" "\<lambda>bs. bs" "[Inr [8]]"
      "Inr \<lparr>fm_len = 1, fm_modified = None\<rparr>"]
  show ?thesis by (simp add: FILE_CHUNK_BYTES_def)
qed

section \<open>Retries of an upload\<close>

text \<open>
  Chunks of an upload are what single reads return, so a retry that counts chunks may start at another
  byte: a first pass that read one byte and was replaced, and a second one that reads two and then one,
  together send only the first and the last of three bytes.
\<close>

lemma short_reads_misalign_retry:
  "upload_pass 1 0 0 [Inr [1], Inr [2, 3]] (Some 1) [] = ([FileChunk 1 0 [1]], Inr None)"
  "upload_pass 1 1 0 [Inr [1, 2], Inr [3]] None [] = ([FileChunk 1 1 [3]], Inr (Some [1, 2, 3]))"
  by simp_all

end
