(* ===== verification/Push_Relay.thy ===== *)
theory Push_Relay
  imports Prelude Crypto
begin

text \<open>
  The push relay, \<open>crates/push-relay/src/main.rs\<close>: a public service that stores push registrations of hosts
  and forwards wake-ups to the push providers. Requests interleave: \<open>register\<close> works under one lock;
  \<open>wake\<close> looks up, throttles and then rings its devices one by one, each provider call taking a slot;
  \<open>revoke\<close> removes and forgets, then notifies. A handler's reads of the clock that nothing separates are one
  reading. SHA-256 and the \<open>hex\<close> package are parameters. The order in which a hash map is iterated is that of
  the list. What the provider answers, and when, comes with the events \<open>WakeCallEnded\<close> and \<open>NoticeEnded\<close>.
\<close>

section \<open>Limits\<close>

definition MAX_BLOB_BYTES :: nat where "MAX_BLOB_BYTES = 4096"
definition MIN_WAKE_INTERVAL :: duration where "MIN_WAKE_INTERVAL = from_secs 3"
definition HOST_HANDLE_CONTEXT :: bytes where "HOST_HANDLE_CONTEXT = map of_char ''portty-push-host-handle-v2''"
definition MAX_DEVICES :: nat where "MAX_DEVICES = 10000"
definition MAX_DEVICES_PER_HOST :: nat where "MAX_DEVICES_PER_HOST = 32"
definition REGISTRATION_TTL :: duration where "REGISTRATION_TTL = from_secs (30 * 24 * 60 * 60)"
definition RECLAIM_FRACTION :: nat where "RECLAIM_FRACTION = 10"
definition PROVIDER_CONCURRENCY :: nat where "PROVIDER_CONCURRENCY = 32"
definition RATE_LIMIT_WINDOW :: duration where "RATE_LIMIT_WINDOW = from_secs 60"
definition RATE_LIMIT_MAX :: nat where "RATE_LIMIT_MAX = 60"
definition MAX_PSEUDONYMS_PER_TOKEN :: nat where "MAX_PSEUDONYMS_PER_TOKEN = 8"
definition WAKE_BUDGET_WINDOW :: duration where "WAKE_BUDGET_WINDOW = from_secs 300"
definition WAKE_BUDGET_MAX :: nat where "WAKE_BUDGET_MAX = 60"

text \<open>\<open>PerIpLimiter::allow\<close> and \<open>PerTokenLimiter::allow\<close>, which differ in the key only.\<close>

definition limiter_allow ::
  "duration \<Rightarrow> nat \<Rightarrow> 'k \<Rightarrow> instant \<Rightarrow> ('k, instant \<times> nat) hashmap \<Rightarrow> ('k, instant \<times> nat) hashmap \<times> bool" where
  "limiter_allow limit_window limit key now hits0 =
     (let hits = filter (\<lambda>(_, start, _). now - start < limit_window) hits0
      in case hm_get hits key of
        Some (start, count) \<Rightarrow>
          if now - start < limit_window
          then (if count \<ge> limit then (hits, False) else (hm_insert key (start, count + 1) hits, True))
          else (hm_insert key (now, 1) hits, True)
      | None \<Rightarrow> (hm_insert key (now, 1) hits, True))"

section \<open>State\<close>

datatype registration_auth = Admin string | Open

datatype relay_provider = ApnsProvider | FcmProvider

record device =
  dv_provider :: relay_provider
  dv_token :: string
  dv_blob :: string
  dv_refreshed :: instant

type_synonym device_key = "string \<times> string"

text \<open>
  A wake request on its way: what is left to ring, whether a call is out, whether one succeeded.
  \<open>wt_now\<close> is the time the loop over the devices was entered: the code reads the clock once for all of them.
\<close>

record wake_task =
  wt_host :: string
  wt_throttled :: bool
  wt_now :: instant
  wt_devices :: "device list"
  wt_calling :: bool
  wt_delivered :: bool

record relay =
  rl_devices :: "(device_key, device) hashmap"
  rl_last_wake :: "(string, instant) hashmap"
  rl_registration :: registration_auth
  rl_ip_hits :: "(nat, instant \<times> nat) hashmap"
  rl_token_hits :: "(string, instant \<times> nat) hashmap"
  rl_tasks :: "(nat, wake_task) hashmap"
  rl_notices :: nat

datatype status = NoContent | BadRequest | Unauthorized | Forbidden | NotFoundStatus | TooManyRequests | BadGateway | ServiceUnavailable

record hash_lib =
  hl_sha256 :: "bytes \<Rightarrow> bytes"
  hl_hex_encode :: "bytes \<Rightarrow> string"
  hl_hex_decode :: "string \<Rightarrow> bytes option"

record headers =
  hd_authorization :: "string option"
  hd_host_authorization :: "string option"

section \<open>Credentials\<close>

definition is_ascii_hexdigit :: "char \<Rightarrow> bool" where
  "is_ascii_hexdigit c \<longleftrightarrow>
     (let n = (of_char c :: nat) in 48 \<le> n \<and> n \<le> 57 \<or> 65 \<le> n \<and> n \<le> 70 \<or> 97 \<le> n \<and> n \<le> 102)"

definition valid_id :: "string \<Rightarrow> bool" where
  "valid_id v \<longleftrightarrow> length v = 64 \<and> list_all is_ascii_hexdigit v"

definition valid_blob :: "string \<Rightarrow> bool" where
  "valid_blob v \<longleftrightarrow> length v \<le> MAX_BLOB_BYTES \<and> list_all is_ascii_hexdigit v"

definition bearer :: "headers \<Rightarrow> string option" where
  "bearer h =
     (case hd_authorization h of
        None \<Rightarrow> None
      | Some v \<Rightarrow> if take 7 v = ''Bearer '' then Some (drop 7 v) else None)"

definition host_secret_matches :: "hash_lib \<Rightarrow> string \<Rightarrow> string \<Rightarrow> bool" where
  "host_secret_matches hl presented host_pseudonym =
     (case hl_hex_decode hl presented of
        None \<Rightarrow> False
      | Some secret \<Rightarrow>
          if length secret \<noteq> 32 \<or> \<not> valid_id host_pseudonym then False
          else hl_hex_encode hl (hl_sha256 hl (HOST_HANDLE_CONTEXT @ secret)) = host_pseudonym)"

definition host_bearer_matches :: "hash_lib \<Rightarrow> headers \<Rightarrow> string \<Rightarrow> bool" where
  "host_bearer_matches hl h host_pseudonym =
     (case bearer h of None \<Rightarrow> False | Some secret \<Rightarrow> host_secret_matches hl secret host_pseudonym)"

definition host_registration_proof_matches :: "hash_lib \<Rightarrow> headers \<Rightarrow> string \<Rightarrow> bool" where
  "host_registration_proof_matches hl h host_pseudonym =
     (case hd_host_authorization h of None \<Rightarrow> False | Some secret \<Rightarrow> host_secret_matches hl secret host_pseudonym)"

definition registration_authorized :: "hash_lib \<Rightarrow> registration_auth \<Rightarrow> headers \<Rightarrow> string \<Rightarrow> bool" where
  "registration_authorized hl auth h host_pseudonym =
     (case (auth, bearer h) of
        (Admin token, Some presented) \<Rightarrow> presented = token \<and> host_registration_proof_matches hl h host_pseudonym
      | (Open, Some _) \<Rightarrow> host_bearer_matches hl h host_pseudonym
      | (_, None) \<Rightarrow> False)"

section \<open>Registration\<close>

record register_request =
  rq_host :: string
  rq_registration :: string
  rq_provider :: relay_provider
  rq_token :: string
  rq_blob :: string

definition reclaim_registrations :: "instant \<Rightarrow> (device_key, device) hashmap \<Rightarrow> (device_key, device) hashmap" where
  "reclaim_registrations now devices0 =
     (let devices = filter (\<lambda>(_, d). now - dv_refreshed d < REGISTRATION_TTL) devices0
      in if length devices < MAX_DEVICES then devices
         else let ages = sort_key snd (map (\<lambda>(key, d). (key, dv_refreshed d)) devices);
                  drop_count = max (MAX_DEVICES div RECLAIM_FRACTION) 1
           in foldl (\<lambda>ds (key, _). hm_remove key ds) devices (take drop_count ages))"

definition hosts_of_token :: "string \<Rightarrow> (device_key, device) hashmap \<Rightarrow> string list" where
  "hosts_of_token token devices = remdups (map (fst \<circ> fst) (filter (\<lambda>(_, d). dv_token d = token) devices))"

definition register_device :: "instant \<Rightarrow> register_request \<Rightarrow> (device_key, device) hashmap \<Rightarrow> (device_key, device) hashmap \<times> status" where
  "register_device now rq devices0 =
     (let key = (rq_host rq, rq_registration rq);
          is_new = (\<not> hm_contains devices0 key);
          devices = (if is_new then reclaim_registrations now devices0 else devices0);
          host_count = length (filter (\<lambda>((host, _), _). host = rq_host rq) devices)
      in if is_new \<and> (length devices \<ge> MAX_DEVICES \<or> host_count \<ge> MAX_DEVICES_PER_HOST) then (devices, ServiceUnavailable)
         else if length (removeAll (rq_host rq) (hosts_of_token (rq_token rq) devices)) \<ge> MAX_PSEUDONYMS_PER_TOKEN
         then (devices, Forbidden)
         else (hm_insert key \<lparr>dv_provider = rq_provider rq, dv_token = rq_token rq, dv_blob = rq_blob rq, dv_refreshed = now\<rparr> devices,
               NoContent))"

definition register_push :: "hash_lib \<Rightarrow> nat \<Rightarrow> instant \<Rightarrow> headers \<Rightarrow> register_request \<Rightarrow> relay \<Rightarrow> relay \<times> status" where
  "register_push hl ip now h rq rl0 =
     (case limiter_allow RATE_LIMIT_WINDOW RATE_LIMIT_MAX ip now (rl_ip_hits rl0) of
        (hits, allowed) \<Rightarrow>
          let rl = rl0\<lparr>rl_ip_hits := hits\<rparr> in
          if \<not> allowed then (rl, TooManyRequests)
          else if \<not> registration_authorized hl (rl_registration rl) h (rq_host rq) then (rl, Unauthorized)
          else if \<not> valid_id (rq_host rq) \<or> \<not> valid_id (rq_registration rq) \<or> rq_token rq = [] \<or>
            length (rq_token rq) > 4096 \<or> \<not> valid_blob (rq_blob rq) then (rl, BadRequest)
          else case register_device now rq (rl_devices rl) of (devices, st) \<Rightarrow> (rl\<lparr>rl_devices := devices\<rparr>, st))"

section \<open>Waking\<close>

text \<open>The look-up, under the lock of the table.\<close>

definition wake_lookup :: "hash_lib \<Rightarrow> nat \<Rightarrow> nat \<Rightarrow> instant \<Rightarrow> headers \<Rightarrow> string \<Rightarrow> relay \<Rightarrow> relay \<times> status option" where
  "wake_lookup hl c ip now h host rl0 =
     (case limiter_allow RATE_LIMIT_WINDOW RATE_LIMIT_MAX ip now (rl_ip_hits rl0) of
        (hits, allowed) \<Rightarrow>
          let rl = rl0\<lparr>rl_ip_hits := hits\<rparr> in
          if \<not> allowed then (rl, Some TooManyRequests)
          else if \<not> host_bearer_matches hl h host then (rl, Some Unauthorized)
          else let table = map (\<lambda>((hst, r), d). ((hst, r), if hst = host then d\<lparr>dv_refreshed := now\<rparr> else d)) (rl_devices rl);
                   devices = map snd (filter (\<lambda>((hst, _), _). hst = host) table)
            in if devices = [] then (rl\<lparr>rl_devices := table\<rparr>, Some NotFoundStatus)
               else (rl\<lparr>rl_devices := table,
                       rl_tasks := hm_insert c \<lparr>wt_host = host, wt_throttled = False, wt_now = now, wt_devices = devices, wt_calling = False,
                         wt_delivered = False\<rparr> (rl_tasks rl)\<rparr>, None))"

text \<open>The throttle of the pseudonym.\<close>

definition wake_throttle :: "nat \<Rightarrow> instant \<Rightarrow> relay \<Rightarrow> relay \<times> status option" where
  "wake_throttle c now rl =
     (case hm_get (rl_tasks rl) c of
        None \<Rightarrow> (rl, None)
      | Some tk \<Rightarrow>
          if wt_throttled tk then (rl, None)
          else if (case hm_get (rl_last_wake rl) (wt_host tk) of None \<Rightarrow> False | Some previous \<Rightarrow> now - previous < MIN_WAKE_INTERVAL)
          then (rl\<lparr>rl_tasks := hm_remove c (rl_tasks rl)\<rparr>, Some TooManyRequests)
          else (rl\<lparr>rl_last_wake := hm_insert (wt_host tk) now (rl_last_wake rl),
                   rl_tasks := hm_insert c (tk\<lparr>wt_throttled := True, wt_now := now\<rparr>) (rl_tasks rl)\<rparr>, None))"

text \<open>Provider calls in flight: of wakes, and notices of revocations.\<close>

definition calls_in_flight :: "relay \<Rightarrow> nat" where
  "calls_in_flight rl = hm_count wt_calling (rl_tasks rl) + rl_notices rl"

text \<open>The next device of a wake; without a device left the request is answered.\<close>

definition wake_device :: "nat \<Rightarrow> relay \<Rightarrow> relay \<times> status option" where
  "wake_device c rl =
     (case hm_get (rl_tasks rl) c of
        None \<Rightarrow> (rl, None)
      | Some tk \<Rightarrow>
          if \<not> wt_throttled tk \<or> wt_calling tk then (rl, None)
          else case wt_devices tk of
            [] \<Rightarrow> (rl\<lparr>rl_tasks := hm_remove c (rl_tasks rl)\<rparr>, Some (if wt_delivered tk then NoContent else BadGateway))
          | d # ds \<Rightarrow>
              (case limiter_allow WAKE_BUDGET_WINDOW WAKE_BUDGET_MAX (dv_token d) (wt_now tk) (rl_token_hits rl) of
                 (hits, False) \<Rightarrow>
                   (rl\<lparr>rl_token_hits := hits, rl_tasks := hm_insert c (tk\<lparr>wt_devices := ds\<rparr>) (rl_tasks rl)\<rparr>, None)
               | (hits, True) \<Rightarrow>
                   (rl\<lparr>rl_token_hits := hits,
                       rl_tasks := hm_insert c (tk\<lparr>wt_devices := ds, wt_calling := calls_in_flight rl < PROVIDER_CONCURRENCY\<rparr>) (rl_tasks rl)\<rparr>,
                    None)))"

definition wake_call_ended :: "nat \<Rightarrow> bool \<Rightarrow> relay \<Rightarrow> relay" where
  "wake_call_ended c ok rl =
     (case hm_get (rl_tasks rl) c of
        None \<Rightarrow> rl
      | Some tk \<Rightarrow>
          if wt_calling tk
          then rl\<lparr>rl_tasks := hm_insert c (tk\<lparr>wt_calling := False, wt_delivered := wt_delivered tk \<or> ok\<rparr>) (rl_tasks rl)\<rparr>
          else rl)"

text \<open>The client went away: the future of the request is dropped, and with it its slot.\<close>

definition wake_dropped :: "nat \<Rightarrow> relay \<Rightarrow> relay" where
  "wake_dropped c rl = rl\<lparr>rl_tasks := hm_remove c (rl_tasks rl)\<rparr>"

section \<open>Revoking\<close>

definition revoke_registration :: "hash_lib \<Rightarrow> headers \<Rightarrow> string \<Rightarrow> string \<Rightarrow> relay \<Rightarrow> relay \<times> status option" where
  "revoke_registration hl h host registration rl =
     (if \<not> host_bearer_matches hl h host \<or> \<not> valid_id registration then (rl, Some Unauthorized)
      else if \<not> hm_contains (rl_devices rl) (host, registration) then (rl, Some NotFoundStatus)
      else let devices = hm_remove (host, registration) (rl_devices rl);
               last_wake = (if list_ex (\<lambda>((hst, _), _). hst = host) devices then rl_last_wake rl else hm_remove host (rl_last_wake rl));
               rl1 = rl\<lparr>rl_devices := devices, rl_last_wake := last_wake\<rparr>
        in if calls_in_flight rl < PROVIDER_CONCURRENCY then (rl1\<lparr>rl_notices := rl_notices rl + 1\<rparr>, None)
           else (rl1, Some ServiceUnavailable))"

definition notice_ended :: "relay \<Rightarrow> relay" where
  "notice_ended rl = rl\<lparr>rl_notices := rl_notices rl - 1\<rparr>"

definition build_state :: "registration_auth \<Rightarrow> relay" where
  "build_state registration =
     \<lparr>rl_devices = [], rl_last_wake = [], rl_registration = registration, rl_ip_hits = [], rl_token_hits = [], rl_tasks = [],
      rl_notices = 0\<rparr>"

section \<open>Requests in any order\<close>

datatype relay_event =
    Register nat headers register_request
  | WakeLookup nat nat headers string
  | WakeThrottle nat
  | WakeDevice nat
  | WakeCallEnded nat bool
  | WakeDropped nat
  | Revoke headers string string
  | NoticeEnded

fun relay_step :: "hash_lib \<Rightarrow> relay \<Rightarrow> instant \<times> relay_event \<Rightarrow> relay" where
  "relay_step hl rl (now, Register ip h rq) = fst (register_push hl ip now h rq rl)"
| "relay_step hl rl (now, WakeLookup c ip h host) =
     (if hm_contains (rl_tasks rl) c then rl else fst (wake_lookup hl c ip now h host rl))"
| "relay_step hl rl (now, WakeThrottle c) = fst (wake_throttle c now rl)"
| "relay_step hl rl (now, WakeDevice c) = fst (wake_device c rl)"
| "relay_step hl rl (now, WakeCallEnded c ok) = wake_call_ended c ok rl"
| "relay_step hl rl (now, WakeDropped c) = wake_dropped c rl"
| "relay_step hl rl (now, Revoke h host registration) = fst (revoke_registration hl h host registration rl)"
| "relay_step hl rl (now, NoticeEnded) = notice_ended rl"

section \<open>The table stays within its limits\<close>

definition per_host :: "string \<Rightarrow> (device_key, device) hashmap \<Rightarrow> nat" where
  "per_host host devices = length (filter (\<lambda>((hst, _), _). hst = host) devices)"

definition table_inv :: "(device_key, device) hashmap \<Rightarrow> bool" where
  "table_inv devices \<longleftrightarrow>
     hm_wf devices \<and> length devices \<le> MAX_DEVICES \<and> (\<forall>host. per_host host devices \<le> MAX_DEVICES_PER_HOST) \<and>
     (\<forall>token. length (hosts_of_token token devices) \<le> MAX_PSEUDONYMS_PER_TOKEN)"

lemma hosts_of_token_set: "set (hosts_of_token token devices) = {host. \<exists>r d. ((host, r), d) \<in> set devices \<and> dv_token d = token}"
  by (force simp: hosts_of_token_def)

lemma hosts_of_token_card: "length (hosts_of_token token devices) = card (set (hosts_of_token token devices))"
  by (simp add: hosts_of_token_def length_remdups_card_conv)

text \<open>A part of a table within the limits is within the limits.\<close>

lemma filter_part:
  assumes "hm_wf devices" "hm_wf part" "set part \<subseteq> set devices"
  shows "length (filter P part) \<le> length (filter P devices)"
proof -
  have "card (set (filter P part)) \<le> card (set (filter P devices))" using assms(3) by (intro card_mono) auto
  moreover have "distinct devices" "distinct part" using assms(1,2) by (auto simp: distinct_map)
  ultimately show ?thesis by (simp only: distinct_card distinct_filter)
qed

lemma per_host_part:
  "hm_wf devices \<Longrightarrow> hm_wf part \<Longrightarrow> set part \<subseteq> set devices \<Longrightarrow> per_host host part \<le> per_host host devices"
  unfolding per_host_def by (rule filter_part)

lemma table_inv_part:
  assumes "table_inv devices" "hm_wf part" "set part \<subseteq> set devices"
  shows "table_inv part"
proof -
  have wf: "hm_wf devices" using assms(1) by (simp add: table_inv_def)
  have "per_host host part \<le> per_host host devices" for host
    using wf assms(2,3) by (rule per_host_part)
  moreover have "length (hosts_of_token token part) \<le> length (hosts_of_token token devices)" for token
  proof -
    have "set (hosts_of_token token part) \<subseteq> set (hosts_of_token token devices)"
      using assms(3) by (auto simp: hosts_of_token_set)
    then show ?thesis unfolding hosts_of_token_card by (intro card_mono finite_set)
  qed
  moreover have "length part \<le> length devices"
    using filter_part [OF wf assms(2,3), of "\<lambda>_. True"] by simp
  ultimately show ?thesis using assms(1,2) unfolding table_inv_def by (meson order_trans)
qed

lemma remove_fold_part:
  "hm_wf ds \<Longrightarrow> hm_wf (foldl (\<lambda>ds (key, _). hm_remove key ds) ds ks) \<and> set (foldl (\<lambda>ds (key, _). hm_remove key ds) ds ks) \<subseteq> set ds"
proof (induction ks arbitrary: ds)
  case (Cons k ks)
  have "set (hm_remove (fst k) ds) \<subseteq> set ds" by (induction ds) auto
  then show ?case using Cons.IH [of "hm_remove (fst k) ds"] Cons.prems by (auto simp: split_beta)
qed simp

lemma reclaim_part: "hm_wf ds \<Longrightarrow> hm_wf (reclaim_registrations now ds) \<and> set (reclaim_registrations now ds) \<subseteq> set ds"
proof -
  assume "hm_wf ds"
  then have wf: "hm_wf (filter (\<lambda>(_, d). now - dv_refreshed d < REGISTRATION_TTL) ds)" by (rule hm_wf_filter)
  have sub: "set (filter (\<lambda>(_, d). now - dv_refreshed d < REGISTRATION_TTL) ds) \<subseteq> set ds" by (rule filter_is_subset)
  show ?thesis
    unfolding reclaim_registrations_def Let_def using remove_fold_part [OF wf] sub wf by (auto simp del: filter_is_subset)
qed

lemma hm_insert_set: "hm_wf m \<Longrightarrow> set (hm_insert k v m) = insert (k, v) {e \<in> set m. fst e \<noteq> k}"
  by (induction m) (auto simp: image_iff)

lemma per_host_count: "per_host host devices = length (filter (\<lambda>k. fst k = host) (map fst devices))"
  by (induction devices) (auto simp: per_host_def)

lemma register_device_table:
  assumes inv: "table_inv devices0" and r: "register_device now rq devices0 = (devices, st)"
  shows "table_inv devices"
proof -
  let ?key = "(rq_host rq, rq_registration rq)"
  define ds where "ds = (if hm_contains devices0 ?key then devices0 else reclaim_registrations now devices0)"
  have wf0: "hm_wf devices0" using inv by (simp add: table_inv_def)
  have ds: "table_inv ds"
    using inv reclaim_part [OF wf0, of now] table_inv_part [OF inv, of "reclaim_registrations now devices0"] by (simp add: ds_def)
  then have wf: "hm_wf ds" by (simp add: table_inv_def)
  show ?thesis
  proof (cases "devices = ds")
    case False
    define d where "d = \<lparr>dv_provider = rq_provider rq, dv_token = rq_token rq, dv_blob = rq_blob rq, dv_refreshed = now\<rparr>"
    have new: "devices = hm_insert ?key d ds"
      and room: "hm_contains devices0 ?key \<or> length ds < MAX_DEVICES \<and> per_host (rq_host rq) ds < MAX_DEVICES_PER_HOST"
      and token: "length (removeAll (rq_host rq) (hosts_of_token (rq_token rq) ds)) < MAX_PSEUDONYMS_PER_TOKEN"
      using r False by (auto simp: register_device_def Let_def ds_def d_def per_host_def split: if_splits)
    have keys: "map fst devices = (if ?key \<in> set (map fst ds) then map fst ds else map fst ds @ [?key])"
      unfolding new by (rule update_keys)
    have have_key: "?key \<in> set (map fst ds)" if "hm_contains devices0 ?key"
      using that by (auto simp: ds_def hm_contains_def dest: map_of_SomeD intro: rev_image_eqI)
    have lens: "length (map fst devices) \<le> MAX_DEVICES" "per_host host devices \<le> MAX_DEVICES_PER_HOST" for host
      using ds room have_key keys by (auto simp: table_inv_def per_host_count split: if_splits)
    have "length (hosts_of_token t devices) \<le> MAX_PSEUDONYMS_PER_TOKEN" for t
    proof (cases "t = rq_token rq")
      case True
      have "set (hosts_of_token t devices) \<subseteq> insert (rq_host rq) (set (removeAll (rq_host rq) (hosts_of_token (rq_token rq) ds)))"
        using wf by (auto simp: hosts_of_token_set new hm_insert_set True)
      then have "card (set (hosts_of_token t devices)) \<le> card (insert (rq_host rq) (set (removeAll (rq_host rq) (hosts_of_token (rq_token rq) ds))))"
        by (rule card_mono [rotated]) simp
      also have "\<dots> \<le> Suc (card (set (removeAll (rq_host rq) (hosts_of_token (rq_token rq) ds))))"
        by (simp add: card_insert_if del: set_removeAll)
      also have "card (set (removeAll (rq_host rq) (hosts_of_token (rq_token rq) ds))) = length (removeAll (rq_host rq) (hosts_of_token (rq_token rq) ds))"
        by (intro distinct_card) (simp add: hosts_of_token_def distinct_removeAll)
      finally show ?thesis using token by (simp add: hosts_of_token_card)
    next
      case other: False
      have "set (hosts_of_token t devices) \<subseteq> set (hosts_of_token t ds)"
        using wf other by (auto simp: hosts_of_token_set new hm_insert_set d_def)
      then have "length (hosts_of_token t devices) \<le> length (hosts_of_token t ds)"
        unfolding hosts_of_token_card by (intro card_mono finite_set)
      then show ?thesis using ds by (meson order_trans table_inv_def)
    qed
    then show ?thesis using lens wf by (simp add: table_inv_def new)
  qed (use ds in simp)
qed

lemma refresh_table:
  "table_inv devices \<Longrightarrow> table_inv (map (\<lambda>((hst, r), d). ((hst, r), if hst = host then d\<lparr>dv_refreshed := now\<rparr> else d)) devices)"
  (is "_ \<Longrightarrow> table_inv (map ?f _)")
proof -
  assume inv: "table_inv devices"
  have keys: "map fst (map ?f devices) = map fst devices" by (simp add: comp_def split_beta)
  have "filter (\<lambda>(_, d). dv_token d = t) (map ?f devices) = map ?f (filter (\<lambda>(_, d). dv_token d = t) devices)" for t
    by (simp add: filter_map comp_def split_beta if_distrib [where f = dv_token] cong: filter_cong)
  then have "hosts_of_token t (map ?f devices) = hosts_of_token t devices" for t
    by (simp add: hosts_of_token_def comp_def split_beta)
  then show ?thesis
    using inv keys by (simp add: table_inv_def per_host_count comp_def split_beta)
qed

definition relay_inv :: "relay \<Rightarrow> bool" where
  "relay_inv rl \<longleftrightarrow> table_inv (rl_devices rl) \<and> hm_wf (rl_tasks rl) \<and> calls_in_flight rl \<le> PROVIDER_CONCURRENCY"

lemma table_inv_remove: "table_inv devices \<Longrightarrow> table_inv (hm_remove key devices)"
proof -
  assume inv: "table_inv devices"
  then have "hm_wf (hm_remove key devices)" by (simp add: table_inv_def)
  moreover have "set (hm_remove key devices) \<subseteq> set devices" by (induction devices) auto
  ultimately show ?thesis by (rule table_inv_part [OF inv])
qed

text \<open>A task written back with no call begun takes no further slot; one with a call takes at most one.\<close>

lemma slots_insert:
  assumes "hm_wf (rl_tasks rl)" "hm_get (rl_tasks rl) c = Some tk" "wt_calling tk' \<longrightarrow> wt_calling tk \<or> calls_in_flight rl < PROVIDER_CONCURRENCY"
    and "calls_in_flight rl \<le> PROVIDER_CONCURRENCY"
  shows "hm_count wt_calling (hm_insert c tk' (rl_tasks rl)) + rl_notices rl \<le> PROVIDER_CONCURRENCY"
  using hm_count_insert [OF assms(1), of wt_calling c tk'] assms(2-)
  by (cases "wt_calling tk"; cases "wt_calling tk'") (simp_all add: calls_in_flight_def)

lemma register_push_inv: "relay_inv rl \<Longrightarrow> relay_inv (fst (register_push hl ip now h rq rl))"
  by (auto simp: register_push_def relay_inv_def calls_in_flight_def Let_def register_device_table split: prod.splits)

lemma wake_lookup_inv:
  assumes "relay_inv rl" "\<not> hm_contains (rl_tasks rl) c"
  shows "relay_inv (fst (wake_lookup hl c ip now h host rl))"
proof -
  have "hm_count wt_calling (hm_insert c tk (rl_tasks rl)) = hm_count wt_calling (rl_tasks rl)" if "\<not> wt_calling tk" for tk
    using hm_count_insert [of "rl_tasks rl" wt_calling c tk] assms that by (simp add: relay_inv_def hm_contains_def)
  then show ?thesis
    using assms(1) refresh_table by (simp add: wake_lookup_def relay_inv_def calls_in_flight_def Let_def split: prod.splits)
qed

lemma slots_remove:
  "hm_wf tasks \<Longrightarrow> hm_count wt_calling (hm_remove c tasks) \<le> hm_count wt_calling tasks"
  using hm_count_remove [of tasks wt_calling c] by linarith

lemma wake_throttle_inv: "relay_inv rl \<Longrightarrow> relay_inv (fst (wake_throttle c now rl))"
  using slots_insert [of rl c] slots_remove [of "rl_tasks rl" c]
  by (fastforce simp: wake_throttle_def relay_inv_def calls_in_flight_def split: option.splits)

lemma wake_device_inv: "relay_inv rl \<Longrightarrow> relay_inv (fst (wake_device c rl))"
proof (cases "hm_get (rl_tasks rl) c")
  case (Some tk)
  assume inv: "relay_inv rl"
  have ins: "hm_count wt_calling (hm_insert c tk' (rl_tasks rl)) + rl_notices rl \<le> PROVIDER_CONCURRENCY"
    if "wt_calling tk' \<longrightarrow> wt_calling tk \<or> calls_in_flight rl < PROVIDER_CONCURRENCY" for tk'
    using slots_insert [OF _ Some that] inv by (simp add: relay_inv_def)
  have rem: "hm_count wt_calling (hm_remove c (rl_tasks rl)) + rl_notices rl \<le> PROVIDER_CONCURRENCY"
    using slots_remove [of "rl_tasks rl" c] inv by (simp add: relay_inv_def calls_in_flight_def)
  show ?thesis
    using inv ins rem Some
    by (simp add: wake_device_def relay_inv_def split: prod.splits list.splits bool.splits) (simp add: calls_in_flight_def)
qed (simp add: wake_device_def)

lemma wake_call_ended_inv: "relay_inv rl \<Longrightarrow> relay_inv (wake_call_ended c ok rl)"
  using slots_insert [of rl c] by (auto simp: wake_call_ended_def relay_inv_def calls_in_flight_def split: option.splits)

lemma wake_dropped_inv: "relay_inv rl \<Longrightarrow> relay_inv (wake_dropped c rl)"
  using slots_remove [of "rl_tasks rl" c] by (auto simp: wake_dropped_def relay_inv_def calls_in_flight_def)

lemma revoke_inv: "relay_inv rl \<Longrightarrow> relay_inv (fst (revoke_registration hl h host registration rl))"
  by (auto simp: revoke_registration_def relay_inv_def calls_in_flight_def Let_def table_inv_remove)

interpretation relay_limits: step_invariant "relay_step hl" relay_inv for hl
proof unfold_locales
  fix rl :: relay and e :: "instant \<times> relay_event"
  assume inv: "relay_inv rl"
  obtain now ev where e: "e = (now, ev)" by (cases e)
  show "relay_inv (relay_step hl rl e)"
    unfolding e using inv
    by (cases ev) (simp_all add: register_push_inv wake_lookup_inv wake_throttle_inv wake_device_inv wake_call_ended_inv wake_dropped_inv revoke_inv,
      use inv in \<open>auto simp: notice_ended_def relay_inv_def calls_in_flight_def\<close>)
qed

lemma build_state_inv: "relay_inv (build_state auth)"
  by (simp add: build_state_def relay_inv_def table_inv_def per_host_def hosts_of_token_def calls_in_flight_def)

text \<open>
  Whatever requests arrive, in whatever order, with whatever credentials and at whatever times, and however the
  providers answer, the relay's table never holds more than \<open>MAX_DEVICES\<close> registrations, none of one key twice, no more
  than \<open>MAX_DEVICES_PER_HOST\<close> of one pseudonym and no token under more than \<open>MAX_PSEUDONYMS_PER_TOKEN\<close> pseudonyms, and no
  more than \<open>PROVIDER_CONCURRENCY\<close> provider calls are in flight.
\<close>

theorem relay_bounded:
  "let rl = foldl (relay_step hl) (build_state auth) es in
     length (rl_devices rl) \<le> 10000 \<and> hm_wf (rl_devices rl) \<and> per_host host (rl_devices rl) \<le> 32 \<and>
     length (hosts_of_token token (rl_devices rl)) \<le> 8 \<and> calls_in_flight rl \<le> 32"
  using relay_limits.run_inv [OF build_state_inv, of hl auth es]
  by (simp add: relay_inv_def table_inv_def Let_def MAX_DEVICES_def MAX_DEVICES_PER_HOST_def MAX_PSEUDONYMS_PER_TOKEN_def
    PROVIDER_CONCURRENCY_def)

section \<open>Reclaiming\<close>

lemma remove_fold_filter: "foldl (\<lambda>ds (key, _). hm_remove key ds) ds ks = filter (\<lambda>e. fst e \<notin> fst ` set ks) ds"
proof (induction ks arbitrary: ds)
  case (Cons k ks)
  then show ?case by (simp add: split_beta AList.delete_eq filter_filter conj_commute eq_commute [of _ "fst k"])
qed simp

definition unexpired :: "instant \<Rightarrow> (device_key, device) hashmap \<Rightarrow> (device_key, device) hashmap" where
  "unexpired now devices = filter (\<lambda>(_, d). now - dv_refreshed d < REGISTRATION_TTL) devices"

text \<open>The registrations dropped when those in time fill the table.\<close>

definition oldest_tenth :: "(device_key, device) hashmap \<Rightarrow> (device_key \<times> instant) list" where
  "oldest_tenth devices = take 1000 (sort_key snd (map (\<lambda>(key, d). (key, dv_refreshed d)) devices))"

lemma reclaim_registrations_filter:
  "reclaim_registrations now devices =
     (if length (unexpired now devices) < MAX_DEVICES then unexpired now devices
      else filter (\<lambda>e. fst e \<notin> fst ` set (oldest_tenth (unexpired now devices))) (unexpired now devices))"
  by (simp add: reclaim_registrations_def unexpired_def oldest_tenth_def Let_def remove_fold_filter MAX_DEVICES_def RECLAIM_FRACTION_def)

lemma oldest_tenth_in: "(key, t) \<in> set (oldest_tenth devices) \<Longrightarrow> \<exists>d. (key, d) \<in> set devices \<and> dv_refreshed d = t"
  using set_take_subset by (fastforce simp: oldest_tenth_def)

lemma oldest_tenth_older:
  assumes "(key, t) \<in> set (oldest_tenth devices)" "(key', d') \<in> set devices" "key' \<notin> fst ` set (oldest_tenth devices)"
  shows "t \<le> dv_refreshed d'"
proof -
  define ages where "ages = sort_key snd (map (\<lambda>(key, d). (key, dv_refreshed d)) devices)"
  have split: "set ages = set (take 1000 ages) \<union> set (drop 1000 ages)"
    by (metis append_take_drop_id set_append)
  have tenth: "oldest_tenth devices = take 1000 ages" by (simp only: oldest_tenth_def ages_def)
  have "(key', dv_refreshed d') \<in> set ages" using assms(2) by (force simp: ages_def)
  moreover have "(key', dv_refreshed d') \<notin> set (take 1000 ages)" using assms(3) by (force simp: tenth)
  ultimately have late: "(key', dv_refreshed d') \<in> set (drop 1000 ages)" using split by blast
  have "sorted (map snd (take 1000 ages) @ map snd (drop 1000 ages))"
    by (simp only: append_take_drop_id flip: map_append) (simp add: ages_def)
  then have "\<forall>x \<in> snd ` set (take 1000 ages). \<forall>y \<in> snd ` set (drop 1000 ages). x \<le> y"
    by (simp add: sorted_append)
  then show ?thesis using assms(1) late unfolding tenth by force
qed

lemma reclaim_room:
  assumes "length devices \<le> MAX_DEVICES"
  shows "length (reclaim_registrations now devices) < MAX_DEVICES"
proof (cases "length (unexpired now devices) < MAX_DEVICES")
  case False
  let ?live = "unexpired now devices"
  have "length (oldest_tenth ?live) > 0" using False by (simp add: oldest_tenth_def MAX_DEVICES_def)
  then obtain k t where kt: "(k, t) \<in> set (oldest_tenth ?live)" by (metis length_pos_if_in_set list.set_intros(1) list.exhaust length_greater_0_conv prod.exhaust)
  then obtain d where "(k, d) \<in> set ?live" by (meson oldest_tenth_in)
  then have "length (filter (\<lambda>e. fst e \<notin> fst ` set (oldest_tenth ?live)) ?live) < length ?live"
    using kt by (intro length_filter_less [of "(k, d)"]) force+
  moreover have "length ?live \<le> length devices" by (simp add: unexpired_def)
  ultimately show ?thesis using False assms by (simp add: reclaim_registrations_filter)
qed (simp add: reclaim_registrations_filter)

text \<open>
  Reclaiming always leaves room for one more registration, keeps only registrations it found, and drops one that is
  not past its TTL only when the registrations in time fill the table and none that stays was refreshed before it.
\<close>

theorem reclaim_evicts_oldest:
  assumes "hm_wf devices" "length devices \<le> MAX_DEVICES" "now - dv_refreshed d < REGISTRATION_TTL"
    and "(key, d) \<in> set devices" "(key, d) \<notin> set (reclaim_registrations now devices)"
    and "(key', d') \<in> set (reclaim_registrations now devices)"
  shows "length (reclaim_registrations now devices) < MAX_DEVICES \<and> length devices = MAX_DEVICES \<and> (key', d') \<in> set devices \<and>
     dv_refreshed d \<le> dv_refreshed d'"
proof -
  let ?live = "unexpired now devices"
  have live: "(key, d) \<in> set ?live" using assms(3,4) by (simp add: unexpired_def)
  then have full: "\<not> length ?live < MAX_DEVICES" using assms(5) by (auto simp: reclaim_registrations_filter)
  then have evicted: "key \<in> fst ` set (oldest_tenth ?live)" and kept: "(key', d') \<in> set ?live" "key' \<notin> fst ` set (oldest_tenth ?live)"
    using assms(5,6) live by (auto simp: reclaim_registrations_filter)
  then obtain t where t: "(key, t) \<in> set (oldest_tenth ?live)" by force
  obtain d0 where "(key, d0) \<in> set ?live" "dv_refreshed d0 = t" using oldest_tenth_in [OF t] by auto
  moreover have "hm_wf ?live" using assms(1) by (simp add: unexpired_def)
  ultimately have "t = dv_refreshed d" using live by (auto dest: eq_key_imp_eq_value)
  then have "dv_refreshed d \<le> dv_refreshed d'" using oldest_tenth_older [OF t kept] by simp
  moreover have "length ?live \<le> length devices" by (simp add: unexpired_def)
  ultimately show ?thesis
    using reclaim_room [OF assms(2)] full assms(2,6) reclaim_part [OF assms(1), of now] by auto
qed

text \<open>A full table, refreshed in the order of its entries.\<close>

definition aged_device :: "nat \<Rightarrow> device" where
  "aged_device i = \<lparr>dv_provider = ApnsProvider, dv_token = ''t'', dv_blob = [], dv_refreshed = i\<rparr>"

definition aged_table :: "nat \<Rightarrow> (device_key, device) hashmap" where
  "aged_table n = map (\<lambda>i. ((replicate i CHR ''a'', ''r''), aged_device i)) [0..<n]"

lemma aged_table_set: "set (aged_table n) = {((replicate i CHR ''a'', ''r''), aged_device i) |i. i < n}"
  by (force simp: aged_table_def)

lemma aged_device_refreshed [simp]: "dv_refreshed (aged_device i) = i"
  by (simp add: aged_device_def)

lemma aged_table_reclaimed:
  assumes "n = MAX_DEVICES"
  shows "reclaim_registrations n (aged_table n) = filter (\<lambda>e. 1000 \<le> length (fst (fst e))) (aged_table n)"
proof -
  have live: "unexpired n (aged_table n) = aged_table n"
    using assms by (auto simp: unexpired_def aged_table_def REGISTRATION_TTL_def from_secs_def MAX_DEVICES_def intro!: filter_True)
  have ages: "map (\<lambda>(key, d). (key, dv_refreshed d)) (aged_table n) = map (\<lambda>i. ((replicate i CHR ''a'', ''r''), i)) [0..<n]"
    by (simp add: aged_table_def comp_def)
  have "oldest_tenth (aged_table n) = map (\<lambda>i. ((replicate i CHR ''a'', ''r''), i)) [0..<1000]"
    using assms unfolding oldest_tenth_def ages
    by (subst sort_key_id_if_sorted) (simp_all add: comp_def take_map MAX_DEVICES_def del: upt_rec_numeral)
  then have tenth: "fst ` set (oldest_tenth (aged_table n)) = {(replicate i CHR ''a'', ''r'') |i. i < 1000}" by force
  have "key \<notin> fst ` set (oldest_tenth (aged_table n)) \<longleftrightarrow> 1000 \<le> length (fst key)" if e: "(key, d) \<in> set (aged_table n)" for key d
  proof -
    obtain i where "key = (replicate i CHR ''a'', ''r'')" using e by (auto simp: aged_table_def)
    then show ?thesis unfolding tenth by (auto simp: not_less dest: arg_cong [where f = length])
  qed
  then show ?thesis
    using assms unfolding reclaim_registrations_filter live
    by (simp add: aged_table_def) (rule filter_cong; force)
qed

theorem reclaim_evicts_oldest_witness:
  "let devices = aged_table MAX_DEVICES; after = reclaim_registrations MAX_DEVICES devices in
     hm_wf devices \<and> ((replicate 0 CHR ''a'', ''r''), aged_device 0) \<in> set devices \<and>
     ((replicate 0 CHR ''a'', ''r''), aged_device 0) \<notin> set after \<and>
     ((replicate 1000 CHR ''a'', ''r''), aged_device 1000) \<in> set after \<and>
     length after < MAX_DEVICES \<and> dv_refreshed (aged_device 0) \<le> dv_refreshed (aged_device 1000)"
proof -
  define n where "n = MAX_DEVICES"
  have n: "n = 10000" by (simp add: n_def MAX_DEVICES_def)
  have wf: "hm_wf (aged_table n)" by (auto simp: aged_table_def distinct_map inj_on_def comp_def dest: arg_cong [where f = length])
  have len: "length (aged_table n) \<le> MAX_DEVICES" by (simp add: aged_table_def n_def)
  have old: "((replicate 0 CHR ''a'', ''r''), aged_device 0) \<in> set (aged_table n)"
    "((replicate 0 CHR ''a'', ''r''), aged_device 0) \<notin> set (reclaim_registrations n (aged_table n))"
    unfolding aged_table_reclaimed [OF n_def] set_filter aged_table_set by (simp_all add: n)
  have young: "((replicate 1000 CHR ''a'', ''r''), aged_device 1000) \<in> set (reclaim_registrations n (aged_table n))"
    unfolding aged_table_reclaimed [OF n_def] set_filter aged_table_set using n by (intro CollectI conjI exI [of _ 1000]) simp_all
  have time: "n - dv_refreshed (aged_device 0) < REGISTRATION_TTL" by (simp add: n REGISTRATION_TTL_def from_secs_def)
  show ?thesis
    unfolding Let_def n_def [symmetric] using reclaim_evicts_oldest [OF wf len time old young] wf old young by (simp only: simp_thms n_def)
qed

text \<open>
  Nobody is locked out: whatever has happened before, a request to register that is authorised, well formed and within
  its address's budget succeeds, unless its host holds \<open>MAX_DEVICES_PER_HOST\<close> registrations or its token is
  registered under \<open>MAX_PSEUDONYMS_PER_TOKEN\<close> other pseudonyms; a full table is no reason to refuse it.
\<close>

theorem registration_succeeds:
  assumes "rl = foldl (relay_step hl) (build_state auth) es"
    and "snd (limiter_allow RATE_LIMIT_WINDOW RATE_LIMIT_MAX ip now (rl_ip_hits rl))"
    and "registration_authorized hl (rl_registration rl) h (rq_host rq)"
    and "valid_id (rq_host rq)" "valid_id (rq_registration rq)" "valid_blob (rq_blob rq)"
    and "rq_token rq \<noteq> []" "length (rq_token rq) \<le> 4096"
    and "per_host (rq_host rq) (rl_devices rl) < MAX_DEVICES_PER_HOST"
    and "length (removeAll (rq_host rq) (hosts_of_token (rq_token rq) (rl_devices rl))) < MAX_PSEUDONYMS_PER_TOKEN"
  shows "case register_push hl ip now h rq rl of (rl', st) \<Rightarrow> st = NoContent \<and>
     hm_get (rl_devices rl') (rq_host rq, rq_registration rq) =
       Some \<lparr>dv_provider = rq_provider rq, dv_token = rq_token rq, dv_blob = rq_blob rq, dv_refreshed = now\<rparr>"
proof -
  define key where "key = (rq_host rq, rq_registration rq)"
  define ds where "ds = (if hm_contains (rl_devices rl) key then rl_devices rl else reclaim_registrations now (rl_devices rl))"
  have inv: "table_inv (rl_devices rl)"
    using relay_limits.run_inv [OF build_state_inv, of hl auth es] assms(1) by (simp add: relay_inv_def)
  then have wf: "hm_wf (rl_devices rl)" and len: "length (rl_devices rl) \<le> MAX_DEVICES" by (simp_all add: table_inv_def)
  have part: "hm_wf ds" "set ds \<subseteq> set (rl_devices rl)" using wf reclaim_part [OF wf, of now] by (auto simp: ds_def)
  have room: "hm_contains (rl_devices rl) key \<or> length ds < MAX_DEVICES" using reclaim_room [OF len] by (simp add: ds_def)
  have host: "per_host (rq_host rq) ds < MAX_DEVICES_PER_HOST" using per_host_part [OF wf part] assms(9) by (rule le_less_trans)
  have "set (removeAll (rq_host rq) (hosts_of_token (rq_token rq) ds)) \<subseteq> set (removeAll (rq_host rq) (hosts_of_token (rq_token rq) (rl_devices rl)))"
    using part(2) by (auto simp: hosts_of_token_set)
  then have "card (set (removeAll (rq_host rq) (hosts_of_token (rq_token rq) ds)))
      \<le> card (set (removeAll (rq_host rq) (hosts_of_token (rq_token rq) (rl_devices rl))))" by (intro card_mono finite_set)
  then have "length (removeAll (rq_host rq) (hosts_of_token (rq_token rq) ds)) < MAX_PSEUDONYMS_PER_TOKEN"
    using assms(10) by (simp add: distinct_card distinct_removeAll hosts_of_token_def del: set_removeAll)
  then have "register_device now rq (rl_devices rl) =
      (hm_insert key \<lparr>dv_provider = rq_provider rq, dv_token = rq_token rq, dv_blob = rq_blob rq, dv_refreshed = now\<rparr> ds, NoContent)"
    using room host by (auto simp: register_device_def Let_def key_def ds_def per_host_def)
  then show ?thesis using assms(2-8) by (auto simp: register_push_def key_def split: prod.splits)
qed

definition demo_hash :: hash_lib where
  "demo_hash = \<lparr>hl_sha256 = (\<lambda>b. drop 26 b), hl_hex_encode = (\<lambda>b. replicate 63 CHR ''0'' @ [if last b = 0 then CHR ''a'' else CHR ''b'']),
     hl_hex_decode = (\<lambda>s. Some (replicate 31 0 @ [if s = ''A'' then 0 else 1]))\<rparr>"

definition host_a :: string where "host_a = replicate 63 CHR ''0'' @ ''a''"
definition host_b :: string where "host_b = replicate 63 CHR ''0'' @ ''b''"

definition as_host :: "string \<Rightarrow> headers" where
  "as_host secret = \<lparr>hd_authorization = Some (''Bearer '' @ secret), hd_host_authorization = None\<rparr>"

definition demo_register :: "string \<Rightarrow> register_request" where
  "demo_register host = \<lparr>rq_host = host, rq_registration = host, rq_provider = FcmProvider, rq_token = ''tok'', rq_blob = ''00''\<rparr>"

lemma demo_valid: "valid_id host_a" "valid_id host_b" "valid_blob ''00''"
  by (code_simp, code_simp, simp add: valid_blob_def MAX_BLOB_BYTES_def is_ascii_hexdigit_def)

lemma demo_bearer: "bearer (as_host secret) = Some secret"
  by (simp add: bearer_def as_host_def)

lemma demo_proof: "host_bearer_matches demo_hash (as_host ''A'') host_a" "host_bearer_matches demo_hash (as_host ''B'') host_b"
  by (simp_all add: host_bearer_matches_def demo_bearer host_secret_matches_def demo_valid,
    simp_all add: demo_valid [unfolded host_a_def host_b_def] demo_hash_def HOST_HANDLE_CONTEXT_def host_a_def host_b_def)

theorem registration_succeeds_witness:
  "case register_push demo_hash 7 5 (as_host ''A'') (demo_register host_a) (build_state Open) of (rl', st) \<Rightarrow>
     st = NoContent \<and> hm_get (rl_devices rl') (host_a, host_a) =
       Some \<lparr>dv_provider = FcmProvider, dv_token = ''tok'', dv_blob = ''00'', dv_refreshed = 5\<rparr>"
  using registration_succeeds [where es = "[]" and rl = "build_state Open" and auth = Open and hl = demo_hash and ip = 7 and now = 5
      and h = "as_host ''A''" and rq = "demo_register host_a"]
  by (simp add: demo_register_def build_state_def limiter_allow_def registration_authorized_def demo_bearer demo_proof demo_valid
    per_host_def hosts_of_token_def MAX_DEVICES_PER_HOST_def MAX_PSEUDONYMS_PER_TOKEN_def)

section \<open>Registrations belong to the host that proves its secret\<close>

text \<open>What a request shows to change the registrations of a pseudonym.\<close>

definition shows_secret :: "hash_lib \<Rightarrow> headers \<Rightarrow> string \<Rightarrow> bool" where
  "shows_secret hl h host \<longleftrightarrow> host_bearer_matches hl h host \<or> host_registration_proof_matches hl h host"

definition same_registration :: "device \<Rightarrow> device \<Rightarrow> bool" where
  "same_registration d d' \<longleftrightarrow> dv_provider d = dv_provider d' \<and> dv_token d = dv_token d' \<and> dv_blob d = dv_blob d'"

lemma same_registration_refl [simp]: "same_registration d d"
  by (simp add: same_registration_def)

lemma part_get:
  assumes "hm_wf devices" "hm_wf part" "set part \<subseteq> set devices" "hm_get part key = Some d"
  shows "hm_get devices key = Some d"
  using assms map_of_SomeD [OF assms(4)] by (auto intro: map_of_is_SomeI)

lemma refreshed_get:
  "hm_get (map (\<lambda>((hst, r), d). ((hst, r), if hst = host then d\<lparr>dv_refreshed := now\<rparr> else d)) devices) key =
     map_option (\<lambda>d. if fst key = host then d\<lparr>dv_refreshed := now\<rparr> else d) (hm_get devices key)"
  by (induction devices) auto

lemma authorized_shows: "registration_authorized hl auth h host \<Longrightarrow> shows_secret hl h host"
  by (auto simp: registration_authorized_def shows_secret_def split: registration_auth.splits option.splits)

lemma authorized_admin: "registration_authorized hl (Admin admin) h host \<Longrightarrow> bearer h = Some admin"
  by (auto simp: registration_authorized_def split: option.splits)

lemma register_push_get:
  assumes "hm_wf (rl_devices rl)" "hm_get (rl_devices (fst (register_push hl ip now h rq rl))) key = Some d"
  shows "hm_get (rl_devices rl) key = Some d \<or>
     key = (rq_host rq, rq_registration rq) \<and> registration_authorized hl (rl_registration rl) h (rq_host rq) \<and>
     dv_token d = rq_token rq \<and> dv_blob d = rq_blob rq \<and> dv_provider d = rq_provider rq"
proof -
  have "hm_get (rl_devices rl) key = Some d" if "hm_get (reclaim_registrations now (rl_devices rl)) key = Some d"
    using part_get [OF assms(1) _ _ that] reclaim_part [OF assms(1), of now] by blast
  then show ?thesis
    using assms(2) by (auto simp: register_push_def register_device_def Let_def split: prod.splits if_splits)
qed

lemma wake_table:
  "rl_devices (fst (wake_throttle c now rl)) = rl_devices rl" "rl_devices (fst (wake_device c rl)) = rl_devices rl"
  "rl_devices (wake_call_ended c ok rl) = rl_devices rl" "rl_devices (notice_ended rl) = rl_devices rl"
  "rl_devices (wake_dropped c rl) = rl_devices rl"
  by (simp_all add: wake_dropped_def wake_throttle_def wake_device_def wake_call_ended_def notice_ended_def split: option.splits list.splits prod.splits bool.splits)

lemma wake_lookup_get:
  "hm_get (rl_devices (fst (wake_lookup hl c ip now h host rl))) key = Some d \<Longrightarrow>
     \<exists>d0. hm_get (rl_devices rl) key = Some d0 \<and> same_registration d0 d"
  by (auto simp: wake_lookup_def Let_def refreshed_get same_registration_def split: prod.splits if_splits)

lemma revoke_get:
  "hm_get (rl_devices (fst (revoke_registration hl h host r rl))) key = Some d \<Longrightarrow> hm_get (rl_devices rl) key = Some d"
  by (auto simp: revoke_registration_def Let_def split: if_splits)

text \<open>
  C25. A registration comes into the table, or gets another token, blob or provider, only by a request that asks for exactly
  that and presents the secret whose hash is the pseudonym it registers under - and, at a relay with an admin token, that
  token too. Nobody can register a device, or redirect one, under a pseudonym whose secret they do not have.
\<close>

theorem registration_proved:
  assumes "rl = foldl (relay_step hl) (build_state auth) es"
    and "hm_get (rl_devices (relay_step hl rl (now, e))) (host, r) = Some d"
    and "\<forall>d0. hm_get (rl_devices rl) (host, r) = Some d0 \<longrightarrow> \<not> same_registration d0 d"
  shows "\<exists>ip h rq. e = Register ip h rq \<and> rq_host rq = host \<and> rq_registration rq = r \<and> dv_token d = rq_token rq \<and>
     dv_blob d = rq_blob rq \<and> dv_provider d = rq_provider rq \<and> shows_secret hl h host \<and>
     (\<forall>admin. rl_registration rl = Admin admin \<longrightarrow> bearer h = Some admin)"
proof -
  have wf: "hm_wf (rl_devices rl)"
    using relay_limits.run_inv [OF build_state_inv, of hl auth es] assms(1) by (simp add: relay_inv_def table_inv_def)
  show ?thesis
  proof (cases e)
    case (Register ip h rq)
    then show ?thesis
      using register_push_get [OF wf, of hl ip now h rq "(host, r)" d] assms(2,3) authorized_shows [of hl "rl_registration rl" h "rq_host rq"]
        authorized_admin [of hl _ h "rq_host rq"]
      by auto
  next
    case (WakeLookup c ip h hst)
    then show ?thesis
      using assms(2,3) wake_lookup_get [of hl c ip now h hst rl "(host, r)" d] by (auto split: if_splits)
  next
    case (Revoke h hst rg)
    then show ?thesis using assms(2,3) revoke_get [of hl h hst rg rl "(host, r)" d] by auto
  qed (use assms(2,3) in \<open>auto simp: wake_table\<close>)
qed

theorem registration_proved_witness:
  "let e = Register 7 (as_host ''A'') (demo_register host_a); rl = relay_step demo_hash (build_state Open) (5, e) in
     hm_contains (rl_devices rl) (host_a, host_a) \<and> shows_secret demo_hash (as_host ''A'') host_a"
proof -
  let ?e = "Register 7 (as_host ''A'') (demo_register host_a)"
  have got: "hm_get (rl_devices (relay_step demo_hash (build_state Open) (5, ?e))) (host_a, host_a) =
      Some \<lparr>dv_provider = FcmProvider, dv_token = ''tok'', dv_blob = ''00'', dv_refreshed = 5\<rparr>"
    by (simp add: demo_register_def build_state_def register_push_def register_device_def limiter_allow_def registration_authorized_def
      demo_bearer demo_proof demo_valid Let_def hosts_of_token_def MAX_DEVICES_PER_HOST_def MAX_PSEUDONYMS_PER_TOKEN_def
      reclaim_registrations_def MAX_DEVICES_def)
  show ?thesis
    using registration_proved [where es = "[]" and auth = Open, OF _ got] got
    by (auto simp: Let_def hm_contains_def build_state_def)
qed

text \<open>
  A registration leaves the table only in three ways: a request revokes it that presents the secret of its pseudonym; or
  another registration is made while it is past its TTL; or the registrations in time fill the table.
\<close>

theorem registration_removed:
  assumes "rl = foldl (relay_step hl) (build_state auth) es"
    and "hm_get (rl_devices rl) (host, r) = Some d" "hm_get (rl_devices (relay_step hl rl (now, e))) (host, r) = None"
  shows "(\<exists>h. e = Revoke h host r \<and> shows_secret hl h host) \<or>
     (\<exists>ip h rq. e = Register ip h rq \<and> registration_authorized hl (rl_registration rl) h (rq_host rq) \<and>
        (REGISTRATION_TTL \<le> now - dv_refreshed d \<or> length (unexpired now (rl_devices rl)) = MAX_DEVICES))"
proof -
  have inv: "table_inv (rl_devices rl)"
    using relay_limits.run_inv [OF build_state_inv, of hl auth es] assms(1) by (simp add: relay_inv_def)
  then have wf: "hm_wf (rl_devices rl)" and len: "length (unexpired now (rl_devices rl)) \<le> MAX_DEVICES"
    unfolding unexpired_def by (auto simp: table_inv_def intro: le_trans [OF length_filter_le])
  have stays: "hm_get (reclaim_registrations now (rl_devices rl)) (host, r) = Some d \<or>
      REGISTRATION_TTL \<le> now - dv_refreshed d \<or> length (unexpired now (rl_devices rl)) = MAX_DEVICES"
    using len assms(2) wf by (auto simp add: reclaim_registrations_filter unexpired_def hm_get_filter)
  show ?thesis
  proof (cases e)
    case (Register ip h rq)
    then show ?thesis
      using assms(2,3) stays by (auto simp: register_push_def register_device_def Let_def split: prod.splits if_splits)
  next
    case (WakeLookup c ip h hst)
    then show ?thesis
      using assms(2,3) by (auto simp: wake_lookup_def Let_def refreshed_get split: prod.splits if_splits)
  next
    case (Revoke h hst rg)
    then show ?thesis using assms(2,3) by (auto simp: revoke_registration_def Let_def shows_secret_def split: if_splits)
  qed (use assms(2,3) in \<open>auto simp: wake_table\<close>)
qed

theorem registration_removed_witness:
  "let rl = relay_step demo_hash (build_state Open) (5, Register 7 (as_host ''A'') (demo_register host_a)) in
     hm_contains (rl_devices rl) (host_a, host_a) \<and>
     \<not> hm_contains (rl_devices (relay_step demo_hash rl (6, Revoke (as_host ''A'') host_a host_a))) (host_a, host_a) \<and>
     shows_secret demo_hash (as_host ''A'') host_a"
proof -
  define rl where "rl = relay_step demo_hash (build_state Open) (5, Register 7 (as_host ''A'') (demo_register host_a))"
  have got: "hm_get (rl_devices rl) (host_a, host_a) =
      Some \<lparr>dv_provider = FcmProvider, dv_token = ''tok'', dv_blob = ''00'', dv_refreshed = 5\<rparr>"
    by (simp add: rl_def demo_register_def build_state_def register_push_def register_device_def limiter_allow_def registration_authorized_def
      demo_bearer demo_proof demo_valid Let_def hosts_of_token_def MAX_DEVICES_PER_HOST_def MAX_PSEUDONYMS_PER_TOKEN_def
      reclaim_registrations_def MAX_DEVICES_def)
  then have gone: "hm_get (rl_devices (relay_step demo_hash rl (6, Revoke (as_host ''A'') host_a host_a))) (host_a, host_a) = None"
    by (simp add: revoke_registration_def demo_proof demo_valid Let_def hm_contains_def)
  have run: "rl = foldl (relay_step demo_hash) (build_state Open) [(5, Register 7 (as_host ''A'') (demo_register host_a))]"
    by (simp add: rl_def)
  show ?thesis
    using registration_removed [OF run got gone] got gone unfolding rl_def [symmetric] by (auto simp: Let_def hm_contains_def)
qed

section \<open>The throttle map outlives the registrations\<close>

text \<open>
  Each host registers and rings once, the second after the first has expired: the first registration is reclaimed, its
  entry of the throttle is not, and the throttle map is then larger than the table.
\<close>

definition leak_run :: "(instant \<times> relay_event) list" where
  "leak_run =
     [(0, Register 7 (as_host ''A'') (demo_register host_a)), (0, WakeLookup 1 7 (as_host ''A'') host_a), (0, WakeThrottle 1),
      (REGISTRATION_TTL, Register 7 (as_host ''B'') (demo_register host_b)),
      (REGISTRATION_TTL, WakeLookup 2 7 (as_host ''B'') host_b), (REGISTRATION_TTL, WakeThrottle 2)]"

lemma last_wake_outgrows_table:
  "let rl = foldl (relay_step demo_hash) (build_state Open) leak_run
   in length (rl_devices rl) = 1 \<and> length (rl_last_wake rl) = 2"
proof -
  have ab: "host_a \<noteq> host_b" "host_b \<noteq> host_a" by (simp_all add: host_a_def host_b_def)
  have ttl: "0 < REGISTRATION_TTL" "\<not> REGISTRATION_TTL < RATE_LIMIT_WINDOW" "0 < RATE_LIMIT_WINDOW"
    by (simp_all add: REGISTRATION_TTL_def RATE_LIMIT_WINDOW_def from_secs_def)
  let ?dev = "\<lambda>t. \<lparr>dv_provider = FcmProvider, dv_token = ''tok'', dv_blob = ''00'', dv_refreshed = t\<rparr>"
  let ?task = "\<lambda>host t. \<lparr>wt_host = host, wt_throttled = True, wt_now = t, wt_devices = [?dev t], wt_calling = False, wt_delivered = False\<rparr>"
  let ?rl = "\<lambda>ds wakes hits tasks. \<lparr>rl_devices = ds, rl_last_wake = wakes, rl_registration = Open, rl_ip_hits = hits, rl_token_hits = [],
      rl_tasks = tasks, rl_notices = 0\<rparr>"
  note request = demo_register_def register_push_def register_device_def limiter_allow_def registration_authorized_def demo_bearer
    demo_proof demo_valid Let_def hosts_of_token_def MAX_DEVICES_PER_HOST_def MAX_PSEUDONYMS_PER_TOKEN_def reclaim_registrations_def
    MAX_DEVICES_def RATE_LIMIT_MAX_def hm_contains_def ab ttl
  have 1: "relay_step demo_hash (build_state Open) (0, Register 7 (as_host ''A'') (demo_register host_a)) =
      ?rl [((host_a, host_a), ?dev 0)] [] [(7, 0, 1)] []"
    by (simp add: request build_state_def)
  have 2: "relay_step demo_hash (relay_step demo_hash (?rl [((host_a, host_a), ?dev 0)] [] [(7, 0, 1)] [])
      (0, WakeLookup 1 7 (as_host ''A'') host_a)) (0, WakeThrottle 1) =
      ?rl [((host_a, host_a), ?dev 0)] [(host_a, 0)] [(7, 0, 2)] [(1, ?task host_a 0)]"
    by (simp add: request wake_lookup_def wake_throttle_def)
  have 3: "relay_step demo_hash (?rl [((host_a, host_a), ?dev 0)] [(host_a, 0)] [(7, 0, 2)] [(1, ?task host_a 0)])
      (REGISTRATION_TTL, Register 7 (as_host ''B'') (demo_register host_b)) =
      ?rl [((host_b, host_b), ?dev REGISTRATION_TTL)] [(host_a, 0)] [(7, REGISTRATION_TTL, 1)] [(1, ?task host_a 0)]"
    by (simp add: request)
  have 4: "relay_step demo_hash (relay_step demo_hash
      (?rl [((host_b, host_b), ?dev REGISTRATION_TTL)] [(host_a, 0)] [(7, REGISTRATION_TTL, 1)] [(1, ?task host_a 0)])
      (REGISTRATION_TTL, WakeLookup 2 7 (as_host ''B'') host_b)) (REGISTRATION_TTL, WakeThrottle 2) =
      ?rl [((host_b, host_b), ?dev REGISTRATION_TTL)] [(host_a, 0), (host_b, REGISTRATION_TTL)] [(7, REGISTRATION_TTL, 2)]
        [(1, ?task host_a 0), (2, ?task host_b REGISTRATION_TTL)]"
    by (simp add: request wake_lookup_def wake_throttle_def)
  show ?thesis unfolding leak_run_def foldl.simps 1 2 3 4 by simp
qed

section \<open>The budgets\<close>

text \<open>Requests of a budget in order: the keys and times let through, latest first.\<close>

fun limiter_run :: "duration \<Rightarrow> nat \<Rightarrow> ('k \<times> instant) list \<Rightarrow> ('k, instant \<times> nat) hashmap \<times> ('k \<times> instant) list \<Rightarrow>
    ('k, instant \<times> nat) hashmap \<times> ('k \<times> instant) list" where
  "limiter_run W limit [] s = s"
| "limiter_run W limit ((key, now) # rqs) (hits, passed) =
     (case limiter_allow W limit key now hits of (hits', ok) \<Rightarrow>
        limiter_run W limit rqs (hits', if ok then (key, now) # passed else passed))"

text \<open>How many of the requests let through are of a key and in a span of time.\<close>

definition passed_in :: "'k \<Rightarrow> instant \<Rightarrow> instant \<Rightarrow> ('k \<times> instant) list \<Rightarrow> nat" where
  "passed_in key t t' passed = length (filter (\<lambda>(k, a). k = key \<and> t \<le> a \<and> a < t') passed)"

text \<open>The latest window of a key: where it begins, how many it let through, and that little was let through just before.\<close>

definition window_inv :: "duration \<Rightarrow> nat \<Rightarrow> 'k \<Rightarrow> instant \<Rightarrow> ('k, instant \<times> nat) hashmap \<Rightarrow> ('k \<times> instant) list \<Rightarrow> instant \<Rightarrow> nat \<Rightarrow> bool" where
  "window_inv W limit key now hits passed s c \<longleftrightarrow>
     s \<le> now \<and> c \<le> limit \<and> passed_in key s (s + W) passed = c \<and>
     (\<forall>a. (key, a) \<in> set passed \<longrightarrow> a < s + W) \<and>
     (\<forall>t. s < t + W \<longrightarrow> passed_in key t s passed \<le> limit) \<and>
     (hm_get hits key = Some (s, c) \<or> hm_get hits key = None \<and> (s + W \<le> now \<or> (\<forall>a. (key, a) \<notin> set passed)))"

definition limiter_inv :: "duration \<Rightarrow> nat \<Rightarrow> 'k \<Rightarrow> instant \<Rightarrow> ('k, instant \<times> nat) hashmap \<times> ('k \<times> instant) list \<Rightarrow> bool" where
  "limiter_inv W limit key now = (\<lambda>(hits, passed).
     hm_wf hits \<and> (\<exists>s c. window_inv W limit key now hits passed s c) \<and> (\<forall>t. passed_in key t (t + W) passed \<le> 2 * limit))"

lemma passed_in_Cons:
  "passed_in key t t' ((k, a) # passed) = of_bool (k = key \<and> t \<le> a \<and> a < t') + passed_in key t t' passed"
  by (simp add: passed_in_def)

lemma passed_in_split: "t \<le> m \<Longrightarrow> m \<le> t' \<Longrightarrow> passed_in key t t' passed = passed_in key t m passed + passed_in key m t' passed"
  by (induction passed) (auto simp: passed_in_Cons passed_in_def)

lemma passed_in_mono: "t' \<le> t \<Longrightarrow> u \<le> u' \<Longrightarrow> passed_in key t u passed \<le> passed_in key t' u' passed"
  by (induction passed) (auto simp: passed_in_Cons passed_in_def)

lemma passed_in_none: "(\<And>a. (key, a) \<in> set passed \<Longrightarrow> a < t) \<Longrightarrow> passed_in key t t' passed = 0"
  by (fastforce simp: passed_in_def filter_empty_conv)

lemma limiter_wf: "hm_wf hits \<Longrightarrow> hm_wf (fst (limiter_allow W limit key now hits))"
  by (auto simp: limiter_allow_def Let_def split: option.splits)

lemma limiter_other:
  "hm_wf hits \<Longrightarrow> k \<noteq> key \<Longrightarrow> hm_get (fst (limiter_allow W limit k now hits)) key =
     (case hm_get hits key of None \<Rightarrow> None | Some (s, c) \<Rightarrow> if now - s < W then Some (s, c) else None)"
  by (auto simp: limiter_allow_def Let_def hm_get_filter split: option.splits)

lemma limiter_same:
  "hm_wf hits \<Longrightarrow> limiter_allow W limit key now hits =
     (let hits' = filter (\<lambda>(_, start, _). now - start < W) hits in
      case hm_get hits key of
        Some (s, c) \<Rightarrow>
          if now - s < W then (if limit \<le> c then (hits', False) else (hm_insert key (s, c + 1) hits', True))
          else (hm_insert key (now, 1) hits', True)
      | None \<Rightarrow> (hm_insert key (now, 1) hits', True))"
  by (auto simp: limiter_allow_def Let_def hm_get_filter split: option.splits)

text \<open>Counting one more request in the running window, and opening a new one.\<close>

lemma window_counts:
  assumes w: "window_inv W limit key now hits passed s c" and time: "now \<le> now'" "now' < s + W" and room: "c < limit"
    and all: "\<forall>t. passed_in key t (t + W) passed \<le> 2 * limit" and hit: "hm_get hits' key = Some (s, c + 1)"
  shows "window_inv W limit key now' hits' ((key, now') # passed) s (c + 1) \<and>
    (\<forall>t. passed_in key t (t + W) ((key, now') # passed) \<le> 2 * limit)"
proof -
  have le: "s \<le> now'" using w time by (simp add: window_inv_def)
  have "passed_in key t (t + W) ((key, now') # passed) \<le> 2 * limit" for t
  proof (cases "t \<le> now' \<and> now' < t + W")
    case True
    have "passed_in key t (t + W) passed \<le> passed_in key (min t s) (t + W + s + W) passed" by (rule passed_in_mono) auto
    also have "\<dots> = passed_in key (min t s) s passed + passed_in key s (s + W) passed + passed_in key (s + W) (t + W + s + W) passed"
      using passed_in_split [of "min t s" s "t + W + s + W" key passed] passed_in_split [of s "s + W" "t + W + s + W" key passed] by simp
    also have "passed_in key (s + W) (t + W + s + W) passed = 0" using w by (intro passed_in_none) (simp add: window_inv_def)
    also have "passed_in key (min t s) s passed \<le> limit"
      using w True le by (cases "t \<le> s") (auto simp: window_inv_def min_def passed_in_def)
    finally show ?thesis using w room True by (simp add: passed_in_Cons window_inv_def)
  qed (use all in \<open>auto simp: passed_in_Cons\<close>)
  moreover have "passed_in key s (s + W) ((key, now') # passed) = c + 1"
    using w le time by (simp add: passed_in_Cons window_inv_def)
  ultimately show ?thesis using w le time room hit by (auto simp: window_inv_def passed_in_Cons)
qed

lemma window_opens:
  assumes w: "window_inv W limit key now hits passed s c" and time: "now \<le> now'"
    and over: "s + W \<le> now' \<or> (\<forall>a. (key, a) \<notin> set passed)" and limit: "0 < limit" "0 < W"
    and all: "\<forall>t. passed_in key t (t + W) passed \<le> 2 * limit" and hit: "hm_get hits' key = Some (now', 1)"
  shows "window_inv W limit key now' hits' ((key, now') # passed) now' 1 \<and>
    (\<forall>t. passed_in key t (t + W) ((key, now') # passed) \<le> 2 * limit)"
proof -
  have before: "a < now'" if "(key, a) \<in> set passed" for a
    using w over that by (auto simp: window_inv_def intro: less_le_trans)
  then have none: "passed_in key now' u passed = 0" for u by (rule passed_in_none)
  have recent: "passed_in key t now' passed \<le> limit" if t: "now' < t + W" for t
  proof (cases "s + W \<le> now'")
    case True
    have "passed_in key t now' passed \<le> passed_in key s now' passed" using t True by (intro passed_in_mono) auto
    also have "\<dots> = passed_in key s (s + W) passed + passed_in key (s + W) now' passed" 
      using True by (intro passed_in_split) simp_all
    also have "passed_in key (s + W) now' passed = 0" using w by (intro passed_in_none) (simp add: window_inv_def)
    finally show ?thesis using w by (simp add: window_inv_def)
  next
    case False
    then have "passed_in key t now' passed = 0" using over by (intro passed_in_none) auto
    then show ?thesis by simp
  qed
  have "passed_in key t (t + W) ((key, now') # passed) \<le> 2 * limit" for t
  proof (cases "t \<le> now' \<and> now' < t + W")
    case True
    then have "passed_in key t (t + W) passed = passed_in key t now' passed" 
      using none passed_in_split [of t now' "t + W" key passed] by simp
    then show ?thesis using True recent [of t] limit by (simp add: passed_in_Cons)
  qed (use all in \<open>auto simp: passed_in_Cons\<close>)
  then show ?thesis using recent none before limit hit by (auto simp: window_inv_def passed_in_Cons intro: trans_less_add1)
qed

text \<open>A window that another key's request leaves alone or evicts.\<close>

lemma window_kept:
  assumes "window_inv W limit key now hits passed s c" "now \<le> now'"
    and "hm_get hits' key = (case hm_get hits key of None \<Rightarrow> None | Some (s, c) \<Rightarrow> if now' - s < W then Some (s, c) else None)"
  shows "window_inv W limit key now' hits' passed s c"
  using assms by (cases "now' - s < W") (auto simp: window_inv_def)

lemma limiter_invI:
  "window_inv W limit key now hits passed s c \<Longrightarrow> hm_wf hits \<Longrightarrow> (\<And>t. passed_in key t (t + W) passed \<le> 2 * limit) \<Longrightarrow>
     limiter_inv W limit key now (hits, passed)"
  by (auto simp: limiter_inv_def)

lemma limiter_step:
  assumes inv: "limiter_inv W limit key now (hits, passed)" and time: "now \<le> now'" and limit: "0 < limit" "0 < W"
    and r: "limiter_allow W limit k now' hits = (hits', ok)"
  shows "limiter_inv W limit key now' (hits', if ok then (k, now') # passed else passed)"
proof -
  obtain s c where w: "window_inv W limit key now hits passed s c" and wf: "hm_wf hits"
    and all: "\<forall>t. passed_in key t (t + W) passed \<le> 2 * limit"
    using inv by (auto simp: limiter_inv_def)
  have wf': "hm_wf hits'" using limiter_wf [OF wf, of W limit k now'] r by simp
  show ?thesis
  proof (cases "k = key")
    case False
    then have "window_inv W limit key now' hits' passed s c"
      using window_kept [OF w time] limiter_other [OF wf False, of W limit now'] r by simp
    then have "window_inv W limit key now' hits' (if ok then (k, now') # passed else passed) s c"
      using False by (auto simp: window_inv_def passed_in_Cons)
    then show ?thesis using wf' by (rule limiter_invI) (use all False in \<open>simp add: passed_in_Cons\<close>)
  next
    case True
    consider "hm_get hits key = Some (s, c)" "now' - s < W" "limit \<le> c" | "hm_get hits key = Some (s, c)" "now' - s < W" "c < limit"
      | "hm_get hits key = Some (s, c)" "\<not> now' - s < W" | "hm_get hits key = None" "s + W \<le> now \<or> (\<forall>a. (key, a) \<notin> set passed)"
      using w unfolding window_inv_def by (meson not_less)
    then show ?thesis
    proof cases
      case 1
      then have "\<not> ok \<and> hm_get hits' key = Some (s, c)" using r True wf by (auto simp: limiter_same Let_def hm_get_filter)
      then show ?thesis using wf' all window_kept [OF w time, of hits'] 1 by (auto intro: limiter_invI)
    next
      case 2
      then have "ok \<and> hm_get hits' key = Some (s, c + 1)" using r True wf by (auto simp: limiter_same Let_def)
      moreover have "now' < s + W" using 2 w time by (simp add: window_inv_def)
      ultimately show ?thesis using window_counts [OF w time _ _ all, of hits'] 2 wf' True by (auto intro: limiter_invI)
    next
      case 3
      then have "ok \<and> hm_get hits' key = Some (now', 1)" using r True wf by (auto simp: limiter_same Let_def)
      moreover have "s + W \<le> now'" using 3 w time limit by (simp add: window_inv_def)
      ultimately show ?thesis using window_opens [OF w time _ limit all, of hits'] wf' True by (auto intro: limiter_invI)
    next
      case 4
      then have "ok \<and> hm_get hits' key = Some (now', 1)" using r True wf by (auto simp: limiter_same Let_def)
      moreover have "s + W \<le> now' \<or> (\<forall>a. (key, a) \<notin> set passed)" using 4 time by auto
      ultimately show ?thesis using window_opens [OF w time _ limit all, of hits'] wf' True by (auto intro: limiter_invI)
    qed
  qed
qed

lemma limiter_run_inv:
  assumes "limiter_inv W limit key now s" "sorted (now # map snd rqs)" "0 < limit" "0 < W"
  shows "\<exists>now'. limiter_inv W limit key now' (limiter_run W limit rqs s)"
  using assms(1,2)
proof (induction rqs arbitrary: now s)
  case (Cons rq rqs)
  obtain k now' where rq: "rq = (k, now')" by (cases rq)
  obtain hits passed where s: "s = (hits, passed)" by (cases s)
  obtain hits' ok where r: "limiter_allow W limit k now' hits = (hits', ok)" by (cases "limiter_allow W limit k now' hits")
  have "now \<le> now'" "sorted (now' # map snd rqs)" using Cons.prems(2) by (simp_all add: rq)
  then show ?case
    using Cons.IH [of now'] limiter_step [OF _ _ assms(3,4) r, of key now passed] Cons.prems(1) by (simp add: rq s r)
qed auto

text \<open>
  A budget of \<open>limit\<close> requests for each window of length \<open>W\<close> - of an address, of a device token - lets no key
  through more than twice that often in any span of that length, wherever the span begins and whatever the requests of
  other keys, as long as the requests come in the order of their times.
\<close>

theorem limiter_bounded:
  assumes "sorted (map snd rqs)" "0 < limit" "0 < W"
  shows "passed_in key t (t + W) (snd (limiter_run W limit rqs ([], []))) \<le> 2 * limit"
proof -
  have "limiter_inv W limit key 0 ([], [])" by (auto simp: limiter_inv_def window_inv_def passed_in_def)
  moreover have "sorted (0 # map snd rqs)" using assms(1) by simp
  ultimately obtain now' where "limiter_inv W limit key now' (limiter_run W limit rqs ([], []))"
    using limiter_run_inv [OF _ _ assms(2,3)] by meson
  then show ?thesis by (auto simp: limiter_inv_def split: prod.splits)
qed

text \<open>Twice the limit is met: requests at the end of a window and at the start of the next.\<close>

theorem limiter_bounded_witness:
  "let rqs = [(7, 0), (7, 9), (7, 9), (7, 9), (7, 10), (7, 10), (7, 10), (7, 10::nat)] :: (nat \<times> nat) list;
       passed = snd (limiter_run 10 3 rqs ([], []))
   in passed_in 7 9 19 passed = 5 \<and> passed_in 7 9 (9 + 10) passed \<le> 2 * 3"
  using limiter_bounded [of "[(7, 0), (7, 9), (7, 9), (7, 9), (7, 10), (7, 10), (7, 10), (7, 10::nat)] :: (nat \<times> nat) list" 3 10 7 9]
  by (simp add: limiter_allow_def passed_in_def Let_def)

end
