(* ===== verification/Agent_History.thy ===== *)
theory Agent_History
  imports Protocol "HOL-Library.Sublist" "HOL-Library.Multiset"
begin

text \<open>
  The timeline of an agent session, \<open>AgentHistory\<close> of \<open>crates/host/src/session.rs\<close>: a queue of events bounded by
  their size, the last event of each kind that late viewers need (\<open>sticky\<close>), and the snapshot a phone gets on
  attach. \<open>push_agent_event\<close> draws a sequence number and takes the lock afterwards, so these are two steps here. The
  length of \<open>format!("{:?}", event)\<close> is a parameter \<open>dbg\<close>.
\<close>

section \<open>The history\<close>

definition MAX_AGENT_HISTORY_BYTES :: nat where "MAX_AGENT_HISTORY_BYTES = 512 * 1024"

datatype sticky_kind = StCommands | StMode | StConfig | StSessionInfo | StReplaying | StAuth | StUsage

fun sticky_agent_event :: "agent_event \<Rightarrow> sticky_kind option" where
  "sticky_agent_event (EvAvailableCommands _) = Some StCommands"
| "sticky_agent_event (EvModeState _ _) = Some StMode"
| "sticky_agent_event (EvConfigOptions _) = Some StConfig"
| "sticky_agent_event (EvSessionInfo _) = Some StSessionInfo"
| "sticky_agent_event (EvReplaying _) = Some StReplaying"
| "sticky_agent_event (EvAuthRequired _) = Some StAuth"
| "sticky_agent_event (EvUsage _ _ _) = Some StUsage"
| "sticky_agent_event _ = None"

record agent_history =
  ah_events :: "agent_timeline_event list"
  ah_sticky :: "(sticky_kind, agent_timeline_event) hashmap"
  ah_bytes :: nat

definition empty_history :: agent_history where
  "empty_history = \<lparr>ah_events = [], ah_sticky = [], ah_bytes = 0\<rparr>"

definition agent_event_size :: "(agent_event \<Rightarrow> nat) \<Rightarrow> agent_timeline_event \<Rightarrow> nat" where
  "agent_event_size dbg e = 32 + dbg (te_event e)"

text \<open>The loop that drops the oldest events while their total size is too large and more than one is left.\<close>

fun prune_history :: "(agent_event \<Rightarrow> nat) \<Rightarrow> nat \<Rightarrow> agent_timeline_event list \<Rightarrow> nat \<times> agent_timeline_event list" where
  "prune_history dbg nbytes (old # e # es) =
     (if nbytes > MAX_AGENT_HISTORY_BYTES then prune_history dbg (nbytes - agent_event_size dbg old) (e # es)
      else (nbytes, old # e # es))"
| "prune_history dbg nbytes es = (nbytes, es)"

definition history_push :: "(agent_event \<Rightarrow> nat) \<Rightarrow> agent_timeline_event \<Rightarrow> agent_history \<Rightarrow> agent_history" where
  "history_push dbg e h =
     (let nbytes = min (ah_bytes h + agent_event_size dbg e) (2 ^ 64 - 1);
          sticky = (case sticky_agent_event (te_event e) of None \<Rightarrow> ah_sticky h | Some kind \<Rightarrow> hm_insert kind e (ah_sticky h))
      in case prune_history dbg nbytes (ah_events h @ [e]) of
        (nbytes', events) \<Rightarrow> \<lparr>ah_events = events, ah_sticky = sticky, ah_bytes = nbytes'\<rparr>)"

definition history_snapshot :: "agent_history \<Rightarrow> agent_timeline_event list" where
  "history_snapshot h =
     sort_key te_seq
       (foldl (\<lambda>events e. if list_ex (\<lambda>candidate. te_seq candidate = te_seq e) events then events else events @ [e])
         (ah_events h) (map snd (ah_sticky h)))"

section \<open>What is kept of a sequence of events\<close>

definition size_of_events :: "(agent_event \<Rightarrow> nat) \<Rightarrow> agent_timeline_event list \<Rightarrow> nat" where
  "size_of_events dbg es = sum_list (map (agent_event_size dbg) es)"

lemma size_of_events_simps [simp]:
  "size_of_events dbg [] = 0" "size_of_events dbg (e # es) = agent_event_size dbg e + size_of_events dbg es"
  "size_of_events dbg (es @ es') = size_of_events dbg es + size_of_events dbg es'"
  by (simp_all add: size_of_events_def)

text \<open>
  The reference: the longest run of latest events that fits, or the last event alone, and the latest event of
  each sticky kind.
\<close>

fun retained :: "(agent_event \<Rightarrow> nat) \<Rightarrow> agent_timeline_event list \<Rightarrow> agent_timeline_event list" where
  "retained dbg (e # e' # es) =
     (if size_of_events dbg (e # e' # es) \<le> MAX_AGENT_HISTORY_BYTES then e # e' # es else retained dbg (e' # es))"
| "retained dbg es = es"

definition latest_sticky :: "agent_timeline_event list \<Rightarrow> sticky_kind \<Rightarrow> agent_timeline_event option" where
  "latest_sticky log kind = find (\<lambda>e. sticky_agent_event (te_event e) = Some kind) (rev log)"

definition shown :: "(agent_event \<Rightarrow> nat) \<Rightarrow> agent_timeline_event list \<Rightarrow> agent_timeline_event \<Rightarrow> bool" where
  "shown dbg log e \<longleftrightarrow>
     e \<in> set (retained dbg log) \<or> (\<exists>kind. sticky_agent_event (te_event e) = Some kind \<and> latest_sticky log kind = Some e)"

lemma retained_ne [simp]: "retained dbg log = [] \<longleftrightarrow> log = []"
  by (induction dbg log rule: retained.induct) auto

lemma retained_suffix: "suffix (retained dbg log) log"
  by (induction dbg log rule: retained.induct) (auto intro: suffix_ConsI)

lemma retained_bound: "size_of_events dbg (retained dbg log) \<le> MAX_AGENT_HISTORY_BYTES \<or> length (retained dbg log) \<le> 1"
  by (induction dbg log rule: retained.induct) auto

text \<open>Whatever else could be kept is too large.\<close>

lemma retained_longest:
  "suffix es log \<Longrightarrow> size_of_events dbg es \<le> MAX_AGENT_HISTORY_BYTES \<Longrightarrow> suffix es (retained dbg log)"
  by (induction dbg log rule: retained.induct) (auto simp: suffix_Cons)

lemma prune_retained: "nbytes = size_of_events dbg es \<Longrightarrow> prune_history dbg nbytes es = (size_of_events dbg (retained dbg es), retained dbg es)"
  by (induction dbg nbytes es rule: prune_history.induct) auto

lemma retained_snoc: "retained dbg (retained dbg log @ [e]) = retained dbg (log @ [e])"
proof (induction dbg log rule: retained.induct)
  case (1 dbg a b es)
  show ?case
  proof (cases "size_of_events dbg (a # b # es) \<le> MAX_AGENT_HISTORY_BYTES")
    case False
    then have "retained dbg ((a # b # es) @ [e]) = retained dbg ((b # es) @ [e])" by simp
    moreover have "retained dbg (a # b # es) = retained dbg (b # es)" using False by simp
    ultimately show ?thesis using 1 [OF False] by (simp only:)
  qed simp
qed simp_all

section \<open>Runs\<close>

definition history_of :: "(agent_event \<Rightarrow> nat) \<Rightarrow> agent_timeline_event list \<Rightarrow> agent_history" where
  "history_of dbg log = foldl (\<lambda>h e. history_push dbg e h) empty_history log"

lemma history_of_snoc: "history_of dbg (log @ [e]) = history_push dbg e (history_of dbg log)"
  by (simp add: history_of_def)

lemma latest_sticky_snoc:
  "latest_sticky (log @ [e]) kind = (if sticky_agent_event (te_event e) = Some kind then Some e else latest_sticky log kind)"
  by (simp add: latest_sticky_def)

lemma history_of_state:
  assumes "\<forall>ev. dbg ev + 32 < 2 ^ 63"
  shows "ah_events (history_of dbg log) = retained dbg log \<and> ah_bytes (history_of dbg log) = size_of_events dbg (retained dbg log) \<and>
    hm_wf (ah_sticky (history_of dbg log)) \<and> (\<forall>kind. hm_get (ah_sticky (history_of dbg log)) kind = latest_sticky log kind)"
proof (induction log rule: rev_induct)
  case Nil
  then show ?case by (simp add: history_of_def empty_history_def latest_sticky_def)
next
  case (snoc e log)
  have size: "agent_event_size dbg a < 2 ^ 63" for a using assms by (simp add: agent_event_size_def add.commute)
  have "size_of_events dbg (retained dbg log) < 2 ^ 63"
    using retained_bound [of dbg log] size [of "hd (retained dbg log)"]
    by (cases "retained dbg log") (auto simp: MAX_AGENT_HISTORY_BYTES_def)
  then have "min (ah_bytes (history_of dbg log) + agent_event_size dbg e) (2 ^ 64 - 1) = size_of_events dbg (retained dbg log @ [e])"
    using snoc size [of e] by simp
  then have "prune_history dbg (min (ah_bytes (history_of dbg log) + agent_event_size dbg e) (2 ^ 64 - 1)) (ah_events (history_of dbg log) @ [e]) =
      (size_of_events dbg (retained dbg (log @ [e])), retained dbg (log @ [e]))"
    using snoc by (simp add: prune_retained retained_snoc)
  then show ?case
    using snoc by (auto simp: history_of_snoc history_push_def Let_def latest_sticky_snoc split: option.splits)
qed

section \<open>Snapshots\<close>

lemma snapshot_fold:
  assumes "inj_on te_seq (set acc \<union> set es)" "distinct (map te_seq acc)"
  shows "let r = foldl (\<lambda>events e. if list_ex (\<lambda>candidate. te_seq candidate = te_seq e) events then events else events @ [e]) acc es
     in distinct (map te_seq r) \<and> set r = set acc \<union> set es"
  using assms
proof (induction es arbitrary: acc)
  case (Cons e es)
  show ?case
  proof (cases "list_ex (\<lambda>candidate. te_seq candidate = te_seq e) acc")
    case True
    then obtain c where "c \<in> set acc" "te_seq c = te_seq e" by (auto simp: list_ex_iff)
    moreover have "c = e" using Cons.prems(1) calculation by (intro inj_onD [OF Cons.prems(1)]) auto
    ultimately have "e \<in> set acc" by simp
    then show ?thesis using Cons.IH [of acc] Cons.prems True by (auto simp: Let_def insert_absorb)
  next
    case False
    then have "distinct (map te_seq (acc @ [e]))" using Cons.prems(2) by (auto simp: list_ex_iff)
    then show ?thesis using Cons.IH [of "acc @ [e]"] Cons.prems(1) False by (auto simp: Let_def)
  qed
qed simp

lemma latest_sticky_in: "latest_sticky log kind = Some e \<Longrightarrow> e \<in> set log \<and> sticky_agent_event (te_event e) = Some kind"
  by (auto simp: latest_sticky_def find_Some_iff in_set_conv_nth rev_nth) (metis diff_Suc_less gr_implies_not0 length_pos_if_in_set less_nat_zero_code neq0_conv)

lemma snapshot_of_log:
  assumes "distinct (map te_seq log)" "\<forall>ev. dbg ev + 32 < 2 ^ 63"
  shows "sorted_wrt (<) (map te_seq (history_snapshot (history_of dbg log))) \<and>
     set (history_snapshot (history_of dbg log)) = {e \<in> set log. shown dbg log e}"
proof -
  define h where "h = history_of dbg log"
  note st = history_of_state [OF assms(2), of log, folded h_def]
  have inj: "inj_on te_seq (set log)" using assms(1) by (simp add: distinct_map)
  have events: "set (ah_events h) \<subseteq> set log" "distinct (map te_seq (ah_events h))"
  proof -
    obtain zs where zs: "log = zs @ retained dbg log" using retained_suffix [of dbg log] by (auto simp: suffix_def)
    show "set (ah_events h) \<subseteq> set log" using st set_mono_suffix [OF retained_suffix] by simp
    have "distinct (map te_seq (zs @ retained dbg log))" using assms(1) zs by simp
    then show "distinct (map te_seq (ah_events h))" using st by simp
  qed
  have sticky: "set (map snd (ah_sticky h)) = {e. \<exists>kind. latest_sticky log kind = Some e}"
    using st ran_distinct [of "ah_sticky h"] by (simp add: ran_def)
  then have sub: "set (ah_events h) \<union> set (map snd (ah_sticky h)) \<subseteq> set log" using events latest_sticky_in by auto
  have r: "distinct (map te_seq (history_snapshot h)) \<and> set (history_snapshot h) = set (ah_events h) \<union> set (map snd (ah_sticky h))"
    using snapshot_fold [of "ah_events h" "map snd (ah_sticky h)"] inj_on_subset [OF inj sub] events(2)
    by (auto simp: history_snapshot_def Let_def distinct_map)
  moreover have "sorted (map te_seq (history_snapshot h))" by (simp add: history_snapshot_def)
  moreover have "set (ah_events h) \<union> set (map snd (ah_sticky h)) = {e \<in> set log. shown dbg log e}"
    using st sticky sub latest_sticky_in [of log] by (auto simp: shown_def)
  ultimately show ?thesis by (simp add: h_def [symmetric] strict_sorted_iff)
qed

section \<open>Drawing numbers and publishing\<close>

record agent_feed =
  af_next_seq :: u64
  af_reserved :: "agent_timeline_event list"
  af_history :: agent_history
  af_unseen :: bool
  af_sent :: "agent_timeline_event list"
  af_activity :: nat

definition new_feed :: agent_feed where
  "new_feed = \<lparr>af_next_seq = 1, af_reserved = [], af_history = empty_history, af_unseen = False, af_sent = [], af_activity = 0\<rparr>"

text \<open>\<open>push_agent_event\<close> up to the lock of the history, and from there on.\<close>

definition reserve_event :: "agent_event \<Rightarrow> agent_feed \<Rightarrow> agent_feed" where
  "reserve_event ev f =
     f\<lparr>af_next_seq := af_next_seq f + 1, af_reserved := af_reserved f @ [\<lparr>te_seq = af_next_seq f, te_event = ev\<rparr>]\<rparr>"

definition publish_event :: "(agent_event \<Rightarrow> nat) \<Rightarrow> nat \<Rightarrow> agent_feed \<Rightarrow> agent_feed" where
  "publish_event dbg i f =
     (if i < length (af_reserved f)
      then let e = af_reserved f ! i in
        f\<lparr>af_reserved := take i (af_reserved f) @ drop (Suc i) (af_reserved f),
          af_history := history_push dbg e (af_history f), af_unseen := True, af_sent := af_sent f @ [e],
          af_activity := (if af_unseen f then af_activity f else af_activity f + 1)\<rparr>
      else f)"

text \<open>\<open>agent_snapshot\<close>: the events, and the session counts as seen.\<close>

definition agent_snapshot :: "agent_feed \<Rightarrow> agent_feed \<times> agent_timeline_event list" where
  "agent_snapshot f = (f\<lparr>af_unseen := False\<rparr>, history_snapshot (af_history f))"

datatype feed_event = Reserve agent_event | Publish nat | Snapshot

fun feed_step :: "(agent_event \<Rightarrow> nat) \<Rightarrow> agent_feed \<Rightarrow> feed_event \<Rightarrow> agent_feed" where
  "feed_step dbg f (Reserve ev) = reserve_event ev f"
| "feed_step dbg f (Publish i) = publish_event dbg i f"
| "feed_step dbg f Snapshot = fst (agent_snapshot f)"

definition feed_inv :: "(agent_event \<Rightarrow> nat) \<Rightarrow> agent_feed \<Rightarrow> bool" where
  "feed_inv dbg f \<longleftrightarrow>
     af_history f = history_of dbg (af_sent f) \<and> distinct (map te_seq (af_sent f @ af_reserved f)) \<and>
     (\<forall>e \<in> set (af_sent f @ af_reserved f). te_seq e < af_next_seq f)"

text \<open>The number drawn is not the last one there is.\<close>

definition numbers_left :: "agent_feed \<Rightarrow> feed_event \<Rightarrow> bool" where
  "numbers_left f e \<longleftrightarrow> af_next_seq f + 1 \<noteq> 0"

lemma mset_take_drop: "i < length xs \<Longrightarrow> mset (take i xs @ drop (Suc i) xs) + {#xs ! i#} = mset xs"
  by (metis Cons_nth_drop_Suc add_mset_add_single append_take_drop_id mset_append mset.simps(2) union_mset_add_mset_right)

lemma publish_event_inv: "feed_inv dbg f \<Longrightarrow> feed_inv dbg (publish_event dbg i f)"
proof (cases "i < length (af_reserved f)")
  case True
  assume inv: "feed_inv dbg f"
  let ?rest = "take i (af_reserved f) @ drop (Suc i) (af_reserved f)"
  have m: "mset ((af_sent f @ [af_reserved f ! i]) @ ?rest) = mset (af_sent f @ af_reserved f)"
    using mset_take_drop [OF True] by simp
  then have "mset (map te_seq ((af_sent f @ [af_reserved f ! i]) @ ?rest)) = mset (map te_seq (af_sent f @ af_reserved f))"
    by (simp only: mset_map)
  then have "distinct (map te_seq ((af_sent f @ [af_reserved f ! i]) @ ?rest))"
    using inv unfolding feed_inv_def by (metis mset_eq_imp_distinct_iff)
  moreover have "set ((af_sent f @ [af_reserved f ! i]) @ ?rest) = set (af_sent f @ af_reserved f)"
    using m by (rule mset_eq_setD)
  ultimately show ?thesis
    using inv True unfolding feed_inv_def publish_event_def Let_def by (simp add: history_of_snoc)
qed (simp add: publish_event_def)

interpretation feed: conditional_invariant "feed_step dbg" "feed_inv dbg" numbers_left for dbg
proof unfold_locales
  fix f :: agent_feed and e :: feed_event
  assume inv: "feed_inv dbg f" and left: "numbers_left f e"
  show "feed_inv dbg (feed_step dbg f e)"
  proof (cases e)
    case (Reserve ev)
    have "af_next_seq f < af_next_seq f + 1" 
      using left unatSuc [of "af_next_seq f"] by (simp add: numbers_left_def word_less_nat_alt add.commute)
    then show ?thesis
      using inv Reserve by (auto simp: feed_inv_def reserve_event_def intro: less_trans)
  next
    case (Publish i)
    then show ?thesis using publish_event_inv [OF inv] by simp
  next
    case Snapshot
    then show ?thesis using inv by (simp add: agent_snapshot_def feed_inv_def)
  qed
qed

text \<open>
  C13. Whoever attaches late sees what the viewers so far were sent: however the pushes of concurrent tasks interleave, the
  snapshot lists, in strictly increasing order of their numbers, exactly those of the events sent that belong to the
  longest run of latest ones within the size limit (at least the last one), and the latest one of each
  sticky kind however long ago it was.
\<close>

theorem agent_snapshot_refines_feed:
  assumes "\<forall>ev. dbg ev + 32 < 2 ^ 63" "run_ok (feed_step dbg) numbers_left new_feed es"
    and "f = foldl (feed_step dbg) new_feed es"
  shows "sorted_wrt (<) (map te_seq (snd (agent_snapshot f))) \<and>
     set (snd (agent_snapshot f)) = {e \<in> set (af_sent f). shown dbg (af_sent f) e}"
proof -
  have "feed_inv dbg new_feed" by (simp add: feed_inv_def new_feed_def history_of_def)
  then have "feed_inv dbg f" using feed.conditional_run assms(2,3) by blast
  then show ?thesis using snapshot_of_log [OF _ assms(1), of "af_sent f"] by (simp add: agent_snapshot_def feed_inv_def)
qed

text \<open>Two tasks publish in the other order than they drew their numbers; a mode survives a history that is full.\<close>

theorem agent_snapshot_refines_feed_witness:
  "let dbg = (\<lambda>ev. case ev of EvMessageChunk s \<Rightarrow> 600000 | _ \<Rightarrow> (10 :: nat));
       f = foldl (feed_step dbg) new_feed
         [Reserve (EvModeState ''plan'' []), Reserve (EvError ''x''), Publish 1, Publish 0, Reserve (EvMessageChunk ''long''), Publish 0]
   in map te_seq (af_sent f) = [2, 1, 3] \<and> map te_seq (snd (agent_snapshot f)) = [1, 3]"
proof -
  let ?dbg = "\<lambda>ev. case ev of EvMessageChunk s \<Rightarrow> 600000 | _ \<Rightarrow> (10 :: nat)"
  let ?es = "[Reserve (EvModeState ''plan'' []), Reserve (EvError ''x''), Publish 1, Publish 0, Reserve (EvMessageChunk ''long''), Publish 0]"
  define f where "f = foldl (feed_step ?dbg) new_feed ?es"
  have small: "\<forall>ev. ?dbg ev + 32 < 2 ^ 63" by (simp split: agent_event.splits)
  have ok: "run_ok (feed_step ?dbg) numbers_left new_feed ?es"
    by (simp add: new_feed_def reserve_event_def publish_event_def numbers_left_def Let_def)
  have sent: "af_sent f = [\<lparr>te_seq = 2, te_event = EvError ''x''\<rparr>, \<lparr>te_seq = 1, te_event = EvModeState ''plan'' []\<rparr>,
      \<lparr>te_seq = 3, te_event = EvMessageChunk ''long''\<rparr>]"
    by (simp add: f_def new_feed_def reserve_event_def publish_event_def Let_def)
  have "sorted_wrt (<) (map te_seq (snd (agent_snapshot f))) \<and>
      set (snd (agent_snapshot f)) = {e \<in> set (af_sent f). shown ?dbg (af_sent f) e}"
    using small ok f_def by (rule agent_snapshot_refines_feed)
  moreover have "{e \<in> set (af_sent f). shown ?dbg (af_sent f) e} =
      {\<lparr>te_seq = 1, te_event = EvModeState ''plan'' []\<rparr>, \<lparr>te_seq = 3, te_event = EvMessageChunk ''long''\<rparr>}"
    by (auto simp: sent shown_def MAX_AGENT_HISTORY_BYTES_def agent_event_size_def latest_sticky_def)
  ultimately have "set (map te_seq (snd (agent_snapshot f))) = {1, 3}" "sorted_wrt (<) (map te_seq (snd (agent_snapshot f)))"
    by (auto simp: image_iff)
  then have "map te_seq (snd (agent_snapshot f)) = [1, 3]"
    by (intro strict_sorted_equal) simp_all
  then show ?thesis unfolding Let_def f_def [symmetric] using sent by simp
qed

end
