(* ===== verification/Agent_Permissions.thy ===== *)
theory Agent_Permissions
  imports Agent_History Terminal_Text
begin

text \<open>
  Permission requests of agents, \<open>crates/host/src/session.rs\<close>: the handler of \<open>session/request_permission\<close> in
  \<open>run_acp_session\<close>, the pending map of \<open>AcpHandle\<close>, the decisions of phone and laptop
  (\<open>Session::resolve_permission\<close>, and \<open>SessionManager::resolve_permission\<close> for frames that name no session),
  cancellation and kill. The handler waits for its one-shot channel between \<open>request_permission\<close> and \<open>finish_request\<close>, and
  everything else may happen meanwhile. Strings are their UTF-8 bytes.
\<close>

section \<open>Requests and options\<close>

definition MAX_PERMISSION_OPTIONS :: nat where "MAX_PERMISSION_OPTIONS = 32"

text \<open>The protocol's enums as the matches here distinguish them.\<close>

datatype acp_permission_kind = AcpAllowOnce | AcpAllowAlways | AcpRejectOnce | AcpRejectAlways | AcpUnknownPermission

datatype (plugins only: code) acp_tool_kind =
  AcpRead | AcpEdit | AcpDelete | AcpMove | AcpSearch | AcpExecute | AcpThink | AcpFetch | AcpUnknownTool

record acp_permission_option =
  ao_option_id :: string
  ao_name :: string
  ao_kind :: acp_permission_kind

record permission_request =
  rp_tool_call_id :: string
  rp_title :: "string option"
  rp_kind :: "acp_tool_kind option"
  rp_options :: "acp_permission_option list"

fun map_perm_kind :: "acp_permission_kind \<Rightarrow> permission_option_kind" where
  "map_perm_kind AcpAllowOnce = AllowOnce"
| "map_perm_kind AcpAllowAlways = AllowAlways"
| "map_perm_kind AcpRejectOnce = RejectOnce"
| "map_perm_kind AcpRejectAlways = RejectAlways"
| "map_perm_kind AcpUnknownPermission = RejectOnce"

fun map_tool_kind :: "acp_tool_kind \<Rightarrow> agent_tool_kind" where
  "map_tool_kind AcpRead = ToolRead"
| "map_tool_kind AcpEdit = ToolEdit"
| "map_tool_kind AcpDelete = ToolDelete"
| "map_tool_kind AcpMove = ToolMove"
| "map_tool_kind AcpSearch = ToolSearch"
| "map_tool_kind AcpExecute = ToolExecute"
| "map_tool_kind AcpThink = ToolThink"
| "map_tool_kind AcpFetch = ToolFetch"
| "map_tool_kind AcpUnknownTool = ToolOther"

fun permission_category_of :: "agent_tool_kind \<Rightarrow> permission_category" where
  "permission_category_of ToolRead = CategoryRead"
| "permission_category_of ToolSearch = CategoryRead"
| "permission_category_of ToolEdit = CategoryWrite"
| "permission_category_of ToolMove = CategoryWrite"
| "permission_category_of ToolExecute = CategoryExecute"
| "permission_category_of ToolFetch = CategoryNetwork"
| "permission_category_of ToolDelete = CategoryDestructive"
| "permission_category_of ToolThink = CategoryUnknown"
| "permission_category_of ToolOther = CategoryUnknown"

definition short_text :: "string \<Rightarrow> string" where
  "short_text s = map (\<lambda>b. char_of (unat b)) (clamp_agent_short_text (map of_char s))"

definition offered_options :: "acp_permission_option list \<Rightarrow> permission_option list" where
  "offered_options os =
     map (\<lambda>o'. \<lparr>po_option_id = ao_option_id o', po_name = short_text (ao_name o'), po_kind = map_perm_kind (ao_kind o')\<rparr>)
       (filter (\<lambda>o'. length (ao_option_id o') \<le> MAX_AGENT_SHORT_TEXT_BYTES) (take MAX_PERMISSION_OPTIONS os))"

definition request_card :: "permission_request \<Rightarrow> tool_call_card" where
  "request_card req =
     \<lparr>tc_tool_call_id = rp_tool_call_id req,
      tc_title = (case rp_title req of None \<Rightarrow> ''agent action'' | Some t \<Rightarrow> short_text t)\<rparr>"

definition request_category :: "permission_request \<Rightarrow> permission_category" where
  "request_category req = (case rp_kind req of None \<Rightarrow> CategoryUnknown | Some k \<Rightarrow> permission_category_of (map_tool_kind k))"

definition permission_outcome :: "string option \<Rightarrow> permission_option list \<Rightarrow> string option \<times> permission_resolution" where
  "permission_outcome option_id options =
     (case option_id of
        None \<Rightarrow> (None, Rejected)
      | Some i \<Rightarrow>
          (case find (\<lambda>p. po_option_id p = i) options of
             None \<Rightarrow> (None, ResolutionCancelled)
           | Some p \<Rightarrow>
               (case po_kind p of
                  AllowOnce \<Rightarrow> (Some i, Allowed)
                | AllowAlways \<Rightarrow> (Some i, Allowed)
                | RejectOnce \<Rightarrow> (Some i, Rejected)
                | RejectAlways \<Rightarrow> (Some i, Rejected))))"

section \<open>State\<close>

text \<open>\<open>pp_responder\<close> names the request whose channel the entry holds the sender of.\<close>

record pending_permission =
  pp_responder :: nat
  pp_tool_call :: tool_call_card
  pp_options :: "permission_option list"
  pp_category :: permission_category

record agent_session =
  as_pending :: "(string, pending_permission) hashmap"
  as_feed :: agent_feed
  as_workspace_scope :: workspace_scope

text \<open>A one-shot channel: nothing yet, a value, or its sender was dropped.\<close>

datatype oneshot = Empty | Sent "string option" | SenderDropped

text \<open>A request that waits, or has what it waited for and has not answered yet.\<close>

record permission_task =
  pt_session :: session_id
  pt_tool_call_id :: string
  pt_answer :: oneshot
  pt_decision :: "string option option"

datatype permission_reply = Selected string | Cancelled

datatype permission_notice =
    AgentPermissionEvent session_id tool_call_card "permission_option list" permission_category workspace_scope
  | PermissionResolvedEvent session_id string permission_resolution permission_resolver
  | RemovedEvent session_id

record agent_world =
  aw_sessions :: "(session_id, agent_session) hashmap"
  aw_tasks :: "(nat, permission_task) hashmap"
  aw_next :: nat
  aw_events :: "permission_notice list"
  aw_replies :: "(nat \<times> permission_reply) list"

abbreviation pending_of :: "agent_world \<Rightarrow> session_id \<Rightarrow> (string, pending_permission) hashmap" where
  "pending_of w sid \<equiv> (case hm_get (aw_sessions w) sid of None \<Rightarrow> [] | Some s \<Rightarrow> as_pending s)"

text \<open>Dropping a sender, and sending, which does nothing when the receiver is gone.\<close>

definition drop_responder :: "nat \<Rightarrow> agent_world \<Rightarrow> agent_world" where
  "drop_responder n w =
     (case hm_get (aw_tasks w) n of
        None \<Rightarrow> w
      | Some t \<Rightarrow> if pt_answer t = Empty then w\<lparr>aw_tasks := hm_insert n (t\<lparr>pt_answer := SenderDropped\<rparr>) (aw_tasks w)\<rparr> else w)"

definition send_responder :: "nat \<Rightarrow> string option \<Rightarrow> agent_world \<Rightarrow> agent_world" where
  "send_responder n v w =
     (case hm_get (aw_tasks w) n of
        None \<Rightarrow> w
      | Some t \<Rightarrow>
          if pt_answer t = Empty \<and> pt_decision t = None then w\<lparr>aw_tasks := hm_insert n (t\<lparr>pt_answer := Sent v\<rparr>) (aw_tasks w)\<rparr> else w)"

definition set_pending :: "session_id \<Rightarrow> agent_session \<Rightarrow> (string, pending_permission) hashmap \<Rightarrow> agent_world \<Rightarrow> agent_world" where
  "set_pending sid s pending w = w\<lparr>aw_sessions := hm_insert sid (s\<lparr>as_pending := pending\<rparr>) (aw_sessions w)\<rparr>"

definition notify_viewers :: "permission_notice \<Rightarrow> agent_world \<Rightarrow> agent_world" where
  "notify_viewers ev w = w\<lparr>aw_events := aw_events w @ [ev]\<rparr>"

section \<open>The handler\<close>

definition push_agent_event :: "(agent_event \<Rightarrow> nat) \<Rightarrow> agent_event \<Rightarrow> agent_feed \<Rightarrow> agent_feed" where
  "push_agent_event dbg ev f = publish_event dbg (length (af_reserved f)) (reserve_event ev f)"

definition deny_request :: "(agent_event \<Rightarrow> nat) \<Rightarrow> session_id \<Rightarrow> agent_session \<Rightarrow> string \<Rightarrow> agent_world \<Rightarrow> agent_world" where
  "deny_request dbg sid s message w =
     w\<lparr>aw_sessions := hm_insert sid (s\<lparr>as_feed := push_agent_event dbg (EvError message) (as_feed s)\<rparr>) (aw_sessions w),
       aw_next := aw_next w + 1, aw_replies := (aw_next w, Cancelled) # aw_replies w\<rparr>"

definition request_permission :: "(agent_event \<Rightarrow> nat) \<Rightarrow> session_id \<Rightarrow> permission_request \<Rightarrow> agent_world \<Rightarrow> agent_world" where
  "request_permission dbg sid req w =
     (case hm_get (aw_sessions w) sid of
        None \<Rightarrow> w
      | Some s \<Rightarrow>
          let tid = rp_tool_call_id req; options = offered_options (rp_options req); n = aw_next w in
          if length tid > MAX_AGENT_SHORT_TEXT_BYTES then deny_request dbg sid s ''Denied a permission request with an oversized id'' w
          else if options = [] \<and> rp_options req \<noteq> [] then deny_request dbg sid s ''Denied a permission request with unrepresentable options'' w
          else let entry = \<lparr>pp_responder = n, pp_tool_call = request_card req, pp_options = options, pp_category = request_category req\<rparr>;
                   w1 = set_pending sid s (hm_insert tid entry (as_pending s)) w;
                   w2 = (case hm_get (as_pending s) tid of None \<Rightarrow> w1 | Some old \<Rightarrow> drop_responder (pp_responder old) w1);
                   w3 = w2\<lparr>aw_next := n + 1,
                           aw_tasks := hm_insert n \<lparr>pt_session = sid, pt_tool_call_id = tid, pt_answer = Empty, pt_decision = None\<rparr> (aw_tasks w2)\<rparr>
            in notify_viewers (AgentPermissionEvent sid (request_card req) options (request_category req) (as_workspace_scope s)) w3)"

text \<open>The await ends with what was sent, with a dropped sender or with the time to live.\<close>

definition wake_request :: "nat \<Rightarrow> agent_world \<Rightarrow> agent_world" where
  "wake_request n w =
     (case hm_get (aw_tasks w) n of
        None \<Rightarrow> w
      | Some t \<Rightarrow>
          if pt_decision t \<noteq> None then w
          else case pt_answer t of
            Empty \<Rightarrow> w
          | Sent v \<Rightarrow> w\<lparr>aw_tasks := hm_insert n (t\<lparr>pt_decision := Some v\<rparr>) (aw_tasks w)\<rparr>
          | SenderDropped \<Rightarrow> w\<lparr>aw_tasks := hm_insert n (t\<lparr>pt_decision := Some None\<rparr>) (aw_tasks w)\<rparr>)"

definition expire_request :: "nat \<Rightarrow> agent_world \<Rightarrow> agent_world" where
  "expire_request n w =
     (case hm_get (aw_tasks w) n of
        None \<Rightarrow> w
      | Some t \<Rightarrow>
          if pt_decision t = None \<and> pt_answer t = Empty
          then w\<lparr>aw_tasks := hm_insert n (t\<lparr>pt_decision := Some None\<rparr>) (aw_tasks w)\<rparr> else w)"

text \<open>The clean-up removes whatever entry the map has under the id of the tool call, and the agent is answered.\<close>

definition finish_request :: "nat \<Rightarrow> agent_world \<Rightarrow> agent_world" where
  "finish_request n w =
     (case hm_get (aw_tasks w) n of
        None \<Rightarrow> w
      | Some t \<Rightarrow>
          (case pt_decision t of
             None \<Rightarrow> w
           | Some decision \<Rightarrow>
               let w1 = (case hm_get (aw_sessions w) (pt_session t) of
                           None \<Rightarrow> w
                         | Some s \<Rightarrow>
                             let w' = set_pending (pt_session t) s (hm_remove (pt_tool_call_id t) (as_pending s)) w
                             in case hm_get (as_pending s) (pt_tool_call_id t) of None \<Rightarrow> w' | Some p \<Rightarrow> drop_responder (pp_responder p) w')
               in w1\<lparr>aw_tasks := hm_remove n (aw_tasks w1),
                     aw_replies := (n, case decision of Some opt \<Rightarrow> Selected opt | None \<Rightarrow> Cancelled) # aw_replies w1\<rparr>))"

section \<open>Decisions\<close>

definition resolve_permission :: "session_id \<Rightarrow> string \<Rightarrow> string option \<Rightarrow> permission_resolver \<Rightarrow> agent_world \<Rightarrow> agent_world" where
  "resolve_permission sid tid option_id who w =
     (case hm_get (aw_sessions w) sid of
        None \<Rightarrow> w
      | Some s \<Rightarrow>
          (case hm_get (as_pending s) tid of
             None \<Rightarrow> w
           | Some p \<Rightarrow>
               (case permission_outcome option_id (pp_options p) of
                  (decision, resolution) \<Rightarrow>
                    notify_viewers (PermissionResolvedEvent sid tid resolution who)
                      (send_responder (pp_responder p) decision (set_pending sid s (hm_remove tid (as_pending s)) w)))))"

definition holders :: "string \<Rightarrow> agent_world \<Rightarrow> session_id list" where
  "holders tid w = map fst (filter (\<lambda>(_, s). hm_contains (as_pending s) tid) (aw_sessions w))"

definition resolve_unscoped :: "string \<Rightarrow> string option \<Rightarrow> permission_resolver \<Rightarrow> agent_world \<Rightarrow> agent_world" where
  "resolve_unscoped tid option_id who w =
     (case holders tid w of [sid] \<Rightarrow> resolve_permission sid tid option_id who w | _ \<Rightarrow> w)"

definition cancel_pending_permissions :: "session_id \<Rightarrow> agent_world \<Rightarrow> agent_world" where
  "cancel_pending_permissions sid w =
     (case hm_get (aw_sessions w) sid of
        None \<Rightarrow> w
      | Some s \<Rightarrow>
          foldl (\<lambda>w (tid, p). notify_viewers (PermissionResolvedEvent sid tid ResolutionCancelled System) (send_responder (pp_responder p) None w))
            (set_pending sid s [] w) (as_pending s))"

text \<open>Killing aborts the driver and with it the requests it waits for; the senders go with the map.\<close>

definition kill_agent :: "session_id \<Rightarrow> agent_world \<Rightarrow> agent_world" where
  "kill_agent sid w =
     (case hm_get (aw_sessions w) sid of
        None \<Rightarrow> w
      | Some s \<Rightarrow>
          notify_viewers (RemovedEvent sid)
            (w\<lparr>aw_sessions := hm_remove sid (aw_sessions w), aw_tasks := filter (\<lambda>(_, t). pt_session t \<noteq> sid) (aw_tasks w)\<rparr>))"

definition start_agent :: "session_id \<Rightarrow> workspace_scope \<Rightarrow> agent_world \<Rightarrow> agent_world" where
  "start_agent sid scope w =
     (if hm_contains (aw_sessions w) sid then w
      else w\<lparr>aw_sessions := hm_insert sid \<lparr>as_pending = [], as_feed = new_feed, as_workspace_scope = scope\<rparr> (aw_sessions w)\<rparr>)"

section \<open>Steps\<close>

datatype permission_step =
    StartAgent session_id workspace_scope
  | Ask session_id permission_request
  | Decide session_id string "string option" permission_resolver
  | DecideUnscoped string "string option" permission_resolver
  | CancelTurn session_id
  | WakeRequest nat
  | ExpireRequest nat
  | FinishRequest nat
  | KillAgent session_id

fun agent_step :: "(agent_event \<Rightarrow> nat) \<Rightarrow> agent_world \<Rightarrow> permission_step \<Rightarrow> agent_world" where
  "agent_step dbg w (StartAgent sid scope) = start_agent sid scope w"
| "agent_step dbg w (Ask sid req) = request_permission dbg sid req w"
| "agent_step dbg w (Decide sid tid option_id who) = resolve_permission sid tid option_id who w"
| "agent_step dbg w (DecideUnscoped tid option_id who) = resolve_unscoped tid option_id who w"
| "agent_step dbg w (CancelTurn sid) = cancel_pending_permissions sid w"
| "agent_step dbg w (WakeRequest n) = wake_request n w"
| "agent_step dbg w (ExpireRequest n) = expire_request n w"
| "agent_step dbg w (FinishRequest n) = finish_request n w"
| "agent_step dbg w (KillAgent sid) = kill_agent sid w"

definition no_agents :: agent_world where
  "no_agents = \<lparr>aw_sessions = [], aw_tasks = [], aw_next = 0, aw_events = [], aw_replies = []\<rparr>"

lemma find_optionD: "find P xs = Some x \<Longrightarrow> x \<in> set xs \<and> P x"
  by (induction xs) (auto split: if_splits)

section \<open>Where grants come from\<close>

text \<open>What a request has been granted so far: sent to it, taken by it, or answered with.\<close>

definition grants :: "agent_world \<Rightarrow> (nat \<times> string) set" where
  "grants w =
     {(n, opt). (\<exists>t. hm_get (aw_tasks w) n = Some t \<and> (pt_answer t = Sent (Some opt) \<or> pt_decision t = Some (Some opt))) \<or>
        (n, Selected opt) \<in> set (aw_replies w)}"

lemma grants_cong: "aw_tasks w' = aw_tasks w \<Longrightarrow> aw_replies w' = aw_replies w \<Longrightarrow> grants w' = grants w"
  by (simp add: grants_def)

lemma grants_set_pending [simp]: "grants (set_pending sid s pending w) = grants w"
  by (rule grants_cong) (simp_all add: set_pending_def)

lemma grants_notify_viewers [simp]: "grants (notify_viewers ev w) = grants w"
  by (rule grants_cong) (simp_all add: notify_viewers_def)

lemma grants_drop_responder: "grants (drop_responder n w) \<subseteq> grants w"
  by (auto simp: drop_responder_def grants_def split: option.splits if_splits)

lemma grants_send_responder: "grants (send_responder n v w) \<subseteq> grants w \<union> {(n, opt) |opt. v = Some opt}"
  by (auto simp: send_responder_def grants_def split: option.splits if_splits)

lemma grants_wake_request: "grants (wake_request n w) \<subseteq> grants w"
  by (auto simp: wake_request_def grants_def split: option.splits if_splits oneshot.splits)

lemma grants_expire_request: "grants (expire_request n w) \<subseteq> grants w"
  by (auto simp: expire_request_def grants_def split: option.splits if_splits)

lemma tasks_set_pending [simp]:
  "aw_tasks (set_pending sid s pending w) = aw_tasks w" "aw_replies (set_pending sid s pending w) = aw_replies w"
  "aw_next (set_pending sid s pending w) = aw_next w" "aw_events (set_pending sid s pending w) = aw_events w"
  by (simp_all add: set_pending_def)

lemma tasks_drop_responder [simp]:
  "aw_replies (drop_responder n w) = aw_replies w" "aw_next (drop_responder n w) = aw_next w"
  "aw_events (drop_responder n w) = aw_events w" "aw_sessions (drop_responder n w) = aw_sessions w"
  by (simp_all add: drop_responder_def split: option.splits)

lemma tasks_send_responder [simp]:
  "aw_replies (send_responder n v w) = aw_replies w" "aw_next (send_responder n v w) = aw_next w"
  "aw_events (send_responder n v w) = aw_events w" "aw_sessions (send_responder n v w) = aw_sessions w"
  by (simp_all add: send_responder_def split: option.splits)

lemma notify_viewers_fields [simp]:
  "aw_replies (notify_viewers ev w) = aw_replies w" "aw_next (notify_viewers ev w) = aw_next w" "aw_tasks (notify_viewers ev w) = aw_tasks w"
  "aw_events (notify_viewers ev w) = aw_events w @ [ev]" "aw_sessions (notify_viewers ev w) = aw_sessions w"
  by (simp_all add: notify_viewers_def)

text \<open>A task that goes, or comes with nothing decided, grants nothing.\<close>

lemma grants_new_task:
  "pt_answer t = Empty \<Longrightarrow> pt_decision t = None \<Longrightarrow> grants (w\<lparr>aw_next := m, aw_tasks := hm_insert n t (aw_tasks w)\<rparr>) \<subseteq> grants w"
  by (auto simp: grants_def split: if_splits)

lemma grants_request_permission: "grants (request_permission dbg sid req w) \<subseteq> grants w"
proof -
  have deny: "grants (deny_request dbg sid s message w) \<subseteq> grants w" for s message
    by (auto simp: grants_def deny_request_def)
  have "grants (w1\<lparr>aw_next := m, aw_tasks := hm_insert n \<lparr>pt_session = sid, pt_tool_call_id = tid, pt_answer = Empty, pt_decision = None\<rparr> (aw_tasks w1)\<rparr>)
      \<subseteq> grants w"
    if "grants w1 \<subseteq> grants w" for w1 m n tid
    using grants_new_task [where w = w1 and m = m and n = n and t = "\<lparr>pt_session = sid, pt_tool_call_id = tid, pt_answer = Empty, pt_decision = None\<rparr>"] that by auto
  moreover have "grants (drop_responder n (set_pending sid s pending w)) \<subseteq> grants w" for n s pending
    using grants_drop_responder [of n "set_pending sid s pending w"] by simp
  ultimately show ?thesis
    using deny by (simp add: request_permission_def Let_def split: option.splits)
qed

lemma grants_finish_request: "grants (finish_request n w) \<subseteq> grants w"
proof (cases "hm_get (aw_tasks w) n")
  case (Some t)
  have answered: "grants (w1\<lparr>aw_tasks := hm_remove n (aw_tasks w1), aw_replies := (n, case d of Some opt \<Rightarrow> Selected opt | None \<Rightarrow> Cancelled) # aw_replies w1\<rparr>)
      \<subseteq> grants w"
    if "grants w1 \<subseteq> grants w" "pt_decision t = Some d" for w1 d
  proof -
    have "(n, opt) \<in> grants w" if "d = Some opt" for opt using Some \<open>pt_decision t = Some d\<close> that by (auto simp: grants_def)
    moreover have "grants (w1\<lparr>aw_tasks := hm_remove n (aw_tasks w1), aw_replies := (n, case d of Some opt \<Rightarrow> Selected opt | None \<Rightarrow> Cancelled) # aw_replies w1\<rparr>)
        \<subseteq> grants w1 \<union> {(n, opt) |opt. d = Some opt}"
      by (auto simp: grants_def split: option.splits if_splits)
    ultimately show ?thesis using that(1) by auto
  qed
  have "grants (drop_responder m (set_pending sid s pending w)) \<subseteq> grants w" for m sid s pending
    using grants_drop_responder [of m "set_pending sid s pending w"] by simp
  then show ?thesis
    using Some answered by (simp add: finish_request_def Let_def split: option.splits)
qed (simp add: finish_request_def)

lemma grants_cancel: "grants (cancel_pending_permissions sid w) \<subseteq> grants w"
proof -
  have "grants (foldl (\<lambda>w (tid, p). notify_viewers (PermissionResolvedEvent sid tid ResolutionCancelled System) (send_responder (pp_responder p) None w))
      w1 ps) \<subseteq> grants w1" for w1 ps
  proof (induction ps arbitrary: w1)
    case (Cons tp ps)
    have "grants (send_responder (pp_responder (snd tp)) None w1) \<subseteq> grants w1"
      using grants_send_responder [of "pp_responder (snd tp)" None w1] by simp
    then show ?case using Cons.IH by (simp add: split_beta) (metis (no_types, lifting) grants_notify_viewers subset_trans)
  qed simp
  from this [of "set_pending sid s [] w" "as_pending s" for s] show ?thesis
    unfolding cancel_pending_permissions_def by (simp split: option.splits)
qed

text \<open>The decision of a viewer about a request, as a step.\<close>

definition decides :: "agent_world \<Rightarrow> permission_step \<Rightarrow> nat \<Rightarrow> string \<Rightarrow> session_id \<Rightarrow> string \<Rightarrow> pending_permission \<Rightarrow> permission_resolver \<Rightarrow> bool" where
  "decides w e n opt sid tid p who \<longleftrightarrow>
     hm_get (pending_of w sid) tid = Some p \<and> pp_responder p = n \<and> opt \<in> po_option_id ` set (pp_options p) \<and>
     (e = Decide sid tid (Some opt) who \<or> e = DecideUnscoped tid (Some opt) who \<and> holders tid w = [sid])"

lemma outcome_Some: "permission_outcome o' options = (Some opt, r) \<Longrightarrow> o' = Some opt \<and> opt \<in> po_option_id ` set options"
  by (auto simp: permission_outcome_def dest!: find_optionD split: option.splits permission_option_kind.splits)

lemma grants_resolve:
  "grants (resolve_permission sid tid o' who w) \<subseteq> grants w \<union> {(n, opt). \<exists>p. decides w (Decide sid tid o' who) n opt sid tid p who}"
proof (cases "hm_get (aw_sessions w) sid")
  case (Some s)
  show ?thesis
  proof (cases "hm_get (as_pending s) tid")
    case p: (Some p)
    obtain d r where o: "permission_outcome o' (pp_options p) = (d, r)" by (cases "permission_outcome o' (pp_options p)")
    have "decides w (Decide sid tid o' who) (pp_responder p) opt sid tid p who" if "d = Some opt" for opt
      using outcome_Some o Some p that by (auto simp: decides_def)
    then show ?thesis
      using grants_send_responder [of "pp_responder p" d "set_pending sid s (hm_remove tid (as_pending s)) w"] Some p o
      by (auto simp: resolve_permission_def)
  qed (simp add: resolve_permission_def Some)
qed (simp add: resolve_permission_def)

lemma grants_unscoped:
  "grants (resolve_unscoped tid o' who w) \<subseteq> grants w \<union> {(n, opt). \<exists>sid p. decides w (DecideUnscoped tid o' who) n opt sid tid p who}"
proof (cases "\<exists>sid. holders tid w = [sid]")
  case True
  then obtain sid where sid: "holders tid w = [sid]" by auto
  have "decides w (DecideUnscoped tid o' who) n opt sid tid p who" if "decides w (Decide sid tid o' who) n opt sid tid p who" for n opt p
    using that sid by (simp add: decides_def)
  then show ?thesis using grants_resolve [of sid tid o' who w] by (fastforce simp: resolve_unscoped_def sid)
qed (auto simp: resolve_unscoped_def split: list.splits)

section \<open>Cards are announced\<close>

definition announced :: "agent_world \<Rightarrow> session_id \<Rightarrow> string \<Rightarrow> pending_permission \<Rightarrow> bool" where
  "announced w sid tid p \<longleftrightarrow>
     tc_tool_call_id (pp_tool_call p) = tid \<and>
     (\<exists>scope. AgentPermissionEvent sid (pp_tool_call p) (pp_options p) (pp_category p) scope \<in> set (aw_events w))"

definition world_inv :: "agent_world \<Rightarrow> bool" where
  "world_inv w \<longleftrightarrow>
     hm_wf (aw_tasks w) \<and> (\<forall>sid tid p. hm_get (pending_of w sid) tid = Some p \<longrightarrow> announced w sid tid p)"

lemma announced_mono: "announced w sid tid p \<Longrightarrow> set (aw_events w) \<subseteq> set (aw_events w') \<Longrightarrow> announced w' sid tid p"
  by (auto simp: announced_def)

text \<open>A step that adds no entry and takes back no event keeps the invariant.\<close>

lemma world_inv_shrink:
  assumes "world_inv w" "hm_wf (aw_tasks w')" "set (aw_events w) \<subseteq> set (aw_events w')"
    and "\<And>sid tid p. hm_get (pending_of w' sid) tid = Some p \<Longrightarrow> hm_get (pending_of w sid) tid = Some p"
  shows "world_inv w'"
  using assms announced_mono unfolding world_inv_def by blast

lemma wf_drop_responder: "hm_wf (aw_tasks w) \<Longrightarrow> hm_wf (aw_tasks (drop_responder n w))"
  by (simp add: drop_responder_def split: option.splits)

lemma wf_send_responder: "hm_wf (aw_tasks w) \<Longrightarrow> hm_wf (aw_tasks (send_responder n v w))"
  by (simp add: send_responder_def split: option.splits)

lemma sessions_set_pending [simp]: "aw_sessions (set_pending sid s pending w) = hm_insert sid (s\<lparr>as_pending := pending\<rparr>) (aw_sessions w)"
  by (simp add: set_pending_def)

lemma wf_of: "world_inv w \<Longrightarrow> hm_wf (aw_tasks w)"
  by (simp add: world_inv_def)

lemma request_permission_inv:
  assumes "world_inv w"
  shows "world_inv (request_permission dbg sid req w)"
proof (cases "hm_get (aw_sessions w) sid")
  case (Some s)
  have deny: "world_inv (deny_request dbg sid s message w)" for message
    by (rule world_inv_shrink [OF assms]) (use wf_of [OF assms] Some in \<open>auto simp: deny_request_def split: if_splits\<close>)
  define w1 where "w1 = set_pending sid s (hm_insert (rp_tool_call_id req)
      \<lparr>pp_responder = aw_next w, pp_tool_call = request_card req, pp_options = offered_options (rp_options req), pp_category = request_category req\<rparr>
      (as_pending s)) w"
  define w2 where "w2 = (case hm_get (as_pending s) (rp_tool_call_id req) of None \<Rightarrow> w1 | Some old \<Rightarrow> drop_responder (pp_responder old) w1)"
  have w2: "aw_sessions w2 = aw_sessions w1" "aw_events w2 = aw_events w" "hm_wf (aw_tasks w2)"
    using wf_of [OF assms] by (auto simp: w2_def w1_def wf_drop_responder split: option.splits)
  let ?ev = "AgentPermissionEvent sid (request_card req) (offered_options (rp_options req)) (request_category req) (as_workspace_scope s)"
  have "world_inv (notify_viewers ?ev (w2\<lparr>aw_next := m, aw_tasks := hm_insert n t (aw_tasks w2)\<rparr>))" (is "world_inv ?w3") for m n t
  proof -
    have "hm_get (pending_of w sid') tid = Some p \<or>
        sid' = sid \<and> tid = rp_tool_call_id req \<and> pp_tool_call p = request_card req \<and> pp_options p = offered_options (rp_options req) \<and>
        pp_category p = request_category req"
      if "hm_get (pending_of ?w3 sid') tid = Some p" for sid' tid p
      using that w2 Some by (auto simp: w1_def split: if_splits option.splits)
    moreover have "announced ?w3 sid' tid p" if "hm_get (pending_of w sid') tid = Some p" for sid' tid p
    proof (rule announced_mono)
      show "announced w sid' tid p" using assms that by (simp add: world_inv_def)
      show "set (aw_events w) \<subseteq> set (aw_events ?w3)" using w2(2) by auto
    qed
    moreover have "announced ?w3 sid (rp_tool_call_id req) p"
      if "pp_tool_call p = request_card req" "pp_options p = offered_options (rp_options req)" "pp_category p = request_category req" for p
      using that by (auto simp: announced_def request_card_def)
    ultimately show ?thesis using w2(3) unfolding world_inv_def by (intro conjI allI impI) (simp, blast)
  qed
  then show ?thesis using deny Some unfolding request_permission_def Let_def w2_def w1_def by simp
qed (use assms in \<open>simp add: request_permission_def\<close>)

lemma finish_request_inv:
  assumes "world_inv w"
  shows "world_inv (finish_request n w)"
  by (rule world_inv_shrink [OF assms])
    (use wf_of [OF assms] in \<open>auto simp: finish_request_def Let_def wf_drop_responder split: option.splits if_splits\<close>)

lemma resolve_permission_inv:
  assumes "world_inv w"
  shows "world_inv (resolve_permission sid tid o' who w)"
  by (rule world_inv_shrink [OF assms])
    (use wf_of [OF assms] in \<open>auto simp: resolve_permission_def wf_send_responder split: option.splits prod.splits if_splits\<close>)

lemma cancel_pending_inv:
  assumes "world_inv w"
  shows "world_inv (cancel_pending_permissions sid w)"
proof (cases "hm_get (aw_sessions w) sid")
  case (Some s)
  have loop: "aw_sessions (foldl (\<lambda>w (tid, p). notify_viewers (PermissionResolvedEvent sid tid ResolutionCancelled System) (send_responder (pp_responder p) None w)) w1 ps)
      = aw_sessions w1 \<and> set (aw_events w1) \<subseteq> set (aw_events (foldl (\<lambda>w (tid, p). notify_viewers (PermissionResolvedEvent sid tid ResolutionCancelled System) (send_responder (pp_responder p) None w)) w1 ps))
      \<and> (hm_wf (aw_tasks w1) \<longrightarrow> hm_wf (aw_tasks (foldl (\<lambda>w (tid, p). notify_viewers (PermissionResolvedEvent sid tid ResolutionCancelled System) (send_responder (pp_responder p) None w)) w1 ps)))"
    for w1 ps
  proof (induction ps arbitrary: w1)
    case (Cons tp ps)
    from Cons.IH [of "notify_viewers (PermissionResolvedEvent sid (fst tp) ResolutionCancelled System) (send_responder (pp_responder (snd tp)) None w1)"]
    show ?case by (auto simp: split_beta wf_send_responder)
  qed simp
  show ?thesis
    by (rule world_inv_shrink [OF assms])
      (use loop [of "set_pending sid s [] w" "as_pending s"] wf_of [OF assms] Some in
        \<open>auto simp: cancel_pending_permissions_def split: option.splits if_splits\<close>)
qed (use assms in \<open>simp add: cancel_pending_permissions_def\<close>)

lemma kill_agent_inv:
  assumes "world_inv w"
  shows "world_inv (kill_agent sid w)"
  by (rule world_inv_shrink [OF assms])
    (use wf_of [OF assms] in \<open>auto simp: kill_agent_def split: option.splits if_splits\<close>)

interpretation agents: step_invariant "agent_step dbg" world_inv for dbg
proof unfold_locales
  fix w :: agent_world and e :: permission_step
  assume inv: "world_inv w"
  have task: "world_inv w'" if "aw_sessions w' = aw_sessions w" "aw_events w' = aw_events w" "hm_wf (aw_tasks w')" for w'
    by (rule world_inv_shrink [OF inv]) (use that in auto)
  note wf = wf_of [OF inv]
  show "world_inv (agent_step dbg w e)"
  proof (cases e)
    case (StartAgent sid scope)
    have "world_inv (start_agent sid scope w)"
      by (rule world_inv_shrink [OF inv]) (use wf in \<open>auto simp: start_agent_def hm_contains_def split: if_splits option.splits\<close>)
    then show ?thesis using StartAgent by simp
  next
    case (WakeRequest n)
    have "world_inv (wake_request n w)" by (rule task) (use wf in \<open>auto simp: wake_request_def split: option.splits oneshot.splits\<close>)
    then show ?thesis using WakeRequest by simp
  next
    case (ExpireRequest n)
    have "world_inv (expire_request n w)" by (rule task) (use wf in \<open>auto simp: expire_request_def split: option.splits\<close>)
    then show ?thesis using ExpireRequest by simp
  next
    case (DecideUnscoped tid o' who)
    then show ?thesis using resolve_permission_inv [OF inv] inv by (auto simp: resolve_unscoped_def split: list.splits)
  qed (simp_all add: request_permission_inv [OF inv] resolve_permission_inv [OF inv] cancel_pending_inv [OF inv] finish_request_inv [OF inv] kill_agent_inv [OF inv])
qed

lemma no_agents_inv: "world_inv no_agents"
  by (simp add: world_inv_def no_agents_def)

section \<open>Decisions of viewers\<close>

text \<open>A request was granted by a decision somewhere in the run, about a card that had been announced with this option.\<close>

definition granted :: "(agent_event \<Rightarrow> nat) \<Rightarrow> permission_step list \<Rightarrow> nat \<Rightarrow> string \<Rightarrow> bool" where
  "granted dbg es n opt \<longleftrightarrow>
     (\<exists>es1 e es2 sid tid p who.
        es = es1 @ e # es2 \<and> decides (foldl (agent_step dbg) no_agents es1) e n opt sid tid p who \<and>
        announced (foldl (agent_step dbg) no_agents es1) sid tid p)"

lemma granted_mono: "granted dbg es n opt \<Longrightarrow> granted dbg (es @ es') n opt"
  unfolding granted_def by (metis append.assoc append_Cons)

lemma grants_step: "hm_wf (aw_tasks w) \<Longrightarrow> grants (agent_step dbg w e) \<subseteq> grants w \<union> {(n, opt). \<exists>sid tid p who. decides w e n opt sid tid p who}"
proof (cases e)
  case (Decide sid tid o' who)
  then show ?thesis using grants_resolve [of sid tid o' who w] by fastforce
next
  case (DecideUnscoped tid o' who)
  then show ?thesis using grants_unscoped [of tid o' who w] by fastforce
next
  case (KillAgent sid)
  assume "hm_wf (aw_tasks w)"
  then show ?thesis using KillAgent by (auto simp: kill_agent_def grants_def hm_get_filter split: option.splits if_splits)
next
  case (StartAgent sid scope)
  then show ?thesis by (simp add: start_agent_def grants_def)
qed (simp_all add: le_supI1 grants_request_permission grants_cancel grants_wake_request grants_expire_request grants_finish_request)

lemma grants_granted: "(n, opt) \<in> grants (foldl (agent_step dbg) no_agents es) \<Longrightarrow> granted dbg es n opt"
proof (induction es rule: rev_induct)
  case Nil
  then show ?case by (simp add: grants_def no_agents_def)
next
  case (snoc e es)
  let ?w = "foldl (agent_step dbg) no_agents es"
  have inv: "world_inv ?w" by (rule agents.run_inv [OF no_agents_inv])
  consider "(n, opt) \<in> grants ?w" | "\<exists>sid tid p who. decides ?w e n opt sid tid p who"
    using subsetD [OF grants_step [OF wf_of [OF inv], of dbg e], of "(n, opt)"] snoc.prems by auto
  then show ?case
  proof cases
    case 1
    then show ?thesis using granted_mono [OF snoc.IH] by simp
  next
    case 2
    then obtain sid tid p who where d: "decides ?w e n opt sid tid p who" by auto
    then have "announced ?w sid tid p" using inv by (simp add: world_inv_def decides_def)
    then show ?thesis unfolding granted_def using d by blast
  qed
qed

text \<open>
  C4. An agent is told that an option of a permission request was selected only because a viewer selected it: some step
  before the answer is a decision for exactly this option, addressed to the session and the tool call of the request - or,
  without a session, to a tool call that only one session holds - while the request was pending, and its card, with this
  option among those offered, had been announced to the viewers. This holds for every interleaving of requests of any number
  of agents, decisions, cancellations, expirations and kills.
\<close>

theorem permission_granted_by_viewer:
  assumes "(n, Selected opt) \<in> set (aw_replies (foldl (agent_step dbg) no_agents es))"
  shows "\<exists>es1 e es2 sid tid p who.
     es = es1 @ e # es2 \<and> decides (foldl (agent_step dbg) no_agents es1) e n opt sid tid p who \<and>
     announced (foldl (agent_step dbg) no_agents es1) sid tid p"
proof -
  have "(n, opt) \<in> grants (foldl (agent_step dbg) no_agents es)" using assms by (simp add: grants_def)
  then show ?thesis using grants_granted unfolding granted_def by blast
qed

definition demo_request :: permission_request where
  "demo_request = \<lparr>rp_tool_call_id = ''call'', rp_title = None, rp_kind = Some AcpEdit,
     rp_options = [\<lparr>ao_option_id = ''yes'', ao_name = ''Allow'', ao_kind = AcpAllowOnce\<rparr>,
       \<lparr>ao_option_id = ''no'', ao_name = ''Deny'', ao_kind = AcpRejectOnce\<rparr>]\<rparr>"

lemma demo_offered:
  "offered_options (rp_options demo_request) =
     [\<lparr>po_option_id = ''yes'', po_name = short_text ''Allow'', po_kind = AllowOnce\<rparr>, \<lparr>po_option_id = ''no'', po_name = short_text ''Deny'', po_kind = RejectOnce\<rparr>]"
  by (simp add: offered_options_def demo_request_def MAX_PERMISSION_OPTIONS_def MAX_AGENT_SHORT_TEXT_BYTES_def)

lemma demo_id [simp]: "rp_tool_call_id demo_request = ''call''" "rp_options demo_request \<noteq> []"
  by (simp_all add: demo_request_def)

lemmas permission_run = demo_offered no_agents_def start_agent_def request_permission_def resolve_permission_def resolve_unscoped_def holders_def
  wake_request_def expire_request_def finish_request_def set_pending_def notify_viewers_def send_responder_def drop_responder_def
  permission_outcome_def hm_contains_def Let_def MAX_AGENT_SHORT_TEXT_BYTES_def

theorem permission_granted_by_viewer_witness:
  "let es = [StartAgent 1 Project, Ask 1 demo_request, DecideUnscoped ''call'' (Some ''yes'') Phone, WakeRequest 0, FinishRequest 0] in
     aw_replies (foldl (agent_step (\<lambda>_. 0)) no_agents es) = [(0, Selected ''yes'')] \<and>
     (\<exists>es1 e es2 sid tid p who. es = es1 @ e # es2 \<and> decides (foldl (agent_step (\<lambda>_. 0)) no_agents es1) e 0 ''yes'' sid tid p who)"
proof -
  let ?es = "[StartAgent 1 Project, Ask 1 demo_request, DecideUnscoped ''call'' (Some ''yes'') Phone, WakeRequest 0, FinishRequest 0]"
  have run: "aw_replies (foldl (agent_step (\<lambda>_. 0)) no_agents ?es) = [(0, Selected ''yes'')]"
    by (simp add: permission_run)
  then have "(0, Selected ''yes'') \<in> set (aw_replies (foldl (agent_step (\<lambda>_. 0)) no_agents ?es))" by simp
  from permission_granted_by_viewer [OF this] run show ?thesis unfolding Let_def by blast
qed

text \<open>
  C12. A decision takes effect: when a request is pending and its handler still waits, then after a decision for it and
  the handler's next two steps the agent has been answered with the option chosen, if it was offered, and with a
  cancellation for a refusal or an option never offered; and the viewers have been told the resolution that fits the kind of the option.
\<close>

theorem decision_reaches_agent:
  assumes "hm_get (pending_of w sid) tid = Some p" "hm_get (aw_tasks w) (pp_responder p) = Some t"
    and "pt_answer t = Empty" "pt_decision t = None"
  shows "let w' = foldl (agent_step dbg) w [Decide sid tid option_id who, WakeRequest (pp_responder p), FinishRequest (pp_responder p)] in
     aw_replies w' = (pp_responder p, case option_id of
         Some opt \<Rightarrow> if opt \<in> po_option_id ` set (pp_options p) then Selected opt else Cancelled | None \<Rightarrow> Cancelled) # aw_replies w \<and>
     PermissionResolvedEvent sid tid (case option_id of
         None \<Rightarrow> Rejected
       | Some opt \<Rightarrow> (case find (\<lambda>q. po_option_id q = opt) (pp_options p) of
           None \<Rightarrow> ResolutionCancelled
         | Some q \<Rightarrow> if po_kind q \<in> {AllowOnce, AllowAlways} then Allowed else Rejected)) who \<in> set (aw_events w')"
proof -
  obtain d r where o: "permission_outcome option_id (pp_options p) = (d, r)" by fastforce
  have d: "(case d of Some opt \<Rightarrow> Selected opt | None \<Rightarrow> Cancelled) =
      (case option_id of Some opt \<Rightarrow> if opt \<in> po_option_id ` set (pp_options p) then Selected opt else Cancelled | None \<Rightarrow> Cancelled)"
    using o by (auto simp: permission_outcome_def find_None_iff dest: find_optionD split: option.splits permission_option_kind.splits)
  have r: "r = (case option_id of None \<Rightarrow> Rejected | Some opt \<Rightarrow> (case find (\<lambda>q. po_option_id q = opt) (pp_options p) of
      None \<Rightarrow> ResolutionCancelled | Some q \<Rightarrow> if po_kind q \<in> {AllowOnce, AllowAlways} then Allowed else Rejected))"
    using o by (auto simp: permission_outcome_def split: option.splits permission_option_kind.splits)
  obtain s where s: "hm_get (aw_sessions w) sid = Some s" "hm_get (as_pending s) tid = Some p"
    using assms(1) by (cases "hm_get (aw_sessions w) sid") auto
  define w1 where "w1 = resolve_permission sid tid option_id who w"
  have 1: "hm_get (aw_tasks w1) (pp_responder p) = Some (t\<lparr>pt_answer := Sent d\<rparr>)" "aw_replies w1 = aw_replies w"
      "PermissionResolvedEvent sid tid r who \<in> set (aw_events w1)"
    using s assms o by (simp_all add: w1_def resolve_permission_def send_responder_def)
  define w2 where "w2 = wake_request (pp_responder p) w1"
  have 2: "hm_get (aw_tasks w2) (pp_responder p) = Some (t\<lparr>pt_answer := Sent d, pt_decision := Some d\<rparr>)" "aw_replies w2 = aw_replies w"
      "aw_events w2 = aw_events w1"
    using 1 assms(4) by (simp_all add: w2_def wake_request_def)
  have 3: "aw_replies (finish_request (pp_responder p) w2) = (pp_responder p, case d of Some opt \<Rightarrow> Selected opt | None \<Rightarrow> Cancelled) # aw_replies w"
      "aw_events (finish_request (pp_responder p) w2) = aw_events w1"
    using 2 by (simp_all add: finish_request_def Let_def split: option.splits)
  show ?thesis using 1(3) 3 unfolding d r by (simp add: Let_def flip: w1_def w2_def)
qed

theorem decision_reaches_agent_witness:
  "let w = foldl (agent_step (\<lambda>_. 0)) no_agents [StartAgent 1 Project, Ask 1 demo_request] in
     aw_replies (foldl (agent_step (\<lambda>_. 0)) w [Decide 1 ''call'' (Some ''yes'') Laptop, WakeRequest 0, FinishRequest 0]) = [(0, Selected ''yes'')] \<and>
     PermissionResolvedEvent 1 ''call'' Allowed Laptop
       \<in> set (aw_events (foldl (agent_step (\<lambda>_. 0)) w [Decide 1 ''call'' (Some ''yes'') Laptop, WakeRequest 0, FinishRequest 0]))"
proof -
  define w where "w = foldl (agent_step (\<lambda>_. 0)) no_agents [StartAgent 1 Project, Ask 1 demo_request]"
  define p where "p = \<lparr>pp_responder = 0, pp_tool_call = request_card demo_request, pp_options = offered_options (rp_options demo_request),
    pp_category = request_category demo_request\<rparr>"
  have w: "hm_get (pending_of w 1) ''call'' = Some p" "aw_replies w = []"
      "hm_get (aw_tasks w) (pp_responder p) = Some \<lparr>pt_session = 1, pt_tool_call_id = ''call'', pt_answer = Empty, pt_decision = None\<rparr>"
    by (simp_all add: w_def p_def permission_run)
  have o: "''yes'' \<in> po_option_id ` set (pp_options p)" "map_option po_kind (find (\<lambda>q. po_option_id q = ''yes'') (pp_options p)) = Some AllowOnce"
    by (simp_all add: p_def demo_offered)
  have "pp_responder p = 0" by (simp add: p_def)
  then show ?thesis
    using decision_reaches_agent [OF w(1) w(3), of "\<lambda>_. 0" "Some ''yes''" Laptop] w(2) o
    by (auto simp: Let_def simp flip: w_def simp del: foldl.simps agent_step.simps split: option.splits)
qed

section \<open>Requests nobody hears the end of\<close>

text \<open>
  Two requests of one session with the same id of the tool call: the second entry replaces the first, whose handler then
  removes the second on its way out. Both are cancelled, two cards have been announced and neither is taken back.
\<close>

lemma reused_tool_call_id:
  "let w = foldl (agent_step (\<lambda>_. 0)) no_agents
       [StartAgent 1 Project, Ask 1 demo_request, Ask 1 demo_request, WakeRequest 0, FinishRequest 0, WakeRequest 1, FinishRequest 1] in
     aw_replies w = [(1, Cancelled), (0, Cancelled)] \<and> length (aw_events w) = 2 \<and>
     list_all (\<lambda>ev. case ev of AgentPermissionEvent _ _ _ _ _ \<Rightarrow> True | _ \<Rightarrow> False) (aw_events w)"
  by (simp add: permission_run)

text \<open>
  A decision that arrives between the expiration of a request and the clean-up of its entry: the agent is told that the
  request was cancelled, the viewers that it was allowed.
\<close>

lemma expired_request_allowed:
  "let w = foldl (agent_step (\<lambda>_. 0)) no_agents
       [StartAgent 1 Project, Ask 1 demo_request, ExpireRequest 0, Decide 1 ''call'' (Some ''yes'') Phone, FinishRequest 0] in
     aw_replies w = [(0, Cancelled)] \<and> PermissionResolvedEvent 1 ''call'' Allowed Phone \<in> set (aw_events w)"
  by (simp add: permission_run)

end
