(* ===== verification/Agent_Driver.thy ===== *)
theory Agent_Driver
  imports Agent_Permissions Workspace Utf8
begin

text \<open>
  What happens to a message for an agent (\<open>crates/host/src/session.rs\<close>): \<open>agent_prompt\<close> and the other requests of a viewer, the queue to the
  driver, the driver's loop over turns with its re-authentication, and the loop that reconnects an adapter that went away.
  Texts are lists of Unicode scalar values; the identifiers of the wire types are their UTF-8 bytes. The agent behind
  the connection is what the steps of the environment make it do. Permission requests and the setup of a connection beyond its
  authentication are not part of this theory.
\<close>

section \<open>Commands from texts\<close>

definition MAX_AGENT_PROMPT_BYTES :: nat where "MAX_AGENT_PROMPT_BYTES = 64 * 1024"
definition AGENT_PROMPT_QUEUE :: nat where "AGENT_PROMPT_QUEUE = 16"

text \<open>The flag says whether someone waits for the response to a control.\<close>

datatype acp_command =
    AcPrompt rust_str
  | AcSetMode string bool
  | AcSetConfig string agent_config_value bool
  | AcAuthenticate string
  | AcCancel

definition to_wire :: "rust_str \<Rightarrow> string" where
  "to_wire s = map (\<lambda>b. char_of (unat b)) (utf8_encode s)"

definition agent_text :: "string \<Rightarrow> string" where
  "agent_text s = map (\<lambda>b. char_of (unat b)) (clamp_agent_text (map of_char s))"

definition invalid_agent_control :: "string \<Rightarrow> io_error" where
  "invalid_agent_control msg = IoError InvalidInput msg"

definition validate_agent_control_id :: "string \<Rightarrow> string \<Rightarrow> io_error + unit" where
  "validate_agent_control_id v label =
     (if v = [] \<or> length v > MAX_AGENT_SHORT_TEXT_BYTES then Inl (invalid_agent_control (label @ '' must be 1..=1024 bytes'')) else Inr ())"

definition MAX_LISTED :: nat where "MAX_LISTED = 12"

fun join_choices :: "string list \<Rightarrow> string" where
  "join_choices [] = []"
| "join_choices [c] = c"
| "join_choices (c # cs) = c @ '', '' @ join_choices cs"

definition summarize_choices :: "(nat \<Rightarrow> string) \<Rightarrow> string list \<Rightarrow> string" where
  "summarize_choices dec choices =
     (if choices = [] then []
      else let extra = length choices - MAX_LISTED
           in char_of (10 :: nat) # ''available: '' @ join_choices (take MAX_LISTED choices) @ (if extra > 0 then '' (+'' @ dec extra @ '' more)'' else []))"

definition sticky_event :: "agent_history \<Rightarrow> sticky_kind \<Rightarrow> agent_event option" where
  "sticky_event h kind = map_option te_event (hm_get (ah_sticky h) kind)"

definition mode_choice_summary :: "(nat \<Rightarrow> string) \<Rightarrow> agent_history \<Rightarrow> string" where
  "mode_choice_summary dec h = (case sticky_event h StMode of Some (EvModeState _ modes) \<Rightarrow> summarize_choices dec (map am_id modes) | _ \<Rightarrow> [])"

definition model_option :: "agent_history \<Rightarrow> agent_config_option option" where
  "model_option h =
     (case sticky_event h StConfig of Some (EvConfigOptions options) \<Rightarrow> find (\<lambda>o'. aco_category o' = Some ''model'') options | _ \<Rightarrow> None)"

definition model_choice_summary :: "(nat \<Rightarrow> string) \<Rightarrow> agent_history \<Rightarrow> string" where
  "model_choice_summary dec h = (case model_option h of Some o' \<Rightarrow> summarize_choices dec (map acc_value (aco_choices o')) | None \<Rightarrow> [])"

definition command_char :: "nat \<Rightarrow> bool" where
  "command_char c \<longleftrightarrow> 48 \<le> c \<and> c \<le> 57 \<or> 65 \<le> c \<and> c \<le> 90 \<or> 97 \<le> c \<and> c \<le> 122 \<or> c = 45 \<or> c = 95 \<or> c = 58"

text \<open>A control with an argument: usage when there is none, the bounds of the id, then the command.\<close>

definition control_argument :: "rust_str \<Rightarrow> string \<Rightarrow> string \<Rightarrow> (string \<Rightarrow> io_error + acp_command) \<Rightarrow> io_error + acp_command" where
  "control_argument v usage label f =
     (let arg = trim_str v in
      if arg = [] then Inl (invalid_agent_control usage)
      else (case validate_agent_control_id (to_wire arg) label of Inl e \<Rightarrow> Inl e | Inr _ \<Rightarrow> f (to_wire arg)))"

definition unknown_command :: "agent_history \<Rightarrow> rust_str \<Rightarrow> bool" where
  "unknown_command h trimmed =
     (case strip_prefix (str_of ''/'') trimmed of
        None \<Rightarrow> False
      | Some command_text \<Rightarrow>
          let cname = takeWhile (\<lambda>c. \<not> is_whitespace c) command_text in
          cname \<noteq> [] \<and> list_all command_char cname \<and>
          (case sticky_event h StCommands of
             Some (EvAvailableCommands commands) \<Rightarrow> \<not> list_ex (\<lambda>c. cmd_name c = to_wire cname) commands
           | _ \<Rightarrow> False))"

definition agent_command_for_text :: "(nat \<Rightarrow> string) \<Rightarrow> agent_history \<Rightarrow> rust_str \<Rightarrow> io_error + acp_command" where
  "agent_command_for_text dec h t =
     (let trimmed = trim_str t;
          mode_usage = ''usage: /mode <mode-id>'' @ mode_choice_summary dec h;
          model_usage = ''usage: /model <model-id>'' @ model_choice_summary dec h
      in if trimmed = str_of ''/mode'' then Inl (invalid_agent_control mode_usage)
         else (case strip_prefix (str_of ''/mode '') trimmed of
           Some v \<Rightarrow> control_argument v mode_usage ''mode id'' (\<lambda>arg. Inr (AcSetMode arg False))
         | None \<Rightarrow>
             if trimmed = str_of ''/model'' then Inl (invalid_agent_control model_usage)
             else (case strip_prefix (str_of ''/model '') trimmed of
               Some v \<Rightarrow>
                 control_argument v model_usage ''model id'' (\<lambda>arg.
                   case model_option h of
                     Some o' \<Rightarrow> Inr (AcSetConfig (aco_id o') (Select arg) False)
                   | None \<Rightarrow> Inl (invalid_agent_control ''this agent did not advertise model switching''))
             | None \<Rightarrow>
                 if unknown_command h trimmed then Inl (invalid_agent_control ''unknown slash command for this agent'') else Inr (AcPrompt t))))"

definition is_portty_control_command :: "rust_str \<Rightarrow> bool" where
  "is_portty_control_command t =
     (let s = trim_start t in
      s = str_of ''/mode'' \<or> prefix (str_of ''/mode '') s \<or> s = str_of ''/model'' \<or> prefix (str_of ''/model '') s)"

section \<open>Reconnecting\<close>

definition HEALTHY_UPTIME :: nat where "HEALTHY_UPTIME = 60"
definition MAX_FAILED_ATTEMPTS :: u32 where "MAX_FAILED_ATTEMPTS = 5"

record retry_state =
  rt_ever_established :: bool
  rt_delay_secs :: u64
  rt_failed_attempts :: u32

definition new_retry :: retry_state where
  "new_retry = \<lparr>rt_ever_established = False, rt_delay_secs = 1, rt_failed_attempts = 0\<rparr>"

text \<open>How a connection ended: how long it lived, whether it was set up, its error, and whether the session is being torn down.\<close>

record conn_outcome =
  oc_uptime :: nat
  oc_established :: bool
  oc_error :: "string option"
  oc_teardown :: bool

datatype retry_action = StopTeardown | GiveUp | StopClean | StopSetup string | ReconnectIn u64 "string option"

definition after_connection :: "conn_outcome \<Rightarrow> retry_state \<Rightarrow> retry_state \<times> retry_action" where
  "after_connection oc rt =
     (let rt1 = rt\<lparr>rt_ever_established := rt_ever_established rt \<or> oc_established oc\<rparr> in
      if oc_teardown oc then (rt1, StopTeardown)
      else let rt2 = (if oc_uptime oc \<ge> HEALTHY_UPTIME then rt1\<lparr>rt_failed_attempts := 0, rt_delay_secs := 1\<rparr>
                      else rt1\<lparr>rt_failed_attempts := rt_failed_attempts rt1 + 1\<rparr>) in
        if rt_failed_attempts rt2 \<ge> MAX_FAILED_ATTEMPTS then (rt2, GiveUp)
        else if rt_ever_established rt2
          then (rt2\<lparr>rt_delay_secs := min (rt_delay_secs rt2 * 2) 30\<rparr>, ReconnectIn (rt_delay_secs rt2) (oc_error oc))
        else (rt2, case oc_error oc of None \<Rightarrow> StopClean | Some e \<Rightarrow> StopSetup e))"

text \<open>
  The loop of \<open>run_acp_session\<close> around the connections, the \<open>k\<close>-th of which ends as \<open>conns k\<close>: how many were made, the delays in
  between, and why it stopped. It runs forever when connections keep living long enough.
\<close>

partial_function (option) reconnect_loop :: "(nat \<Rightarrow> conn_outcome) \<Rightarrow> nat \<Rightarrow> retry_state \<Rightarrow> u64 list \<Rightarrow> (nat \<times> u64 list \<times> retry_action) option" where
  "reconnect_loop conns k rt delays =
     (case after_connection (conns k) rt of
        (rt', ReconnectIn d e) \<Rightarrow> reconnect_loop conns (Suc k) rt' (delays @ [d])
      | (rt', act) \<Rightarrow> Some (Suc k, delays, act))"

declare reconnect_loop.simps [code]

section \<open>The driver\<close>

text \<open>
  \<open>Settled\<close>: the connection is over, with its error. \<open>Sleeping\<close>: before the next connection. A prompt carries the number it was accepted under.
\<close>

datatype driver_phase =
    Connecting
  | SetupAuth
  | Idle
  | Turn nat rust_str bool
  | TurnAuth nat rust_str
  | Settled "string option"
  | Sleeping
  | Ended

text \<open>
  \<open>dr_accepted\<close> to \<open>dr_dropped\<close> record what became of the prompts: accepted from a viewer, sent to the agent, refused while the agent waited for a login, and dropped
  because the user cancelled or the driver ended. \<open>dr_requests\<close> are the prompt requests made, those repeated after a login included.
\<close>

record driver =
  dr_feed :: agent_feed
  dr_channel :: "(nat \<times> acp_command) list"
  dr_receiver :: bool
  dr_senders :: bool
  dr_queued :: "(nat \<times> rust_str) list"
  dr_phase :: driver_phase
  dr_auth_methods :: "agent_auth_method list"
  dr_retry :: retry_state
  dr_established :: bool
  dr_teardown :: bool
  dr_next :: nat
  dr_accepted :: "(nat \<times> rust_str) list"
  dr_sent :: "(nat \<times> rust_str) list"
  dr_refused :: "(nat \<times> rust_str) list"
  dr_dropped :: "(nat \<times> rust_str) list"
  dr_requests :: "rust_str list"

definition new_driver :: driver where
  "new_driver =
     \<lparr>dr_feed = new_feed, dr_channel = [], dr_receiver = True, dr_senders = True, dr_queued = [], dr_phase = Connecting, dr_auth_methods = [], dr_retry = new_retry,
      dr_established = False, dr_teardown = False, dr_next = 0, dr_accepted = [], dr_sent = [], dr_refused = [], dr_dropped = [], dr_requests = []\<rparr>"

definition push_ev :: "(agent_event \<Rightarrow> nat) \<Rightarrow> agent_event \<Rightarrow> driver \<Rightarrow> driver" where
  "push_ev dbg ev d = d\<lparr>dr_feed := push_agent_event dbg ev (dr_feed d)\<rparr>"

text \<open>\<open>try_send\<close> on the channel of commands.\<close>

definition send_command :: "string \<Rightarrow> acp_command \<Rightarrow> driver \<Rightarrow> driver \<times> (io_error + unit)" where
  "send_command full cmd d =
     (if \<not> dr_receiver d then (d, Inl (IoError BrokenPipe ''the agent has exited - close this session and start a new one''))
      else if length (dr_channel d) \<ge> AGENT_PROMPT_QUEUE then (d, Inl (IoError WouldBlock full))
      else (d\<lparr>dr_channel := dr_channel d @ [(dr_next d, cmd)], dr_next := Suc (dr_next d),
              dr_accepted := dr_accepted d @ (case cmd of AcPrompt t \<Rightarrow> [(dr_next d, t)] | _ \<Rightarrow> [])\<rparr>, Inr ()))"

definition send_agent_command :: "acp_command \<Rightarrow> driver \<Rightarrow> driver \<times> (io_error + unit)" where
  "send_agent_command = send_command ''agent command queue is full''"

definition agent_prompt :: "(agent_event \<Rightarrow> nat) \<Rightarrow> (nat \<Rightarrow> string) \<Rightarrow> rust_str \<Rightarrow> driver \<Rightarrow> driver \<times> (io_error + unit)" where
  "agent_prompt dbg dec t d =
     (if trim_str t = [] then (d, Inl (IoError InvalidInput ''agent prompt cannot be empty''))
      else if str_len t > MAX_AGENT_PROMPT_BYTES then (d, Inl (IoError InvalidInput ''agent prompt is too large''))
      else (case agent_command_for_text dec (af_history (dr_feed d)) t of
        Inl e \<Rightarrow> (d, Inl e)
      | Inr cmd \<Rightarrow>
          (case send_command ''agent prompt queue is full'' cmd d of
             (d', Inl e) \<Rightarrow> (d', Inl e)
           | (d', Inr _) \<Rightarrow> (if is_portty_control_command t then d' else push_ev dbg (EvUserMessage (agent_text (to_wire t))) d', Inr ()))))"

definition agent_set_mode :: "string \<Rightarrow> driver \<Rightarrow> driver \<times> (io_error + unit)" where
  "agent_set_mode mode d =
     (case validate_agent_control_id mode ''mode id'' of Inl e \<Rightarrow> (d, Inl e) | Inr _ \<Rightarrow> send_agent_command (AcSetMode mode True) d)"

definition agent_set_config :: "string \<Rightarrow> agent_config_value \<Rightarrow> driver \<Rightarrow> driver \<times> (io_error + unit)" where
  "agent_set_config config v d =
     (case validate_agent_control_id config ''config id'' of
        Inl e \<Rightarrow> (d, Inl e)
      | Inr _ \<Rightarrow>
          (case (case v of Select s \<Rightarrow> validate_agent_control_id s ''config value'' | Boolean _ \<Rightarrow> Inr ()) of
             Inl e \<Rightarrow> (d, Inl e)
           | Inr _ \<Rightarrow> send_agent_command (AcSetConfig config v True) d))"

definition agent_set_model :: "string \<Rightarrow> driver \<Rightarrow> driver \<times> (io_error + unit)" where
  "agent_set_model model d =
     (case validate_agent_control_id model ''model id'' of
        Inl e \<Rightarrow> (d, Inl e)
      | Inr _ \<Rightarrow>
          (case model_option (af_history (dr_feed d)) of
             None \<Rightarrow> (d, Inl (invalid_agent_control ''this agent did not advertise a model setting''))
           | Some o' \<Rightarrow> agent_set_config (aco_id o') (Select model) d))"

definition agent_authenticate :: "string \<Rightarrow> driver \<Rightarrow> driver \<times> (io_error + unit)" where
  "agent_authenticate meth d =
     (case validate_agent_control_id meth ''authentication method id'' of Inl e \<Rightarrow> (d, Inl e) | Inr _ \<Rightarrow> send_agent_command (AcAuthenticate meth) d)"

definition agent_cancel :: "driver \<Rightarrow> driver \<times> (io_error + unit)" where
  "agent_cancel = send_agent_command AcCancel"

definition agent_alive :: "driver \<Rightarrow> bool" where
  "agent_alive d = dr_receiver d"

text \<open>A prompt that leaves the queues begins a turn.\<close>

definition begin_turn :: "(agent_event \<Rightarrow> nat) \<Rightarrow> nat \<Rightarrow> rust_str \<Rightarrow> driver \<Rightarrow> driver" where
  "begin_turn dbg n t d =
     (push_ev dbg EvTurnStarted d)\<lparr>dr_phase := Turn n t False, dr_sent := dr_sent d @ [(n, t)], dr_requests := dr_requests d @ [t]\<rparr>"

text \<open>The controls; their effect on the agent ends in an error of the agent or not, \<open>fault\<close>.\<close>

definition apply_control :: "(agent_event \<Rightarrow> nat) \<Rightarrow> string option \<Rightarrow> driver \<Rightarrow> driver" where
  "apply_control dbg fault d = (case fault of None \<Rightarrow> d | Some e \<Rightarrow> push_ev dbg (EvError (agent_text (''Agent control failed: '' @ e))) d)"

definition settle :: "string option \<Rightarrow> driver \<Rightarrow> driver" where
  "settle e d = d\<lparr>dr_phase := Settled e\<rparr>"

text \<open>One round of the loop between turns: waiting prompts first, then the channel, whose end is the end of the session.\<close>

definition next_command :: "(agent_event \<Rightarrow> nat) \<Rightarrow> string option \<Rightarrow> driver \<Rightarrow> driver" where
  "next_command dbg fault d =
     (if dr_phase d \<noteq> Idle then d
      else (case dr_queued d of
        (n, t) # rest \<Rightarrow> begin_turn dbg n t (d\<lparr>dr_queued := rest\<rparr>)
      | [] \<Rightarrow>
          (case dr_channel d of
             (n, AcPrompt t) # rest \<Rightarrow> begin_turn dbg n t (d\<lparr>dr_channel := rest\<rparr>)
           | (n, _) # rest \<Rightarrow> apply_control dbg fault (d\<lparr>dr_channel := rest\<rparr>)
           | [] \<Rightarrow> if dr_senders d then d else settle None (d\<lparr>dr_teardown := True\<rparr>))))"

text \<open>A command that arrives while a turn runs.\<close>

definition turn_command :: "(agent_event \<Rightarrow> nat) \<Rightarrow> string option \<Rightarrow> driver \<Rightarrow> driver" where
  "turn_command dbg fault d =
     (case dr_phase d of
        Turn _ _ _ \<Rightarrow>
          (case dr_channel d of
             (n, AcPrompt t) # rest \<Rightarrow> d\<lparr>dr_channel := rest, dr_queued := dr_queued d @ [(n, t)]\<rparr>
           | (n, AcCancel) # rest \<Rightarrow> apply_control dbg fault (d\<lparr>dr_channel := rest, dr_dropped := dr_dropped d @ dr_queued d, dr_queued := []\<rparr>)
           | (n, _) # rest \<Rightarrow> apply_control dbg fault (d\<lparr>dr_channel := rest\<rparr>)
           | [] \<Rightarrow> if dr_senders d then d else settle None (d\<lparr>dr_teardown := True\<rparr>))
      | _ \<Rightarrow> d)"

datatype turn_result = TurnOk string | TurnCancelled | TurnNeedsAuth string | TurnFailed string

definition finish_turn :: "(agent_event \<Rightarrow> nat) \<Rightarrow> string \<Rightarrow> driver \<Rightarrow> driver" where
  "finish_turn dbg reason d = (push_ev dbg (EvTurnFinished reason) d)\<lparr>dr_phase := Idle\<rparr>"

definition turn_result_step :: "(agent_event \<Rightarrow> nat) \<Rightarrow> turn_result \<Rightarrow> driver \<Rightarrow> driver" where
  "turn_result_step dbg r d =
     (case dr_phase d of
        Turn n t reauthed \<Rightarrow>
          (case r of
             TurnOk reason \<Rightarrow> finish_turn dbg reason d
           | TurnCancelled \<Rightarrow> finish_turn dbg ''cancelled'' d
           | TurnNeedsAuth e \<Rightarrow>
               if dr_auth_methods d = [] then finish_turn dbg ''error'' (push_ev dbg (EvError (agent_text e)) d)
               else if reauthed
                 then finish_turn dbg ''error'' (push_ev dbg (EvError (agent_text e)) (push_ev dbg (EvAuthRequired (dr_auth_methods d)) d))
               else (push_ev dbg (EvAuthRequired (dr_auth_methods d)) d)\<lparr>dr_phase := TurnAuth n t\<rparr>
           | TurnFailed e \<Rightarrow> finish_turn dbg ''error'' (push_ev dbg (EvError (agent_text e)) d))
      | _ \<Rightarrow> d)"

text \<open>
  \<open>authenticate_acp_interactively\<close>, one command at a time, during the setup and during a turn. \<open>ok\<close>: the agent accepts the login.
\<close>

definition auth_failed :: "(agent_event \<Rightarrow> nat) \<Rightarrow> driver \<Rightarrow> driver" where
  "auth_failed dbg d =
     (case dr_phase d of
        TurnAuth n t \<Rightarrow> finish_turn dbg ''error'' (push_ev dbg (EvError ''Authentication was cancelled; your message was not sent'') d)
      | _ \<Rightarrow> settle (Some ''request cancelled'') d)"

definition auth_done :: "(agent_event \<Rightarrow> nat) \<Rightarrow> driver \<Rightarrow> driver" where
  "auth_done dbg d =
     (let d1 = push_ev dbg (EvAuthRequired []) d in
      case dr_phase d of
        TurnAuth n t \<Rightarrow> d1\<lparr>dr_phase := Turn n t True, dr_requests := dr_requests d1 @ [t]\<rparr>
      | _ \<Rightarrow> d1\<lparr>dr_phase := Connecting\<rparr>)"

definition auth_command :: "(agent_event \<Rightarrow> nat) \<Rightarrow> bool \<Rightarrow> driver \<Rightarrow> driver" where
  "auth_command dbg ok d =
     (if \<not> (case dr_phase d of SetupAuth \<Rightarrow> True | TurnAuth _ _ \<Rightarrow> True | _ \<Rightarrow> False) then d
      else (case dr_channel d of
        (n, AcAuthenticate meth) # rest \<Rightarrow> if ok then auth_done dbg (d\<lparr>dr_channel := rest\<rparr>) else auth_failed dbg (d\<lparr>dr_channel := rest\<rparr>)
      | (n, AcCancel) # rest \<Rightarrow> auth_failed dbg (d\<lparr>dr_channel := rest\<rparr>)
      | (n, cmd) # rest \<Rightarrow>
          push_ev dbg (EvError ''Authenticate this agent before sending commands'')
            (d\<lparr>dr_channel := rest, dr_refused := dr_refused d @ (case cmd of AcPrompt t \<Rightarrow> [(n, t)] | _ \<Rightarrow> [])\<rparr>)
      | [] \<Rightarrow> if dr_senders d then d else auth_failed dbg d))"

definition prompts_of :: "(nat \<times> acp_command) list \<Rightarrow> (nat \<times> rust_str) list" where
  "prompts_of cs = concat (map (\<lambda>(n, cmd). case cmd of AcPrompt t \<Rightarrow> [(n, t)] | _ \<Rightarrow> []) cs)"

text \<open>The driver returns; with its receiver go the commands that still wait.\<close>

definition end_driver :: "driver \<Rightarrow> driver" where
  "end_driver d =
     d\<lparr>dr_phase := Ended, dr_receiver := False, dr_dropped := dr_dropped d @ dr_queued d @ prompts_of (dr_channel d), dr_queued := [], dr_channel := []\<rparr>"

definition retry_or_stop :: "(agent_event \<Rightarrow> nat) \<Rightarrow> (nat \<Rightarrow> string) \<Rightarrow> nat \<Rightarrow> driver \<Rightarrow> driver" where
  "retry_or_stop dbg dec uptime d =
     (case dr_phase d of
        Settled e \<Rightarrow>
          (case after_connection \<lparr>oc_uptime = uptime, oc_established = dr_established d, oc_error = e, oc_teardown = dr_teardown d\<rparr> (dr_retry d) of
             (rt, act) \<Rightarrow>
               let d1 = d\<lparr>dr_retry := rt, dr_established := False\<rparr> in
               (case act of
                  ReconnectIn s None \<Rightarrow> (push_ev dbg (EvError (''Agent connection closed; reconnecting in '' @ dec (unat s) @ ''s'')) d1)\<lparr>dr_phase := Sleeping\<rparr>
                | ReconnectIn s (Some e) \<Rightarrow>
                    (push_ev dbg (EvError (agent_text (''Agent connection lost; reconnecting in '' @ dec (unat s) @ ''s: '' @ e))) d1)\<lparr>dr_phase := Sleeping\<rparr>
                | GiveUp \<Rightarrow>
                    end_driver (push_ev dbg (EvError ''The agent keeps crashing shortly after starting (5 attempts) - close this session and check the adapter installation'') d1)
                | StopSetup e \<Rightarrow> end_driver (push_ev dbg (EvError (agent_text (''Agent connection ended: '' @ e))) d1)
                | _ \<Rightarrow> end_driver d1))
      | _ \<Rightarrow> d)"

datatype driver_step =
    Prompt rust_str
  | SetMode string
  | SetConfig string agent_config_value
  | SetModel string
  | Authenticate string
  | CancelRequest
  | SetupNeedsAuth "agent_auth_method list"
  | SetupDone "agent_auth_method list"
  | NextCommand "string option"
  | TurnCommand "string option"
  | TurnResult turn_result
  | AuthCommand bool
  | AgentUpdate agent_event
  | SendersDropped
  | ConnectionSettles "string option"
  | RetryOrStop nat
  | Wake

definition connected :: "driver_phase \<Rightarrow> bool" where
  "connected ph \<longleftrightarrow> (case ph of Settled _ \<Rightarrow> False | Sleeping \<Rightarrow> False | Ended \<Rightarrow> False | _ \<Rightarrow> True)"

fun driver_next :: "(agent_event \<Rightarrow> nat) \<Rightarrow> (nat \<Rightarrow> string) \<Rightarrow> driver \<Rightarrow> driver_step \<Rightarrow> driver" where
  "driver_next dbg dec d (Prompt t) = fst (agent_prompt dbg dec t d)"
| "driver_next dbg dec d (SetMode mode) = fst (agent_set_mode mode d)"
| "driver_next dbg dec d (SetConfig config v) = fst (agent_set_config config v d)"
| "driver_next dbg dec d (SetModel model) = fst (agent_set_model model d)"
| "driver_next dbg dec d (Authenticate meth) = fst (agent_authenticate meth d)"
| "driver_next dbg dec d CancelRequest = fst (agent_cancel d)"
| "driver_next dbg dec d (SetupNeedsAuth methods) =
     (if dr_phase d = Connecting \<and> methods \<noteq> [] then (push_ev dbg (EvAuthRequired methods) d)\<lparr>dr_phase := SetupAuth\<rparr> else d)"
| "driver_next dbg dec d (SetupDone methods) =
     (if dr_phase d = Connecting then d\<lparr>dr_phase := Idle, dr_established := True, dr_auth_methods := methods\<rparr> else d)"
| "driver_next dbg dec d (NextCommand fault) = next_command dbg fault d"
| "driver_next dbg dec d (TurnCommand fault) = turn_command dbg fault d"
| "driver_next dbg dec d (TurnResult r) = turn_result_step dbg r d"
| "driver_next dbg dec d (AuthCommand ok) = auth_command dbg ok d"
| "driver_next dbg dec d (AgentUpdate ev) = push_ev dbg ev d"
| "driver_next dbg dec d SendersDropped = d\<lparr>dr_senders := False\<rparr>"
| "driver_next dbg dec d (ConnectionSettles e) = (if connected (dr_phase d) then settle e d else d)"
| "driver_next dbg dec d (RetryOrStop uptime) = retry_or_stop dbg dec uptime d"
| "driver_next dbg dec d Wake = (if dr_phase d = Sleeping then d\<lparr>dr_phase := Connecting\<rparr> else d)"

section \<open>The reconnect loop ends\<close>

text \<open>The failures in a row and the next delay go together.\<close>

definition retry_ok :: "retry_state \<Rightarrow> bool" where
  "retry_ok rt \<longleftrightarrow>
     (rt_failed_attempts rt, rt_delay_secs rt) \<in> {(0, 1), (1, 2), (2, 4), (3, 8), (4, 16), (0, 2), (1, 4), (2, 8), (3, 16), (4, 30)}"

lemma new_retry_ok: "retry_ok new_retry"
  by (simp add: retry_ok_def new_retry_def)

lemma after_connection_healthy:
  "after_connection oc rt = (rt', ReconnectIn s e) \<Longrightarrow> oc_uptime oc \<ge> HEALTHY_UPTIME \<Longrightarrow>
     s = 1 \<and> rt_failed_attempts rt' = 0 \<and> rt_delay_secs rt' = 2"
  by (auto simp: after_connection_def Let_def split: if_splits option.splits)

lemma after_connection_short:
  "after_connection oc rt = (rt', ReconnectIn s e) \<Longrightarrow> oc_uptime oc < HEALTHY_UPTIME \<Longrightarrow>
     s = rt_delay_secs rt \<and> rt_failed_attempts rt' = rt_failed_attempts rt + 1 \<and> rt_delay_secs rt' = min (rt_delay_secs rt * 2) 30 \<and>
     \<not> MAX_FAILED_ATTEMPTS \<le> rt_failed_attempts rt + 1"
  by (auto simp: after_connection_def Let_def split: if_splits option.splits)

lemma after_connection_retry:
  assumes "retry_ok rt" "after_connection oc rt = (rt', ReconnectIn s e)"
  shows "retry_ok rt' \<and> s \<in> {1, 2, 4, 8, 16} \<and> (oc_uptime oc < HEALTHY_UPTIME \<longrightarrow> unat (rt_failed_attempts rt') = Suc (unat (rt_failed_attempts rt)))"
proof (cases "oc_uptime oc < HEALTHY_UPTIME")
  case True
  note step = after_connection_short [OF assms(2) True]
  show ?thesis
    using assms(1) step unfolding retry_ok_def by (elim insertE emptyE) (simp_all add: True MAX_FAILED_ATTEMPTS_def)
next
  case False
  then show ?thesis using after_connection_healthy [OF assms(2)] by (simp add: retry_ok_def)
qed

lemma reconnect_loop_again:
  "after_connection (conns k) rt = (rt', ReconnectIn s e) \<Longrightarrow> reconnect_loop conns k rt ds = reconnect_loop conns (Suc k) rt' (ds @ [s])"
  by (simp add: reconnect_loop.simps [of conns k])

lemma reconnect_loop_stop:
  "after_connection (conns k) rt = (rt', act) \<Longrightarrow> \<forall>s e. act \<noteq> ReconnectIn s e \<Longrightarrow> reconnect_loop conns k rt ds = Some (Suc k, ds, act)"
  by (simp add: reconnect_loop.simps [of conns k] split: retry_action.splits)

lemma reconnect_loop_short:
  assumes "\<forall>i \<ge> k. oc_uptime (conns i) < HEALTHY_UPTIME" "retry_ok rt"
  shows "\<exists>m ds act. reconnect_loop conns k rt ds0 = Some (m, ds0 @ ds, act) \<and> m \<le> k + (5 - unat (rt_failed_attempts rt)) \<and> m = Suc (k + length ds) \<and> set ds \<subseteq> {1, 2, 4, 8, 16}"
  using assms
proof (induction "5 - unat (rt_failed_attempts rt)" arbitrary: k rt ds0)
  case 0
  then show ?case by (auto simp: retry_ok_def)
next
  case (Suc n)
  obtain rt' act where act: "after_connection (conns k) rt = (rt', act)" by fastforce
  have le: "unat (rt_failed_attempts rt) \<le> 4" using Suc.hyps(2) by simp
  show ?case
  proof (cases "\<exists>s e. act = ReconnectIn s e")
    case True
    then obtain s e where s: "after_connection (conns k) rt = (rt', ReconnectIn s e)" using act by blast
    have r: "retry_ok rt'" "s \<in> {1, 2, 4, 8, 16}" "unat (rt_failed_attempts rt') = Suc (unat (rt_failed_attempts rt))"
      using after_connection_retry [OF Suc.prems(2) s] Suc.prems(1) by auto
    then have n: "n = 5 - unat (rt_failed_attempts rt')" using Suc.hyps(2) by simp
    have later: "\<forall>i \<ge> Suc k. oc_uptime (conns i) < HEALTHY_UPTIME" using Suc.prems(1) by simp
    from Suc.hyps(1) [OF n later r(1), of "ds0 @ [s]"] obtain m ds act where
      "reconnect_loop conns (Suc k) rt' (ds0 @ [s]) = Some (m, (ds0 @ [s]) @ ds, act)" "m \<le> Suc k + (5 - unat (rt_failed_attempts rt'))" "m = Suc (Suc k + length ds)"
      "set ds \<subseteq> {1, 2, 4, 8, 16}" by blast
    then show ?thesis using s r le
      by (intro exI [of _ m] exI [of _ "s # ds"] exI [of _ act]) (auto simp: reconnect_loop_again)
  next
    case False
    then show ?thesis using act le
      by (intro exI [of _ "Suc k"] exI [of _ "[]"] exI [of _ act]) (auto simp: reconnect_loop_stop)
  qed
qed

text \<open>
  C20. An adapter that keeps dying is given up: when every connection from the \<open>n\<close>-th on lives less than a minute, the loop that reconnects ends, after at most \<open>n + 5\<close>
  connections, and every delay it waited was 1, 2, 4, 8 or 16 seconds.
\<close>

theorem reconnect_terminates:
  assumes "\<forall>k \<ge> n. oc_uptime (conns k) < HEALTHY_UPTIME"
  shows "\<exists>m delays act. reconnect_loop conns 0 new_retry [] = Some (m, delays, act) \<and> m \<le> n + 5 \<and> m = Suc (length delays) \<and> set delays \<subseteq> {1, 2, 4, 8, 16}"
proof -
  have "\<exists>m ds act. reconnect_loop conns k rt ds0 = Some (m, ds0 @ ds, act) \<and> m \<le> n + 5 \<and> m = Suc (k + length ds) \<and> set ds \<subseteq> {1, 2, 4, 8, 16}"
    if "retry_ok rt" "k \<le> n" for k rt ds0
    using that
  proof (induction "n - k" arbitrary: k rt ds0)
    case 0
    then have "k = n" by simp
    then show ?case using reconnect_loop_short [of k conns rt ds0] assms 0 by fastforce
  next
    case (Suc x)
    obtain rt' act where act: "after_connection (conns k) rt = (rt', act)" by fastforce
    show ?case
    proof (cases "\<exists>s e. act = ReconnectIn s e")
      case True
      then obtain s e where s: "after_connection (conns k) rt = (rt', ReconnectIn s e)" using act by blast
      have r: "retry_ok rt'" "s \<in> {1, 2, 4, 8, 16}" using after_connection_retry [OF Suc.prems(1) s] by auto
      have "x = n - Suc k" "Suc k \<le> n" using Suc.hyps(2) by simp_all
      from Suc.hyps(1) [OF this(1) r(1) this(2), of "ds0 @ [s]"] obtain m ds act where
        "reconnect_loop conns (Suc k) rt' (ds0 @ [s]) = Some (m, (ds0 @ [s]) @ ds, act)" "m \<le> n + 5" "m = Suc (Suc k + length ds)" "set ds \<subseteq> {1, 2, 4, 8, 16}" by blast
      then show ?thesis using s r(2)
        by (intro exI [of _ m] exI [of _ "s # ds"] exI [of _ act]) (auto simp: reconnect_loop_again)
    next
      case False
      then show ?thesis using act Suc.prems(2)
        by (intro exI [of _ "Suc k"] exI [of _ "[]"] exI [of _ act]) (auto simp: reconnect_loop_stop)
    qed
  qed
  from this [OF new_retry_ok, of 0 "[]"] show ?thesis by simp
qed

text \<open>A connection that lives for two minutes, then only short ones; the longest delay there is.\<close>

definition crashing_adapter :: "nat \<Rightarrow> conn_outcome" where
  "crashing_adapter k = \<lparr>oc_uptime = (if k = 0 then 120 else 3), oc_established = True, oc_error = Some ''exit'', oc_teardown = False\<rparr>"

theorem reconnect_terminates_witness:
  "(\<exists>m delays act. reconnect_loop crashing_adapter 0 new_retry [] = Some (m, delays, act) \<and> m \<le> 1 + 5 \<and> m = Suc (length delays) \<and> set delays \<subseteq> {1, 2, 4, 8, 16}) \<and>
   reconnect_loop crashing_adapter 0 new_retry [] = Some (6, [1, 2, 4, 8, 16], GiveUp)"
proof
  show "\<exists>m delays act. reconnect_loop crashing_adapter 0 new_retry [] = Some (m, delays, act) \<and> m \<le> 1 + 5 \<and> m = Suc (length delays) \<and> set delays \<subseteq> {1, 2, 4, 8, 16}"
    by (rule reconnect_terminates) (simp add: crashing_adapter_def HEALTHY_UPTIME_def)
  let ?rt = "\<lambda>s f. \<lparr>rt_ever_established = True, rt_delay_secs = s, rt_failed_attempts = f\<rparr>"
  have steps:
    "after_connection (crashing_adapter 0) new_retry = (?rt 2 0, ReconnectIn 1 (Some ''exit''))"
    "after_connection (crashing_adapter (Suc 0)) (?rt 2 0) = (?rt 4 1, ReconnectIn 2 (Some ''exit''))"
    "after_connection (crashing_adapter (Suc (Suc 0))) (?rt 4 1) = (?rt 8 2, ReconnectIn 4 (Some ''exit''))"
    "after_connection (crashing_adapter (Suc (Suc (Suc 0)))) (?rt 8 2) = (?rt 16 3, ReconnectIn 8 (Some ''exit''))"
    "after_connection (crashing_adapter (Suc (Suc (Suc (Suc 0))))) (?rt 16 3) = (?rt 30 4, ReconnectIn 16 (Some ''exit''))"
    "after_connection (crashing_adapter (Suc (Suc (Suc (Suc (Suc 0)))))) (?rt 30 4) = (?rt 30 5, GiveUp)"
    by (simp_all add: crashing_adapter_def after_connection_def new_retry_def HEALTHY_UPTIME_def MAX_FAILED_ATTEMPTS_def Let_def word_le_nat_alt)
  note again = reconnect_loop_again [where conns = crashing_adapter]
  show "reconnect_loop crashing_adapter 0 new_retry [] = Some (6, [1, 2, 4, 8, 16], GiveUp)"
    by (simp add: again [OF steps(1)] again [OF steps(2)] again [OF steps(3)] again [OF steps(4)]
        again [OF steps(5)] reconnect_loop_stop [where conns = crashing_adapter, OF steps(6)])
qed

section \<open>Echoes\<close>

lemma trim_end_append:
  "rev (dropWhile P (rev (a @ r))) = (if list_all P r then rev (dropWhile P (rev a)) else a @ rev (dropWhile P (rev r)))"
  by (auto simp: dropWhile_append list_all_iff)

lemma trim_str_prefix_start: "prefix (trim_str t) (trim_start t)"
  using suffix_dropWhile [of is_whitespace "rev (trim_start t)"] by (simp add: trim_str_def suffix_to_prefix)

lemma trim_str_of_prefix:
  assumes "trim_start t = p @ r" "trim_str p = rev (dropWhile is_whitespace (rev p))"
  shows "trim_str t = (if list_all is_whitespace r then trim_str p else p @ rev (dropWhile is_whitespace (rev r)))"
  using assms trim_end_append [of is_whitespace p r] by (simp add: trim_str_def)

lemma control_words:
  "rev (dropWhile is_whitespace (rev (str_of ''/mode ''))) = str_of ''/mode''" "rev (dropWhile is_whitespace (rev (str_of ''/model ''))) = str_of ''/model''"
  "rev (dropWhile is_whitespace (rev (str_of ''/mode''))) = str_of ''/mode''" "rev (dropWhile is_whitespace (rev (str_of ''/model''))) = str_of ''/model''"
  by (simp_all add: str_of_def is_whitespace_def)

lemma mode_not_model: "strip_prefix (str_of ''/mode '') (str_of ''/model '' @ r) = None" "strip_prefix (str_of ''/mode '') (str_of ''/model'') = None"
  "str_of ''/model '' @ r \<noteq> str_of ''/mode''" "str_of ''/model'' \<noteq> str_of ''/mode''"
  by (simp_all add: str_of_def strip_prefix_def)

lemma control_argument_no_prompt:
  "control_argument v usage label f = Inr cmd \<Longrightarrow> (\<And>arg c. f arg = Inr c \<Longrightarrow> \<forall>p. c \<noteq> AcPrompt p) \<Longrightarrow> \<forall>p. cmd \<noteq> AcPrompt p"
  by (auto simp: control_argument_def Let_def split: if_splits sum.splits)

lemma control_is_no_prompt:
  assumes "is_portty_control_command t" "agent_command_for_text dec h t = Inr cmd"
  shows "cmd \<noteq> AcPrompt p"
proof -
  have arg: "control_argument v usage label f = Inr cmd \<Longrightarrow> (\<And>arg c. f arg = Inr c \<Longrightarrow> \<forall>p. c \<noteq> AcPrompt p) \<Longrightarrow> cmd \<noteq> AcPrompt p" for v usage label f
    using control_argument_no_prompt by blast
  have start: "trim_str t = rev (dropWhile is_whitespace (rev (trim_start t)))" by (simp add: trim_str_def)
  consider "trim_start t = str_of ''/mode''" | r where "trim_start t = str_of ''/mode '' @ r" | "trim_start t = str_of ''/model''" | r where "trim_start t = str_of ''/model '' @ r"
    using assms(1) by (auto simp: is_portty_control_command_def Let_def prefix_def)
  then show ?thesis
  proof cases
    case 1
    then show ?thesis using assms(2) start by (simp add: agent_command_for_text_def control_words Let_def)
  next
    case (2 r)
    have "trim_str t = (if list_all is_whitespace r then str_of ''/mode'' else str_of ''/mode '' @ rev (dropWhile is_whitespace (rev r)))"
      unfolding start 2 trim_end_append control_words by (rule refl)
    moreover have "strip_prefix (str_of ''/mode '') (str_of ''/mode '' @ x) = Some x" for x by (simp add: strip_prefix_def)
    ultimately show ?thesis using assms(2) arg by (auto simp: agent_command_for_text_def Let_def split: if_splits)
  next
    case 3
    then show ?thesis using assms(2) start by (simp add: agent_command_for_text_def control_words mode_not_model Let_def)
  next
    case (4 r)
    have "trim_str t = (if list_all is_whitespace r then str_of ''/model'' else str_of ''/model '' @ rev (dropWhile is_whitespace (rev r)))"
      unfolding start 4 trim_end_append control_words by (rule refl)
    moreover have "strip_prefix (str_of ''/model '') (str_of ''/model '' @ x) = Some x" for x by (simp add: strip_prefix_def)
    ultimately show ?thesis using assms(2) arg by (auto simp: agent_command_for_text_def mode_not_model Let_def control_argument_def split: if_splits option.splits sum.splits)
  qed
qed

lemma prompt_is_no_control:
  assumes "\<not> is_portty_control_command t" "agent_command_for_text dec h t = Inr cmd"
  shows "cmd = AcPrompt t"
proof -
  have "\<not> prefix p (trim_start t) \<Longrightarrow> strip_prefix p (trim_str t) = None" for p
    using prefix_order.trans [OF _ trim_str_prefix_start [of t]] by (auto simp: strip_prefix_def)
  then have "strip_prefix (str_of ''/mode '') (trim_str t) = None" "strip_prefix (str_of ''/model '') (trim_str t) = None"
    using assms(1) unfolding is_portty_control_command_def Let_def by blast+
  then show ?thesis using assms(2) by (auto simp: agent_command_for_text_def Let_def split: if_splits)
qed

text \<open>
  The timeline shows exactly the messages that go to the agent: a text that is accepted either waits for the agent as it was typed, and is the last thing the viewers were
  shown, or it was a control of the host and is not shown; a text that is refused changes nothing and says why.
\<close>

theorem prompt_echoed:
  "case agent_prompt dbg dec t d of
     (d', Inl e) \<Rightarrow> d' = d
   | (d', Inr _) \<Rightarrow>
       if is_portty_control_command t then dr_accepted d' = dr_accepted d \<and> dr_feed d' = dr_feed d \<and> prompts_of (dr_channel d') = prompts_of (dr_channel d)
       else dr_accepted d' = dr_accepted d @ [(dr_next d, t)] \<and> prompts_of (dr_channel d') = prompts_of (dr_channel d) @ [(dr_next d, t)] \<and>
         dr_feed d' = push_agent_event dbg (EvUserMessage (agent_text (to_wire t))) (dr_feed d)"
proof (cases "agent_command_for_text dec (af_history (dr_feed d)) t")
  case (Inl e)
  then show ?thesis by (simp add: agent_prompt_def)
next
  case (Inr cmd)
  show ?thesis
  proof (cases "is_portty_control_command t")
    case True
    have "\<forall>p. cmd \<noteq> AcPrompt p" using control_is_no_prompt [OF True Inr] by blast
    then show ?thesis using True Inr by (cases cmd) (simp_all add: agent_prompt_def send_command_def prompts_of_def)
  next
    case False
    then show ?thesis using Inr prompt_is_no_control [OF False Inr] by (simp add: agent_prompt_def send_command_def prompts_of_def push_ev_def)
  qed
qed

section \<open>No message is lost or reordered\<close>

definition waiting :: "driver \<Rightarrow> (nat \<times> rust_str) list" where
  "waiting d = dr_queued d @ prompts_of (dr_channel d)"

definition resends :: "(nat \<times> rust_str) list \<Rightarrow> nat set \<Rightarrow> rust_str list" where
  "resends sent twice = concat (map (\<lambda>(n, t). if n \<in> twice then [t, t] else [t]) sent)"

text \<open>
  The messages during whose turn the agent asked for a login, when nobody had logged in during that turn yet, and those for which a login then succeeded: what one
  step adds to them, and the driver together with both.
\<close>

definition asks_login :: "driver \<Rightarrow> driver_step \<Rightarrow> nat set" where
  "asks_login d e = (case (dr_phase d, e) of (Turn n t False, TurnResult (TurnNeedsAuth _)) \<Rightarrow> {n} | _ \<Rightarrow> {})"

definition logs_in :: "driver \<Rightarrow> driver_step \<Rightarrow> nat set" where
  "logs_in d e = (case (dr_phase d, e, dr_channel d) of (TurnAuth n t, AuthCommand True, (_, AcAuthenticate _) # _) \<Rightarrow> {n} | _ \<Rightarrow> {})"

fun driver_account :: "(agent_event \<Rightarrow> nat) \<Rightarrow> (nat \<Rightarrow> string) \<Rightarrow> driver \<times> nat set \<times> nat set \<Rightarrow> driver_step \<Rightarrow> driver \<times> nat set \<times> nat set" where
  "driver_account dbg dec (d, asked, logins) e = (driver_next dbg dec d e, asked \<union> asks_login d e, logins \<union> logs_in d e)"

definition requests_ok :: "nat set \<Rightarrow> nat set \<Rightarrow> driver \<Rightarrow> bool" where
  "requests_ok asked logins d \<longleftrightarrow>
     dr_requests d = resends (dr_sent d) logins \<and> logins \<subseteq> asked \<and> logins \<subseteq> fst ` set (dr_sent d) \<and>
     (\<forall>n t. dr_phase d = Turn n t False \<longrightarrow> (\<exists>sent. dr_sent d = sent @ [(n, t)]) \<and> n \<notin> logins) \<and>
     (\<forall>n t. dr_phase d = TurnAuth n t \<longrightarrow> (\<exists>sent. dr_sent d = sent @ [(n, t)]) \<and> n \<notin> logins \<and> n \<in> asked)"

definition prompts_inv :: "nat set \<Rightarrow> nat set \<Rightarrow> driver \<Rightarrow> bool" where
  "prompts_inv asked logins d \<longleftrightarrow>
     mset (dr_accepted d) = mset (dr_sent d @ dr_refused d @ dr_dropped d @ waiting d) \<and>
     sorted_wrt (<) (map fst (dr_sent d @ waiting d)) \<and> sorted_wrt (<) (map fst (dr_accepted d)) \<and> (\<forall>p \<in> set (dr_accepted d). fst p < dr_next d) \<and>
     requests_ok asked logins d"

lemma prompts_of_simps [simp]:
  "prompts_of [] = []" "prompts_of ((n, AcPrompt t) # cs) = (n, t) # prompts_of cs" "prompts_of ((n, AcSetMode m b) # cs) = prompts_of cs"
  "prompts_of ((n, AcSetConfig c v b) # cs) = prompts_of cs" "prompts_of ((n, AcAuthenticate a) # cs) = prompts_of cs" "prompts_of ((n, AcCancel) # cs) = prompts_of cs"
  "prompts_of (cs @ ds) = prompts_of cs @ prompts_of ds"
  by (simp_all add: prompts_of_def)

lemma push_ev_fields [simp]:
  "dr_accepted (push_ev dbg ev d) = dr_accepted d" "dr_sent (push_ev dbg ev d) = dr_sent d" "dr_refused (push_ev dbg ev d) = dr_refused d"
  "dr_dropped (push_ev dbg ev d) = dr_dropped d" "dr_queued (push_ev dbg ev d) = dr_queued d" "dr_channel (push_ev dbg ev d) = dr_channel d"
  "dr_next (push_ev dbg ev d) = dr_next d" "dr_phase (push_ev dbg ev d) = dr_phase d" "dr_requests (push_ev dbg ev d) = dr_requests d"
  "dr_auth_methods (push_ev dbg ev d) = dr_auth_methods d" "dr_receiver (push_ev dbg ev d) = dr_receiver d" "dr_senders (push_ev dbg ev d) = dr_senders d"
  "dr_retry (push_ev dbg ev d) = dr_retry d" "dr_established (push_ev dbg ev d) = dr_established d" "dr_teardown (push_ev dbg ev d) = dr_teardown d"
  by (simp_all add: push_ev_def)

lemma resends_snoc: "resends (sent @ [(n, t)]) twice = resends sent twice @ (if n \<in> twice then [t, t] else [t])"
  by (simp add: resends_def)

lemma resends_insert: "n \<notin> fst ` set sent \<Longrightarrow> resends sent (insert n twice) = resends sent twice"
  unfolding resends_def by (rule arg_cong [where f = concat], rule map_cong) (auto simp: image_iff)

text \<open>A step that leaves the accounts alone and does not put the driver into a turn.\<close>

lemma prompts_inv_same:
  assumes "prompts_inv A L d" "dr_accepted d' = dr_accepted d" "dr_sent d' = dr_sent d" "dr_refused d' = dr_refused d" "dr_dropped d' = dr_dropped d"
    "waiting d' = waiting d" "dr_next d \<le> dr_next d'" "dr_requests d' = dr_requests d"
    "\<forall>n t. (dr_phase d' = Turn n t False \<longrightarrow> dr_phase d = Turn n t False) \<and> (dr_phase d' = TurnAuth n t \<longrightarrow> dr_phase d = TurnAuth n t)"
  shows "prompts_inv A L d'"
proof -
  have "requests_ok A L d'" using assms(1,3,8,9) unfolding prompts_inv_def requests_ok_def by metis
  then show ?thesis using assms(1-7) unfolding prompts_inv_def by (metis (full_types) order_less_le_trans)
qed

lemma prompts_inv_asked: "prompts_inv A L d \<Longrightarrow> A \<subseteq> B \<Longrightarrow> prompts_inv B L d"
  by (auto simp: prompts_inv_def requests_ok_def)

lemma sorted_mset_bound:
  assumes "mset xs = mset ys" "\<forall>p \<in> set xs. fst p < (n :: nat)"
  shows "\<forall>p \<in> set ys. fst p < n"
  using assms by (metis mset_eq_setD)

lemma send_command_inv:
  assumes "prompts_inv A L d"
  shows "prompts_inv A L (fst (send_command full cmd d))"
proof (cases "\<exists>t. cmd = AcPrompt t \<and> dr_receiver d \<and> length (dr_channel d) < AGENT_PROMPT_QUEUE")
  case True
  then obtain t where cmd: "cmd = AcPrompt t" and ok: "dr_receiver d" "length (dr_channel d) < AGENT_PROMPT_QUEUE" by blast
  have b: "\<forall>p \<in> set (dr_sent d @ dr_refused d @ dr_dropped d @ waiting d). fst p < dr_next d"
    using assms sorted_mset_bound unfolding prompts_inv_def by blast
  have r: "requests_ok A L (fst (send_command full cmd d))" using assms by (simp add: prompts_inv_def requests_ok_def send_command_def)
  have "sorted_wrt (<) (map fst (dr_sent d @ waiting d @ [(dr_next d, t)]))" "sorted_wrt (<) (map fst (dr_accepted d @ [(dr_next d, t)]))"
    using assms b by (auto simp: prompts_inv_def sorted_wrt_append)
  moreover have "\<forall>p \<in> set (dr_accepted d @ [(dr_next d, t)]). fst p < Suc (dr_next d)" using assms by (auto simp: prompts_inv_def less_Suc_eq)
  ultimately show ?thesis
    using r assms cmd ok unfolding prompts_inv_def by (auto simp: send_command_def waiting_def)
next
  case False
  then show ?thesis
    by (cases cmd; intro prompts_inv_same [OF assms]) (auto simp: send_command_def waiting_def)
qed

lemma begin_turn_inv:
  assumes "prompts_inv A L d" "waiting d = (n, t) # waiting d1" "dr_accepted d1 = dr_accepted d" "dr_sent d1 = dr_sent d" "dr_refused d1 = dr_refused d"
    "dr_dropped d1 = dr_dropped d" "dr_next d1 = dr_next d" "dr_requests d1 = dr_requests d"
  shows "prompts_inv A L (begin_turn dbg n t d1)"
proof -
  have ok: "requests_ok A L d" and "sorted_wrt (<) (map fst (dr_sent d @ waiting d))" using assms(1) by (auto simp: prompts_inv_def)
  then have "n \<notin> fst ` set (dr_sent d)" unfolding assms(2) by (auto simp: sorted_wrt_append)
  with ok have "n \<notin> L" by (auto simp: requests_ok_def)
  with ok have "requests_ok A L (begin_turn dbg n t d1)" using assms(4,8) by (auto simp: requests_ok_def begin_turn_def resends_snoc)
  moreover have "waiting (begin_turn dbg n t d1) = waiting d1" by (simp add: begin_turn_def waiting_def)
  ultimately show ?thesis using assms unfolding prompts_inv_def by (auto simp: begin_turn_def)
qed

lemma next_command_inv:
  assumes "prompts_inv A L d"
  shows "prompts_inv A L (next_command dbg fault d)"
proof -
  have turn: "prompts_inv A L (begin_turn dbg n t (d\<lparr>dr_queued := rest\<rparr>))" if "dr_queued d = (n, t) # rest" for n t rest
    by (rule begin_turn_inv [OF assms]) (simp_all add: waiting_def that)
  have turn': "prompts_inv A L (begin_turn dbg n t (d\<lparr>dr_channel := rest\<rparr>))" if "dr_queued d = []" "dr_channel d = (n, AcPrompt t) # rest" for n t rest
    by (rule begin_turn_inv [OF assms]) (simp_all add: waiting_def that)
  have rest: "prompts_inv A L (apply_control dbg fault (d\<lparr>dr_channel := rest\<rparr>))" if "prompts_of (dr_channel d) = prompts_of rest" for rest
    by (rule prompts_inv_same [OF assms]) (auto simp: apply_control_def waiting_def that split: option.splits)
  have stop: "prompts_inv A L (settle None (d\<lparr>dr_teardown := True\<rparr>))" by (rule prompts_inv_same [OF assms]) (simp_all add: settle_def waiting_def)
  show ?thesis using assms turn turn' rest stop by (auto simp: next_command_def split: list.splits acp_command.splits)
qed

lemma turn_command_inv:
  assumes "prompts_inv A L d"
  shows "prompts_inv A L (turn_command dbg fault d)"
proof -
  have queue: "prompts_inv A L (d\<lparr>dr_channel := rest, dr_queued := dr_queued d @ [(n, t)]\<rparr>)" if "dr_channel d = (n, AcPrompt t) # rest" for n t rest
    by (rule prompts_inv_same [OF assms]) (auto simp: waiting_def that)
  have rest: "prompts_inv A L (apply_control dbg fault (d\<lparr>dr_channel := rest\<rparr>))" if "prompts_of (dr_channel d) = prompts_of rest" for rest
    by (rule prompts_inv_same [OF assms]) (auto simp: apply_control_def waiting_def that split: option.splits)
  have stop: "prompts_inv A L (settle None (d\<lparr>dr_teardown := True\<rparr>))" by (rule prompts_inv_same [OF assms]) (simp_all add: settle_def waiting_def)
  have drop: "prompts_inv A L (d\<lparr>dr_channel := rest, dr_dropped := dr_dropped d @ dr_queued d, dr_queued := []\<rparr>)" if "prompts_of (dr_channel d) = prompts_of rest" for rest
    using assms that by (auto simp: prompts_inv_def waiting_def sorted_wrt_append requests_ok_def)
  have cancel: "prompts_inv A L (apply_control dbg fault (d\<lparr>dr_channel := rest, dr_dropped := dr_dropped d @ dr_queued d, dr_queued := []\<rparr>))" if "prompts_of (dr_channel d) = prompts_of rest" for rest
    by (rule prompts_inv_same [OF drop [OF that]]) (auto simp: apply_control_def waiting_def split: option.splits)
  show ?thesis using assms queue rest stop cancel by (auto simp: turn_command_def split: driver_phase.splits list.splits acp_command.splits)
qed

lemma finish_turn_inv: "prompts_inv A L d \<Longrightarrow> prompts_inv A L (finish_turn dbg reason d)"
  by (erule prompts_inv_same) (simp_all add: finish_turn_def waiting_def)

lemma push_ev_inv: "prompts_inv A L d \<Longrightarrow> prompts_inv A L (push_ev dbg ev d)"
  by (erule prompts_inv_same) (simp_all add: waiting_def)

lemma turn_result_inv:
  assumes "prompts_inv A L d"
  shows "prompts_inv (A \<union> asks_login d (TurnResult r)) L (turn_result_step dbg r d)"
proof -
  have auth: "prompts_inv (insert n A) L ((push_ev dbg ev d)\<lparr>dr_phase := TurnAuth n t\<rparr>)" if "dr_phase d = Turn n t False" for ev n t
    using assms that by (auto simp: prompts_inv_def requests_ok_def waiting_def)
  have more: "prompts_inv (insert n A) L d" for n using assms by (rule prompts_inv_asked) blast
  show ?thesis using assms more auth
    by (auto simp: turn_result_step_def asks_login_def finish_turn_inv push_ev_inv split: driver_phase.splits turn_result.splits bool.splits)
qed

lemma auth_done_inv:
  assumes inv: "prompts_inv A L d"
  shows "prompts_inv A (L \<union> (case dr_phase d of TurnAuth n t \<Rightarrow> {n} | _ \<Rightarrow> {})) (auth_done dbg d)"
proof (cases "\<exists>n t. dr_phase d = TurnAuth n t")
  case True
  then obtain n t where ph: "dr_phase d = TurnAuth n t" by blast
  then obtain sent where s: "dr_sent d = sent @ [(n, t)]" and n: "n \<notin> L" "n \<in> A" "L \<subseteq> A" "L \<subseteq> fst ` set (dr_sent d)"
    and q: "dr_requests d = resends (dr_sent d) L"
    using inv unfolding prompts_inv_def requests_ok_def by blast
  have "n \<notin> fst ` set sent" using inv s by (auto simp: prompts_inv_def sorted_wrt_append)
  then have "requests_ok A (insert n L) (auth_done dbg d)"
    using ph s n q by (auto simp: requests_ok_def auth_done_def resends_snoc resends_insert)
  then show ?thesis using inv ph unfolding prompts_inv_def by (auto simp: auth_done_def waiting_def)
next
  case False
  then have "auth_done dbg d = (push_ev dbg (EvAuthRequired []) d)\<lparr>dr_phase := Connecting\<rparr>" by (auto simp: auth_done_def Let_def split: driver_phase.splits)
  moreover have "(case dr_phase d of TurnAuth n t \<Rightarrow> {n} | _ \<Rightarrow> {}) = {}" using False by (auto split: driver_phase.splits)
  ultimately show ?thesis using prompts_inv_same [OF inv] by (simp add: waiting_def)
qed

lemma auth_command_inv:
  assumes "prompts_inv A L d"
  shows "prompts_inv A (L \<union> logs_in d (AuthCommand ok)) (auth_command dbg ok d)"
proof -
  have take: "prompts_inv A L (d\<lparr>dr_channel := rest\<rparr>)" if "prompts_of (dr_channel d) = prompts_of rest" for rest
    by (rule prompts_inv_same [OF assms]) (simp_all add: waiting_def that)
  have failed: "prompts_inv A L d1 \<Longrightarrow> prompts_inv A L (auth_failed dbg d1)" for d1
    by (auto simp: auth_failed_def settle_def finish_turn_inv push_ev_inv intro: prompts_inv_same simp: waiting_def split: driver_phase.splits)
  have again: "prompts_inv A (L \<union> (case dr_phase d of TurnAuth n t \<Rightarrow> {n} | _ \<Rightarrow> {})) (auth_done dbg (d\<lparr>dr_channel := rest\<rparr>))"
    if "prompts_of (dr_channel d) = prompts_of rest" for rest
    using auth_done_inv [OF take [OF that]] by simp
  have refuse: "prompts_inv A L (d\<lparr>dr_channel := rest, dr_refused := dr_refused d @ [(n, t)]\<rparr>)" if "dr_channel d = (n, AcPrompt t) # rest" for n t rest
    using assms that by (auto simp: prompts_inv_def waiting_def sorted_wrt_append requests_ok_def)
  show ?thesis
  proof (cases "\<exists>n meth rest. dr_channel d = (n, AcAuthenticate meth) # rest \<and> ok \<and> (dr_phase d = SetupAuth \<or> (\<exists>m t. dr_phase d = TurnAuth m t))")
    case True
    then obtain n meth rest where c: "dr_channel d = (n, AcAuthenticate meth) # rest" and ok: ok by blast
    show ?thesis using True again [of rest] c ok by (auto simp: auth_command_def logs_in_def)
  next
    case False
    then have "logs_in d (AuthCommand ok) = {}" by (auto simp: logs_in_def split: driver_phase.splits bool.splits list.splits acp_command.splits)
    then show ?thesis using False assms take failed refuse push_ev_inv
      by (auto simp: auth_command_def split: driver_phase.splits list.splits acp_command.splits)
  qed
qed

lemma end_driver_inv:
  assumes "prompts_inv A L d"
  shows "prompts_inv A L (end_driver d)"
  using assms by (auto simp: prompts_inv_def end_driver_def waiting_def sorted_wrt_append requests_ok_def)

lemma retry_or_stop_inv:
  assumes "prompts_inv A L d"
  shows "prompts_inv A L (retry_or_stop dbg dec uptime d)"
proof -
  have base: "prompts_inv A L (d\<lparr>dr_retry := rt, dr_established := False\<rparr>)" for rt by (rule prompts_inv_same [OF assms]) (simp_all add: waiting_def)
  have sleep: "prompts_inv A L ((push_ev dbg ev (d\<lparr>dr_retry := rt, dr_established := False\<rparr>))\<lparr>dr_phase := Sleeping\<rparr>)" for ev rt
    by (rule prompts_inv_same [OF assms]) (simp_all add: waiting_def)
  show ?thesis using assms base sleep
    by (auto simp: retry_or_stop_def Let_def end_driver_inv push_ev_inv split: driver_phase.splits prod.splits retry_action.splits option.splits)
qed

lemma driver_next_inv:
  assumes inv: "prompts_inv A L d" and "\<forall>r. e \<noteq> TurnResult r" "\<forall>ok. e \<noteq> AuthCommand ok"
  shows "prompts_inv A L (driver_next dbg dec d e)"
proof -
  have send: "prompts_inv A L (fst (send_command full cmd d))" for full cmd by (rule send_command_inv [OF inv])
  show ?thesis
  proof (cases e)
    case (Prompt t)
    have "prompts_inv A L d'" if "send_command full cmd d = (d', x)" for full cmd d' x using send [of full cmd] that by simp
    then show ?thesis using inv Prompt by (auto simp: agent_prompt_def push_ev_inv split: sum.splits prod.splits)
  next
    case (SetupNeedsAuth methods)
    then show ?thesis by (auto simp: inv waiting_def intro!: prompts_inv_same [OF inv])
  next
    case (SetupDone methods)
    then show ?thesis by (auto simp: inv waiting_def intro!: prompts_inv_same [OF inv])
  next
    case SendersDropped
    then show ?thesis by (auto simp: waiting_def intro!: prompts_inv_same [OF inv])
  next
    case (ConnectionSettles x)
    then show ?thesis by (auto simp: inv settle_def waiting_def intro!: prompts_inv_same [OF inv])
  next
    case Wake
    then show ?thesis by (auto simp: inv waiting_def intro!: prompts_inv_same [OF inv])
  qed (use assms send in \<open>auto simp: agent_set_mode_def agent_set_config_def agent_set_model_def agent_authenticate_def agent_cancel_def send_agent_command_def
      next_command_inv turn_command_inv push_ev_inv retry_or_stop_inv split: sum.splits option.splits agent_config_value.splits\<close>)
qed

interpretation prompts: step_invariant "driver_account dbg dec" "\<lambda>(d, asked, logins). prompts_inv asked logins d" for dbg dec
proof unfold_locales
  fix x :: "driver \<times> nat set \<times> nat set" and e :: driver_step
  assume "case x of (d, asked, logins) \<Rightarrow> prompts_inv asked logins d"
  then obtain d A L where x: "x = (d, A, L)" and inv: "prompts_inv A L d" by (cases x) auto
  have "prompts_inv (A \<union> asks_login d e) (L \<union> logs_in d e) (driver_next dbg dec d e)"
  proof (cases e)
    case (TurnResult r)
    then show ?thesis using turn_result_inv [OF inv, of r dbg] by (simp add: logs_in_def split: driver_phase.splits)
  next
    case (AuthCommand ok)
    then show ?thesis using auth_command_inv [OF inv, of ok dbg] by (simp add: asks_login_def split: driver_phase.splits bool.splits)
  qed (use driver_next_inv [OF inv, of e dbg dec] in \<open>auto simp: asks_login_def logs_in_def split: driver_phase.splits bool.splits\<close>)
  then show "case driver_account dbg dec x e of (d, asked, logins) \<Rightarrow> prompts_inv asked logins d" by (simp add: x del: driver_next.simps)
qed

lemma new_driver_inv: "prompts_inv {} {} new_driver"
  by (simp add: prompts_inv_def new_driver_def waiting_def requests_ok_def resends_def)

text \<open>
  C21. No message to an agent is lost, reordered or repeated without a reason: however messages, controls, turns, logins, crashes of the adapter and reconnects interleave, every message
  accepted was sent to the agent, was refused because the agent waited for a login, was dropped by a cancel or at the end of the driver, or still waits, and only one of these; the messages
  sent and those waiting are in the order in which they were accepted; and the requests made to the agent are the messages sent, in this order, once each - twice, one after the other, exactly for those during whose
  turn a login succeeded, and every one of these is a message whose turn the agent had answered by asking for a login.
\<close>

theorem prompts_in_order:
  assumes "foldl (driver_account dbg dec) (new_driver, {}, {}) es = (d, asked, logins)"
  shows "mset (dr_accepted d) = mset (dr_sent d @ dr_refused d @ dr_dropped d @ waiting d) \<and> distinct (dr_accepted d) \<and>
     sorted_wrt (<) (map fst (dr_sent d @ waiting d)) \<and>
     dr_requests d = concat (map (\<lambda>(n, t). if n \<in> logins then [t, t] else [t]) (dr_sent d)) \<and> logins \<subseteq> asked"
proof -
  have "prompts_inv asked logins d"
    using prompts.run_inv [of "(new_driver, {}, {})" dbg dec es] new_driver_inv assms by simp
  moreover have "sorted_wrt (<) (map fst xs) \<Longrightarrow> distinct xs" for xs :: "(nat \<times> rust_str) list" by (induction xs) auto
  ultimately show ?thesis by (auto simp: prompts_inv_def requests_ok_def resends_def)
qed

text \<open>
  The agent asks for a login during the first of two messages, which is repeated once somebody has logged in; then the adapter dies and the second one waits for the
  next connection.
\<close>

definition login_method :: agent_auth_method where
  "login_method = \<lparr>aam_id = ''key'', aam_name = ''key'', aam_description = None\<rparr>"

definition crash_run :: "driver_step list" where
  "crash_run = [Prompt [97], SetupDone [login_method], NextCommand None, TurnResult (TurnNeedsAuth ''login''), Authenticate ''key'', AuthCommand True,
     Prompt [98], TurnCommand None, ConnectionSettles (Some ''exit'')]"

lemma plain_prompt:
  assumes "c \<notin> {47} \<and> \<not> is_whitespace c \<and> c < 128"
  shows "driver_next dbg dec d (Prompt [c]) =
     (if dr_receiver d \<and> length (dr_channel d) < AGENT_PROMPT_QUEUE
      then push_ev dbg (EvUserMessage (agent_text (to_wire [c])))
        (d\<lparr>dr_channel := dr_channel d @ [(dr_next d, AcPrompt [c])], dr_next := Suc (dr_next d), dr_accepted := dr_accepted d @ [(dr_next d, [c])]\<rparr>)
      else d)"
proof -
  have t: "trim_start [c] = [c]" "trim_str [c] = [c]" using assms by (simp_all add: trim_start_def trim_str_def)
  have "str_len [c] \<le> MAX_AGENT_PROMPT_BYTES" using assms by (simp add: len_utf8_def MAX_AGENT_PROMPT_BYTES_def encode_char_def)
  then show ?thesis using assms
    by (auto simp: agent_prompt_def agent_command_for_text_def is_portty_control_command_def unknown_command_def t str_of_def strip_prefix_def send_command_def Let_def)
qed

theorem prompts_in_order_witness:
  "case foldl (driver_account (\<lambda>_. 0) (\<lambda>_. ''1'')) (new_driver, {}, {}) crash_run of (d, asked, logins) \<Rightarrow>
     map fst (dr_sent d) = [0] \<and> map fst (waiting d) = [2] \<and> dr_requests d = [[97], [97]] \<and> logins = {0} \<and> logins \<subseteq> asked \<and> distinct (dr_accepted d)"
proof -
  obtain d A L where run: "foldl (driver_account (\<lambda>_. 0) (\<lambda>_. ''1'')) (new_driver, {}, {}) crash_run = (d, A, L)" by (metis prod_cases3)
  have "case foldl (driver_account (\<lambda>_. 0) (\<lambda>_. ''1'')) (new_driver, {}, {}) crash_run of (d, A, L) \<Rightarrow>
      dr_sent d = [(0, [97])] \<and> map fst (waiting d) = [2] \<and> L = {0}"
    unfolding crash_run_def foldl.simps
    by (simp add: plain_prompt is_whitespace_def new_driver_def AGENT_PROMPT_QUEUE_def next_command_def begin_turn_def turn_command_def settle_def connected_def
        turn_result_step_def agent_authenticate_def validate_agent_control_id_def auth_command_def auth_done_def asks_login_def logs_in_def login_method_def
        MAX_AGENT_SHORT_TEXT_BYTES_def send_agent_command_def send_command_def waiting_def Let_def del: driver_next.simps(1))
  then show ?thesis using prompts_in_order [OF run] unfolding run by auto
qed

text \<open>The bound of the channel does not bound what waits: while a turn runs, the driver moves messages on into a queue without a bound.\<close>

lemma waiting_unbounded:
  assumes "dr_phase d = Turn n t b" "dr_channel d = []" "dr_receiver d"
    and "trim_str u \<noteq> []" "str_len u \<le> MAX_AGENT_PROMPT_BYTES" "\<forall>h. agent_command_for_text dec h u = Inr (AcPrompt u)"
  shows "length (dr_queued (foldl (driver_next dbg dec) d (concat (replicate k [Prompt u, TurnCommand None])))) = length (dr_queued d) + k"
  using assms(1-3)
proof (induction k arbitrary: d)
  case (Suc k)
  let ?d = "driver_next dbg dec (driver_next dbg dec d (Prompt u)) (TurnCommand None)"
  have "dr_phase ?d = Turn n t b \<and> dr_channel ?d = [] \<and> dr_receiver ?d \<and> length (dr_queued ?d) = Suc (length (dr_queued d))"
    using Suc.prems assms(4-6) by (auto simp: agent_prompt_def send_command_def AGENT_PROMPT_QUEUE_def turn_command_def push_ev_def)
  then show ?case using Suc.IH [of ?d] by (simp del: driver_next.simps)
qed simp

end
