(* ===== verification/Relay_Protocol.thy ===== *)
theory Relay_Protocol
  imports Frame_Codec Protocol
begin

unbundle bit_operations_syntax

text \<open>
  The local pipe between the daemon and the \<open>portty\<close> command, \<open>crates/protocol/src/relay.rs\<close> and the framing at the end
  of \<open>crates/host/src/relay_pipe.rs\<close>: the messages of both directions with every variant in declaration order, frames
  with a little-endian length, and the checks on the socket's directory and on the socket.
\<close>

section \<open>Messages\<close>

definition MAX_RELAY_FRAME_BYTES :: u32 where "MAX_RELAY_FRAME_BYTES = 256 * 1024"
definition RELAY_PIPE_VERSION :: u16 where "RELAY_PIPE_VERSION = 2"

datatype (plugins only: code) relay_to_host =
    RhRegister string u16 u16
  | RhOutput bytes
  | RhExited
  | RhLocalTookSize
  | RhReopenPairing
  | RhSizeChanged u16 u16
  | RhOpenAgent agent_provider bool
  | RhAgentPrompt string
  | RhAgentDecision string "string option"
  | RhAgentCancel
  | RhRevokeDevices "bytes list"
  | RhAgentSetMode string
  | RhAgentSetConfig string agent_config_value
  | RhAgentAuthenticate string
  | RhAgentSetModel string
  | RhShutdown
  | RhPairingConfirmResponse bool
  | RhPing

datatype (plugins only: code) host_to_relay =
    HrInput bytes
  | HrResize u16 u16
  | HrKill
  | HrRestoreLocalSize
  | HrPairingInfo string string string u64
  | HrAgentOpened session_id string bool
  | HrAgentEvent agent_timeline_event
  | HrAgentPermission tool_call_card "permission_option list"
  | HrAgentPermissionResolved string
  | HrAgentGone string
  | HrAgentError string
  | HrRevocationResult "bytes list" "string option"
  | HrShutdownAccepted
  | HrPairingConfirmRequest string string
  | HrPong

section \<open>Frames of the pipe\<close>

definition read_framed :: "source \<Rightarrow> (io_error + bytes \<times> source) option" where
  "read_framed r =
     (case read_exact r 4 of
        None \<Rightarrow> None
      | Some (Inl e) \<Rightarrow> Some (Inl e)
      | Some (Inr (hdr, r1)) \<Rightarrow>
          (let len = word_of_nat (from_le hdr) :: u32 in
           if len > MAX_RELAY_FRAME_BYTES then Some (Inl (IoError OtherKind ''relay frame too large''))
           else read_exact r1 (unat len)))"

definition write_framed :: "sink \<Rightarrow> bytes \<Rightarrow> sink \<times> io_error option" where
  "write_framed w payload =
     (if length payload > unat MAX_RELAY_FRAME_BYTES then (w, Some (IoError OtherKind ''relay frame too large''))
      else case write_all w (to_le 4 (unat (word_of_nat (length payload) :: u32))) of
        (w1, Some e) \<Rightarrow> (w1, Some e)
      | (w1, None) \<Rightarrow>
          (case write_all w1 payload of
             (w2, Some e) \<Rightarrow> (w2, Some e)
           | (w2, None) \<Rightarrow> flush_sink w2))"

definition relay_fits :: "bytes \<Rightarrow> bool" where
  "relay_fits payload \<longleftrightarrow> length payload \<le> unat MAX_RELAY_FRAME_BYTES"

definition relay_bytes :: "bytes \<Rightarrow> bytes" where
  "relay_bytes payload = to_le 4 (length payload) @ payload"

definition decode_relay :: "bytes \<Rightarrow> (bytes \<times> bytes) option" where
  "decode_relay bs =
     (case read_framed \<lparr>arriving = bs, afterwards = Eof\<rparr> of Some (Inr (p, r)) \<Rightarrow> Some (p, arriving r) | _ \<Rightarrow> None)"

lemma unat_MAX_RELAY [simp]: "unat MAX_RELAY_FRAME_BYTES = 262144"
  by (simp add: MAX_RELAY_FRAME_BYTES_def)

lemma write_framed_unbounded:
  "write_framed \<lparr>written = pre, buffered = [], room = None, flush_error = None\<rparr> payload =
     (if relay_fits payload then (\<lparr>written = pre @ relay_bytes payload, buffered = [], room = None, flush_error = None\<rparr>, None)
      else (\<lparr>written = pre, buffered = [], room = None, flush_error = None\<rparr>, Some (IoError OtherKind ''relay frame too large'')))"
  by (simp add: write_framed_def relay_fits_def relay_bytes_def write_all_def flush_sink_def unat_of_nat)

lemma to_le_length [simp]: "length (to_le k n) = k"
  by (simp add: to_le_def)

lemma read_framed_of_relay_bytes:
  assumes "relay_fits payload"
  shows "read_framed \<lparr>arriving = relay_bytes payload @ rest, afterwards = e\<rparr> = Some (Inr (payload, \<lparr>arriving = rest, afterwards = e\<rparr>))"
proof -
  have n: "length payload < 2 ^ 32" using assms by (simp add: relay_fits_def)
  have len: "unat (word_of_nat (from_le (to_le 4 (length payload))) :: u32) = length payload"
    using n by (simp add: from_le_to_le unat_of_nat)
  then have "\<not> (word_of_nat (from_le (to_le 4 (length payload))) :: u32) > MAX_RELAY_FRAME_BYTES"
    using assms by (simp add: word_less_nat_alt relay_fits_def)
  then show ?thesis
    using len by (simp add: read_framed_def relay_bytes_def read_exact_def Let_def del: to_be_numeral)
qed

interpretation relay_frames: wire_codec relay_fits relay_bytes decode_relay
  by unfold_locales (simp add: decode_relay_def read_framed_of_relay_bytes)

text \<open>A sequence of messages written to the pipe is read back as it was written, one at a time.\<close>

lemma relay_stream_roundtrip:
  "(\<forall>p \<in> set ps. relay_fits p) \<Longrightarrow> decode_many decode_relay (length ps) (concat (map relay_bytes ps) @ rest) = Some (ps, rest)"
  by (rule relay_frames.stream_roundtrip)

section \<open>The socket\<close>

text \<open>What \<open>symlink_metadata\<close> tells, and a directory tree as far as it is asked.\<close>

record socket_meta =
  fm_is_dir :: bool
  fm_is_symlink :: bool
  fm_is_socket :: bool
  fm_uid :: u32
  fm_mode :: u32

type_synonym meta_tree = "(string, socket_meta) hashmap"

definition symlink_metadata :: "meta_tree \<Rightarrow> string \<Rightarrow> io_error + socket_meta" where
  "symlink_metadata fs p = (case hm_get fs p of None \<Rightarrow> Inl (IoError NotFound ''no such file'') | Some m \<Rightarrow> Inr m)"

definition others_bits :: u32 where "others_bits = 63"

definition validate_socket_dir_at :: "u32 \<Rightarrow> string \<Rightarrow> bool \<Rightarrow> meta_tree \<Rightarrow> io_error + unit" where
  "validate_socket_dir_at our_uid p require_private fs =
     (if take 1 p \<noteq> ''/'' then Inl (IoError InvalidInput ''relay socket directory must be an absolute path'')
      else case symlink_metadata fs p of
        Inl e \<Rightarrow> Inl e
      | Inr m \<Rightarrow>
          if \<not> fm_is_dir m \<or> fm_is_symlink m then Inl (IoError PermissionDenied ''relay socket directory is not a real directory'')
          else if fm_uid m \<noteq> our_uid then Inl (IoError PermissionDenied ''relay socket directory is owned by another user'')
          else if require_private \<and> fm_mode m AND others_bits \<noteq> 0
          then Inl (IoError PermissionDenied ''relay socket directory is accessible by another user'')
          else Inr ())"

text \<open>\<open>create_dir\<close> makes a directory of the process with the mode the umask leaves; it and \<open>set_permissions\<close> may fail.\<close>

definition prepare_socket_dir_at ::
  "u32 \<Rightarrow> u32 \<Rightarrow> io_error option \<Rightarrow> io_error option \<Rightarrow> string \<Rightarrow> meta_tree \<Rightarrow> meta_tree \<times> (io_error + unit)" where
  "prepare_socket_dir_at our_uid umask_mode create_fault chmod_fault p fs =
     (if take 1 p \<noteq> ''/'' then (fs, Inl (IoError InvalidInput ''relay socket directory must be an absolute path''))
      else let created =
             (case create_fault of
                Some e \<Rightarrow> (fs, Inl e)
              | None \<Rightarrow>
                  if hm_contains fs p then (fs, Inl (IoError AlreadyExists ''file exists''))
                  else (hm_insert p \<lparr>fm_is_dir = True, fm_is_symlink = False, fm_is_socket = False, fm_uid = our_uid, fm_mode = umask_mode\<rparr> fs, Inr ()))
        in case created of
          (fs1, r) \<Rightarrow>
            if (case r of Inl e \<Rightarrow> io_error_kind e \<noteq> AlreadyExists | Inr _ \<Rightarrow> False) then (fs1, r)
            else case validate_socket_dir_at our_uid p False fs1 of
              Inl e \<Rightarrow> (fs1, Inl e)
            | Inr _ \<Rightarrow>
                (case chmod_fault of
                   Some e \<Rightarrow> (fs1, Inl e)
                 | None \<Rightarrow>
                     let fs2 = (case hm_get fs1 p of None \<Rightarrow> fs1 | Some m \<Rightarrow> hm_insert p (m\<lparr>fm_mode := 448\<rparr>) fs1)
                     in (fs2, validate_socket_dir_at our_uid p True fs2)))"

definition validate_socket_endpoint_at :: "u32 \<Rightarrow> string \<Rightarrow> string \<Rightarrow> meta_tree \<Rightarrow> io_error + unit" where
  "validate_socket_endpoint_at our_uid parent_dir p fs =
     (case validate_socket_dir_at our_uid parent_dir True fs of
        Inl e \<Rightarrow> Inl e
      | Inr _ \<Rightarrow>
          (case symlink_metadata fs p of
             Inl e \<Rightarrow> Inl e
           | Inr m \<Rightarrow>
               if \<not> fm_is_socket m \<or> fm_is_symlink m then Inl (IoError PermissionDenied ''relay endpoint is not a Unix socket'')
               else if fm_uid m \<noteq> our_uid \<or> fm_mode m AND others_bits \<noteq> 0
               then Inl (IoError PermissionDenied ''relay socket is not private to the current user'')
               else Inr ()))"

definition private_to :: "u32 \<Rightarrow> socket_meta \<Rightarrow> bool" where
  "private_to our_uid m \<longleftrightarrow> \<not> fm_is_symlink m \<and> fm_uid m = our_uid \<and> fm_mode m AND others_bits = 0"

text \<open>
  A directory that was accepted is a directory of this user that no one else can enter, and one that existed before was
  this user's already; a foreign or linked one is left as it was.
\<close>

theorem socket_dir_private:
  assumes "prepare_socket_dir_at our_uid umask_mode create_fault chmod_fault p fs = (fs', Inr ())"
  shows "\<exists>m. hm_get fs' p = Some m \<and> fm_is_dir m \<and> private_to our_uid m \<and> take 1 p = ''/'' \<and>
     (\<forall>m0. hm_get fs p = Some m0 \<longrightarrow> fm_is_dir m0 \<and> \<not> fm_is_symlink m0 \<and> fm_uid m0 = our_uid)"
  using assms
  by (auto simp: prepare_socket_dir_at_def validate_socket_dir_at_def symlink_metadata_def private_to_def Let_def hm_contains_def
      split: if_splits option.splits sum.splits prod.splits)

theorem socket_dir_private_witness:
  "fst (prepare_socket_dir_at 1000 493 None None ''/run'' []) =
     [(''/run'', \<lparr>fm_is_dir = True, fm_is_symlink = False, fm_is_socket = False, fm_uid = 1000, fm_mode = 448\<rparr>)] \<and>
   (\<exists>m. hm_get (fst (prepare_socket_dir_at 1000 493 None None ''/run'' [])) ''/run'' = Some m \<and> private_to 1000 m)"
proof -
  have r: "prepare_socket_dir_at 1000 493 None None ''/run'' [] =
      ([(''/run'', \<lparr>fm_is_dir = True, fm_is_symlink = False, fm_is_socket = False, fm_uid = 1000, fm_mode = 448\<rparr>)], Inr ())"
    by (simp add: prepare_socket_dir_at_def validate_socket_dir_at_def symlink_metadata_def others_bits_def)
  from socket_dir_private [OF this] r show ?thesis by auto
qed

end
