(* ===== verification/Session_Manager.thy ===== *)
theory Session_Manager
  imports Relay_Protocol Scrollback Terminal_Text "HOL-Library.Multiset"
begin

text \<open>
  \<open>SessionManager\<close> and the parts of \<open>Session\<close> that do not concern output or agents' timelines
  (\<open>crates/host/src/session.rs\<close>): capacity, ids, the registry, creation of shells, adopted terminals and agents, kill,
  removal of the dead, renaming, input and sizes. A creation reserves its slot and its id, then does work
  that may fail, and then enters the registry under the lock; other tasks run in between, so these are separate
  steps of a creation \<open>c\<close>.
\<close>

section \<open>Limits\<close>

definition DEFAULT_SCROLLBACK_BYTES :: nat where "DEFAULT_SCROLLBACK_BYTES = 256 * 1024"
definition DEFAULT_MAX_SESSIONS :: nat where "DEFAULT_MAX_SESSIONS = 64"
definition DEFAULT_PTY_COLS :: u16 where "DEFAULT_PTY_COLS = 160"
definition DEFAULT_PTY_ROWS :: u16 where "DEFAULT_PTY_ROWS = 48"
definition ADOPTED_CTRL_QUEUE :: nat where "ADOPTED_CTRL_QUEUE = 1024"

definition clamp :: "'a :: linorder \<Rightarrow> 'a \<Rightarrow> 'a \<Rightarrow> 'a" where
  "clamp n lo hi = (if n < lo then lo else if n > hi then hi else n)"

text \<open>The values of the environment variables, parsed; \<open>None\<close> when unset or malformed.\<close>

definition max_sessions :: "nat option \<Rightarrow> nat" where
  "max_sessions var = (case var of None \<Rightarrow> DEFAULT_MAX_SESSIONS | Some n \<Rightarrow> clamp n 1 1024)"

definition scrollback_cap_from_env :: "nat option \<Rightarrow> nat" where
  "scrollback_cap_from_env var = (case var of None \<Rightarrow> DEFAULT_SCROLLBACK_BYTES | Some n \<Rightarrow> clamp n (4 * 1024) (4 * 1024 * 1024))"

definition fixed_pty_size :: "u16 option \<Rightarrow> u16 option \<Rightarrow> u16 \<times> u16" where
  "fixed_pty_size cols rows =
     (case cols of None \<Rightarrow> DEFAULT_PTY_COLS | Some n \<Rightarrow> clamp n 20 500, case rows of None \<Rightarrow> DEFAULT_PTY_ROWS | Some n \<Rightarrow> clamp n 10 200)"

section \<open>State\<close>

text \<open>
  What is behind a session: a PTY with what was written to it, the bounded queue to a \<open>portty share\<close> process, or an
  agent with the conversation it owns, whether its command channel is open, and whether the abort handle of its driver task
  has been stored (\<open>AcpHandle::driver\<close>). Strings are their UTF-8 bytes.
\<close>

record pty =
  pt_open :: bool
  pt_written :: bytes

record relay_queue =
  rq_msgs :: "host_to_relay list"
  rq_closed :: bool

record acp_handle =
  ac_conversation :: "string option"
  ac_alive :: bool
  ac_driver :: bool

datatype backend = PtyBackend pty | AdoptedBackend relay_queue | AcpBackend acp_handle

record session =
  ss_session_title :: bytes
  ss_session_kind :: session_kind
  ss_session_source :: session_source
  ss_session_provider :: "agent_provider option"
  ss_backend :: backend
  ss_output :: session_output

datatype manager_event = EvAdded session_id | EvRemoved session_id | EvResized session_id u16 u16

text \<open>
  \<open>mg_slots\<close> is the semaphore, \<open>mg_creating\<close> the creations that hold a slot and an id and are not yet in the
  registry. \<open>mg_pruned\<close> are the conversations a kill asked to remove from the cache. \<open>mg_starting\<close> are the agents
  registered whose creation has still to spawn the driver (\<open>False\<close>) or to store its abort handle (\<open>True\<close>). \<open>mg_children\<close> and
  \<open>mg_drivers\<close> are what runs: the child processes of the PTYs and the driver tasks of the agents, each by the
  id of the session it was started for, whether or not that session is still listed.
\<close>

record manager =
  mg_next_id :: session_id
  mg_sessions :: "(session_id, session) hashmap"
  mg_max :: nat
  mg_slots :: nat
  mg_creating :: "(nat, session_id) hashmap"
  mg_cap :: nat
  mg_events :: "manager_event list"
  mg_pruned :: "(agent_provider option \<times> string) list"
  mg_starting :: "(session_id, bool) hashmap"
  mg_children :: "session_id list"
  mg_drivers :: "session_id list"

definition new_with_limits :: "nat \<Rightarrow> nat \<Rightarrow> manager" where
  "new_with_limits cap limit =
     \<lparr>mg_next_id = 1, mg_sessions = [], mg_max = limit, mg_slots = limit, mg_creating = [], mg_cap = cap, mg_events = [], mg_pruned = [],
      mg_starting = [], mg_children = [], mg_drivers = []\<rparr>"

definition session_info_of :: "session_id \<Rightarrow> session \<Rightarrow> session_info" where
  "session_info_of sid s =
     \<lparr>si_id = sid, si_title = map (\<lambda>b. char_of (unat b)) (ss_session_title s), si_kind = ss_session_kind s, si_source = ss_session_source s,
      si_has_activity = so_unseen (ss_output s)\<rparr>"

definition list_sessions :: "manager \<Rightarrow> session_info list" where
  "list_sessions m = map (\<lambda>(sid, s). session_info_of sid s) (mg_sessions m)"

section \<open>Creation\<close>

text \<open>\<open>reserve_capacity\<close>, then \<open>next_id\<close>.\<close>

definition reserve_capacity :: "nat \<Rightarrow> manager \<Rightarrow> manager \<times> (string + session_id)" where
  "reserve_capacity c m =
     (if mg_slots m = 0 then (m, Inl ''session limit reached; close a session first'')
      else (m\<lparr>mg_slots := mg_slots m - 1, mg_next_id := mg_next_id m + 1, mg_creating := hm_insert c (mg_next_id m) (mg_creating m)\<rparr>,
            Inr (mg_next_id m)))"

text \<open>A failure on the way gives the permit back.\<close>

definition abandon_creation :: "nat \<Rightarrow> manager \<Rightarrow> manager" where
  "abandon_creation c m =
     (case hm_get (mg_creating m) c of
        None \<Rightarrow> m
      | Some _ \<Rightarrow> m\<lparr>mg_slots := mg_slots m + 1, mg_creating := hm_remove c (mg_creating m)\<rparr>)"

definition insert_session :: "nat \<Rightarrow> session \<Rightarrow> manager \<Rightarrow> manager" where
  "insert_session c s m =
     (case hm_get (mg_creating m) c of
        None \<Rightarrow> m
      | Some sid \<Rightarrow>
          m\<lparr>mg_sessions := hm_insert sid s (mg_sessions m), mg_creating := hm_remove c (mg_creating m),
            mg_events := mg_events m @ [EvAdded sid]\<rparr>)"

text \<open>The child of a shell runs when its session is registered.\<close>

definition finish_shell :: "nat \<Rightarrow> bytes option \<Rightarrow> u16 \<times> u16 \<Rightarrow> manager \<Rightarrow> manager" where
  "finish_shell c title dims m =
     (insert_session c
        \<lparr>ss_session_title = clamp_title (case title of None \<Rightarrow> map of_char ''shell'' | Some t \<Rightarrow> t), ss_session_kind = Shell, ss_session_source = Spawned,
         ss_session_provider = None, ss_backend = PtyBackend \<lparr>pt_open = True, pt_written = []\<rparr>,
         ss_output = new_output (mg_cap m) dims\<rparr> m)
       \<lparr>mg_children := (case hm_get (mg_creating m) c of None \<Rightarrow> mg_children m | Some sid \<Rightarrow> sid # mg_children m)\<rparr>"

definition register_adopted :: "nat \<Rightarrow> bytes \<Rightarrow> u16 \<times> u16 \<Rightarrow> manager \<Rightarrow> manager" where
  "register_adopted c title dims m =
     insert_session c
       \<lparr>ss_session_title = clamp_title title, ss_session_kind = Shell, ss_session_source = Adopted, ss_session_provider = None,
        ss_backend = AdoptedBackend \<lparr>rq_msgs = [], rq_closed = False\<rparr>, ss_output = new_output (mg_cap m) dims\<rparr> m"

text \<open>Whether a session of the same provider already owns a conversation.\<close>

definition owns :: "agent_provider option \<Rightarrow> string \<Rightarrow> session \<Rightarrow> bool" where
  "owns provider conversation s \<longleftrightarrow>
     ss_session_provider s = provider \<and> (case ss_backend s of AcpBackend h \<Rightarrow> ac_conversation h = Some conversation | _ \<Rightarrow> False)"

definition already_live :: "agent_provider option \<Rightarrow> string \<Rightarrow> manager \<Rightarrow> bool" where
  "already_live provider conversation m \<longleftrightarrow> list_ex (\<lambda>(_, s). owns provider conversation s) (mg_sessions m)"

text \<open>
  The last part of \<open>spawn_agent_with\<close>: the check and the registration under one lock. Its result is the conversation the
  driver resumes. The driver is spawned after that, and its abort handle is stored after it was spawned; the session can
  be killed before either. The creation has its own reference to the handle, so a kill does not keep it from going on.
\<close>

definition finish_agent ::
  "nat \<Rightarrow> bytes option \<Rightarrow> agent_provider option \<Rightarrow> string option \<Rightarrow> u16 \<times> u16 \<Rightarrow> manager \<Rightarrow> manager \<times> string option" where
  "finish_agent c title provider cached dims m =
     (let resume = (case cached of None \<Rightarrow> None | Some conversation \<Rightarrow> if already_live provider conversation m then None else Some conversation)
      in ((insert_session c
            \<lparr>ss_session_title = clamp_title (case title of None \<Rightarrow> map of_char ''agent'' | Some t \<Rightarrow> t), ss_session_kind = Agent, ss_session_source = Spawned,
             ss_session_provider = provider, ss_backend = AcpBackend \<lparr>ac_conversation = resume, ac_alive = True, ac_driver = False\<rparr>,
             ss_output = new_output (mg_cap m) dims\<rparr> m)
           \<lparr>mg_starting := (case hm_get (mg_creating m) c of None \<Rightarrow> mg_starting m | Some sid \<Rightarrow> hm_insert sid False (mg_starting m))\<rparr>, resume))"

section \<open>The registry\<close>

definition update_session :: "session_id \<Rightarrow> (session \<Rightarrow> session) \<Rightarrow> manager \<Rightarrow> manager" where
  "update_session sid f m =
     (case hm_get (mg_sessions m) sid of None \<Rightarrow> m | Some s \<Rightarrow> m\<lparr>mg_sessions := hm_insert sid (f s) (mg_sessions m)\<rparr>)"

definition spawn_driver :: "session_id \<Rightarrow> manager \<Rightarrow> manager" where
  "spawn_driver sid m =
     (if hm_get (mg_starting m) sid = Some False then m\<lparr>mg_starting := hm_insert sid True (mg_starting m), mg_drivers := sid # mg_drivers m\<rparr> else m)"

definition store_driver :: "session_id \<Rightarrow> manager \<Rightarrow> manager" where
  "store_driver sid m =
     (if hm_get (mg_starting m) sid = Some True
      then (update_session sid (\<lambda>s. case ss_backend s of AcpBackend h \<Rightarrow> s\<lparr>ss_backend := AcpBackend (h\<lparr>ac_driver := True\<rparr>)\<rparr> | _ \<Rightarrow> s) m)
        \<lparr>mg_starting := hm_remove sid (mg_starting m)\<rparr>
      else m)"

text \<open>The driver has set up its connection, with the conversation resumed or a new one; or it has ended.\<close>

definition record_conversation :: "session_id \<Rightarrow> string \<Rightarrow> manager \<Rightarrow> manager" where
  "record_conversation sid conversation m =
     (if sid \<in> set (mg_drivers m)
      then update_session sid (\<lambda>s. case ss_backend s of
        AcpBackend h \<Rightarrow> s\<lparr>ss_backend := AcpBackend (h\<lparr>ac_conversation := Some conversation\<rparr>)\<rparr>
      | _ \<Rightarrow> s) m
      else m)"

definition driver_ended :: "session_id \<Rightarrow> manager \<Rightarrow> manager" where
  "driver_ended sid m =
     (if sid \<in> set (mg_drivers m)
      then (update_session sid (\<lambda>s. case ss_backend s of
        AcpBackend h \<Rightarrow> s\<lparr>ss_backend := AcpBackend (h\<lparr>ac_alive := False\<rparr>)\<rparr> | _ \<Rightarrow> s) m)\<lparr>mg_drivers := removeAll sid (mg_drivers m)\<rparr>
      else m)"

definition newest_live_agent :: "agent_provider \<Rightarrow> manager \<Rightarrow> session_id option" where
  "newest_live_agent provider m =
     (let live = map fst (filter (\<lambda>(_, s). ss_session_provider s = Some provider \<and> (case ss_backend s of AcpBackend h \<Rightarrow> ac_alive h | _ \<Rightarrow> False)) (mg_sessions m))
      in if live = [] then None else Some (Max (set live)))"

definition rename_session :: "session_id \<Rightarrow> bytes \<Rightarrow> manager \<Rightarrow> manager \<times> bool" where
  "rename_session sid title m =
     (if hm_contains (mg_sessions m) sid then (update_session sid (\<lambda>s. s\<lparr>ss_session_title := clamp_title title\<rparr>) m, True) else (m, False))"

text \<open>\<open>mpsc::Sender::try_send\<close> of the queue to a relay process.\<close>

datatype send_result = SendOk | SendFull | SendClosed

definition try_send :: "host_to_relay \<Rightarrow> relay_queue \<Rightarrow> relay_queue \<times> send_result" where
  "try_send msg q =
     (if rq_closed q then (q, SendClosed)
      else if length (rq_msgs q) \<ge> ADOPTED_CTRL_QUEUE then (q, SendFull)
      else (q\<lparr>rq_msgs := rq_msgs q @ [msg]\<rparr>, SendOk))"

definition remove_session :: "session_id \<Rightarrow> manager \<Rightarrow> manager" where
  "remove_session sid m =
     m\<lparr>mg_sessions := hm_remove sid (mg_sessions m), mg_slots := mg_slots m + 1, mg_events := mg_events m @ [EvRemoved sid]\<rparr>"

text \<open>
  \<open>kill\<close> answers whether a session was removed, and with it what became of its backend. The result of killing the child is
  ignored; \<open>fault\<close> is its error. Only a driver whose abort handle is there is aborted.
\<close>

definition kill_session :: "io_error option \<Rightarrow> session_id \<Rightarrow> manager \<Rightarrow> manager \<times> bool \<times> backend option" where
  "kill_session fault sid m =
     (case hm_get (mg_sessions m) sid of
        None \<Rightarrow> (m, False, None)
      | Some s \<Rightarrow>
          (case ss_backend s of
             AdoptedBackend q \<Rightarrow>
               (case try_send HrKill q of
                  (q', SendFull) \<Rightarrow> (m, False, None)
                | (q', _) \<Rightarrow> (remove_session sid m, True, Some (AdoptedBackend q')))
           | PtyBackend p \<Rightarrow>
               ((remove_session sid m)\<lparr>mg_children := (case fault of None \<Rightarrow> removeAll sid (mg_children m) | Some _ \<Rightarrow> mg_children m)\<rparr>,
                True, Some (PtyBackend (p\<lparr>pt_open := False\<rparr>)))
           | AcpBackend h \<Rightarrow>
               ((remove_session sid m)
                  \<lparr>mg_drivers := (if ac_driver h then removeAll sid (mg_drivers m) else mg_drivers m),
                   mg_pruned := (case ac_conversation h of None \<Rightarrow> mg_pruned m | Some conversation \<Rightarrow> (ss_session_provider s, conversation) # mg_pruned m)\<rparr>,
                True, Some (AcpBackend (h\<lparr>ac_conversation := None, ac_driver := False\<rparr>)))))"

text \<open>The reader of a PTY came to its end, or a relay disconnected. The child of a PTY is waited for.\<close>

definition remove_dead :: "session_id \<Rightarrow> manager \<Rightarrow> manager" where
  "remove_dead sid m =
     (case hm_get (mg_sessions m) sid of
        None \<Rightarrow> m
      | Some s \<Rightarrow>
          (case ss_backend s of
             PtyBackend p \<Rightarrow> (remove_session sid m)\<lparr>mg_children := removeAll sid (mg_children m)\<rparr>
           | _ \<Rightarrow> remove_session sid m))"

section \<open>Input and sizes\<close>

definition write_input :: "session_id \<Rightarrow> bytes \<Rightarrow> io_error option \<Rightarrow> manager \<Rightarrow> manager \<times> (io_error + unit)" where
  "write_input sid bs fault m =
     (case hm_get (mg_sessions m) sid of
        None \<Rightarrow> (m, Inr ())
      | Some s \<Rightarrow>
          (case ss_backend s of
             PtyBackend p \<Rightarrow>
               (case fault of
                  Some e \<Rightarrow> (m, Inl e)
                | None \<Rightarrow> (update_session sid (\<lambda>s. s\<lparr>ss_backend := PtyBackend (p\<lparr>pt_written := pt_written p @ bs\<rparr>)\<rparr>) m, Inr ()))
           | AdoptedBackend q \<Rightarrow>
               (case try_send (HrInput bs) q of
                  (q', SendOk) \<Rightarrow> (update_session sid (\<lambda>s. s\<lparr>ss_backend := AdoptedBackend q'\<rparr>) m, Inr ())
                | (q', _) \<Rightarrow> (m, Inl (IoError BrokenPipe ''relay is gone'')))
           | AcpBackend h \<Rightarrow> (m, Inl (IoError InvalidInput ''agent sessions take prompts, not raw keystrokes''))))"

definition set_size :: "session_id \<Rightarrow> u16 \<times> u16 \<Rightarrow> manager \<Rightarrow> manager" where
  "set_size sid dims m =
     (case hm_get (mg_sessions m) sid of
        None \<Rightarrow> m
      | Some s \<Rightarrow>
          if so_size (ss_output s) = dims then m
          else (update_session sid (\<lambda>s. s\<lparr>ss_output := (ss_output s)\<lparr>so_size := dims\<rparr>\<rparr>) m)
            \<lparr>mg_events := mg_events m @ [EvResized sid (fst dims) (snd dims)]\<rparr>)"

definition resize_session :: "session_id \<Rightarrow> u16 \<times> u16 \<Rightarrow> io_error option \<Rightarrow> manager \<Rightarrow> manager \<times> (io_error + unit)" where
  "resize_session sid dims fault m =
     (case hm_get (mg_sessions m) sid of
        None \<Rightarrow> (m, Inr ())
      | Some s \<Rightarrow>
          if so_size (ss_output s) = dims then (m, Inr ())
          else case ss_backend s of
            PtyBackend p \<Rightarrow>
              if \<not> pt_open p then (m, Inl (IoError BrokenPipe ''session PTY is closed''))
              else (case fault of Some e \<Rightarrow> (m, Inl e) | None \<Rightarrow> (set_size sid dims m, Inr ()))
          | AdoptedBackend q \<Rightarrow> (m, Inl (IoError InvalidInput ''adopted sessions are sized by their own terminal''))
          | AcpBackend h \<Rightarrow> (m, Inr ()))"

definition push_session_output :: "session_id \<Rightarrow> bytes \<Rightarrow> manager \<Rightarrow> manager" where
  "push_session_output sid bs m = update_session sid (\<lambda>s. s\<lparr>ss_output := push_output bs (ss_output s)\<rparr>) m"

section \<open>Steps\<close>

datatype manager_step =
    ReserveCapacity nat
  | AbandonCreation nat
  | FinishShell nat "bytes option" "u16 \<times> u16"
  | FinishAdopted nat bytes "u16 \<times> u16"
  | FinishAgent nat "bytes option" "agent_provider option" "string option" "u16 \<times> u16"
  | SpawnDriver session_id
  | StoreDriver session_id
  | RecordConversation session_id string
  | DriverEnded session_id
  | Rename session_id bytes
  | KillStep session_id "io_error option"
  | RemoveDead session_id
  | WriteInput session_id bytes "io_error option"
  | SetSize session_id "u16 \<times> u16"
  | ResizeStep session_id "u16 \<times> u16" "io_error option"
  | PushOutput session_id bytes

fun registry_step :: "manager \<Rightarrow> manager_step \<Rightarrow> manager" where
  "registry_step m (ReserveCapacity c) = (if hm_contains (mg_creating m) c then m else fst (reserve_capacity c m))"
| "registry_step m (AbandonCreation c) = abandon_creation c m"
| "registry_step m (FinishShell c title dims) = finish_shell c title dims m"
| "registry_step m (FinishAdopted c title dims) = register_adopted c title dims m"
| "registry_step m (FinishAgent c title provider cached dims) = fst (finish_agent c title provider cached dims m)"
| "registry_step m (SpawnDriver sid) = spawn_driver sid m"
| "registry_step m (StoreDriver sid) = store_driver sid m"
| "registry_step m (RecordConversation sid conversation) = record_conversation sid conversation m"
| "registry_step m (DriverEnded sid) = driver_ended sid m"
| "registry_step m (Rename sid title) = fst (rename_session sid title m)"
| "registry_step m (KillStep sid fault) = fst (kill_session fault sid m)"
| "registry_step m (RemoveDead sid) = remove_dead sid m"
| "registry_step m (WriteInput sid bs fault) = fst (write_input sid bs fault m)"
| "registry_step m (SetSize sid dims) = set_size sid dims m"
| "registry_step m (ResizeStep sid dims fault) = fst (resize_session sid dims fault m)"
| "registry_step m (PushOutput sid bs) = push_session_output sid bs m"

section \<open>Capacity and ids\<close>

definition added_ids :: "manager \<Rightarrow> session_id list" where
  "added_ids m = concat (map (\<lambda>ev. case ev of EvAdded sid \<Rightarrow> [sid] | _ \<Rightarrow> []) (mg_events m))"

definition manager_inv :: "manager \<Rightarrow> bool" where
  "manager_inv m \<longleftrightarrow>
     hm_wf (mg_sessions m) \<and> hm_wf (mg_creating m) \<and> length (mg_sessions m) + length (mg_creating m) + mg_slots m = mg_max m \<and>
     distinct (added_ids m @ map snd (mg_creating m)) \<and> set (map fst (mg_sessions m)) \<subseteq> set (added_ids m) \<and>
     (\<forall>sid \<in> set (added_ids m @ map snd (mg_creating m)). sid < mg_next_id m)"

text \<open>The counter of ids has not come to its end.\<close>

definition ids_left :: "manager \<Rightarrow> manager_step \<Rightarrow> bool" where
  "ids_left m e \<longleftrightarrow> mg_next_id m + 1 \<noteq> 0"

lemma word_less_Suc: "(x :: 'a :: len word) + 1 \<noteq> 0 \<Longrightarrow> x < x + 1"
  using unatSuc [of x] by (simp add: word_less_nat_alt add.commute)

lemma hm_insert_new: "\<not> hm_contains m k \<Longrightarrow> hm_insert k v m = m @ [(k, v)]"
  by (induction m) (auto simp: hm_contains_def split: if_splits)

lemma hm_contains_set: "hm_contains m k \<longleftrightarrow> k \<in> set (map fst m)"
  by (simp add: hm_contains_def map_of_eq_None_iff)

lemma hm_remove_length: "hm_wf m \<Longrightarrow> hm_contains m k \<Longrightarrow> Suc (length (hm_remove k m)) = length m"
  by (induction m) (auto simp: hm_contains_set hm_remove_absent)

lemma hm_remove_keys: "map fst (hm_remove k m) = removeAll k (map fst m)"
  by (induction m) auto

lemma hm_remove_get:
  assumes "hm_wf m" "hm_get m k = Some v"
  shows "mset (map snd m) = add_mset v (mset (map snd (hm_remove k m)))"
  using assms by (induction m) (auto simp: hm_remove_absent)

text \<open>A change inside a session.\<close>

lemma update_session_fields [simp]:
  "mg_next_id (update_session sid f m) = mg_next_id m" "mg_max (update_session sid f m) = mg_max m" "mg_slots (update_session sid f m) = mg_slots m"
  "mg_creating (update_session sid f m) = mg_creating m" "mg_events (update_session sid f m) = mg_events m"
  by (simp_all add: update_session_def split: option.splits)

lemma update_session_keys [simp]: "map fst (mg_sessions (update_session sid f m)) = map fst (mg_sessions m)"
  by (auto simp: update_session_def update_keys map_of_eq_None_iff split: option.splits)

lemma update_session_length [simp]: "length (mg_sessions (update_session sid f m)) = length (mg_sessions m)"
  by (metis length_map update_session_keys)

lemma manager_inv_update: "manager_inv m \<Longrightarrow> manager_inv (update_session sid f m)"
  by (simp add: manager_inv_def added_ids_def del: set_map)

lemma reserve_capacity_inv:
  assumes "manager_inv m" "mg_next_id m + 1 \<noteq> 0" "\<not> hm_contains (mg_creating m) c"
  shows "manager_inv (fst (reserve_capacity c m))"
proof -
  have less: "mg_next_id m < mg_next_id m + 1" using assms(2) by (rule word_less_Suc)
  have "\<forall>sid \<in> set (added_ids m @ map snd (mg_creating m)). sid < mg_next_id m + 1" "mg_next_id m \<notin> set (added_ids m @ map snd (mg_creating m))"
    using assms(1) less by (auto simp: manager_inv_def intro: less_trans)
  then show ?thesis
    using assms(1,3) less by (auto simp: reserve_capacity_def manager_inv_def added_ids_def hm_insert_new hm_contains_set)
qed

lemma abandon_creation_inv:
  assumes "manager_inv m"
  shows "manager_inv (abandon_creation c m)"
proof (cases "hm_get (mg_creating m) c")
  case (Some sid)
  have m: "mset (map snd (mg_creating m)) = add_mset sid (mset (map snd (hm_remove c (mg_creating m))))"
    using assms Some by (intro hm_remove_get) (simp_all add: manager_inv_def)
  have "Suc (length (hm_remove c (mg_creating m))) = length (mg_creating m)"
    using assms Some by (intro hm_remove_length) (simp_all add: manager_inv_def hm_contains_def)
  moreover have "mset (added_ids m @ map snd (mg_creating m)) = add_mset sid (mset (added_ids m @ map snd (hm_remove c (mg_creating m))))"
    using m by simp
  then have "distinct (added_ids m @ map snd (hm_remove c (mg_creating m)))"
    "set (added_ids m @ map snd (hm_remove c (mg_creating m))) \<subseteq> set (added_ids m @ map snd (mg_creating m))"
    using assms unfolding manager_inv_def
    by (metis distinct.simps(2) mset.simps(2) mset_eq_imp_distinct_iff, metis mset.simps(2) mset_eq_setD set_subset_Cons)
  ultimately show ?thesis
    using assms Some by (auto simp: abandon_creation_def manager_inv_def added_ids_def simp del: set_map)
qed (simp add: abandon_creation_def assms)

lemma insert_session_inv:
  assumes "manager_inv m"
  shows "manager_inv (insert_session c s m)"
proof (cases "hm_get (mg_creating m) c")
  case (Some sid)
  have m: "mset (map snd (mg_creating m)) = add_mset sid (mset (map snd (hm_remove c (mg_creating m))))"
    using assms Some by (intro hm_remove_get) (simp_all add: manager_inv_def)
  have "sid \<in> set (map snd (mg_creating m))" using Some map_of_SomeD by (force intro: rev_image_eqI)
  then have new: "\<not> hm_contains (mg_sessions m) sid" using assms by (auto simp: manager_inv_def hm_contains_set)
  have len: "Suc (length (hm_remove c (mg_creating m))) = length (mg_creating m)"
    using assms Some by (intro hm_remove_length) (simp_all add: manager_inv_def hm_contains_def)
  have same: "mset (added_ids m @ map snd (mg_creating m)) = mset ((added_ids m @ [sid]) @ map snd (hm_remove c (mg_creating m)))"
    using m by simp
  have "added_ids (insert_session c s m) = added_ids m @ [sid]" using Some by (simp add: insert_session_def added_ids_def)
  moreover have "distinct ((added_ids m @ [sid]) @ map snd (hm_remove c (mg_creating m)))"
    using assms same unfolding manager_inv_def by (metis mset_eq_imp_distinct_iff)
  moreover have "set ((added_ids m @ [sid]) @ map snd (hm_remove c (mg_creating m))) = set (added_ids m @ map snd (mg_creating m))"
    using same by (metis mset_eq_setD)
  ultimately show ?thesis
    using assms Some new len unfolding manager_inv_def by (auto simp: insert_session_def hm_insert_new simp del: set_map)
qed (simp add: insert_session_def assms)

lemma remove_session_inv:
  assumes "manager_inv m" "hm_contains (mg_sessions m) sid"
  shows "manager_inv (remove_session sid m)"
  using assms hm_remove_length [of "mg_sessions m" sid] by (auto simp: manager_inv_def remove_session_def added_ids_def hm_remove_keys distinct_removeAll)

lemma set_size_inv: "manager_inv m \<Longrightarrow> manager_inv (set_size sid dims m)"
  using manager_inv_update by (auto simp: set_size_def manager_inv_def added_ids_def simp del: set_map split: option.splits)

lemma manager_inv_fields [simp]:
  "manager_inv (m\<lparr>mg_pruned := ps\<rparr>) = manager_inv m" "manager_inv (m\<lparr>mg_starting := st\<rparr>) = manager_inv m"
  "manager_inv (m\<lparr>mg_children := cs\<rparr>) = manager_inv m" "manager_inv (m\<lparr>mg_drivers := ds\<rparr>) = manager_inv m"
  by (simp_all add: manager_inv_def added_ids_def)

lemma kill_session_inv:
  assumes "manager_inv m"
  shows "manager_inv (fst (kill_session fault sid m))"
  using assms remove_session_inv [OF assms, of sid]
  by (auto simp: kill_session_def hm_contains_def split: option.splits backend.splits prod.splits send_result.splits)

lemma remove_dead_inv: "manager_inv m \<Longrightarrow> manager_inv (remove_dead sid m)"
  using remove_session_inv [of m sid] by (auto simp: remove_dead_def hm_contains_def split: option.splits backend.splits)

interpretation sessions: conditional_invariant registry_step manager_inv ids_left
proof unfold_locales
  fix m :: manager and e :: manager_step
  assume inv: "manager_inv m" and left: "ids_left m e"
  show "manager_inv (registry_step m e)"
  proof (cases e)
    case (ReserveCapacity c)
    then show ?thesis using inv left reserve_capacity_inv by (simp add: ids_left_def)
  qed (use inv in \<open>auto simp: abandon_creation_inv finish_shell_def register_adopted_def finish_agent_def Let_def insert_session_inv record_conversation_def
      driver_ended_def manager_inv_update rename_session_def kill_session_inv remove_dead_inv write_input_def set_size_inv spawn_driver_def store_driver_def
      resize_session_def push_session_output_def split: option.splits backend.splits prod.splits send_result.splits\<close>)
qed

lemma new_manager_inv: "manager_inv (new_with_limits cap limit)"
  by (simp add: manager_inv_def new_with_limits_def added_ids_def)

text \<open>
  C19. However creations, failures, kills and deaths interleave, at most the configured number of sessions are listed, no slot is ever lost
  (those free, those of creations under way and those of the sessions listed add up to the limit), and no two sessions ever
  announced had the same id.
\<close>

theorem sessions_bounded:
  assumes "run_ok registry_step ids_left (new_with_limits cap limit) es" "m = foldl registry_step (new_with_limits cap limit) es"
  shows "length (list_sessions m) + length (mg_creating m) + mg_slots m = limit \<and> distinct (added_ids m)"
proof -
  have "mg_max (registry_step m e) = mg_max m" for m e
    by (cases e) (auto simp: abandon_creation_def finish_shell_def register_adopted_def finish_agent_def Let_def insert_session_def reserve_capacity_def
      record_conversation_def driver_ended_def rename_session_def kill_session_def remove_session_def remove_dead_def write_input_def set_size_def
      spawn_driver_def store_driver_def resize_session_def push_session_output_def split: option.splits backend.splits prod.splits send_result.splits)
  then have "mg_max (foldl registry_step m es) = mg_max m" for m by (induction es arbitrary: m) simp_all
  moreover have "manager_inv m" using sessions.conditional_run [OF new_manager_inv assms(1)] assms(2) by simp
  ultimately show ?thesis using assms(2) by (simp add: manager_inv_def list_sessions_def new_with_limits_def)
qed

text \<open>A creation that fails after another one's session was killed.\<close>

theorem sessions_bounded_witness:
  "let es = [ReserveCapacity 0, ReserveCapacity 1, ReserveCapacity 2, FinishAdopted 1 [] (80, 24), KillStep 2 None, AbandonCreation 0];
       m = foldl registry_step (new_with_limits 4096 2) es
   in run_ok registry_step ids_left (new_with_limits 4096 2) es \<and> length (list_sessions m) + length (mg_creating m) + mg_slots m = 2 \<and>
      distinct (added_ids m) \<and> added_ids m = [2]"
proof -
  let ?es = "[ReserveCapacity 0, ReserveCapacity 1, ReserveCapacity 2, FinishAdopted 1 [] (80, 24), KillStep 2 None, AbandonCreation 0]"
  have run: "run_ok registry_step ids_left (new_with_limits 4096 2) ?es"
    by (simp add: ids_left_def new_with_limits_def reserve_capacity_def hm_contains_def register_adopted_def insert_session_def kill_session_def
        try_send_def ADOPTED_CTRL_QUEUE_def remove_session_def)
  moreover have "added_ids (foldl registry_step (new_with_limits 4096 2) ?es) = [2]"
    by (simp add: added_ids_def new_with_limits_def reserve_capacity_def hm_contains_def register_adopted_def insert_session_def kill_session_def
        try_send_def ADOPTED_CTRL_QUEUE_def remove_session_def abandon_creation_def)
  ultimately show ?thesis using sessions_bounded [OF run refl] by (simp add: Let_def)
qed

section \<open>Kill\<close>

text \<open>
  What runs belongs to a listed session, as long as no child survives its kill, no agent is killed while its creation is still starting
  the driver, and the dead that are removed are not agents (only the reader of a PTY and the connection of a
  relay remove a session so).
\<close>

definition runs_listed :: "manager \<Rightarrow> bool" where
  "runs_listed m \<longleftrightarrow>
     (\<forall>sid \<in> set (mg_children m). \<exists>s p. hm_get (mg_sessions m) sid = Some s \<and> ss_backend s = PtyBackend p) \<and>
     (\<forall>sid. hm_get (mg_starting m) sid \<noteq> None \<longrightarrow> (\<exists>s h. hm_get (mg_sessions m) sid = Some s \<and> ss_backend s = AcpBackend h)) \<and>
     (\<forall>sid \<in> set (mg_drivers m). \<exists>s h. hm_get (mg_sessions m) sid = Some s \<and> ss_backend s = AcpBackend h \<and>
        (ac_driver h \<or> hm_get (mg_starting m) sid = Some True))"

definition stops_cleanly :: "manager \<Rightarrow> manager_step \<Rightarrow> bool" where
  "stops_cleanly m e \<longleftrightarrow> mg_next_id m + 1 \<noteq> 0 \<and>
     (case e of
        KillStep sid fault \<Rightarrow> fault = None \<and> \<not> hm_contains (mg_starting m) sid
      | RemoveDead sid \<Rightarrow> (case hm_get (mg_sessions m) sid of None \<Rightarrow> True | Some s \<Rightarrow> (case ss_backend s of AcpBackend h \<Rightarrow> False | _ \<Rightarrow> True))
      | _ \<Rightarrow> True)"

text \<open>What a change inside a session must leave alone.\<close>

definition same_backend :: "session \<Rightarrow> session \<Rightarrow> bool" where
  "same_backend s t \<longleftrightarrow>
     (case ss_backend s of
        PtyBackend p \<Rightarrow> (\<exists>q. ss_backend t = PtyBackend q)
      | AdoptedBackend p \<Rightarrow> (\<exists>q. ss_backend t = AdoptedBackend q)
      | AcpBackend h \<Rightarrow> (\<exists>k. ss_backend t = AcpBackend k \<and> (ac_driver h \<longrightarrow> ac_driver k)))"

lemma update_session_runs [simp]:
  "mg_children (update_session sid f m) = mg_children m" "mg_starting (update_session sid f m) = mg_starting m" "mg_drivers (update_session sid f m) = mg_drivers m"
  by (simp_all add: update_session_def split: option.splits)

lemma runs_listed_fields [simp]:
  "runs_listed (m\<lparr>mg_pruned := ps\<rparr>) = runs_listed m" "runs_listed (m\<lparr>mg_events := evs\<rparr>) = runs_listed m"
  by (simp_all add: runs_listed_def)

lemma runs_listed_change:
  assumes "runs_listed m" "mg_children m' = mg_children m" "mg_starting m' = mg_starting m" "mg_drivers m' = mg_drivers m"
    and "\<And>sid s. hm_get (mg_sessions m) sid = Some s \<Longrightarrow> \<exists>t. hm_get (mg_sessions m') sid = Some t \<and> same_backend s t"
  shows "runs_listed m'"
proof -
  have pty: "\<exists>t q. hm_get (mg_sessions m') sid = Some t \<and> ss_backend t = PtyBackend q"
    if "hm_get (mg_sessions m) sid = Some s" "ss_backend s = PtyBackend p" for sid s p
    using assms(5) [OF that(1)] that(2) by (auto simp: same_backend_def)
  have acp: "\<exists>t k. hm_get (mg_sessions m') sid = Some t \<and> ss_backend t = AcpBackend k \<and> (ac_driver h \<longrightarrow> ac_driver k)"
    if "hm_get (mg_sessions m) sid = Some s" "ss_backend s = AcpBackend h" for sid s h
    using assms(5) [OF that(1)] that(2) by (auto simp: same_backend_def)
  show ?thesis unfolding runs_listed_def assms(2-4)
    using assms(1) unfolding runs_listed_def by (meson acp pty)
qed

lemma same_backend_refl [simp]: "ss_backend t = ss_backend s \<Longrightarrow> same_backend s t"
  by (simp add: same_backend_def split: backend.splits)

lemma runs_listed_update:
  assumes "runs_listed m" "\<And>s. same_backend s (f s)"
  shows "runs_listed (update_session sid f m)"
  using assms(1) by (rule runs_listed_change) (auto simp: update_session_def assms(2) split: option.splits)

text \<open>A session just registered has an id that nothing running has.\<close>

lemma insert_session_fresh:
  assumes "manager_inv m" "hm_get (mg_creating m) c = Some sid"
  shows "\<not> hm_contains (mg_sessions m) sid"
proof -
  have "sid \<in> set (map snd (mg_creating m))" using map_of_SomeD [OF assms(2)] by (force intro: rev_image_eqI)
  then show ?thesis using assms(1) by (auto simp: manager_inv_def hm_contains_set)
qed

lemma runs_listed_insert:
  assumes "runs_listed m" "manager_inv m"
  shows "runs_listed (insert_session c s m)"
proof (cases "hm_get (mg_creating m) c")
  case (Some sid)
  then show ?thesis using assms(1) insert_session_fresh [OF assms(2) Some]
    by (intro runs_listed_change [OF assms(1)]) (auto simp: insert_session_def hm_contains_def)
qed (simp add: insert_session_def assms)

lemma insert_session_get:
  assumes "manager_inv m" "hm_get (mg_creating m) c = Some sid"
  shows "hm_get (mg_sessions (insert_session c s m)) sid = Some s"
  using assms by (simp add: insert_session_def)

lemma insert_session_runs [simp]:
  "mg_children (insert_session c s m) = mg_children m" "mg_starting (insert_session c s m) = mg_starting m" "mg_drivers (insert_session c s m) = mg_drivers m"
  by (simp_all add: insert_session_def split: option.splits)

lemma runs_listed_shell:
  assumes "runs_listed m" "manager_inv m"
  shows "runs_listed (finish_shell c title dims m)"
proof (cases "hm_get (mg_creating m) c")
  case None
  then show ?thesis using assms(1) by (simp add: finish_shell_def insert_session_def)
next
  case (Some sid)
  let ?m = "finish_shell c title dims m"
  obtain s where s: "mg_sessions ?m = mg_sessions (insert_session c s m)" "ss_backend s = PtyBackend \<lparr>pt_open = True, pt_written = []\<rparr>"
    by (simp add: finish_shell_def)
  then show ?thesis
    using Some runs_listed_insert [OF assms, of c s] insert_session_get [OF assms(2) Some, of s] unfolding runs_listed_def
    by (simp add: finish_shell_def)
qed

lemma runs_listed_agent:
  assumes "runs_listed m" "manager_inv m"
  shows "runs_listed (fst (finish_agent c title provider cached dims m))"
proof (cases "hm_get (mg_creating m) c")
  case None
  then show ?thesis using assms(1) by (simp add: finish_agent_def Let_def insert_session_def)
next
  case (Some sid)
  let ?m = "fst (finish_agent c title provider cached dims m)"
  obtain s h where s: "mg_sessions ?m = mg_sessions (insert_session c s m)" "ss_backend s = AcpBackend h"
    by (simp add: finish_agent_def Let_def)
  have "sid \<notin> set (mg_drivers m)"
    using assms Some insert_session_fresh [OF assms(2) Some] by (auto simp: runs_listed_def hm_contains_def)
  then show ?thesis
    using Some s runs_listed_insert [OF assms, of c s] insert_session_get [OF assms(2) Some, of s] unfolding runs_listed_def
    by (auto simp: finish_agent_def Let_def)
qed

lemma runs_listed_creation [simp]:
  "runs_listed (fst (reserve_capacity c m)) = runs_listed m" "runs_listed (abandon_creation c m) = runs_listed m"
  by (simp_all add: runs_listed_def reserve_capacity_def abandon_creation_def split: option.splits)

lemma runs_listed_driver:
  assumes "runs_listed m"
  shows "runs_listed (spawn_driver sid m)" "runs_listed (driver_ended sid m)" "runs_listed (store_driver sid m)"
proof -
  show "runs_listed (spawn_driver sid m)" using assms by (auto simp: spawn_driver_def runs_listed_def)
  have "runs_listed (update_session sid f m)" if "\<And>s. same_backend s (f s)" for f using runs_listed_update [OF assms that] .
  then have "runs_listed (update_session sid (\<lambda>s. case ss_backend s of AcpBackend h \<Rightarrow> s\<lparr>ss_backend := AcpBackend (h\<lparr>ac_alive := False\<rparr>)\<rparr> | _ \<Rightarrow> s) m)"
    by (simp add: same_backend_def split: backend.splits)
  then show "runs_listed (driver_ended sid m)" using assms by (auto simp: driver_ended_def runs_listed_def)
  show "runs_listed (store_driver sid m)"
  proof (cases "hm_get (mg_starting m) sid")
    case (Some b)
    then obtain s h where s: "hm_get (mg_sessions m) sid = Some s" "ss_backend s = AcpBackend h" using assms unfolding runs_listed_def by blast
    with assms show ?thesis
      by (auto simp: store_driver_def runs_listed_def update_session_def)
  qed (simp add: store_driver_def assms)
qed

lemma remove_session_runs [simp]:
  "mg_children (remove_session sid m) = mg_children m" "mg_starting (remove_session sid m) = mg_starting m" "mg_drivers (remove_session sid m) = mg_drivers m"
  "hm_get (mg_sessions (remove_session sid m)) k = (if k = sid then None else hm_get (mg_sessions m) k)"
  by (simp_all add: remove_session_def)

lemma runs_listed_kill:
  assumes "runs_listed m" "stops_cleanly m (KillStep sid fault)"
  shows "runs_listed (fst (kill_session fault sid m))"
proof (cases "hm_get (mg_sessions m) sid")
  case (Some s)
  have f: "fault = None" "hm_get (mg_starting m) sid = None" using assms(2) by (simp_all add: stops_cleanly_def hm_contains_def)
  show ?thesis
  proof (cases "ss_backend s")
    case (PtyBackend p)
    then show ?thesis using assms(1) Some f by (auto simp: kill_session_def runs_listed_def)
  next
    case (AdoptedBackend q)
    then show ?thesis using assms(1) Some f by (auto simp: kill_session_def runs_listed_def split: prod.splits send_result.splits)
  next
    case (AcpBackend h)
    then show ?thesis using assms(1) Some f by (auto simp: kill_session_def runs_listed_def)
  qed
qed (simp add: kill_session_def assms)

lemma runs_listed_dead:
  assumes "runs_listed m" "stops_cleanly m (RemoveDead sid)"
  shows "runs_listed (remove_dead sid m)"
  using assms by (auto simp: remove_dead_def stops_cleanly_def runs_listed_def split: option.splits backend.splits)

lemma runs_listed_write:
  assumes "runs_listed m"
  shows "runs_listed (fst (write_input sid bs fault m))"
proof (cases "hm_get (mg_sessions m) sid")
  case (Some s)
  then show ?thesis
    by (intro runs_listed_change [OF assms]) (auto simp: write_input_def update_session_def same_backend_def split: option.splits backend.splits prod.splits send_result.splits)
qed (simp add: write_input_def assms)

interpretation running: conditional_invariant registry_step "\<lambda>m. manager_inv m \<and> runs_listed m" stops_cleanly
proof unfold_locales
  fix m :: manager and e :: manager_step
  assume inv: "manager_inv m \<and> runs_listed m" and clean: "stops_cleanly m e"
  have "manager_inv (registry_step m e)" using inv clean sessions.conditional_step by (simp add: stops_cleanly_def ids_left_def)
  moreover have "runs_listed (registry_step m e)"
  proof (cases e)
    case (KillStep sid fault)
    then show ?thesis using inv clean runs_listed_kill by simp
  next
    case (RemoveDead sid)
    then show ?thesis using inv clean runs_listed_dead by simp
  qed (use inv in \<open>auto simp: runs_listed_write runs_listed_shell runs_listed_agent runs_listed_driver register_adopted_def runs_listed_insert record_conversation_def rename_session_def
      set_size_def resize_session_def push_session_output_def same_backend_def intro!: runs_listed_update split: option.splits backend.splits\<close>)
  ultimately show "manager_inv (registry_step m e) \<and> runs_listed (registry_step m e)" ..
qed



text \<open>
  The window is there: an agent killed after its driver was spawned and before the abort handle is stored, or even before the driver is spawned, is removed with the
  answer yes, and its driver runs on without a session.
\<close>

lemma killed_while_starting_runs_on:
  "let m = foldl registry_step (new_with_limits 4096 4) [ReserveCapacity 0, FinishAgent 0 None (Some ClaudeCode) None (80, 24), SpawnDriver 1];
       k = kill_session None 1 m; m' = registry_step (fst k) (StoreDriver 1)
   in fst (snd k) \<and> mg_sessions m' = [] \<and> mg_starting m' = [] \<and> mg_drivers m' = [1]"
  by (simp add: new_with_limits_def reserve_capacity_def hm_contains_def finish_agent_def insert_session_def spawn_driver_def store_driver_def update_session_def
      kill_session_def remove_session_def Let_def)

section \<open>Conversations\<close>

text \<open>
  No two sessions drive one conversation of one provider. The check and the registration are one step; what the agent answers
  when its connection is set up is not checked, so it has to be no conversation of another session.
\<close>

definition one_owner :: "manager \<Rightarrow> bool" where
  "one_owner m \<longleftrightarrow> (\<forall>a s b t p c. hm_get (mg_sessions m) a = Some s \<longrightarrow> hm_get (mg_sessions m) b = Some t \<longrightarrow> owns p c s \<longrightarrow> owns p c t \<longrightarrow> a = b)"

definition answers_own :: "manager \<Rightarrow> manager_step \<Rightarrow> bool" where
  "answers_own m e \<longleftrightarrow>
     (case e of
        RecordConversation sid conversation \<Rightarrow>
          (case hm_get (mg_sessions m) sid of
             None \<Rightarrow> True
           | Some s \<Rightarrow> list_all (\<lambda>(b, t). b = sid \<or> \<not> owns (ss_session_provider s) conversation t) (mg_sessions m))
      | _ \<Rightarrow> True)"

lemma one_owner_update:
  assumes "one_owner m" "\<And>s p c. owns p c (f s) \<Longrightarrow> owns p c s"
  shows "one_owner (update_session sid f m)"
  using assms unfolding one_owner_def update_session_def by (auto split: option.splits)

lemma one_owner_fields [simp]:
  "one_owner (m\<lparr>mg_events := evs\<rparr>) = one_owner m" "one_owner (m\<lparr>mg_pruned := ps\<rparr>) = one_owner m"
  "one_owner (m\<lparr>mg_starting := st\<rparr>) = one_owner m" "one_owner (m\<lparr>mg_children := cs\<rparr>) = one_owner m" "one_owner (m\<lparr>mg_drivers := ds\<rparr>) = one_owner m"
  by (simp_all add: one_owner_def)

lemma one_owner_insert:
  assumes "one_owner m" "\<And>p c. owns p c s \<Longrightarrow> \<not> already_live p c m"
  shows "one_owner (insert_session k s m)"
proof (cases "hm_get (mg_creating m) k")
  case (Some sid)
  have "\<not> owns p c t" if "owns p c s" "hm_get (mg_sessions m) b = Some t" for p c b t
    using assms(2) [OF that(1)] map_of_SomeD [OF that(2)] by (auto simp: already_live_def list_ex_iff)
  then show ?thesis using assms(1) Some unfolding one_owner_def insert_session_def by auto
qed (simp add: insert_session_def assms)

lemma one_owner_record:
  assumes "one_owner m" "answers_own m (RecordConversation sid conversation)"
  shows "one_owner (record_conversation sid conversation m)"
proof (cases "hm_get (mg_sessions m) sid")
  case (Some s)
  have free: "\<not> owns (ss_session_provider s) conversation t" if "hm_get (mg_sessions m) b = Some t" "b \<noteq> sid" for b t
    using assms(2) Some map_of_SomeD [OF that(1)] that(2) by (auto simp: answers_own_def list_all_iff)
  show ?thesis
  proof (cases "(\<exists>h. ss_backend s = AcpBackend h) \<and> sid \<in> set (mg_drivers m)")
    case True
    then have "owns p c t \<Longrightarrow> owns p c t' \<Longrightarrow> a = b"
      if "hm_get (mg_sessions (record_conversation sid conversation m)) a = Some t" "hm_get (mg_sessions (record_conversation sid conversation m)) b = Some t'" for a b t t' p c
      using that Some assms(1) free unfolding one_owner_def
      by (auto simp: record_conversation_def update_session_def owns_def split: if_splits)
    then show ?thesis unfolding one_owner_def by blast
  next
    case False
    then have "hm_get (mg_sessions (record_conversation sid conversation m)) = hm_get (mg_sessions m)"
      using Some by (auto simp: record_conversation_def update_session_def update_conv' fun_upd_idem split: backend.splits)
    then show ?thesis using assms(1) by (simp add: one_owner_def)
  qed
qed (use assms(1) in \<open>simp add: record_conversation_def update_session_def\<close>)

lemma one_owner_remove: "one_owner m \<Longrightarrow> one_owner (remove_session sid m)"
  unfolding one_owner_def remove_session_def by (simp add: delete_conv' restrict_map_def)

lemma one_owner_creation [simp]:
  "one_owner (fst (reserve_capacity c m)) = one_owner m" "one_owner (abandon_creation c m) = one_owner m"
  by (simp_all add: one_owner_def reserve_capacity_def abandon_creation_def split: option.splits)

lemma owns_backend [simp]: "\<not> owns p c (s\<lparr>ss_backend := PtyBackend b\<rparr>)" "\<not> owns p c (s\<lparr>ss_backend := AdoptedBackend q\<rparr>)"
  by (simp_all add: owns_def)

interpretation owners: conditional_invariant registry_step one_owner answers_own
proof unfold_locales
  fix m :: manager and e :: manager_step
  assume inv: "one_owner m" and own: "answers_own m e"
  have upd: "(\<And>s p c. owns p c (f s) \<Longrightarrow> owns p c s) \<Longrightarrow> one_owner (update_session sid f m)" for sid f
    using one_owner_update [OF inv] by blast
  show "one_owner (registry_step m e)"
  proof (cases e)
    case (FinishAgent c title provider cached dims)
    then show ?thesis using inv
      by (auto simp: finish_agent_def Let_def intro!: one_owner_insert) (auto simp: owns_def split: option.splits if_splits)
  next
    case (RecordConversation sid conversation)
    then show ?thesis using inv own one_owner_record by simp
  next
    case (DriverEnded sid)
    then show ?thesis using inv by (auto simp: driver_ended_def owns_def intro!: upd split: backend.splits)
  next
    case (StoreDriver sid)
    then show ?thesis using inv by (auto simp: store_driver_def owns_def intro!: upd split: backend.splits)
  qed (use inv in \<open>auto simp: finish_shell_def register_adopted_def rename_session_def kill_session_def Let_def remove_dead_def one_owner_remove write_input_def spawn_driver_def
      set_size_def resize_session_def push_session_output_def intro!: one_owner_insert upd split: option.splits backend.splits prod.splits send_result.splits\<close>,
      auto simp: owns_def)
qed

text \<open>
  Whatever conversations creations ask to resume and in whatever order they finish, every two sessions that drive the same conversation of the same
  provider are the same session, and a creation that asks for a conversation already driven gets a new one.
\<close>

theorem conversation_single_owner:
  assumes "run_ok registry_step answers_own (new_with_limits cap limit) es" "m = foldl registry_step (new_with_limits cap limit) es"
    and "hm_get (mg_sessions m) a = Some s" "hm_get (mg_sessions m) b = Some t" "owns p c s" "owns p c t"
  shows "a = b \<and> snd (finish_agent k title p (Some c) dims m) = None"
proof -
  have "one_owner (new_with_limits cap limit)" by (simp add: one_owner_def new_with_limits_def)
  then have "one_owner m" using owners.conditional_run [OF _ assms(1)] assms(2) by simp
  then have "a = b" using assms(3-6) unfolding one_owner_def by blast
  moreover have "already_live p c m" using map_of_SomeD [OF assms(3)] assms(5) by (auto simp: already_live_def list_ex_iff)
  ultimately show ?thesis by (simp add: finish_agent_def)
qed

text \<open>The second of two creations that ask for the same conversation finishes after the first.\<close>

lemmas agent_run_simps =
  new_with_limits_def reserve_capacity_def hm_contains_def finish_agent_def insert_session_def already_live_def owns_def answers_own_def
  record_conversation_def spawn_driver_def update_session_def Let_def

theorem conversation_single_owner_witness:
  "let es = [ReserveCapacity 0, ReserveCapacity 1, FinishAgent 0 None (Some ClaudeCode) (Some ''c1'') (80, 24),
         FinishAgent 1 None (Some ClaudeCode) (Some ''c1'') (80, 24), SpawnDriver 2, RecordConversation 2 ''c2''];
       m = foldl registry_step (new_with_limits 4096 4) es
   in run_ok registry_step answers_own (new_with_limits 4096 4) es \<and> already_live (Some ClaudeCode) ''c1'' m \<and>
      snd (finish_agent 7 None (Some ClaudeCode) (Some ''c1'') (80, 24) m) = None"
proof -
  let ?es = "[ReserveCapacity 0, ReserveCapacity 1, FinishAgent 0 None (Some ClaudeCode) (Some ''c1'') (80, 24),
         FinishAgent 1 None (Some ClaudeCode) (Some ''c1'') (80, 24), SpawnDriver 2, RecordConversation 2 ''c2'']"
  let ?m = "foldl registry_step (new_with_limits 4096 4) ?es"
  have run: "run_ok registry_step answers_own (new_with_limits 4096 4) ?es" by (simp add: agent_run_simps)
  obtain s where s: "hm_get (mg_sessions ?m) 1 = Some s" "owns (Some ClaudeCode) ''c1'' s" by (simp add: agent_run_simps)
  then have "already_live (Some ClaudeCode) ''c1'' ?m" using map_of_SomeD [OF s(1)] by (auto simp: already_live_def list_ex_iff)
  then show ?thesis using run conversation_single_owner [OF run refl s(1) s(1) s(2) s(2), of 7 None "(80, 24)"] by (simp only: Let_def simp_thms)
qed

text \<open>
  The condition is needed: a driver that started a new conversation records it only once its connection is set up. A creation that learned of that conversation from
  the agent's own list in the meantime resumes it, and two drivers share it.
\<close>

lemma conversation_resumed_before_recorded:
  "\<not> one_owner (foldl registry_step (new_with_limits 4096 4)
     [ReserveCapacity 0, FinishAgent 0 None (Some ClaudeCode) None (80, 24), SpawnDriver 1, ReserveCapacity 1, FinishAgent 1 None (Some ClaudeCode) (Some ''c1'') (80, 24),
      RecordConversation 1 ''c1''])"
proof
  let ?m = "foldl registry_step (new_with_limits 4096 4)
     [ReserveCapacity 0, FinishAgent 0 None (Some ClaudeCode) None (80, 24), SpawnDriver 1, ReserveCapacity 1, FinishAgent 1 None (Some ClaudeCode) (Some ''c1'') (80, 24),
      RecordConversation 1 ''c1'']"
  assume one: "one_owner ?m"
  obtain s t where "hm_get (mg_sessions ?m) 1 = Some s" "hm_get (mg_sessions ?m) 2 = Some t" "owns (Some ClaudeCode) ''c1'' s" "owns (Some ClaudeCode) ''c1'' t"
    by (simp add: agent_run_simps)
  then have "(1 :: session_id) = 2" using one unfolding one_owner_def by blast
  then show False by simp
qed

end
