(* ===== verification/Relay_Pipe.thy ===== *)
theory Relay_Pipe
  imports Session_Manager Peer_Store Pair_Confirm Active Enrollment Agent_Permissions
begin

text \<open>
  The daemon's side of the local pipe (\<open>crates/host/src/relay_pipe.rs\<close>): who may connect, the version and the first frame, terminals
  shared by \<open>portty share\<close>, the console of \<open>portty pair\<close>, revocations and \<open>portty agent\<close>. The connections run
  concurrently with each other and with the rest of the host; a step is what a connection does between two awaits. Encoding and
  decoding of messages by \<open>postcard\<close> is the parameter \<open>dec\<close>; whether a write to the pipe fails is part of a step.
\<close>

section \<open>State\<close>

definition MAX_RELAY_CONNECTIONS :: nat where "MAX_RELAY_CONNECTIONS = 128"

datatype host_error = HostIo io_error | HostRelay string | HostSerialization string | HostLimit string

record fresh_pairing =
  fp_ticket :: string
  fp_qr :: string
  fp_phrase :: string
  fp_window_secs :: u64

text \<open>
  Where a connection is: \<open>ConsoleOpening\<close> writes the fresh credentials, \<open>ConsoleIdle\<close> waits for a request or the end of the command, \<open>ConsoleAsked\<close> for the answer,
  \<open>ConsoleLeaving\<close> shuts its stream down with the console still attached.
\<close>

datatype relay_phase =
    AwaitVersion
  | AwaitFirst
  | TerminalConn session_id
  | ConsoleOpening fresh_pairing
  | ConsoleIdle u64
  | ConsoleAsked u64
  | ConsoleLeaving u64
  | AgentConn agent_provider bool
  | Finished "host_error option"

text \<open>\<open>rc_queue\<close> is the queue of a terminal whose session is not listed any more; \<open>rc_out\<close> is what the command was sent.\<close>

record relay_conn =
  rc_phase :: relay_phase
  rc_queue :: "relay_queue option"
  rc_out :: "host_to_relay list"

record 'b relay_world =
  rw_manager :: manager
  rw_pairing :: "pairing_state option"
  rw_broker :: broker
  rw_peers :: "'b peer_store option"
  rw_active :: "active option"
  rw_push :: "device_id list option"
  rw_shutdown :: bool
  rw_conns :: "(nat, relay_conn) hashmap"

definition finished :: "relay_conn \<Rightarrow> bool" where
  "finished rc = (case rc_phase rc of Finished _ \<Rightarrow> True | _ \<Rightarrow> False)"

definition set_conn :: "nat \<Rightarrow> relay_conn \<Rightarrow> 'b relay_world \<Rightarrow> 'b relay_world" where
  "set_conn c rc w = w\<lparr>rw_conns := hm_insert c rc (rw_conns w)\<rparr>"

definition end_conn :: "nat \<Rightarrow> relay_conn \<Rightarrow> host_error option \<Rightarrow> 'b relay_world \<Rightarrow> 'b relay_world" where
  "end_conn c rc e w = set_conn c (rc\<lparr>rc_phase := Finished e\<rparr>) w"

text \<open>\<open>send_msg\<close> with the fault of its write, and then the phase that follows or the error.\<close>

definition send_then :: "nat \<Rightarrow> relay_conn \<Rightarrow> host_to_relay \<Rightarrow> io_error option \<Rightarrow> relay_phase \<Rightarrow> 'b relay_world \<Rightarrow> 'b relay_world" where
  "send_then c rc msg fault ph w =
     (case fault of
        Some e \<Rightarrow> end_conn c rc (Some (HostIo e)) w
      | None \<Rightarrow> set_conn c (rc\<lparr>rc_phase := ph, rc_out := rc_out rc @ [msg]\<rparr>) w)"

section \<open>Connecting\<close>

text \<open>The loop of \<open>listen\<close>: the credentials of the peer, then a permit.\<close>

definition accept_relay :: "nat \<Rightarrow> nat \<Rightarrow> io_error + nat \<Rightarrow> 'b relay_world \<Rightarrow> 'b relay_world" where
  "accept_relay our_uid c cred w =
     (case cred of
        Inl e \<Rightarrow> w
      | Inr uid \<Rightarrow>
          if uid \<noteq> our_uid then w
          else if hm_count (\<lambda>rc. \<not> finished rc) (rw_conns w) \<ge> MAX_RELAY_CONNECTIONS then w
          else set_conn c \<lparr>rc_phase = AwaitVersion, rc_queue = None, rc_out = []\<rparr> w)"

definition version_ok :: "bytes \<Rightarrow> bool" where
  "version_ok ver \<longleftrightarrow> length ver = 2 \<and> (word_of_nat (from_le ver) :: u16) = RELAY_PIPE_VERSION"

section \<open>Revocations\<close>

text \<open>
  The loop over the devices, with the store locked: those revoked in order, the records for the notices, and the device at which
  a commit failed.
\<close>

fun revoke_loop ::
  "'b postcard \<Rightarrow> (device_id \<Rightarrow> bytes) \<Rightarrow> nat \<Rightarrow> bytes list \<Rightarrow> bytes list \<Rightarrow> (device_id \<times> revocation_record) list \<Rightarrow> 'b peer_store \<Rightarrow>
     'b peer_store \<times> bytes list \<times> (device_id \<times> revocation_record) list \<times> (device_id \<times> io_error) option" where
  "revoke_loop pc eid now [] gone notices ps = (ps, gone, notices, None)"
| "revoke_loop pc eid now (raw # rest) gone notices ps =
     (if raw \<in> set gone then revoke_loop pc eid now rest gone notices ps
      else case revoke pc (eid raw) now raw ps of
        (ps', Inr rec) \<Rightarrow> revoke_loop pc eid now rest (gone @ [raw]) (notices @ [(raw, rec)]) ps'
      | (ps', Inl e) \<Rightarrow> (ps', gone, notices, Some (raw, e)))"

definition notify_all :: "(device_id \<Rightarrow> bool) \<Rightarrow> (device_id \<times> revocation_record) list \<Rightarrow> active \<Rightarrow> active" where
  "notify_all in_time notices ac =
     foldl (\<lambda>ac (d, rec). case rv_pair_id rec of None \<Rightarrow> ac | Some pid \<Rightarrow> fst (notify_revoked d pid (rv_event_id rec) (in_time d) ac)) ac notices"

text \<open>What the environment decides during a first frame: the clock, fresh secrets and ids, the disk, the speed of a session task, the write.\<close>

record relay_env =
  re_now :: nat
  re_secrets :: "pairing_secret list"
  re_fresh :: "host_error + fresh_pairing"
  re_event_id :: "device_id \<Rightarrow> bytes"
  re_in_time :: "device_id \<Rightarrow> bool"
  re_creation :: nat
  re_fault :: "io_error option"

text \<open>The message of a failed commit names the device by the first digits of its id, here the parameter \<open>disp\<close>.\<close>

definition revoke_devices ::
  "'b postcard \<Rightarrow> (device_id \<Rightarrow> string) \<Rightarrow> relay_env \<Rightarrow> bytes list \<Rightarrow> 'b relay_world \<Rightarrow> 'b relay_world \<times> host_to_relay" where
  "revoke_devices pc disp env ids w =
     (case rw_peers w of
        None \<Rightarrow> (w, HrRevocationResult [] (Some ''phone pairing is not available in this host mode''))
      | Some store \<Rightarrow>
          if ids = [] \<or> length ids > 256 then (w, HrRevocationResult [] (Some ''revocation request must contain 1..=256 devices''))
          else (case revoke_loop pc (re_event_id env) (re_now env) ids [] [] store of
            (store', gone, notices, Some (d, e)) \<Rightarrow>
              (w\<lparr>rw_peers := Some store'\<rparr>,
               HrRevocationResult gone (Some (''could not commit revocation for '' @ disp d @ '': '' @ io_error_message e)))
          | (store', gone, notices, None) \<Rightarrow>
              (w\<lparr>rw_peers := Some store', rw_active := map_option (notify_all (re_in_time env) notices) (rw_active w),
                 rw_push := map_option (\<lambda>ds. ds @ map fst notices) (rw_push w)\<rparr>,
               HrRevocationResult gone None)))"

section \<open>The first frame\<close>

definition reopen_pairing :: "nat \<Rightarrow> relay_conn \<Rightarrow> relay_env \<Rightarrow> 'b relay_world \<Rightarrow> 'b relay_world" where
  "reopen_pairing c rc env w =
     (case rw_pairing w of
        None \<Rightarrow> end_conn c rc (Some (HostRelay ''pairing is not available in this mode'')) w
      | Some p \<Rightarrow>
          (case re_fresh env of
             Inl e \<Rightarrow> end_conn c rc (Some e) w
           | Inr fp \<Rightarrow>
               set_conn c (rc\<lparr>rc_phase := ConsoleOpening fp\<rparr>)
                 (w\<lparr>rw_pairing := Some (rotate (re_now env) (re_secrets env) ENROLLMENT_WINDOW p)\<rparr>)))"

text \<open>The credentials are written and the console attaches.\<close>

definition pairing_shown :: "nat \<Rightarrow> io_error option \<Rightarrow> 'b relay_world \<Rightarrow> 'b relay_world" where
  "pairing_shown c fault w =
     (case hm_get (rw_conns w) c of
        None \<Rightarrow> w
      | Some rc \<Rightarrow>
          (case rc_phase rc of
             ConsoleOpening fp \<Rightarrow>
               (case fault of
                  Some e \<Rightarrow> end_conn c rc (Some (HostIo e)) w
                | None \<Rightarrow>
                    send_then c rc (HrPairingInfo (fp_ticket fp) (fp_qr fp) (fp_phrase fp) (fp_window_secs fp)) None
                      (ConsoleIdle (bk_next_id (rw_broker w))) (w\<lparr>rw_broker := attach (rw_broker w)\<rparr>))
           | _ \<Rightarrow> w))"

text \<open>\<open>register_adopted\<close> reserves and registers in one step here: nothing in between can fail.\<close>

definition adopt_terminal :: "nat \<Rightarrow> relay_conn \<Rightarrow> nat \<Rightarrow> bytes \<Rightarrow> u16 \<times> u16 \<Rightarrow> 'b relay_world \<Rightarrow> 'b relay_world" where
  "adopt_terminal c rc k title dims w =
     (case reserve_capacity k (rw_manager w) of
        (m, Inl e) \<Rightarrow> end_conn c rc (Some (HostRelay e)) w
      | (m, Inr sid) \<Rightarrow> set_conn c (rc\<lparr>rc_phase := TerminalConn sid\<rparr>) (w\<lparr>rw_manager := register_adopted k title dims m\<rparr>))"

definition first_frame ::
  "'b postcard \<Rightarrow> (device_id \<Rightarrow> string) \<Rightarrow> relay_env \<Rightarrow> nat \<Rightarrow> relay_conn \<Rightarrow> relay_to_host option \<Rightarrow> 'b relay_world \<Rightarrow> 'b relay_world" where
  "first_frame pc disp env c rc msg w =
     (case msg of
        None \<Rightarrow> end_conn c rc (Some (HostSerialization ''postcard'')) w
      | Some (RhRegister title cols rows) \<Rightarrow> adopt_terminal c rc (re_creation env) (map of_char title) (cols, rows) w
      | Some RhReopenPairing \<Rightarrow> reopen_pairing c rc env w
      | Some RhPing \<Rightarrow> send_then c rc HrPong (re_fault env) (Finished None) w
      | Some (RhOpenAgent provider join_live) \<Rightarrow> set_conn c (rc\<lparr>rc_phase := AgentConn provider join_live\<rparr>) w
      | Some (RhRevokeDevices ids) \<Rightarrow>
          (case revoke_devices pc disp env ids w of (w', reply) \<Rightarrow> send_then c rc reply (re_fault env) (Finished None) w')
      | Some RhShutdown \<Rightarrow>
          (case re_fault env of
             Some e \<Rightarrow> end_conn c rc (Some (HostIo e)) w
           | None \<Rightarrow> send_then c rc HrShutdownAccepted None (Finished None) (w\<lparr>rw_shutdown := True\<rparr>))
      | Some _ \<Rightarrow> end_conn c rc (Some (HostRelay ''relay did not Register first'')) w)"

section \<open>A shared terminal\<close>

text \<open>One round of the reader loop: the manager, and whether the loop goes on.\<close>

definition terminal_frame :: "session_id \<Rightarrow> relay_to_host option \<Rightarrow> manager \<Rightarrow> manager \<times> bool" where
  "terminal_frame sid msg m =
     (case msg of
        None \<Rightarrow> (m, False)
      | Some (RhOutput bs) \<Rightarrow> (push_session_output sid bs m, True)
      | Some RhExited \<Rightarrow> (m, False)
      | Some (RhSizeChanged cols rows) \<Rightarrow> (set_size sid (cols, rows) m, True)
      | Some _ \<Rightarrow> (m, True))"

definition end_terminal :: "nat \<Rightarrow> relay_conn \<Rightarrow> session_id \<Rightarrow> 'b relay_world \<Rightarrow> 'b relay_world" where
  "end_terminal c rc sid w = end_conn c (rc\<lparr>rc_queue := None\<rparr>) None (w\<lparr>rw_manager := remove_dead sid (rw_manager w)\<rparr>)"

text \<open>The queue of a terminal, in its session while that is listed.\<close>

definition terminal_queue :: "session_id \<Rightarrow> relay_conn \<Rightarrow> manager \<Rightarrow> relay_queue option" where
  "terminal_queue sid rc m =
     (case hm_get (mg_sessions m) sid of
        None \<Rightarrow> rc_queue rc
      | Some s \<Rightarrow> (case ss_backend s of AdoptedBackend q \<Rightarrow> Some q | _ \<Rightarrow> None))"

definition set_terminal_queue :: "nat \<Rightarrow> relay_conn \<Rightarrow> session_id \<Rightarrow> relay_queue \<Rightarrow> 'b relay_world \<Rightarrow> 'b relay_world" where
  "set_terminal_queue c rc sid q w =
     (if hm_contains (mg_sessions (rw_manager w)) sid
      then set_conn c rc (w\<lparr>rw_manager := update_session sid (\<lambda>s. s\<lparr>ss_backend := AdoptedBackend q\<rparr>) (rw_manager w)\<rparr>)
      else set_conn c (rc\<lparr>rc_queue := Some q\<rparr>) w)"

text \<open>One round of the writer task; it ends, and drops its receiver, at the first write that fails.\<close>

definition writer_round :: "nat \<Rightarrow> io_error option \<Rightarrow> 'b relay_world \<Rightarrow> 'b relay_world" where
  "writer_round c fault w =
     (case hm_get (rw_conns w) c of
        None \<Rightarrow> w
      | Some rc \<Rightarrow>
          (case rc_phase rc of
             TerminalConn sid \<Rightarrow>
               (case terminal_queue sid rc (rw_manager w) of
                  None \<Rightarrow> w
                | Some q \<Rightarrow>
                    (case rq_msgs q of
                       [] \<Rightarrow> w
                     | msg # msgs \<Rightarrow>
                         if rq_closed q then w
                         else (case fault of
                           Some e \<Rightarrow> set_terminal_queue c rc sid (q\<lparr>rq_msgs := [], rq_closed := True\<rparr>) w
                         | None \<Rightarrow> set_terminal_queue c (rc\<lparr>rc_out := rc_out rc @ [msg]\<rparr>) sid (q\<lparr>rq_msgs := msgs\<rparr>) w)))
           | _ \<Rightarrow> w))"

section \<open>The console of a pairing\<close>

definition leave_console :: "nat \<Rightarrow> relay_conn \<Rightarrow> u64 \<Rightarrow> 'b relay_world \<Rightarrow> 'b relay_world" where
  "leave_console c rc cid w = set_conn c (rc\<lparr>rc_phase := ConsoleLeaving cid\<rparr>) w"

text \<open>The request arrives, is shown, and the answer is awaited; a request that cannot be shown is dropped unanswered.\<close>

definition console_request :: "nat \<Rightarrow> io_error option \<Rightarrow> 'b relay_world \<Rightarrow> 'b relay_world" where
  "console_request c fault w =
     (case hm_get (rw_conns w) c of
        None \<Rightarrow> w
      | Some rc \<Rightarrow>
          (case rc_phase rc of
             ConsoleIdle cid \<Rightarrow>
               (case find (\<lambda>co. co_id co = cid) (bk_consoles (rw_broker w)) of
                  None \<Rightarrow> w
                | Some co \<Rightarrow>
                    (case co_inbox co of
                       None \<Rightarrow> w
                     | Some rq \<Rightarrow>
                         let bk = take_request cid (rw_broker w)
                         in (case fault of
                              Some e \<Rightarrow> leave_console c rc cid (w\<lparr>rw_broker := discard cid bk\<rparr>)
                            | None \<Rightarrow>
                                set_conn c (rc\<lparr>rc_phase := ConsoleAsked cid, rc_out := rc_out rc @ [HrPairingConfirmRequest (pq_display_name rq) (pq_code rq)]\<rparr>)
                                  (w\<lparr>rw_broker := bk\<rparr>))))
           | _ \<Rightarrow> w))"

definition approves :: "relay_to_host option \<Rightarrow> bool" where
  "approves msg \<longleftrightarrow> msg = Some (RhPairingConfirmResponse True)"

definition console_answer :: "nat \<Rightarrow> relay_conn \<Rightarrow> u64 \<Rightarrow> bool option \<Rightarrow> 'b relay_world \<Rightarrow> 'b relay_world" where
  "console_answer c rc cid accept w =
     leave_console c rc cid
       (case accept of
          Some a \<Rightarrow> w\<lparr>rw_broker := answer cid a (rw_broker w)\<rparr>
        | None \<Rightarrow> w\<lparr>rw_broker := discard cid (rw_broker w)\<rparr>)"

definition console_left :: "nat \<Rightarrow> 'b relay_world \<Rightarrow> 'b relay_world" where
  "console_left c w =
     (case hm_get (rw_conns w) c of
        None \<Rightarrow> w
      | Some rc \<Rightarrow>
          (case rc_phase rc of
             ConsoleLeaving cid \<Rightarrow> end_conn c rc None (w\<lparr>rw_broker := detach cid (close_receiver cid (rw_broker w))\<rparr>)
           | _ \<Rightarrow> w))"

section \<open>A chat with an agent\<close>

text \<open>
  \<open>handle_agent_conn\<close> after the session is found or started: what the command asks of the session, and what it is sent. The calls other
  than a decision are answered by the driver of the session; their errors come back with the prefix of the call.
\<close>

datatype chat_call =
    CallPrompt string
  | CallDecision string "string option"
  | CallCancel
  | CallSetMode string
  | CallSetConfig string agent_config_value
  | CallAuthenticate string
  | CallSetModel string

fun chat_call_of :: "relay_to_host \<Rightarrow> chat_call option" where
  "chat_call_of (RhAgentPrompt t) = Some (CallPrompt t)"
| "chat_call_of (RhAgentDecision tid option_id) = Some (CallDecision tid option_id)"
| "chat_call_of RhAgentCancel = Some CallCancel"
| "chat_call_of (RhAgentSetMode mode) = Some (CallSetMode mode)"
| "chat_call_of (RhAgentSetConfig config v) = Some (CallSetConfig config v)"
| "chat_call_of (RhAgentAuthenticate meth) = Some (CallAuthenticate meth)"
| "chat_call_of (RhAgentSetModel model) = Some (CallSetModel model)"
| "chat_call_of _ = None"

fun call_error :: "chat_call \<Rightarrow> string \<Rightarrow> string" where
  "call_error (CallSetMode _) e = ''could not change mode: '' @ e"
| "call_error (CallSetConfig _ _) e = ''could not change agent setting: '' @ e"
| "call_error (CallAuthenticate _) e = ''could not authenticate agent: '' @ e"
| "call_error (CallSetModel _) e = ''could not change model: '' @ e"
| "call_error _ e = e"

record agent_chat =
  ch_session :: session_id
  ch_out :: "host_to_relay list"
  ch_calls :: "chat_call list"
  ch_open :: bool

definition chat_replay :: "agent_session \<Rightarrow> host_to_relay list" where
  "chat_replay s =
     map HrAgentEvent (snd (agent_snapshot (as_feed s))) @ map (\<lambda>(tid, p). HrAgentPermission (pp_tool_call p) (pp_options p)) (as_pending s)"

definition open_chat :: "session_id \<Rightarrow> string \<Rightarrow> bool \<Rightarrow> agent_world \<Rightarrow> agent_chat option" where
  "open_chat sid title created aw =
     (case hm_get (aw_sessions aw) sid of
        None \<Rightarrow> None
      | Some s \<Rightarrow> Some \<lparr>ch_session = sid, ch_out = HrAgentOpened sid title created # chat_replay s, ch_calls = [], ch_open = True\<rparr>)"

text \<open>An undecodable frame is skipped.\<close>

definition chat_frame :: "relay_to_host option \<Rightarrow> agent_chat \<Rightarrow> agent_world \<Rightarrow> agent_chat \<times> agent_world" where
  "chat_frame msg ch aw =
     (case Option.bind msg chat_call_of of
        None \<Rightarrow> (ch, aw)
      | Some (CallDecision tid option_id) \<Rightarrow> (ch, resolve_permission (ch_session ch) tid option_id Laptop aw)
      | Some call \<Rightarrow> (ch\<lparr>ch_calls := ch_calls ch @ [call]\<rparr>, aw))"

datatype chat_event = ChatTimeline session_id agent_timeline_event | ChatNotice permission_notice | ChatLagged | ChatClosed | ChatCallFailed chat_call string

definition chat_send :: "host_to_relay list \<Rightarrow> agent_chat \<Rightarrow> agent_chat" where
  "chat_send msgs ch = ch\<lparr>ch_out := ch_out ch @ msgs\<rparr>"

definition chat_event_step :: "agent_world \<Rightarrow> agent_chat \<Rightarrow> chat_event \<Rightarrow> agent_chat" where
  "chat_event_step aw ch ev =
     (if \<not> ch_open ch then ch
      else (case ev of
        ChatTimeline eid e \<Rightarrow> if eid = ch_session ch then chat_send [HrAgentEvent e] ch else ch
      | ChatNotice (AgentPermissionEvent eid tcard options category scope) \<Rightarrow>
          if eid = ch_session ch then chat_send [HrAgentPermission tcard options] ch else ch
      | ChatNotice (PermissionResolvedEvent eid tid resolution who) \<Rightarrow>
          if eid = ch_session ch then chat_send [HrAgentPermissionResolved tid] ch else ch
      | ChatNotice (RemovedEvent eid) \<Rightarrow>
          if eid = ch_session ch then (chat_send [HrAgentGone ''the agent session was closed''] ch)\<lparr>ch_open := False\<rparr> else ch
      | ChatLagged \<Rightarrow> (case hm_get (aw_sessions aw) (ch_session ch) of None \<Rightarrow> ch | Some s \<Rightarrow> chat_send (chat_replay s) ch)
      | ChatClosed \<Rightarrow> ch\<lparr>ch_open := False\<rparr>
      | ChatCallFailed call e \<Rightarrow> chat_send [HrAgentError (call_error call e)] ch))"

section \<open>Steps\<close>

text \<open>A frame, or the error that ended the read, arrives at a connection.\<close>

definition relay_frame ::
  "'b postcard \<Rightarrow> (device_id \<Rightarrow> string) \<Rightarrow> (bytes \<Rightarrow> relay_to_host option) \<Rightarrow> relay_env \<Rightarrow> nat \<Rightarrow> io_error + bytes \<Rightarrow> 'b relay_world \<Rightarrow> 'b relay_world" where
  "relay_frame pc disp dec env c r w =
     (case hm_get (rw_conns w) c of
        None \<Rightarrow> w
      | Some rc \<Rightarrow>
          (case rc_phase rc of
             AwaitVersion \<Rightarrow>
               (case r of
                  Inl e \<Rightarrow> end_conn c rc (Some (HostIo e)) w
                | Inr ver \<Rightarrow>
                    if version_ok ver then set_conn c (rc\<lparr>rc_phase := AwaitFirst\<rparr>) w
                    else end_conn c rc (Some (HostRelay ''relay pipe version mismatch'')) w)
           | AwaitFirst \<Rightarrow>
               (case r of
                  Inl e \<Rightarrow> end_conn c rc (Some (HostIo e)) w
                | Inr bs \<Rightarrow> first_frame pc disp env c rc (dec bs) w)
           | TerminalConn sid \<Rightarrow>
               (case r of
                  Inl e \<Rightarrow> end_terminal c rc sid w
                | Inr bs \<Rightarrow>
                    (case terminal_frame sid (dec bs) (rw_manager w) of
                       (m, True) \<Rightarrow> w\<lparr>rw_manager := m\<rparr>
                     | (m, False) \<Rightarrow> end_terminal c rc sid w))
           | ConsoleIdle cid \<Rightarrow> leave_console c rc cid w
           | ConsoleAsked cid \<Rightarrow> console_answer c rc cid (case r of Inl e \<Rightarrow> None | Inr bs \<Rightarrow> Some (approves (dec bs))) w
           | _ \<Rightarrow> w))"

definition relay_timeout :: "nat \<Rightarrow> 'b relay_world \<Rightarrow> 'b relay_world" where
  "relay_timeout c w =
     (case hm_get (rw_conns w) c of
        None \<Rightarrow> w
      | Some rc \<Rightarrow>
          (case rc_phase rc of
             AwaitVersion \<Rightarrow> end_conn c rc (Some (HostRelay ''relay version handshake timed out'')) w
           | AwaitFirst \<Rightarrow> end_conn c rc (Some (HostRelay ''relay Register timed out'')) w
           | _ \<Rightarrow> w))"

text \<open>
  The rest of the host: a step of the session manager (a kill hands the queue of a shared terminal to the connection, whose
  writer still empties it) and a step of the pairing broker.
\<close>

definition orphan_queue :: "session_id \<Rightarrow> relay_queue \<Rightarrow> relay_conn \<Rightarrow> relay_conn" where
  "orphan_queue sid q rc = (if rc_phase rc = TerminalConn sid then rc\<lparr>rc_queue := Some q\<rparr> else rc)"

definition other_manager_step :: "manager_step \<Rightarrow> 'b relay_world \<Rightarrow> 'b relay_world" where
  "other_manager_step e w =
     (case e of
        KillStep sid fault \<Rightarrow>
          (case kill_session fault sid (rw_manager w) of
             (m, removed, Some (AdoptedBackend q)) \<Rightarrow>
               w\<lparr>rw_manager := m, rw_conns := map (\<lambda>(c, rc). (c, orphan_queue sid q rc)) (rw_conns w)\<rparr>
           | (m, _) \<Rightarrow> w\<lparr>rw_manager := m\<rparr>)
      | _ \<Rightarrow> w\<lparr>rw_manager := registry_step (rw_manager w) e\<rparr>)"

datatype pipe_step =
    RelayAccept nat "io_error + nat"
  | RelayTimeout nat
  | RelayFrame relay_env nat "io_error + bytes"
  | RelayWriter nat "io_error option"
  | PairingShown nat "io_error option"
  | ConsoleRequest nat "io_error option"
  | ConsoleLeft nat
  | OtherManager manager_step
  | OtherBroker confirm_event

fun relay_next ::
  "'b postcard \<Rightarrow> (device_id \<Rightarrow> string) \<Rightarrow> (bytes \<Rightarrow> relay_to_host option) \<Rightarrow> nat \<Rightarrow> 'b relay_world \<Rightarrow> pipe_step \<Rightarrow> 'b relay_world" where
  "relay_next pc disp dec uid w (RelayAccept c cred) = (if hm_contains (rw_conns w) c then w else accept_relay uid c cred w)"
| "relay_next pc disp dec uid w (RelayTimeout c) = relay_timeout c w"
| "relay_next pc disp dec uid w (RelayFrame env c r) = relay_frame pc disp dec env c r w"
| "relay_next pc disp dec uid w (RelayWriter c fault) = writer_round c fault w"
| "relay_next pc disp dec uid w (PairingShown c fault) = pairing_shown c fault w"
| "relay_next pc disp dec uid w (ConsoleRequest c fault) = console_request c fault w"
| "relay_next pc disp dec uid w (ConsoleLeft c) = console_left c w"
| "relay_next pc disp dec uid w (OtherManager e) = other_manager_step e w"
| "relay_next pc disp dec uid w (OtherBroker e) = w\<lparr>rw_broker := confirm_step (rw_broker w) e\<rparr>"

declare map_of_eq_Some_iff [simp del] Some_eq_map_of_iff [simp del]

section \<open>Connections and sessions belong together\<close>

definition is_adopted :: "session \<Rightarrow> bool" where
  "is_adopted s \<longleftrightarrow> ss_session_source s = Adopted \<and> (case ss_backend s of AdoptedBackend _ \<Rightarrow> True | _ \<Rightarrow> False)"

text \<open>An id given out, whose session, while it is listed, is a shared terminal.\<close>

definition shared_terminal :: "manager \<Rightarrow> session_id \<Rightarrow> bool" where
  "shared_terminal m sid \<longleftrightarrow> sid \<in> set (added_ids m) \<and> (\<forall>s. hm_get (mg_sessions m) sid = Some s \<longrightarrow> is_adopted s)"

definition conns_ok :: "manager \<Rightarrow> (nat, relay_conn) hashmap \<Rightarrow> bool" where
  "conns_ok m conns \<longleftrightarrow>
     hm_wf conns \<and> hm_count (\<lambda>rc. \<not> finished rc) conns \<le> MAX_RELAY_CONNECTIONS \<and>
     (\<forall>c rc sid. hm_get conns c = Some rc \<longrightarrow> rc_phase rc = TerminalConn sid \<longrightarrow> shared_terminal m sid) \<and>
     (\<forall>c rc c' rc' sid. hm_get conns c = Some rc \<longrightarrow> hm_get conns c' = Some rc' \<longrightarrow>
        rc_phase rc = TerminalConn sid \<longrightarrow> rc_phase rc' = TerminalConn sid \<longrightarrow> c = c')"

definition pipe_inv :: "'b relay_world \<Rightarrow> bool" where
  "pipe_inv w \<longleftrightarrow> manager_inv (rw_manager w) \<and> conns_ok (rw_manager w) (rw_conns w)"

text \<open>The counter of session ids goes on, and a creation has a name of its own.\<close>

definition pipe_ok :: "'b relay_world \<Rightarrow> pipe_step \<Rightarrow> bool" where
  "pipe_ok w e \<longleftrightarrow>
     mg_next_id (rw_manager w) + 1 \<noteq> 0 \<and>
     (case e of RelayFrame env _ _ \<Rightarrow> \<not> hm_contains (mg_creating (rw_manager w)) (re_creation env) | _ \<Rightarrow> True)"

lemma conns_ok_mgr:
  assumes "conns_ok m conns" "\<And>sid. shared_terminal m sid \<Longrightarrow> shared_terminal m' sid"
  shows "conns_ok m' conns"
  using assms by (simp add: conns_ok_def)

lemma conns_ok_set:
  assumes "conns_ok m conns" "hm_get conns c = Some rc" "\<not> finished rc" "\<And>sid. rc_phase rc' = TerminalConn sid \<Longrightarrow> rc_phase rc = TerminalConn sid"
  shows "conns_ok m (hm_insert c rc' conns)"
proof -
  have "hm_count (\<lambda>rc. \<not> finished rc) (hm_insert c rc' conns) \<le> MAX_RELAY_CONNECTIONS"
    using hm_count_insert [of conns "\<lambda>rc. \<not> finished rc" c rc'] assms(1-3) by (cases "finished rc'") (auto simp: conns_ok_def)
  then show ?thesis using assms(1,2,4) by (auto simp: conns_ok_def distinct_update)
qed

lemma shared_update:
  assumes "shared_terminal m sid" "\<And>s. is_adopted s \<Longrightarrow> is_adopted (f s)"
  shows "shared_terminal (update_session k f m) sid"
  using assms by (auto simp: shared_terminal_def added_ids_def update_session_def split: option.splits)

lemma shared_remove: "shared_terminal m sid \<Longrightarrow> shared_terminal (remove_session k m) sid"
  by (auto simp: shared_terminal_def added_ids_def remove_session_def delete_conv' restrict_map_def split: if_splits)

lemma shared_set_size: "shared_terminal m sid \<Longrightarrow> shared_terminal (set_size k dims m) sid"
  by (auto simp: shared_terminal_def added_ids_def set_size_def update_session_def is_adopted_def split: option.splits if_splits)

lemma creating_not_added:
  assumes "manager_inv m" "hm_get (mg_creating m) c = Some sid"
  shows "sid \<notin> set (added_ids m)"
proof -
  have "sid \<in> snd ` set (mg_creating m)" using map_of_SomeD [OF assms(2)] by (auto intro: rev_image_eqI)
  then show ?thesis using assms(1) by (auto simp: manager_inv_def)
qed

lemma shared_insert:
  assumes "manager_inv m" "shared_terminal m sid"
  shows "shared_terminal (insert_session c s m) sid"
  using assms(2) creating_not_added [OF assms(1), of c]
  by (auto simp: shared_terminal_def insert_session_def added_ids_def split: option.splits)

lemma shared_reserve: "shared_terminal m sid \<Longrightarrow> shared_terminal (fst (reserve_capacity c m)) sid"
  by (simp add: shared_terminal_def reserve_capacity_def added_ids_def)

lemma shared_fields [simp]:
  "shared_terminal (m\<lparr>mg_pruned := ps\<rparr>) sid = shared_terminal m sid" "shared_terminal (m\<lparr>mg_starting := st\<rparr>) sid = shared_terminal m sid"
  "shared_terminal (m\<lparr>mg_children := cs\<rparr>) sid = shared_terminal m sid" "shared_terminal (m\<lparr>mg_drivers := ds\<rparr>) sid = shared_terminal m sid"
  by (simp_all add: shared_terminal_def added_ids_def)

lemma shared_dead: "shared_terminal m sid \<Longrightarrow> shared_terminal (remove_dead k m) sid"
  by (auto simp: remove_dead_def shared_remove split: option.splits backend.splits)

lemma shared_registry_step:
  assumes "manager_inv m" "shared_terminal m sid"
  shows "shared_terminal (registry_step m e) sid"
proof (cases e)
  case (RecordConversation k conversation)
  then show ?thesis using assms(2) by (auto simp: record_conversation_def is_adopted_def intro!: shared_update split: backend.splits)
next
  case (DriverEnded k)
  then show ?thesis using assms(2) by (auto simp: driver_ended_def is_adopted_def intro!: shared_update split: backend.splits)
next
  case (StoreDriver k)
  then show ?thesis using assms(2) by (auto simp: store_driver_def is_adopted_def intro!: shared_update split: backend.splits)
next
  case (AbandonCreation c)
  then show ?thesis using assms(2) by (simp add: abandon_creation_def shared_terminal_def added_ids_def split: option.splits)
next
  case (KillStep k fault)
  then show ?thesis using assms(2)
    by (auto simp: kill_session_def Let_def shared_remove split: option.splits backend.splits prod.splits send_result.splits)
next
  case (WriteInput k bs fault)
  show ?thesis
  proof (cases "hm_get (mg_sessions m) k")
    case None
    then show ?thesis using assms(2) WriteInput by (simp add: write_input_def)
  next
    case (Some s)
    then show ?thesis using assms(2) WriteInput
      by (auto simp: write_input_def update_session_def shared_terminal_def added_ids_def is_adopted_def split: option.splits backend.splits prod.splits send_result.splits)
  qed
qed (use assms in \<open>auto simp: shared_reserve finish_shell_def register_adopted_def finish_agent_def Let_def shared_insert rename_session_def shared_dead
      spawn_driver_def shared_set_size resize_session_def push_session_output_def is_adopted_def intro!: shared_update split: option.splits backend.splits\<close>)

lemma set_conn_fields [simp]:
  "rw_manager (set_conn c rc w) = rw_manager w" "rw_conns (set_conn c rc w) = hm_insert c rc (rw_conns w)" "rw_broker (set_conn c rc w) = rw_broker w"
  "rw_pairing (set_conn c rc w) = rw_pairing w" "rw_peers (set_conn c rc w) = rw_peers w" "rw_active (set_conn c rc w) = rw_active w"
  "rw_push (set_conn c rc w) = rw_push w" "rw_shutdown (set_conn c rc w) = rw_shutdown w"
  by (simp_all add: set_conn_def)

lemma pipe_inv_set:
  assumes "pipe_inv w" "hm_get (rw_conns w) c = Some rc" "\<not> finished rc" "\<forall>sid. rc_phase rc' = TerminalConn sid \<longrightarrow> rc_phase rc = TerminalConn sid"
    and "rw_manager w' = rw_manager w" "rw_conns w' = rw_conns w"
  shows "pipe_inv (set_conn c rc' w')"
  using assms conns_ok_set [of "rw_manager w" "rw_conns w" c rc rc'] by (simp add: pipe_inv_def)

lemmas pipe_inv_conn = pipe_inv_set [OF _ _ _ _ refl refl]

lemma finished_simps [simp]:
  "rc_phase rc = AwaitVersion \<Longrightarrow> \<not> finished rc" "rc_phase rc = AwaitFirst \<Longrightarrow> \<not> finished rc" "rc_phase rc = TerminalConn sid \<Longrightarrow> \<not> finished rc"
  "rc_phase rc = ConsoleIdle cid \<Longrightarrow> \<not> finished rc" "rc_phase rc = ConsoleAsked cid \<Longrightarrow> \<not> finished rc" "rc_phase rc = ConsoleLeaving cid \<Longrightarrow> \<not> finished rc"
  "rc_phase rc = ConsoleOpening fp \<Longrightarrow> \<not> finished rc"
  by (simp_all add: finished_def)

lemma pipe_inv_mgr:
  assumes "pipe_inv w" "manager_inv m" "\<And>sid. shared_terminal (rw_manager w) sid \<Longrightarrow> shared_terminal m sid"
  shows "pipe_inv (w\<lparr>rw_manager := m\<rparr>)"
  using assms conns_ok_mgr by (auto simp: pipe_inv_def)

lemma adopt_terminal_inv:
  assumes "pipe_inv w" "hm_get (rw_conns w) c = Some rc" "rc_phase rc = AwaitFirst" "mg_next_id (rw_manager w) + 1 \<noteq> 0"
    and "\<not> hm_contains (mg_creating (rw_manager w)) k"
  shows "pipe_inv (adopt_terminal c rc k title dims w)"
proof (cases "mg_slots (rw_manager w) = 0")
  case True
  then show ?thesis using pipe_inv_conn [OF assms(1,2)] assms(3) by (simp add: adopt_terminal_def reserve_capacity_def end_conn_def)
next
  case False
  define m where "m = fst (reserve_capacity k (rw_manager w))"
  define m' where "m' = register_adopted k title dims m"
  define sid where "sid = mg_next_id (rw_manager w)"
  have mi: "manager_inv (rw_manager w)" and co: "conns_ok (rw_manager w) (rw_conns w)" using assms(1) by (simp_all add: pipe_inv_def)
  have m: "manager_inv m" using reserve_capacity_inv [OF mi assms(4,5)] by (simp add: m_def)
  then have m': "manager_inv m'" by (simp add: m'_def register_adopted_def insert_session_inv)
  have get: "hm_get (mg_creating m) k = Some sid" using False by (simp add: m_def sid_def reserve_capacity_def)
  have keep: "shared_terminal m' s" if "shared_terminal (rw_manager w) s" for s
    using that shared_insert [OF m] shared_reserve by (simp add: m'_def m_def register_adopted_def)
  have new: "shared_terminal m' sid"
    using get by (simp add: shared_terminal_def m'_def register_adopted_def insert_session_def added_ids_def is_adopted_def)
  have "sid \<notin> set (added_ids (rw_manager w))" using mi by (auto simp: manager_inv_def sid_def)
  then have fresh: "rc_phase rc' \<noteq> TerminalConn sid" if "hm_get (rw_conns w) c' = Some rc'" for c' rc'
    using co that by (auto simp: conns_ok_def shared_terminal_def)
  have "hm_count (\<lambda>rc. \<not> finished rc) (hm_insert c (rc\<lparr>rc_phase := TerminalConn sid\<rparr>) (rw_conns w)) \<le> MAX_RELAY_CONNECTIONS"
    using hm_count_insert [of "rw_conns w" "\<lambda>rc. \<not> finished rc" c "rc\<lparr>rc_phase := TerminalConn sid\<rparr>"] assms(2,3) co by (simp add: conns_ok_def)
  then have "conns_ok m' (hm_insert c (rc\<lparr>rc_phase := TerminalConn sid\<rparr>) (rw_conns w))"
    using co keep new fresh by (auto simp: conns_ok_def distinct_update)
  then show ?thesis
    using m' False by (simp add: adopt_terminal_def pipe_inv_def m'_def m_def sid_def reserve_capacity_def)
qed

lemma revoke_devices_frame:
  "rw_manager (fst (revoke_devices pc disp env ids w)) = rw_manager w" "rw_conns (fst (revoke_devices pc disp env ids w)) = rw_conns w"
  "rw_broker (fst (revoke_devices pc disp env ids w)) = rw_broker w"
  by (simp_all add: revoke_devices_def split: option.splits prod.splits)

lemma first_frame_inv:
  assumes "pipe_inv w" "hm_get (rw_conns w) c = Some rc" "rc_phase rc = AwaitFirst" "mg_next_id (rw_manager w) + 1 \<noteq> 0"
    and "\<not> hm_contains (mg_creating (rw_manager w)) (re_creation env)"
  shows "pipe_inv (first_frame pc disp env c rc msg w)"
proof -
  have set: "pipe_inv (set_conn c rc' w')" if "rw_manager w' = rw_manager w" "rw_conns w' = rw_conns w" "\<forall>sid. rc_phase rc' \<noteq> TerminalConn sid" for rc' w'
    using pipe_inv_set [OF assms(1,2) _ _ that(1,2)] assms(3) that(3) by simp
  show ?thesis
    using revoke_devices_frame [of pc disp env _ w] adopt_terminal_inv [OF assms]
    by (auto simp: first_frame_def end_conn_def send_then_def reopen_pairing_def intro!: set split: option.splits relay_to_host.splits sum.splits prod.splits) (metis fst_conv)+
qed

lemma end_terminal_inv:
  assumes "pipe_inv w" "hm_get (rw_conns w) c = Some rc" "rc_phase rc = TerminalConn sid"
  shows "pipe_inv (end_terminal c rc sid w)"
proof -
  have "pipe_inv (w\<lparr>rw_manager := remove_dead sid (rw_manager w)\<rparr>)"
    using assms(1) by (intro pipe_inv_mgr) (auto simp: pipe_inv_def remove_dead_inv shared_dead)
  from pipe_inv_conn [OF this] show ?thesis using assms(2,3) by (simp add: end_terminal_def end_conn_def)
qed

lemma terminal_frame_inv:
  assumes "pipe_inv w"
  shows "pipe_inv (w\<lparr>rw_manager := fst (terminal_frame sid msg (rw_manager w))\<rparr>)"
proof (rule pipe_inv_mgr [OF assms])
  have m: "manager_inv (rw_manager w)" using assms by (simp add: pipe_inv_def)
  then show "manager_inv (fst (terminal_frame sid msg (rw_manager w)))"
    by (auto simp: terminal_frame_def push_session_output_def manager_inv_update set_size_inv split: option.splits relay_to_host.splits)
  show "shared_terminal (fst (terminal_frame sid msg (rw_manager w))) s" if "shared_terminal (rw_manager w) s" for s
    using that by (auto simp: terminal_frame_def push_session_output_def shared_set_size is_adopted_def intro!: shared_update split: option.splits relay_to_host.splits)
qed

lemma relay_frame_inv:
  assumes "pipe_inv w" "pipe_ok w (RelayFrame env c r)"
  shows "pipe_inv (relay_frame pc disp dec env c r w)"
proof (cases "hm_get (rw_conns w) c")
  case (Some rc)
  note conn = pipe_inv_conn [OF assms(1) Some]
  show ?thesis
  proof (cases "rc_phase rc")
    case (TerminalConn sid)
    then show ?thesis
      using Some end_terminal_inv [OF assms(1) Some TerminalConn] terminal_frame_inv [OF assms(1), of sid]
      by (auto simp: relay_frame_def split: sum.splits prod.splits bool.splits) (metis fst_conv)
  next
    case AwaitFirst
    then show ?thesis using Some conn assms first_frame_inv [OF assms(1) Some AwaitFirst]
      by (auto simp: relay_frame_def end_conn_def pipe_ok_def split: sum.splits)
  next
    case (ConsoleAsked cid)
    have "pipe_inv (set_conn c (rc\<lparr>rc_phase := ConsoleLeaving cid\<rparr>) (w\<lparr>rw_broker := bk\<rparr>))" for bk
      by (rule pipe_inv_set [OF assms(1) Some]) (simp_all add: ConsoleAsked)
    then show ?thesis using Some ConsoleAsked by (auto simp: relay_frame_def console_answer_def leave_console_def split: option.splits)
  qed (use Some conn assms(1) in \<open>auto simp: relay_frame_def end_conn_def leave_console_def split: sum.splits\<close>)
qed (simp add: relay_frame_def assms(1))

lemma set_terminal_queue_inv:
  assumes "pipe_inv w" "hm_get (rw_conns w) c = Some rc" "rc_phase rc = TerminalConn sid" "rc_phase rc' = TerminalConn sid"
  shows "pipe_inv (set_terminal_queue c rc' sid q w)"
proof -
  have "pipe_inv (w\<lparr>rw_manager := update_session sid (\<lambda>s. s\<lparr>ss_backend := AdoptedBackend q\<rparr>) (rw_manager w)\<rparr>)"
    using assms(1) by (intro pipe_inv_mgr) (auto simp: pipe_inv_def manager_inv_update is_adopted_def intro!: shared_update)
  from pipe_inv_conn [OF this, of c rc rc'] show ?thesis
    using assms pipe_inv_conn [OF assms(1,2)] by (simp add: set_terminal_queue_def)
qed

lemma other_manager_inv:
  assumes "pipe_inv w" "pipe_ok w (OtherManager e)"
  shows "pipe_inv (other_manager_step e w)"
proof -
  have mi: "manager_inv (rw_manager w)" using assms(1) by (simp add: pipe_inv_def)
  have reg: "pipe_inv (w\<lparr>rw_manager := registry_step (rw_manager w) e\<rparr>)"
    by (rule pipe_inv_mgr [OF assms(1)])
      (use assms(2) sessions.conditional_step [OF mi] shared_registry_step [OF mi] in \<open>auto simp: pipe_ok_def ids_left_def\<close>)
  have phase: "rc_phase (orphan_queue sid q rc) = rc_phase rc" for sid q rc by (simp add: orphan_queue_def)
  then have fin: "finished (orphan_queue sid q rc) = finished rc" for sid q rc by (simp add: finished_def)
  have count: "hm_count (\<lambda>rc. \<not> finished rc) (map (\<lambda>(c, rc). (c, orphan_queue sid q rc)) xs) = hm_count (\<lambda>rc. \<not> finished rc) xs" for sid q and xs :: "(nat, relay_conn) hashmap"
    by (induction xs) (auto simp: fin)
  have keys: "map fst (map (\<lambda>(c, rc). (c, orphan_queue sid q rc)) xs) = map fst xs" for sid q and xs :: "(nat, relay_conn) hashmap"
    by (induction xs) auto
  have "conns_ok m (map (\<lambda>(c, rc). (c, orphan_queue sid q rc)) xs)" if "conns_ok m xs" for m sid q xs
    using that unfolding conns_ok_def by (simp only: count keys map_of_map) (auto simp: phase)
  then have "pipe_inv (w\<lparr>rw_manager := m, rw_conns := map (\<lambda>(c, rc). (c, orphan_queue sid q rc)) (rw_conns w)\<rparr>)" if "pipe_inv (w\<lparr>rw_manager := m\<rparr>)" for m sid q
    using that by (simp add: pipe_inv_def)
  then show ?thesis using reg
    by (auto simp: other_manager_step_def split: manager_step.splits prod.splits option.splits backend.splits)
qed

definition empty_pipe :: "manager \<Rightarrow> pairing_state option \<Rightarrow> broker \<Rightarrow> 'b peer_store option \<Rightarrow> active option \<Rightarrow> device_id list option \<Rightarrow> 'b relay_world" where
  "empty_pipe m pairing bk peers act push =
     \<lparr>rw_manager = m, rw_pairing = pairing, rw_broker = bk, rw_peers = peers, rw_active = act, rw_push = push, rw_shutdown = False, rw_conns = []\<rparr>"

interpretation pipe: conditional_invariant "relay_next pc disp dec uid" pipe_inv pipe_ok for pc disp dec uid
proof unfold_locales
  fix w :: "'a relay_world" and e
  assume inv: "pipe_inv w" and ok: "pipe_ok w e"
  show "pipe_inv (relay_next pc disp dec uid w e)"
  proof (cases e)
    case (RelayAccept c cred)
    have "pipe_inv (accept_relay uid c cred w)" if "\<not> hm_contains (rw_conns w) c"
      using inv that hm_count_insert [of "rw_conns w" "\<lambda>rc. \<not> finished rc" c "\<lparr>rc_phase = AwaitVersion, rc_queue = None, rc_out = []\<rparr>"]
      by (auto simp: accept_relay_def pipe_inv_def conns_ok_def hm_contains_def distinct_update finished_def split: sum.splits)
    then show ?thesis using inv RelayAccept by simp
  next
    case (RelayFrame env c r)
    then show ?thesis using relay_frame_inv inv ok by simp
  next
    case (OtherManager e)
    then show ?thesis using other_manager_inv inv ok by simp
  next
    case (RelayWriter c fault)
    then show ?thesis using inv
      by (auto simp: writer_round_def intro!: set_terminal_queue_inv split: option.splits relay_phase.splits list.splits)
  next
    case (OtherBroker b)
    then show ?thesis using inv by (simp add: pipe_inv_def)
  next
    case (RelayTimeout c)
    then show ?thesis using inv pipe_inv_conn [OF inv]
      by (auto simp: relay_timeout_def end_conn_def split: option.splits relay_phase.splits)
  next
    case (PairingShown c fault)
    then show ?thesis using inv
      by (auto simp: pairing_shown_def end_conn_def send_then_def intro!: pipe_inv_set [OF inv] split: option.splits relay_phase.splits)
  next
    case (ConsoleRequest c fault)
    then show ?thesis using inv
      by (auto simp: console_request_def leave_console_def Let_def intro!: pipe_inv_set [OF inv] split: option.splits relay_phase.splits)
  next
    case (ConsoleLeft c)
    then show ?thesis using inv
      by (auto simp: console_left_def end_conn_def intro!: pipe_inv_set [OF inv] split: option.splits relay_phase.splits)
  qed
qed

text \<open>
  C22. Connections and sessions have matching types: whatever bytes the connections send and however they interleave with each other, with the
  rest of the session manager and with the pairing broker, at most 128 connections are open; a connection that shares a terminal
  refers to an id that was announced, whose session, while it is listed, is an adopted one with the queue of a relay; and no two connections
  share the same session.
\<close>

theorem relay_conns_typed:
  assumes "run_ok (relay_next pc disp dec uid) pipe_ok (empty_pipe (new_with_limits cap limit) pairing bk peers act push) es"
    and "w = foldl (relay_next pc disp dec uid) (empty_pipe (new_with_limits cap limit) pairing bk peers act push) es"
  shows "conns_ok (rw_manager w) (rw_conns w)"
proof -
  have "pipe_inv (empty_pipe (new_with_limits cap limit) pairing bk peers act push)"
    using new_manager_inv by (simp add: pipe_inv_def empty_pipe_def conns_ok_def)
  from pipe.conditional_run [OF this assms(1)] show ?thesis using assms(2) by (simp add: pipe_inv_def)
qed

text \<open>Two terminals are shared while an agent session is created, and the first is killed.\<close>

definition demo_dec :: "bytes \<Rightarrow> relay_to_host option" where
  "demo_dec bs =
     (if bs = [1] then Some (RhRegister ''t'' 80 24) else if bs = [2] then Some (RhOutput [7]) else if bs = [3] then Some (RhPairingConfirmResponse True)
      else if bs = [4] then Some RhReopenPairing else if bs = [5] then Some RhShutdown else None)"

definition demo_env :: "nat \<Rightarrow> relay_env" where
  "demo_env k = \<lparr>re_now = 0, re_secrets = [], re_fresh = Inr \<lparr>fp_ticket = ''t'', fp_qr = ''q'', fp_phrase = ''p'', fp_window_secs = 300\<rparr>,
     re_event_id = (\<lambda>d. [9]), re_in_time = (\<lambda>d. True), re_creation = k, re_fault = None\<rparr>"

definition demo_pipe :: "content relay_world" where
  "demo_pipe = empty_pipe (new_with_limits 4096 8) None new_broker None None None"

definition demo_share :: "nat \<Rightarrow> pipe_step list" where
  "demo_share c = [RelayAccept c (Inr 1000), RelayFrame (demo_env c) c (Inr [2, 0]), RelayFrame (demo_env c) c (Inr [1])]"

definition demo_steps :: "pipe_step list" where
  "demo_steps = demo_share 1 @ [OtherManager (ReserveCapacity 2)] @ demo_share 3 @
     [OtherManager (FinishAgent 2 None None None (80, 24)), OtherManager (KillStep 1 None), RelayFrame (demo_env 3) 3 (Inr [3])]"

theorem relay_conns_typed_witness:
  "run_ok (relay_next plain_postcard (\<lambda>d. '''') demo_dec 1000) pipe_ok demo_pipe demo_steps \<and>
   map (\<lambda>(c, rc). rc_phase rc) (rw_conns (foldl (relay_next plain_postcard (\<lambda>d. '''') demo_dec 1000) demo_pipe demo_steps)) = [TerminalConn 1, TerminalConn 3] \<and>
   conns_ok (rw_manager (foldl (relay_next plain_postcard (\<lambda>d. '''') demo_dec 1000) demo_pipe demo_steps))
     (rw_conns (foldl (relay_next plain_postcard (\<lambda>d. '''') demo_dec 1000) demo_pipe demo_steps))"
proof -
  have run: "run_ok (relay_next plain_postcard (\<lambda>d. '''') demo_dec 1000) pipe_ok demo_pipe demo_steps" by code_simp
  moreover have "map (\<lambda>(c, rc). rc_phase rc) (rw_conns (foldl (relay_next plain_postcard (\<lambda>d. '''') demo_dec 1000) demo_pipe demo_steps)) = [TerminalConn 1, TerminalConn 3]"
    by code_simp
  ultimately show ?thesis using relay_conns_typed [OF run [unfolded demo_pipe_def] refl] by (simp only: demo_pipe_def simp_thms)
qed

section \<open>What a shared terminal can touch\<close>

text \<open>Two worlds that differ at most in one connection and its session.\<close>

definition differ_only :: "nat \<Rightarrow> session_id \<Rightarrow> 'b relay_world \<Rightarrow> 'b relay_world \<Rightarrow> bool" where
  "differ_only c sid w w' \<longleftrightarrow>
     rw_pairing w' = rw_pairing w \<and> rw_broker w' = rw_broker w \<and> rw_peers w' = rw_peers w \<and> rw_active w' = rw_active w \<and>
     rw_push w' = rw_push w \<and> rw_shutdown w' = rw_shutdown w \<and> (\<forall>c'. c' \<noteq> c \<longrightarrow> hm_get (rw_conns w') c' = hm_get (rw_conns w) c') \<and>
     mg_next_id (rw_manager w') = mg_next_id (rw_manager w) \<and> mg_creating (rw_manager w') = mg_creating (rw_manager w) \<and>
     (\<forall>sid'. sid' \<noteq> sid \<longrightarrow> hm_get (mg_sessions (rw_manager w')) sid' = hm_get (mg_sessions (rw_manager w)) sid')"

lemma differ_only_trans: "differ_only c sid w w' \<Longrightarrow> differ_only c sid w' w'' \<Longrightarrow> differ_only c sid w w''"
  by (simp add: differ_only_def)

definition bound_to :: "nat \<Rightarrow> session_id \<Rightarrow> 'b relay_world \<Rightarrow> bool" where
  "bound_to c sid w \<longleftrightarrow> (\<exists>rc. hm_get (rw_conns w) c = Some rc \<and> (rc_phase rc = TerminalConn sid \<or> finished rc))"

lemma update_session_other: "sid' \<noteq> sid \<Longrightarrow> hm_get (mg_sessions (update_session sid f m)) sid' = hm_get (mg_sessions m) sid'"
  by (simp add: update_session_def split: option.splits)

lemma remove_dead_other: "sid' \<noteq> sid \<Longrightarrow> hm_get (mg_sessions (remove_dead sid m)) sid' = hm_get (mg_sessions m) sid'"
  by (simp add: remove_dead_def remove_session_def split: option.splits backend.splits)

lemma end_terminal_differ: "differ_only c sid w (end_terminal c rc sid w)"
  by (simp add: differ_only_def end_terminal_def end_conn_def remove_dead_other) (simp add: remove_dead_def remove_session_def split: option.splits backend.splits)

lemma terminal_frame_differ: "differ_only c sid w (w\<lparr>rw_manager := fst (terminal_frame sid msg (rw_manager w))\<rparr>)"
  by (auto simp: differ_only_def terminal_frame_def push_session_output_def set_size_def update_session_other split: option.splits relay_to_host.splits)

lemma relay_frame_bound:
  assumes "bound_to c sid w"
  shows "bound_to c sid (relay_frame pc disp dec env c r w) \<and> differ_only c sid w (relay_frame pc disp dec env c r w)"
proof -
  obtain rc where get: "hm_get (rw_conns w) c = Some rc" and ph: "rc_phase rc = TerminalConn sid \<or> finished rc"
    using assms unfolding bound_to_def by blast
  show ?thesis
  proof (cases "finished rc")
    case True
    then have "relay_frame pc disp dec env c r w = w" using get by (simp add: relay_frame_def finished_def split: relay_phase.splits)
    then show ?thesis using assms by (simp add: differ_only_def)
  next
    case False
    then have ph: "rc_phase rc = TerminalConn sid" using ph by simp
    have ends: "bound_to c sid (end_terminal c rc sid w)" by (simp add: bound_to_def end_terminal_def end_conn_def finished_def)
    have "relay_frame pc disp dec env c r w = end_terminal c rc sid w \<or>
        (\<exists>bs. r = Inr bs \<and> relay_frame pc disp dec env c r w = w\<lparr>rw_manager := fst (terminal_frame sid (dec bs) (rw_manager w))\<rparr>)"
      using get ph by (auto simp: relay_frame_def split: sum.splits prod.splits bool.splits)
    then show ?thesis
      using ends end_terminal_differ [of c sid w rc] terminal_frame_differ [of c sid w] assms by (auto simp: bound_to_def)
  qed
qed

text \<open>
  C23. A process that shares a terminal can do nothing but show output and sizes in its own session and end it: whatever bytes it sends after it
  has registered, decodable or not, no pairing is reopened or approved, no device is revoked, the host is not shut down, no
  other session, connection or creation is touched, and the session's id is given to no one else.
\<close>

theorem shared_terminal_confined:
  assumes "hm_get (rw_conns w) c = Some rc" "rc_phase rc = TerminalConn sid"
  shows "differ_only c sid w (foldl (\<lambda>w (env, r). relay_frame pc disp dec env c r w) w frames)"
proof -
  have "bound_to c sid w \<Longrightarrow> differ_only c sid w (foldl (\<lambda>w (env, r). relay_frame pc disp dec env c r w) w frames)" for w
  proof (induction frames arbitrary: w)
    case (Cons f frames)
    obtain env r where f: "f = (env, r)" by fastforce
    show ?case
      using differ_only_trans [of c sid w "relay_frame pc disp dec env c r w"] relay_frame_bound [OF Cons.prems, of pc disp dec env r] Cons.IH
      by (simp add: f)
  qed (simp add: differ_only_def)
  then show ?thesis using assms by (simp add: bound_to_def)
qed

text \<open>The connection tries to approve a pairing, to reopen pairing and to shut the host down.\<close>

theorem shared_terminal_confined_witness:
  "let w = foldl (relay_next plain_postcard (\<lambda>d. '''') demo_dec 1000) demo_pipe (demo_share 1);
       w' = foldl (\<lambda>w (env, r). relay_frame plain_postcard (\<lambda>d. '''') demo_dec env 1 r w) w
         [(demo_env 5, Inr [3]), (demo_env 5, Inr [4]), (demo_env 5, Inr [5]), (demo_env 5, Inr [2])]
   in differ_only 1 1 w w' \<and> \<not> rw_shutdown w' \<and> map (so_unseen \<circ> ss_output \<circ> snd) (mg_sessions (rw_manager w')) = [True]"
proof -
  let ?w = "foldl (relay_next plain_postcard (\<lambda>d. '''') demo_dec 1000) demo_pipe (demo_share 1)"
  let ?fs = "[(demo_env 5, Inr [3]), (demo_env 5, Inr [4]), (demo_env 5, Inr [5]), (demo_env 5, Inr [2])]"
  have "map_option rc_phase (hm_get (rw_conns ?w) 1) = Some (TerminalConn 1)" by code_simp
  then obtain rc where "hm_get (rw_conns ?w) 1 = Some rc" "rc_phase rc = TerminalConn 1" by (auto simp: map_option_eq_Some)
  moreover have "(\<not> rw_shutdown (foldl (\<lambda>w (env, r). relay_frame plain_postcard (\<lambda>d. '''') demo_dec env 1 r w) ?w ?fs)) \<and>
      map (so_unseen \<circ> ss_output \<circ> snd) (mg_sessions (rw_manager (foldl (\<lambda>w (env, r). relay_frame plain_postcard (\<lambda>d. '''') demo_dec env 1 r w) ?w ?fs))) = [True]"
    by code_simp
  ultimately show ?thesis using shared_terminal_confined [of ?w 1 _ 1 plain_postcard "\<lambda>d. ''''" demo_dec ?fs] by (simp only: Let_def simp_thms)
qed

section \<open>Revocations that are reported\<close>

lemma revoke_loop_tombstones:
  assumes "revoke_loop pc eid now ids gone notices ps = (ps', gone', notices', r)" "postcard_roundtrip pc"
    and "\<forall>d \<in> set gone. tombstoned pc d (eid d) ps" "map fst notices = gone"
  shows "(\<forall>d \<in> set gone'. tombstoned pc d (eid d) ps') \<and> map fst notices' = gone' \<and> set gone \<subseteq> set gone' \<and> (r = None \<longrightarrow> set gone' = set gone \<union> set ids)"
  using assms
proof (induction ids arbitrary: gone notices ps)
  case (Cons raw rest)
  show ?case
  proof (cases "raw \<in> set gone")
    case True
    then show ?thesis using Cons.IH [OF _ Cons.prems(2-4)] Cons.prems(1) by auto
  next
    case False
    obtain ps1 x where rv: "revoke pc (eid raw) now raw ps = (ps1, x)" by fastforce
    then have others: "\<forall>d \<in> set gone. tombstoned pc d (eid d) ps1"
      using False Cons.prems(3) tombstoned_revoke_other [OF Cons.prems(2), of _ _ ps raw "eid raw" now] by (metis fst_conv)
    show ?thesis
    proof (cases x)
      case (Inl e)
      then show ?thesis using Cons.prems False others rv by auto
    next
      case (Inr rec)
      then have "tombstoned pc raw (eid raw) ps1" using rv revoke_tombstones Cons.prems(2) by blast
      then have "\<forall>d \<in> set (gone @ [raw]). tombstoned pc d (eid d) ps1" using others by simp
      from Cons.IH [OF _ Cons.prems(2) this, of "notices @ [(raw, rec)]"] show ?thesis using Cons.prems(1,4) False Inr rv by auto
    qed
  qed
qed auto

text \<open>
  The answer to a revocation request is true: every device it lists is revoked in memory and on the disk, under the id its notice carries; when
  it names no error, these are all the devices asked for and a push notice went to each of them.
\<close>

theorem revocation_reply_true:
  assumes "postcard_roundtrip pc" "revoke_devices pc disp env ids w = (w', HrRevocationResult gone err)"
  shows "(\<forall>d \<in> set gone. \<exists>ps. rw_peers w' = Some ps \<and> tombstoned pc d (re_event_id env d) ps) \<and>
     (err = None \<longrightarrow> ids \<noteq> [] \<and> set gone = set ids \<and> (\<forall>ds. rw_push w = Some ds \<longrightarrow> rw_push w' = Some (ds @ gone)))"
proof (cases "rw_peers w")
  case None
  then show ?thesis using assms(2) by (auto simp: revoke_devices_def)
next
  case (Some store)
  obtain ps gone' notices r where l: "revoke_loop pc (re_event_id env) (re_now env) ids [] [] store = (ps, gone', notices, r)" using prod_cases4 by blast
  have "(\<forall>d \<in> set gone'. tombstoned pc d (re_event_id env d) ps) \<and> map fst notices = gone' \<and> (r = None \<longrightarrow> set gone' = set ids)"
    using revoke_loop_tombstones [OF l assms(1)] by simp
  then show ?thesis using assms(2) Some l by (auto simp: revoke_devices_def split: option.splits if_splits prod.splits)
qed

definition two_phones :: "content relay_world" where
  "two_phones =
     (let ps = fst (commit_handshake plain_postcard [8] (fresh_commit 1 None) paired_store);
          act = start_session 1 True 0 [7] ''phone'' (new_active 1 True None)
      in empty_pipe (new_with_limits 4096 8) None new_broker (Some ps) (Some act) (Some []))"

text \<open>The same device is named twice.\<close>

theorem revocation_reply_true_witness:
  "\<exists>w'. revoke_devices plain_postcard (\<lambda>d. '''') (demo_env 0) [[7], [8], [7]] two_phones = (w', HrRevocationResult [[7], [8]] None) \<and>
     (\<exists>ps. rw_peers w' = Some ps \<and> tombstoned plain_postcard [7] [9] ps) \<and> rw_push w' = Some [[7], [8]]"
proof -
  have "snd (revoke_devices plain_postcard (\<lambda>d. '''') (demo_env 0) [[7], [8], [7]] two_phones) = HrRevocationResult [[7], [8]] None" by code_simp
  then obtain w' where w': "revoke_devices plain_postcard (\<lambda>d. '''') (demo_env 0) [[7], [8], [7]] two_phones = (w', HrRevocationResult [[7], [8]] None)"
    by (metis prod.collapse)
  moreover have "rw_push two_phones = Some []" by code_simp
  ultimately show ?thesis using revocation_reply_true [OF plain_postcard_roundtrip w'] by (auto simp: demo_env_def)
qed

text \<open>
  When a later device cannot be committed, the devices revoked before it are reported as revoked, but none of them is told: their live connections
  get no notice and no push is sent.
\<close>

lemma failed_revocation_untold:
  "case two_phones of w \<Rightarrow>
     case revoke_devices plain_postcard (\<lambda>d. '''') (demo_env 0) [[7], [8]]
       (w\<lparr>rw_peers := map_option (\<lambda>ps. ps\<lparr>ps_disk := (ps_disk ps)\<lparr>faults := replicate 24 None @ [Some (IoError StorageFull ''full'')]\<rparr>\<rparr>) (rw_peers w)\<rparr>) of
       (w', reply) \<Rightarrow> reply = HrRevocationResult [[7]] (Some ''could not commit revocation for : full'') \<and>
         map_option ad_notices (rw_active w') = Some [] \<and> rw_push w' = Some []"
  by code_simp

section \<open>Approvals\<close>

fun console_of :: "relay_conn \<Rightarrow> u64 option" where
  "console_of rc = (case rc_phase rc of ConsoleIdle cid \<Rightarrow> Some cid | ConsoleAsked cid \<Rightarrow> Some cid | ConsoleLeaving cid \<Rightarrow> Some cid | _ \<Rightarrow> None)"

declare console_of.simps [simp del]

lemma console_of_simps [simp]:
  "rc_phase rc = ConsoleAsked cid \<Longrightarrow> console_of rc = Some cid"
  "console_of (rc\<lparr>rc_queue := q\<rparr>) = console_of rc" "console_of (rc\<lparr>rc_out := out\<rparr>) = console_of rc"
  by (simp_all add: console_of.simps)

definition asked_for :: "relay_conn \<Rightarrow> pair_request \<Rightarrow> bool" where
  "asked_for rc rq \<longleftrightarrow> rc_out rc \<noteq> [] \<and> List.last (rc_out rc) = HrPairingConfirmRequest (pq_display_name rq) (pq_code rq)"

definition consoles_wf :: "broker \<Rightarrow> bool" where
  "consoles_wf bk \<longleftrightarrow> distinct (map co_id (bk_consoles bk)) \<and> (\<forall>co \<in> set (bk_consoles bk). co_id co < bk_next_id bk)"

definition console_inv :: "'b relay_world \<Rightarrow> bool" where
  "console_inv w \<longleftrightarrow>
     consoles_wf (rw_broker w) \<and>
     (\<forall>c rc cid. hm_get (rw_conns w) c = Some rc \<longrightarrow> console_of rc = Some cid \<longrightarrow> cid < bk_next_id (rw_broker w)) \<and>
     (\<forall>c rc c' rc' cid. hm_get (rw_conns w) c = Some rc \<longrightarrow> hm_get (rw_conns w) c' = Some rc' \<longrightarrow> console_of rc = Some cid \<longrightarrow> console_of rc' = Some cid \<longrightarrow> c = c') \<and>
     (\<forall>c rc co rq. hm_get (rw_conns w) c = Some rc \<longrightarrow> rc_phase rc = ConsoleAsked (co_id co) \<longrightarrow> co \<in> set (bk_consoles (rw_broker w)) \<longrightarrow>
        co_shown co = Some rq \<longrightarrow> asked_for rc rq)"

text \<open>The counter of consoles goes on, and the host's own console takes requests and answers for itself only.\<close>

definition console_ok :: "'b relay_world \<Rightarrow> pipe_step \<Rightarrow> bool" where
  "console_ok w e \<longleftrightarrow>
     bk_next_id (rw_broker w) + 1 \<noteq> 0 \<and>
     (case e of
        OtherBroker (Take k) \<Rightarrow> list_all (\<lambda>(c, rc). console_of rc \<noteq> Some k) (rw_conns w)
      | OtherBroker (AnswerConsole k a) \<Rightarrow> list_all (\<lambda>(c, rc). console_of rc \<noteq> Some k) (rw_conns w)
      | _ \<Rightarrow> True)"

text \<open>No console outside \<open>K\<close> shows what it did not show before.\<close>

definition shown_le :: "u64 set \<Rightarrow> broker \<Rightarrow> broker \<Rightarrow> bool" where
  "shown_le K bk bk' \<longleftrightarrow>
     bk_next_id bk \<le> bk_next_id bk' \<and> consoles_wf bk' \<and>
     (\<forall>co' \<in> set (bk_consoles bk'). co_id co' \<notin> K \<longrightarrow> co_shown co' \<noteq> None \<longrightarrow>
        (\<exists>co \<in> set (bk_consoles bk). co_id co = co_id co' \<and> co_shown co = co_shown co'))"

lemma console_inv_weaken:
  assumes "console_inv w" "shown_le K (rw_broker w) (rw_broker w')"
    and "\<And>c rc' cid. hm_get (rw_conns w') c = Some rc' \<Longrightarrow> console_of rc' = Some cid \<Longrightarrow>
        \<exists>rc. hm_get (rw_conns w) c = Some rc \<and> console_of rc = Some cid \<and>
          (rc_phase rc' = ConsoleAsked cid \<longrightarrow> cid \<notin> K \<and> rc_phase rc = ConsoleAsked cid \<and> rc_out rc' = rc_out rc)"
  shows "console_inv w'"
proof -
  have "asked_for rc' rq"
    if g: "hm_get (rw_conns w') c = Some rc'" and p: "rc_phase rc' = ConsoleAsked (co_id co')" and co': "co' \<in> set (bk_consoles (rw_broker w'))" "co_shown co' = Some rq"
    for c rc' co' rq
  proof -
    obtain rc where rc: "hm_get (rw_conns w) c = Some rc" "co_id co' \<notin> K" "rc_phase rc = ConsoleAsked (co_id co')" "rc_out rc' = rc_out rc"
      using assms(3) [OF g, of "co_id co'"] p by auto
    then obtain co where "co \<in> set (bk_consoles (rw_broker w))" "co_id co = co_id co'" "co_shown co = Some rq"
      using assms(2) co' unfolding shown_le_def by force
    then have "asked_for rc rq" using assms(1) rc(1,3) unfolding console_inv_def by metis
    then show ?thesis using rc(4) by (simp add: asked_for_def)
  qed
  moreover have "cid < bk_next_id (rw_broker w')" if "hm_get (rw_conns w') c = Some rc'" "console_of rc' = Some cid" for c rc' cid
    using assms(1,2) assms(3) [OF that] unfolding console_inv_def shown_le_def by (meson order_less_le_trans)
  moreover have "c = c'" if "hm_get (rw_conns w') c = Some rc" "hm_get (rw_conns w') c' = Some rc'" "console_of rc = Some cid" "console_of rc' = Some cid" for c c' rc rc' cid
    using assms(1) assms(3) [OF that(1,3)] assms(3) [OF that(2,4)] unfolding console_inv_def by blast
  ultimately show ?thesis using assms(2) unfolding console_inv_def shown_le_def by blast
qed

lemma shown_le_refl: "console_inv w \<Longrightarrow> shown_le {} (rw_broker w) (rw_broker w)"
  by (auto simp: shown_le_def console_inv_def)

lemma shown_le_map:
  assumes "consoles_wf bk" "\<And>co. co_id (f co) = co_id co" "\<And>co. co_id co \<notin> K \<Longrightarrow> co_shown (f co) = None \<or> co_shown (f co) = co_shown co"
    and "bk_consoles bk' = map f (bk_consoles bk)" "bk_next_id bk' = bk_next_id bk"
  shows "shown_le K bk bk'"
proof -
  have "co_id \<circ> f = co_id" using assms(2) by auto
  then have "consoles_wf bk'" using assms(1,2,4,5) by (simp add: consoles_wf_def)
  then show ?thesis using assms(2-5) by (fastforce simp: shown_le_def)
qed

lemma shown_le_update:
  assumes "consoles_wf bk" "\<And>co. co_id (f co) = co_id co" "\<And>co. k \<notin> K \<Longrightarrow> co_shown (f co) = None \<or> co_shown (f co) = co_shown co"
  shows "shown_le K bk (update_console k f bk)"
  by (rule shown_le_map [OF assms(1), where f = "\<lambda>co. if co_id co = k then f co else co"]) (use assms in \<open>auto simp: update_console_def\<close>)

lemma shown_le_fields:
  "bk_consoles bk' = bk_consoles bk \<Longrightarrow> bk_next_id bk' = bk_next_id bk \<Longrightarrow> consoles_wf bk \<Longrightarrow> shown_le K bk bk'"
  by (auto simp: shown_le_def consoles_wf_def)

lemma consoles_wf_cong:
  "bk_consoles bk' = bk_consoles bk \<Longrightarrow> bk_next_id bk' = bk_next_id bk \<Longrightarrow> consoles_wf bk' = consoles_wf bk"
  by (simp add: consoles_wf_def)

lemma shown_le_trans_fields:
  "shown_le K bk bk1 \<Longrightarrow> bk_consoles bk' = bk_consoles bk1 \<Longrightarrow> bk_next_id bk' = bk_next_id bk1 \<Longrightarrow> shown_le K bk bk'"
  by (simp add: shown_le_def consoles_wf_def)

lemma shown_le_attach:
  assumes "consoles_wf bk" "bk_next_id bk + 1 \<noteq> 0"
  shows "shown_le K bk (attach bk)"
  using assms word_less_Suc [OF assms(2)] unfolding shown_le_def consoles_wf_def attach_def by (auto intro: less_trans)

lemma shown_le_answer: "consoles_wf bk \<Longrightarrow> shown_le K bk (answer k a bk)"
proof -
  assume wf: "consoles_wf bk"
  have u: "shown_le K bk (update_console k (\<lambda>co. co\<lparr>co_shown := None\<rparr>) bk)" by (rule shown_le_update [OF wf]) auto
  have same: "shown_le K bk bk" using wf by (simp add: shown_le_fields)
  show ?thesis
    using same by (auto simp: answer_def buffer_answer_def intro: shown_le_trans_fields [OF u] split: option.splits)
qed

lemma shown_le_confirm: "consoles_wf bk \<Longrightarrow> shown_le K bk (begin_confirm dev name code bk)"
proof -
  assume wf: "consoles_wf bk"
  have ids: "co_id (deliver rq co) = co_id co" "co_shown (deliver rq co) = co_shown co" for rq co by (simp_all add: deliver_def)
  have del: "shown_le K bk bk'" if "bk_consoles bk' = map (deliver rq) (bk_consoles bk)" "bk_next_id bk' = bk_next_id bk" for rq bk'
    by (rule shown_le_map [OF wf, where f = "deliver rq"]) (simp_all add: ids that)
  show ?thesis using wf by (auto simp: begin_confirm_def Let_def verdict_def intro: shown_le_fields del)
qed

lemma shown_le_confirm_step:
  assumes "consoles_wf bk" "bk_next_id bk + 1 \<noteq> 0" "\<And>k. e = Take k \<Longrightarrow> k \<in> K"
  shows "shown_le K bk (confirm_step bk e)"
proof (cases e)
  case (Take k)
  then show ?thesis using assms(3) by (auto simp: take_request_def intro!: shown_le_update [OF assms(1)] split: option.splits)
next
  case Receive
  then show ?thesis using assms(1) by (auto simp: receive_def verdict_def intro!: shown_le_fields split: option.splits prod.splits list.splits)
next
  case TimeOut
  then show ?thesis using assms(1) by (auto simp: time_out_def verdict_def intro!: shown_le_fields split: option.splits)
qed (use assms in \<open>auto simp: shown_le_attach shown_le_answer shown_le_confirm detach_def close_receiver_def discard_def cancel_def
      intro!: shown_le_update [OF assms(1)] shown_le_fields\<close>)

text \<open>A step that leaves the consoles of the connections as they are, or takes them away.\<close>

lemma console_inv_conn:
  assumes "console_inv w" "shown_le {} (rw_broker w) (rw_broker w')" "hm_get (rw_conns w) c = Some rc"
    and "\<forall>c'. c' \<noteq> c \<longrightarrow> hm_get (rw_conns w') c' = hm_get (rw_conns w) c'"
    and "\<forall>rc'. hm_get (rw_conns w') c = Some rc' \<longrightarrow> console_of rc' = None \<or> console_of rc' = console_of rc \<and> (\<forall>cid. rc_phase rc' \<noteq> ConsoleAsked cid)"
  shows "console_inv w'"
proof (rule console_inv_weaken [OF assms(1,2)])
  fix c' rc' cid
  assume "hm_get (rw_conns w') c' = Some rc'" "console_of rc' = Some cid"
  then show "\<exists>rc. hm_get (rw_conns w) c' = Some rc \<and> console_of rc = Some cid \<and>
      (rc_phase rc' = ConsoleAsked cid \<longrightarrow> cid \<notin> {} \<and> rc_phase rc = ConsoleAsked cid \<and> rc_out rc' = rc_out rc)"
    using assms(3-5) by (cases "c' = c") auto
qed

lemma console_inv_same:
  assumes "console_inv w" "shown_le {} (rw_broker w) (rw_broker w')" "rw_conns w' = rw_conns w"
  shows "console_inv w'"
  by (rule console_inv_weaken [OF assms(1,2)]) (use assms(3) in auto)

lemma console_of_phase [simp]:
  "console_of (rc\<lparr>rc_phase := Finished e\<rparr>) = None" "console_of (rc\<lparr>rc_phase := AwaitFirst\<rparr>) = None" "console_of (rc\<lparr>rc_phase := TerminalConn sid\<rparr>) = None"
  "console_of (rc\<lparr>rc_phase := ConsoleOpening fp\<rparr>) = None" "console_of (rc\<lparr>rc_phase := AgentConn p j\<rparr>) = None"
  "console_of (rc\<lparr>rc_phase := ConsoleLeaving cid\<rparr>) = Some cid" "console_of (rc\<lparr>rc_phase := ConsoleIdle cid\<rparr>) = Some cid" "console_of (rc\<lparr>rc_phase := ConsoleAsked cid\<rparr>) = Some cid"
  by (simp_all add: console_of.simps)

definition no_console :: "nat \<Rightarrow> 'b relay_world \<Rightarrow> 'b relay_world \<Rightarrow> bool" where
  "no_console c w w' \<longleftrightarrow>
     rw_broker w' = rw_broker w \<and> (\<forall>c'. c' \<noteq> c \<longrightarrow> hm_get (rw_conns w') c' = hm_get (rw_conns w) c') \<and>
     (\<forall>rc. hm_get (rw_conns w') c = Some rc \<longrightarrow> console_of rc = None)"

lemma no_console_set:
  "console_of rc = None \<Longrightarrow> rw_broker w' = rw_broker w \<Longrightarrow> rw_conns w' = rw_conns w \<Longrightarrow> no_console c w (set_conn c rc w')"
  by (simp add: no_console_def)

lemma first_frame_no_console: "no_console c w (first_frame pc disp env c rc msg w)"
proof (cases msg)
  case (Some x)
  then show ?thesis
    using revoke_devices_frame [of pc disp env _ w]
    by (cases x) (auto simp: first_frame_def end_conn_def send_then_def reopen_pairing_def adopt_terminal_def intro!: no_console_set
        split: option.splits sum.splits prod.splits, (metis fst_conv)+)
qed (simp add: first_frame_def end_conn_def no_console_set)

lemma relay_frame_console:
  assumes "console_inv w"
  shows "console_inv (relay_frame pc disp dec env c r w)"
proof (cases "hm_get (rw_conns w) c")
  case (Some rc)
  have wf: "consoles_wf (rw_broker w)" using assms by (simp add: console_inv_def)
  have conn: "console_inv w'" if "rw_broker w' = rw_broker w" "\<forall>c'. c' \<noteq> c \<longrightarrow> hm_get (rw_conns w') c' = hm_get (rw_conns w) c'"
    "\<forall>rc'. hm_get (rw_conns w') c = Some rc' \<longrightarrow> console_of rc' = None \<or> console_of rc' = console_of rc \<and> (\<forall>cid. rc_phase rc' \<noteq> ConsoleAsked cid)" for w' :: "'a relay_world"
    by (rule console_inv_conn [OF assms _ Some that(2,3)]) (simp add: that(1) shown_le_refl [OF assms])
  show ?thesis
  proof (cases "rc_phase rc")
    case AwaitVersion
    then show ?thesis using Some by (auto simp: relay_frame_def end_conn_def intro!: conn split: sum.splits)
  next
    case AwaitFirst
    show ?thesis
    proof (cases r)
      case (Inl e)
      then show ?thesis using Some AwaitFirst by (auto simp: relay_frame_def end_conn_def intro!: conn)
    next
      case (Inr bs)
      then show ?thesis using Some AwaitFirst first_frame_no_console [of c w pc disp env rc "dec bs"] by (auto simp: relay_frame_def no_console_def intro!: conn)
    qed
  next
    case (TerminalConn sid)
    have "console_inv (w\<lparr>rw_manager := m\<rparr>)" for m by (rule console_inv_same [OF assms]) (simp_all add: shown_le_refl [OF assms])
    moreover have "console_inv (end_terminal c rc sid w)" by (rule conn) (simp_all add: end_terminal_def end_conn_def)
    ultimately show ?thesis using Some TerminalConn by (auto simp: relay_frame_def split: sum.splits prod.splits bool.splits)
  next
    case (ConsoleIdle cid)
    have "console_inv (leave_console c rc cid w)" by (rule conn) (simp_all add: leave_console_def ConsoleIdle console_of.simps)
    then show ?thesis using Some ConsoleIdle by (simp add: relay_frame_def)
  next
    case (ConsoleAsked cid)
    have "shown_le {} (rw_broker w) (discard cid (rw_broker w))" unfolding discard_def by (rule shown_le_update [OF wf]) auto
    then have "console_inv (console_answer c rc cid accept w)" for accept
      by (intro console_inv_conn [OF assms _ Some])
        (auto simp: console_answer_def leave_console_def ConsoleAsked shown_le_answer [OF wf] split: option.splits)
    then show ?thesis using Some ConsoleAsked by (simp add: relay_frame_def)
  qed (use Some assms in \<open>auto simp: relay_frame_def\<close>)
qed (simp add: relay_frame_def assms)

lemma pairing_shown_console:
  assumes "console_inv w" "bk_next_id (rw_broker w) + 1 \<noteq> 0"
  shows "console_inv (pairing_shown c fault w)"
proof (cases "\<exists>rc fp. hm_get (rw_conns w) c = Some rc \<and> rc_phase rc = ConsoleOpening fp")
  case True
  then obtain rc fp where get: "hm_get (rw_conns w) c = Some rc" and ph: "rc_phase rc = ConsoleOpening fp" by blast
  let ?bk = "rw_broker w" and ?rc' = "\<lambda>out. rc\<lparr>rc_phase := ConsoleIdle (bk_next_id (rw_broker w)), rc_out := out\<rparr>"
  have wf: "consoles_wf ?bk" using assms(1) by (simp add: console_inv_def)
  have s: "shown_le {} ?bk (attach ?bk)" by (rule shown_le_attach [OF wf assms(2)])
  have less: "bk_next_id ?bk < bk_next_id ?bk + 1" by (rule word_less_Suc [OF assms(2)])
  have "console_inv (set_conn c (?rc' out) (w\<lparr>rw_broker := attach ?bk\<rparr>))" for out
  proof -
    have fresh: "console_of rc1 \<noteq> Some (bk_next_id ?bk)" if "hm_get (rw_conns w) c1 = Some rc1" for c1 rc1
      using assms(1) that unfolding console_inv_def by (metis less_irrefl)
    have rest: "console_inv (w\<lparr>rw_broker := attach ?bk\<rparr>)" by (rule console_inv_same [OF assms(1)]) (simp_all add: s)
    then show ?thesis
      using fresh less unfolding console_inv_def by (auto simp: attach_def split: if_splits) 
  qed
  moreover have "console_inv (end_conn c rc e w)" for e
    by (rule console_inv_conn [OF assms(1) _ get]) (simp_all add: end_conn_def shown_le_refl [OF assms(1)])
  ultimately show ?thesis using get ph by (simp add: pairing_shown_def send_then_def split: option.splits)
next
  case False
  then have "pairing_shown c fault w = w" by (auto simp: pairing_shown_def split: option.splits relay_phase.splits)
  then show ?thesis using assms(1) by simp
qed

text \<open>Which steps of the pipe answer the broker.\<close>

lemma answers_update [simp]: "bk_answers (update_console k f bk) = bk_answers bk"
  by (simp add: update_console_def)

lemma answers_kept:
  "bk_answers (rw_broker (accept_relay uid c cred w)) = bk_answers (rw_broker w)"
  "bk_answers (rw_broker (relay_timeout c w)) = bk_answers (rw_broker w)"
  "bk_answers (rw_broker (writer_round c fault w)) = bk_answers (rw_broker w)"
  "bk_answers (rw_broker (pairing_shown c fault w)) = bk_answers (rw_broker w)"
  "bk_answers (rw_broker (console_request c fault w)) = bk_answers (rw_broker w)"
  "bk_answers (rw_broker (console_left c w)) = bk_answers (rw_broker w)"
  "bk_answers (rw_broker (other_manager_step s w)) = bk_answers (rw_broker w)"
  by (auto simp: accept_relay_def relay_timeout_def end_conn_def writer_round_def set_terminal_queue_def pairing_shown_def send_then_def attach_def console_request_def
      Let_def leave_console_def discard_def take_request_def console_left_def detach_def close_receiver_def other_manager_step_def
      split: sum.splits option.splits relay_phase.splits list.splits manager_step.splits prod.splits backend.splits)

lemma relay_frame_answers:
  "bk_answers (rw_broker (relay_frame pc disp dec env c r w)) = bk_answers (rw_broker w) \<or>
     (\<exists>rc cid bs. hm_get (rw_conns w) c = Some rc \<and> rc_phase rc = ConsoleAsked cid \<and> r = Inr bs)"
proof (cases "hm_get (rw_conns w) c")
  case (Some rc)
  then show ?thesis
    using first_frame_no_console [of c w pc disp env rc]
    by (cases "rc_phase rc") (auto simp: relay_frame_def end_conn_def end_terminal_def leave_console_def console_answer_def discard_def no_console_def
        split: sum.splits prod.splits bool.splits)
qed (simp add: relay_frame_def)

lemma consoles_unique:
  assumes "consoles_wf bk" "find (\<lambda>co. co_id co = cid) (bk_consoles bk) = Some co" "co' \<in> set (bk_consoles bk)" "co_id co' = cid"
  shows "co' = co"
proof -
  have "co \<in> set (bk_consoles bk)" "co_id co = cid" using find_SomeD [OF assms(2)] by simp_all
  then show ?thesis using assms(1,3,4) by (simp add: consoles_wf_def distinct_map inj_on_def)
qed

lemma console_inv_ask:
  assumes "console_inv (set_conn c rc w)" "console_of rc = Some cid" "console_of rc' = Some cid"
    and "\<And>co rq. co \<in> set (bk_consoles (rw_broker w)) \<Longrightarrow> co_id co = cid \<Longrightarrow> co_shown co = Some rq \<Longrightarrow> asked_for rc' rq"
  shows "console_inv (set_conn c rc' w)"
proof -
  have old: "\<exists>rc0. hm_get (rw_conns (set_conn c rc w)) c1 = Some rc0 \<and> console_of rc0 = Some cid1 \<and> (c1 \<noteq> c \<longrightarrow> rc0 = rc1) \<and> (c1 = c \<longrightarrow> rc1 = rc' \<and> cid1 = cid)"
    if "hm_get (rw_conns (set_conn c rc' w)) c1 = Some rc1" "console_of rc1 = Some cid1" for c1 rc1 cid1
    using that assms(2,3) by (auto split: if_splits)
  have inv: "consoles_wf (rw_broker w)"
    "\<And>c1 rc1 cid1. hm_get (rw_conns (set_conn c rc w)) c1 = Some rc1 \<Longrightarrow> console_of rc1 = Some cid1 \<Longrightarrow> cid1 < bk_next_id (rw_broker w)"
    "\<And>c1 rc1 c2 rc2 cid1. hm_get (rw_conns (set_conn c rc w)) c1 = Some rc1 \<Longrightarrow> hm_get (rw_conns (set_conn c rc w)) c2 = Some rc2 \<Longrightarrow>
       console_of rc1 = Some cid1 \<Longrightarrow> console_of rc2 = Some cid1 \<Longrightarrow> c1 = c2"
    "\<And>c1 rc1 co rq. hm_get (rw_conns (set_conn c rc w)) c1 = Some rc1 \<Longrightarrow> rc_phase rc1 = ConsoleAsked (co_id co) \<Longrightarrow> co \<in> set (bk_consoles (rw_broker w)) \<Longrightarrow>
       co_shown co = Some rq \<Longrightarrow> asked_for rc1 rq"
    using assms(1) unfolding console_inv_def set_conn_fields by blast+
  show ?thesis
    unfolding console_inv_def set_conn_fields(3)
  proof (intro conjI allI impI)
    fix c1 rc1 co rq
    assume a: "hm_get (rw_conns (set_conn c rc' w)) c1 = Some rc1" "rc_phase rc1 = ConsoleAsked (co_id co)" "co \<in> set (bk_consoles (rw_broker w))" "co_shown co = Some rq"
    then show "asked_for rc1 rq" using old [OF a(1), of "co_id co"] inv(4) [of c1 rc1 co rq] assms(4) by auto
  next
    fix c1 rc1 cid1
    assume a: "hm_get (rw_conns (set_conn c rc' w)) c1 = Some rc1" "console_of rc1 = Some cid1"
    obtain rc0 where "hm_get (rw_conns (set_conn c rc w)) c1 = Some rc0" "console_of rc0 = Some cid1" using old [OF a] by blast
    then show "cid1 < bk_next_id (rw_broker w)" by (rule inv(2))
  next
    fix c1 rc1 c2 rc2 cid1
    assume a: "hm_get (rw_conns (set_conn c rc' w)) c1 = Some rc1" "hm_get (rw_conns (set_conn c rc' w)) c2 = Some rc2" "console_of rc1 = Some cid1" "console_of rc2 = Some cid1"
    obtain rc3 where 3: "hm_get (rw_conns (set_conn c rc w)) c1 = Some rc3" "console_of rc3 = Some cid1" using old [OF a(1,3)] by blast
    obtain rc4 where 4: "hm_get (rw_conns (set_conn c rc w)) c2 = Some rc4" "console_of rc4 = Some cid1" using old [OF a(2,4)] by blast
    show "c1 = c2" by (rule inv(3) [OF 3(1) 4(1) 3(2) 4(2)])
  qed (rule inv(1))
qed

lemma console_request_console:
  assumes "console_inv w"
  shows "console_inv (console_request c fault w)"
proof (cases "\<exists>rc cid co rq. hm_get (rw_conns w) c = Some rc \<and> rc_phase rc = ConsoleIdle cid \<and>
    find (\<lambda>co. co_id co = cid) (bk_consoles (rw_broker w)) = Some co \<and> co_inbox co = Some rq")
  case True
  then obtain rc cid co rq where get: "hm_get (rw_conns w) c = Some rc" and ph: "rc_phase rc = ConsoleIdle cid"
    and co: "find (\<lambda>co. co_id co = cid) (bk_consoles (rw_broker w)) = Some co" and inb: "co_inbox co = Some rq" by blast
  let ?bk = "rw_broker w" and ?rc' = "rc\<lparr>rc_phase := ConsoleAsked cid, rc_out := rc_out rc @ [HrPairingConfirmRequest (pq_display_name rq) (pq_code rq)]\<rparr>"
  have wf: "consoles_wf ?bk" using assms by (simp add: console_inv_def)
  have cof: "console_of rc = Some cid" using ph by (simp add: console_of.simps)
  have taken: "shown_le {cid} ?bk (take_request cid ?bk)"
    unfolding take_request_def by (rule shown_le_update [OF wf]) (auto split: option.splits)
  have "shown_le {} ?bk (discard cid (take_request cid ?bk))"
    by (rule shown_le_map [OF wf, where f = "\<lambda>co. if co_id co = cid then (case co_inbox co of None \<Rightarrow> co\<lparr>co_shown := None\<rparr> | Some rq \<Rightarrow> co\<lparr>co_inbox := None, co_shown := None\<rparr>) else co"])
      (auto simp: discard_def take_request_def update_console_def split: option.splits)
  then have drop: "console_inv (leave_console c rc cid (w\<lparr>rw_broker := discard cid (take_request cid ?bk)\<rparr>))"
    by (intro console_inv_conn [OF assms _ get]) (simp_all add: leave_console_def cof)
  have idle: "console_inv (set_conn c (rc\<lparr>rc_phase := ConsoleIdle cid\<rparr>) (w\<lparr>rw_broker := take_request cid ?bk\<rparr>))"
  proof (rule console_inv_weaken [OF assms, where K = "{cid}"])
    fix c' rc1 cid1
    assume a: "hm_get (rw_conns (set_conn c (rc\<lparr>rc_phase := ConsoleIdle cid\<rparr>) (w\<lparr>rw_broker := take_request cid ?bk\<rparr>))) c' = Some rc1" "console_of rc1 = Some cid1"
    have "c' \<noteq> c \<Longrightarrow> cid1 \<noteq> cid" using assms a get cof unfolding console_inv_def by (auto split: if_splits)
    then show "\<exists>rc. hm_get (rw_conns w) c' = Some rc \<and> console_of rc = Some cid1 \<and>
        (rc_phase rc1 = ConsoleAsked cid1 \<longrightarrow> cid1 \<notin> {cid} \<and> rc_phase rc = ConsoleAsked cid1 \<and> rc_out rc1 = rc_out rc)"
      using a get cof by (auto split: if_splits)
  qed (simp add: taken)
  have shows_rq: "asked_for ?rc' rq'" if co': "co' \<in> set (bk_consoles (take_request cid ?bk))" "co_id co' = cid" "co_shown co' = Some rq'" for co' rq'
  proof -
    obtain co1 where "co1 \<in> set (bk_consoles ?bk)" "co_id co1 = cid" "co' = (case co_inbox co1 of None \<Rightarrow> co1 | Some rq \<Rightarrow> co1\<lparr>co_inbox := None, co_shown := Some rq\<rparr>)"
      using co'(1,2) by (auto simp: take_request_def update_console_def split: if_splits option.splits)
    then have "co_shown co' = Some rq" using consoles_unique [OF wf co] inb by simp
    then show ?thesis using co'(3) by (simp add: asked_for_def)
  qed
  have "console_inv (set_conn c ?rc' (w\<lparr>rw_broker := take_request cid ?bk\<rparr>))"
    by (rule console_inv_ask [OF idle]) (use shows_rq in simp_all)
  then show ?thesis using drop get ph co inb by (simp add: console_request_def Let_def split: option.splits)
next
  case False
  then have "console_request c fault w = w" by (auto simp: console_request_def split: option.splits relay_phase.splits)
  then show ?thesis using assms by simp
qed

lemma writer_round_console:
  assumes "console_inv w"
  shows "console_inv (writer_round c fault w)"
proof (cases "writer_round c fault w = w")
  case False
  then obtain rc sid where get: "hm_get (rw_conns w) c = Some rc" and ph: "rc_phase rc = TerminalConn sid"
    by (auto simp: writer_round_def split: option.splits relay_phase.splits)
  have "console_inv (set_terminal_queue c rc' sid q w)" if "rc_phase rc' = TerminalConn sid" for rc' q
    by (rule console_inv_conn [OF assms _ get])
      (use that in \<open>auto simp: set_terminal_queue_def console_of.simps shown_le_refl [OF assms]\<close>)
  then show ?thesis using get ph assms by (auto simp: writer_round_def split: option.splits list.splits)
qed (simp add: assms)

interpretation approvals: conditional_invariant "relay_next pc disp dec uid" console_inv console_ok for pc disp dec uid
proof unfold_locales
  fix w :: "'a relay_world" and e
  assume inv: "console_inv w" and ok: "console_ok w e"
  have wf: "consoles_wf (rw_broker w)" and left: "bk_next_id (rw_broker w) + 1 \<noteq> 0" using inv ok by (simp_all add: console_inv_def console_ok_def)
  show "console_inv (relay_next pc disp dec uid w e)"
  proof (cases e)
    case (RelayAccept c cred)
    then show ?thesis
      by (auto simp: accept_relay_def hm_contains_def console_of.simps shown_le_refl [OF inv] inv intro!: console_inv_weaken [OF inv, where K = "{}"]
          split: sum.splits if_splits)
  next
    case (OtherManager m)
    have orphan: "console_of (orphan_queue sid q rc) = console_of rc" "rc_phase (orphan_queue sid q rc) = rc_phase rc" "rc_out (orphan_queue sid q rc) = rc_out rc" for sid q rc
      by (simp_all add: orphan_queue_def)
    have conns: "console_inv w'" if "rw_broker w' = rw_broker w" "rw_conns w' = map (\<lambda>(c, rc). (c, orphan_queue sid q rc)) (rw_conns w)" for w' :: "'a relay_world" and sid q
      by (rule console_inv_weaken [OF inv, where K = "{}"])
        (auto simp: that shown_le_refl [OF inv] map_of_map orphan)
    have same: "console_inv (w\<lparr>rw_manager := m\<rparr>)" for m
      by (rule console_inv_same [OF inv]) (simp_all add: shown_le_refl [OF inv])
    show ?thesis using OtherManager same
      by (auto simp: other_manager_step_def intro!: conns split: manager_step.splits prod.splits option.splits backend.splits)
  next
    case (OtherBroker b)
    show ?thesis
    proof (cases "\<exists>k. b = Take k")
      case True
      then obtain k where b: "b = Take k" by blast
      have free: "console_of rc \<noteq> Some k" if "hm_get (rw_conns w) c = Some rc" for c rc
        using ok OtherBroker b map_of_SomeD [OF that] by (auto simp: console_ok_def list_all_iff)
      have s: "shown_le {k} (rw_broker w) (confirm_step (rw_broker w) b)" by (rule shown_le_confirm_step [OF wf left]) (simp add: b)
      have "console_inv (w\<lparr>rw_broker := confirm_step (rw_broker w) b\<rparr>)"
        by (rule console_inv_weaken [OF inv, where K = "{k}"]) (use s free in auto)
      then show ?thesis using OtherBroker by simp
    next
      case False
      have "shown_le {} (rw_broker w) (confirm_step (rw_broker w) b)" by (rule shown_le_confirm_step [OF wf left]) (use False in auto)
      then show ?thesis using OtherBroker by (auto intro: console_inv_same [OF inv])
    qed
  next
    case (RelayTimeout c)
    then show ?thesis
      by (auto simp: relay_timeout_def end_conn_def inv shown_le_refl [OF inv] intro!: console_inv_conn [OF inv] split: option.splits relay_phase.splits)
  next
    case (ConsoleLeft c)
    have "shown_le {} (rw_broker w) (detach cid (close_receiver cid (rw_broker w)))" for cid
      by (rule shown_le_map [OF wf, where f = "\<lambda>co. if co_id co = cid then co\<lparr>co_receiver := False, co_inbox := None, co_shown := None, co_attached := False\<rparr> else co"])
        (auto simp: detach_def close_receiver_def update_console_def)
    then show ?thesis using ConsoleLeft
      by (auto simp: console_left_def end_conn_def inv intro!: console_inv_conn [OF inv] split: option.splits relay_phase.splits)
  qed (simp_all add: relay_frame_console [OF inv] writer_round_console [OF inv] pairing_shown_console [OF inv left] console_request_console [OF inv])
qed

text \<open>
  C11. The pipe approves a pairing only for a human who was shown its code: whatever the connections send and however everything interleaves, the only step
  of the pipe that answers yes to the broker is a frame from a connection that \<open>portty pair\<close> opened, that decodes to an explicit yes, and
  that answers the request whose device name and comparison code were the last thing this connection was sent.
\<close>

theorem relay_approval_shown:
  assumes "run_ok (relay_next pc disp dec uid) console_ok (empty_pipe m pairing new_broker peers act push) es"
    and "w = foldl (relay_next pc disp dec uid) (empty_pipe m pairing new_broker peers act push) es"
    and "bk_answers (rw_broker (relay_next pc disp dec uid w e)) = (cid, rq, True) # bk_answers (rw_broker w)" "\<forall>b. e \<noteq> OtherBroker b"
  shows "\<exists>env c bs rc. e = RelayFrame env c (Inr bs) \<and> dec bs = Some (RhPairingConfirmResponse True) \<and>
     hm_get (rw_conns w) c = Some rc \<and> rc_phase rc = ConsoleAsked cid \<and> rc_out rc \<noteq> [] \<and>
     List.last (rc_out rc) = HrPairingConfirmRequest (pq_display_name rq) (pq_code rq)"
proof -
  have "console_inv (empty_pipe m pairing new_broker peers act push)"
    by (simp add: console_inv_def empty_pipe_def consoles_wf_def new_broker_def)
  then have inv: "console_inv w" using approvals.conditional_run assms(1,2) by blast
  obtain env c r where e: "e = RelayFrame env c r" and changed: "bk_answers (rw_broker (relay_frame pc disp dec env c r w)) = (cid, rq, True) # bk_answers (rw_broker w)"
    using assms(3,4) by (cases e) (auto simp: answers_kept split: if_splits)
  then obtain rc cid' bs where get: "hm_get (rw_conns w) c = Some rc" and ph: "rc_phase rc = ConsoleAsked cid'" and r: "r = Inr bs"
    using relay_frame_answers [of pc disp dec env c r w] by auto
  then have ans: "bk_answers (answer cid' (approves (dec bs)) (rw_broker w)) = (cid, rq, True) # bk_answers (rw_broker w)"
    using changed by (simp add: relay_frame_def console_answer_def leave_console_def)
  then obtain co where co: "find (\<lambda>co. co_id co = cid') (bk_consoles (rw_broker w)) = Some co" "co_shown co = Some rq" "cid' = cid" "approves (dec bs)"
    by (auto simp: answer_def buffer_answer_def split: option.splits prod.splits if_splits)
  then have "asked_for rc rq" using inv get ph find_SomeD [OF co(1)] unfolding console_inv_def by metis
  then show ?thesis using e r get ph co by (auto simp: approves_def asked_for_def)
qed

text \<open>One pairing through \<open>portty pair\<close>.\<close>

definition pair_world :: "pairing_state \<Rightarrow> broker \<Rightarrow> relay_phase \<Rightarrow> host_to_relay list \<Rightarrow> content relay_world" where
  "pair_world p bk ph out =
     (empty_pipe (new_with_limits 4096 8) (Some p) bk None None None)\<lparr>rw_conns := [(2, \<lparr>rc_phase = ph, rc_queue = None, rc_out = out\<rparr>)]\<rparr>"

definition demo_request_shown :: pair_request where
  "demo_request_shown = \<lparr>pq_confirmation = 0, pq_device = [7], pq_display_name = ''phone'', pq_code = ''123456''\<rparr>"

abbreviation demo_next :: "content relay_world \<Rightarrow> pipe_step \<Rightarrow> content relay_world" where
  "demo_next \<equiv> relay_next plain_postcard (\<lambda>d. '''') demo_dec 1000"

definition demo_pairing :: "pipe_step list" where
  "demo_pairing =
     [RelayAccept 2 (Inr 1000), RelayFrame (demo_env 2) 2 (Inr [2, 0]), RelayFrame (demo_env 2) 2 (Inr [4]), PairingShown 2 None,
      OtherBroker (Confirm [7] ''phone'' ''123456''), ConsoleRequest 2 None]"

lemma demo_version: "version_ok [2, 0]"
  by code_simp

lemma demo_pairing_steps:
  "demo_next (empty_pipe (new_with_limits 4096 8) (Some p) bk None None None) (RelayAccept 2 (Inr 1000)) = pair_world p bk AwaitVersion []"
  "demo_next (pair_world p bk AwaitVersion []) (RelayFrame (demo_env 2) 2 (Inr [2, 0])) = pair_world p bk AwaitFirst []"
  "\<exists>fp p'. demo_next (pair_world p bk AwaitFirst []) (RelayFrame (demo_env 2) 2 (Inr [4])) = pair_world p' bk (ConsoleOpening fp) []"
  "\<exists>msg. demo_next (pair_world p bk (ConsoleOpening fp) []) (PairingShown 2 None) = pair_world p (attach bk) (ConsoleIdle (bk_next_id bk)) [msg]"
  by (simp_all add: pair_world_def empty_pipe_def hm_contains_def accept_relay_def MAX_RELAY_CONNECTIONS_def set_conn_def relay_frame_def demo_version
      first_frame_def demo_dec_def demo_env_def reopen_pairing_def pairing_shown_def send_then_def)

definition asked_broker :: broker where
  "asked_broker = take_request 0 (begin_confirm [7] ''phone'' ''123456'' (attach new_broker))"

lemma demo_pairing_asked:
  "demo_next (demo_next (pair_world p (attach new_broker) (ConsoleIdle 0) [msg]) (OtherBroker (Confirm [7] ''phone'' ''123456''))) (ConsoleRequest 2 None) =
     pair_world p asked_broker (ConsoleAsked 0) [msg, HrPairingConfirmRequest ''phone'' ''123456'']"
proof -
  have "\<exists>co. find (\<lambda>co. co_id co = 0) (bk_consoles (begin_confirm [7] ''phone'' ''123456'' (attach new_broker))) = Some co \<and> co_inbox co = Some demo_request_shown"
    by (simp add: begin_confirm_def attach_def new_broker_def Let_def accepts_def deliver_def demo_request_shown_def)
  then show ?thesis by (auto simp: pair_world_def empty_pipe_def console_request_def set_conn_def asked_broker_def demo_request_shown_def Let_def)
qed

lemma demo_pairing_run:
  "\<exists>p msg. foldl demo_next (empty_pipe (new_with_limits 4096 8) (Some p0) new_broker None None None) demo_pairing =
       pair_world p asked_broker (ConsoleAsked 0) [msg, HrPairingConfirmRequest ''phone'' ''123456''] \<and>
     run_ok demo_next console_ok (empty_pipe (new_with_limits 4096 8) (Some p0) new_broker None None None) demo_pairing"
proof -
  have ok: "console_ok (pair_world p bk ph out) e" if "bk_next_id bk = 0 \<or> bk_next_id bk = 1" "\<forall>b. e = OtherBroker b \<longrightarrow> (\<exists>d n c. b = Confirm d n c)" for p bk ph out e
    using that by (auto simp: console_ok_def pair_world_def empty_pipe_def split: pipe_step.splits)
  have ok0: "console_ok (empty_pipe m q new_broker None None None) (RelayAccept c cred)" for m q c cred by (simp add: console_ok_def empty_pipe_def new_broker_def)
  have next_id: "bk_next_id new_broker = 0" "bk_next_id (attach new_broker) = 1" "bk_next_id (begin_confirm d n c (attach new_broker)) = 1" for d n c
    by (simp_all add: new_broker_def attach_def begin_confirm_def Let_def verdict_def)
  obtain fp p1 where 3: "demo_next (pair_world p0 new_broker AwaitFirst []) (RelayFrame (demo_env 2) 2 (Inr [4])) = pair_world p1 new_broker (ConsoleOpening fp) []"
    using demo_pairing_steps(3) by blast
  obtain msg where 4: "demo_next (pair_world p1 new_broker (ConsoleOpening fp) []) (PairingShown 2 None) = pair_world p1 (attach new_broker) (ConsoleIdle 0) [msg]"
    using demo_pairing_steps(4) [of p1 new_broker fp] by (auto simp: next_id)
  have 5: "demo_next (pair_world p1 (attach new_broker) (ConsoleIdle 0) [msg]) (OtherBroker (Confirm [7] ''phone'' ''123456'')) =
      pair_world p1 (begin_confirm [7] ''phone'' ''123456'' (attach new_broker)) (ConsoleIdle 0) [msg]"
    by (simp add: pair_world_def empty_pipe_def)
  show ?thesis
    using demo_pairing_asked [of p1 msg, unfolded 5]
    by (simp add: demo_pairing_def demo_pairing_steps(1,2) 3 4 5 ok ok0 next_id del: relay_next.simps) blast
qed

theorem relay_approval_shown_witness:
  "\<exists>w e. bk_answers (rw_broker (demo_next w e)) = [(0, demo_request_shown, True)] \<and>
      (\<exists>env c bs rc. e = RelayFrame env c (Inr bs) \<and> bs = [3] \<and> hm_get (rw_conns w) c = Some rc \<and> List.last (rc_out rc) = HrPairingConfirmRequest ''phone'' ''123456'')"
proof -
  let ?p0 = "new_pairing_state []" and ?e = "RelayFrame (demo_env 2) 2 (Inr [3])"
  obtain p msg where w: "pair_world p asked_broker (ConsoleAsked 0) [msg, HrPairingConfirmRequest ''phone'' ''123456''] =
      foldl demo_next (empty_pipe (new_with_limits 4096 8) (Some ?p0) new_broker None None None) demo_pairing"
    and run: "run_ok demo_next console_ok (empty_pipe (new_with_limits 4096 8) (Some ?p0) new_broker None None None) demo_pairing"
    using demo_pairing_run [of ?p0] by metis
  let ?w = "pair_world p asked_broker (ConsoleAsked 0) [msg, HrPairingConfirmRequest ''phone'' ''123456'']"
  have yes: "bk_answers (answer 0 True asked_broker) = [(0, demo_request_shown, True)]" and none: "bk_answers asked_broker = []" by code_simp+
  have ans: "bk_answers (rw_broker (demo_next ?w ?e)) = [(0, demo_request_shown, True)]"
    by (simp add: pair_world_def empty_pipe_def relay_frame_def console_answer_def leave_console_def approves_def demo_dec_def yes)
  have "bk_answers (rw_broker ?w) = []" by (simp add: pair_world_def empty_pipe_def none)
  with ans have "bk_answers (rw_broker (demo_next ?w ?e)) = (0, demo_request_shown, True) # bk_answers (rw_broker ?w)" by (simp only:)
  from relay_approval_shown [OF run w this] obtain env c bs rc where "?e = RelayFrame env c (Inr bs)" "hm_get (rw_conns ?w) c = Some rc"
    "List.last (rc_out rc) = HrPairingConfirmRequest (pq_display_name demo_request_shown) (pq_code demo_request_shown)" by blast
  then show ?thesis using ans
    by (intro exI [of _ ?w] exI [of _ ?e]) (auto simp: demo_request_shown_def simp del: relay_next.simps)
qed

section \<open>Chats\<close>

text \<open>A chat decides requests of its own session only, and leaves every other session as it is.\<close>

lemma chat_frame_own_session:
  "sid \<noteq> ch_session ch \<Longrightarrow> hm_get (aw_sessions (snd (chat_frame msg ch aw))) sid = hm_get (aw_sessions aw) sid"
  by (auto simp: chat_frame_def resolve_permission_def notify_viewers_def send_responder_def set_pending_def split: option.splits chat_call.splits prod.splits)

text \<open>A chat that opens, or that missed events, is sent every request that waits for a decision.\<close>

lemma chat_sees_pending:
  assumes "hm_get (aw_sessions aw) (ch_session ch) = Some s" "ch_open ch" "hm_get (as_pending s) tid = Some p"
  shows "HrAgentPermission (pp_tool_call p) (pp_options p) \<in> set (ch_out (chat_event_step aw ch ChatLagged))"
  using assms map_of_SomeD [OF assms(3)] by (force simp: chat_event_step_def chat_send_def chat_replay_def)

end
