(* ===== verification/Client_Loop.thy ===== *)
theory Client_Loop
  imports Protocol "HOL-Library.Multiset" "HOL-Library.Sublist"
begin

text \<open>
  \<open>handle_client\<close> (\<open>crates/host/src/iroh_serve.rs\<close>): the task that serves one connected phone. Its loop polls, in this order, the revocation of the
  pair, the frames of the phone and the frames for the phone; the requests that wait for an agent run in tasks of their own and answer
  through the queue. What the loop calls (sessions, agents, transfers, peers) is the record \<open>host_ops\<close>; \<open>Daemon\<close> gives it the models of these
  components. Opening the envelopes is part of what arrives: a frame, or nothing when it was malformed or not authentic.
\<close>

section \<open>What the loop calls\<close>

record ('s, 'p) host_ops =
  op_listed :: "'s \<Rightarrow> session_id \<Rightarrow> bool"
  op_list :: "'s \<Rightarrow> session_info list"
  op_spawn_shell :: "'p option \<Rightarrow> string option \<Rightarrow> 's \<Rightarrow> 's \<times> (string + session_id)"
  op_spawn_agent :: "agent_provider \<Rightarrow> string option \<Rightarrow> 'p option \<Rightarrow> 's \<Rightarrow> 's \<times> (string + session_id)"
  op_resume_agent :: "'p \<Rightarrow> string \<Rightarrow> 's \<Rightarrow> 's \<times> (string + session_id)"
  op_kill :: "session_id \<Rightarrow> 's \<Rightarrow> 's \<times> bool"
  op_rename :: "session_id \<Rightarrow> string \<Rightarrow> 's \<Rightarrow> 's \<times> bool"
  op_write_input :: "session_id \<Rightarrow> bytes \<Rightarrow> 's \<Rightarrow> 's"
  op_attach :: "session_id \<Rightarrow> 's \<Rightarrow> 's \<times> frame list \<times> bool"
  op_attach_resume :: "session_id \<Rightarrow> u64 \<Rightarrow> u64 \<Rightarrow> 's \<Rightarrow> 's \<times> frame list \<times> bool"
  op_resolve :: "string \<Rightarrow> string option \<Rightarrow> 's \<Rightarrow> 's"
  op_resolve_in :: "session_id \<Rightarrow> string \<Rightarrow> string option \<Rightarrow> 's \<Rightarrow> 's"
  op_pending :: "'s \<Rightarrow> session_id \<Rightarrow> (tool_call_card \<times> permission_option list \<times> permission_category \<times> workspace_scope) list"
  op_snapshot :: "session_id \<Rightarrow> 's \<Rightarrow> 's \<times> agent_timeline_event list option"
  op_prompt :: "session_id \<Rightarrow> string \<Rightarrow> 's \<Rightarrow> 's \<times> (string + unit)"
  op_cancel :: "session_id \<Rightarrow> 's \<Rightarrow> 's \<times> (string + unit)"
  op_authenticate :: "session_id \<Rightarrow> string \<Rightarrow> 's \<Rightarrow> 's \<times> (string + unit)"
  op_set_mode :: "session_id \<Rightarrow> string \<Rightarrow> 's \<Rightarrow> 's \<times> (string + unit)"
  op_set_config :: "session_id \<Rightarrow> string \<Rightarrow> agent_config_value \<Rightarrow> 's \<Rightarrow> 's \<times> (string + unit)"
  op_roots :: "'s \<Rightarrow> terminal_root list"
  op_root_path :: "'s \<Rightarrow> terminal_root \<Rightarrow> 'p option"
  op_workspace_dir :: "'s \<Rightarrow> 'p"
  op_path_of :: "string \<Rightarrow> 'p"
  op_resolve_within :: "'s \<Rightarrow> 'p \<Rightarrow> string \<Rightarrow> string + 'p"
  op_list_dirs :: "'s \<Rightarrow> 'p \<Rightarrow> string \<Rightarrow> string + string \<times> string list"
  op_agent_sessions :: "'p \<Rightarrow> 's \<Rightarrow> agent_session_summary list"
  op_agent_sessions_for :: "agent_provider \<Rightarrow> 'p \<Rightarrow> 's \<Rightarrow> 's \<times> agent_session_summary list"
  op_providers :: "'s \<Rightarrow> agent_provider_availability list"
  op_start_download :: "transfer_id \<Rightarrow> string \<Rightarrow> u64 \<Rightarrow> bool \<Rightarrow> 's \<Rightarrow> 's"
  op_start_upload :: "transfer_id \<Rightarrow> string \<Rightarrow> u64 \<Rightarrow> u32 option \<Rightarrow> bool \<Rightarrow> 's \<Rightarrow> 's \<times> (string + unit)"
  op_upload_chunk :: "transfer_id \<Rightarrow> u64 \<Rightarrow> bytes \<Rightarrow> 's \<Rightarrow> 's \<times> (string + u64 option)"
  op_finish_upload :: "transfer_id \<Rightarrow> u64 \<Rightarrow> bytes \<Rightarrow> 's \<Rightarrow> 's \<times> (string + u64 \<times> bytes)"
  op_retry_download :: "transfer_id \<Rightarrow> u64 \<Rightarrow> 's \<Rightarrow> 's"
  op_cancel_download :: "transfer_id \<Rightarrow> 's \<Rightarrow> 's"
  op_cancel_upload :: "transfer_id \<Rightarrow> 's \<Rightarrow> 's"
  op_push_configured :: "'s \<Rightarrow> bool"
  op_push_register :: "push_provider \<Rightarrow> string \<Rightarrow> bytes \<Rightarrow> 's \<Rightarrow> 's \<times> (string + unit)"
  op_push_revoked :: "'s \<Rightarrow> 's"
  op_revoked :: "'s \<Rightarrow> (bytes option \<times> bytes) option"
  op_revoke :: "'s \<Rightarrow> 's \<times> (string + bytes)"

section \<open>The connection\<close>

definition OUT_QUEUE :: nat where "OUT_QUEUE = 16"

text \<open>The tasks a request or an event starts: one that has still to do its work, or one that has frames to put on the queue.\<close>

datatype client_task =
    ListFor u64 string agent_provider
  | SetModeFor u64 session_id string
  | SetConfigFor u64 session_id string agent_config_value
  | RegisterPush push_provider string bytes
  | Sending "frame list"

datatype client_status = Serving | Closed | Panicked

text \<open>
  \<open>cl_arm\<close> is what the arm of the loop under way has still to send, one awaited write after the other, and \<open>cl_closing\<close> says that it leaves the loop
  afterwards; everything else goes on between two of these writes. \<open>cl_room\<close> is how many more writes succeed, if there is a
  limit. \<open>cl_asked\<close> records the numbers of the requests taken up.
\<close>

record 's client_conn =
  cl_host :: 's
  cl_pair :: bytes
  cl_status :: client_status
  cl_security :: "(bytes \<times> bytes) option list"
  cl_inbox :: "frame option list"
  cl_arm :: "frame list"
  cl_closing :: bool
  cl_initial :: "frame list"
  cl_queue :: "frame list"
  cl_wire :: "frame list"
  cl_room :: "nat option"
  cl_viewed :: session_id
  cl_forwarder :: bool
  cl_tasks :: "client_task list"
  cl_events :: "frame list"
  cl_asked :: "u64 list"

definition send_frame :: "frame \<Rightarrow> 's client_conn \<Rightarrow> 's client_conn" where
  "send_frame f c =
     (if cl_status c \<noteq> Serving then c
      else (case cl_room c of
        Some 0 \<Rightarrow> c\<lparr>cl_status := Closed\<rparr>
      | room \<Rightarrow> c\<lparr>cl_wire := cl_wire c @ [f], cl_room := map_option (\<lambda>n. n - 1) room\<rparr>))"

text \<open>The arm under way will send these frames next, and then leave the loop.\<close>

definition emit :: "frame list \<Rightarrow> 's client_conn \<Rightarrow> 's client_conn" where
  "emit fs c = c\<lparr>cl_arm := cl_arm c @ fs\<rparr>"

definition leave_loop :: "'s client_conn \<Rightarrow> 's client_conn" where
  "leave_loop c = c\<lparr>cl_closing := True\<rparr>"

definition close :: "'s client_conn \<Rightarrow> 's client_conn" where
  "close c = c\<lparr>cl_status := (if cl_status c = Panicked then Panicked else Closed)\<rparr>"

definition pending_frames :: "('s, 'p) host_ops \<Rightarrow> 's \<Rightarrow> session_id \<Rightarrow> frame list" where
  "pending_frames ops s sid = map (\<lambda>(tc, opts, cat, scope). PolicyPermissionRequest sid tc opts cat scope) (op_pending ops s sid)"

text \<open>Up to the loop: a pair revoked in the meantime is told so and nothing else; otherwise the first frames are staged.\<close>

definition open_client :: "('s, 'p) host_ops \<Rightarrow> bytes \<Rightarrow> nat option \<Rightarrow> 's \<Rightarrow> 's client_conn" where
  "open_client ops pair room s =
     (let c = \<lparr>cl_host = s, cl_pair = pair, cl_status = Serving, cl_security = [], cl_inbox = [], cl_arm = [], cl_closing = False, cl_initial = [], cl_queue = [], cl_wire = [], cl_room = room,
               cl_viewed = 0, cl_forwarder = False, cl_tasks = [], cl_events = [], cl_asked = []\<rparr>
      in case op_revoked ops s of
           Some (pid, event) \<Rightarrow> close (if pid = Some pair then send_frame (PairRevoked pair event) c else c)
         | None \<Rightarrow> c\<lparr>cl_initial := SessionList (op_list ops s) # concat (map (\<lambda>info. pending_frames ops s (si_id info)) (op_list ops s))\<rparr>)"

section \<open>Frames of the phone\<close>

definition attach_client :: "('s, 'p) host_ops \<Rightarrow> session_id \<Rightarrow> 's client_conn \<Rightarrow> 's client_conn" where
  "attach_client ops sid c =
     (case op_attach ops sid (cl_host c) of (s, fs, live) \<Rightarrow> emit fs (c\<lparr>cl_host := s, cl_forwarder := live\<rparr>))"

definition view :: "session_id \<Rightarrow> 's client_conn \<Rightarrow> 's client_conn" where
  "view sid c = c\<lparr>cl_viewed := sid\<rparr>"

definition stop_forwarder :: "'s client_conn \<Rightarrow> 's client_conn" where
  "stop_forwarder c = c\<lparr>cl_forwarder := False\<rparr>"

definition unview_killed :: "session_id \<Rightarrow> 's client_conn \<Rightarrow> 's client_conn" where
  "unview_killed sid c = (if cl_viewed c = sid then stop_forwarder (view 0 c) else c)"

definition spawn_task :: "client_task \<Rightarrow> 's client_conn \<Rightarrow> 's client_conn" where
  "spawn_task t c = c\<lparr>cl_tasks := cl_tasks c @ [t]\<rparr>"

definition outcome_session :: "string \<Rightarrow> string + session_id \<Rightarrow> command_outcome" where
  "outcome_session label r = (case r of Inl e \<Rightarrow> OutcomeError (label @ e) | Inr sid \<Rightarrow> OutcomeOk (Some sid))"

definition outcome_done :: "string \<Rightarrow> session_id \<Rightarrow> string + unit \<Rightarrow> command_outcome" where
  "outcome_done label sid r = (case r of Inl e \<Rightarrow> OutcomeError (label @ e) | Inr _ \<Rightarrow> OutcomeOk (Some sid))"

definition NO_AGENT :: string where "NO_AGENT = ''that agent session is no longer available''"

text \<open>A call on an agent session that is looked up first.\<close>

definition agent_call :: "('s, 'p) host_ops \<Rightarrow> string \<Rightarrow> session_id \<Rightarrow> ('s \<Rightarrow> 's \<times> (string + unit)) \<Rightarrow> 's \<Rightarrow> 's \<times> command_outcome" where
  "agent_call ops label sid f s =
     (if op_listed ops s sid then (case f s of (s', r) \<Rightarrow> (s', outcome_done label sid r)) else (s, OutcomeError NO_AGENT))"

definition list_agent_task :: "('s, 'p) host_ops \<Rightarrow> u64 \<Rightarrow> string \<Rightarrow> agent_provider \<Rightarrow> 's \<Rightarrow> 's \<times> frame list" where
  "list_agent_task ops req rel provider s =
     (case op_resolve_within ops s (op_workspace_dir ops s) rel of
        Inl e \<Rightarrow> (s, [CommandResult req (OutcomeError (''could not list conversations: '' @ e))])
      | Inr cwd \<Rightarrow>
          (case op_agent_sessions_for ops provider cwd s of (s', sessions) \<Rightarrow> (s', [AgentSessions req rel sessions, CommandResult req (OutcomeOk None)])))"

text \<open>The requests answered in place: the host, frames sent before the answer, and the answer.\<close>

definition dirs_reply :: "('s, 'p) host_ops \<Rightarrow> u64 \<Rightarrow> 'p \<Rightarrow> string \<Rightarrow> 's \<Rightarrow> 's \<times> frame list \<times> command_outcome" where
  "dirs_reply ops req base rel s =
     (case op_list_dirs ops s base rel of
        Inl e \<Rightarrow> (s, [], OutcomeError (''could not list directories: '' @ e))
      | Inr (rel', entries) \<Rightarrow> (s, [WorkspaceDirs req rel' entries], OutcomeOk None))"

definition shell_in :: "('s, 'p) host_ops \<Rightarrow> 'p \<Rightarrow> string \<Rightarrow> string option \<Rightarrow> 's \<Rightarrow> 's \<times> frame list \<times> command_outcome" where
  "shell_in ops base rel title s =
     (case op_resolve_within ops s base rel of
        Inl e \<Rightarrow> (s, [], OutcomeError (''could not open that folder: '' @ e))
      | Inr cwd \<Rightarrow> (case op_spawn_shell ops (Some cwd) title s of (s', r) \<Rightarrow> (s', [], outcome_session ''could not create session: '' r)))"

definition NO_ROOT :: string where "NO_ROOT = ''this host does not offer that folder''"

fun answer_request :: "('s, 'p) host_ops \<Rightarrow> u64 \<Rightarrow> request_kind \<Rightarrow> 's \<Rightarrow> 's \<times> frame list \<times> command_outcome" where
  "answer_request ops req (RkNewSession cwd title) s =
     (case op_spawn_shell ops (map_option (op_path_of ops) cwd) title s of (s', r) \<Rightarrow> (s', [], outcome_session ''could not create session: '' r))"
| "answer_request ops req (RkNewSessionSized cwd title cols rows) s =
     (case op_spawn_shell ops (map_option (op_path_of ops) cwd) title s of (s', r) \<Rightarrow> (s', [], outcome_session ''could not create session: '' r))"
| "answer_request ops req RkListTerminalRoots s = (s, [TerminalRoots req (op_roots ops s)], OutcomeOk None)"
| "answer_request ops req (RkListDirsIn root rel) s =
     (case op_root_path ops s root of None \<Rightarrow> (s, [], OutcomeError NO_ROOT) | Some base \<Rightarrow> dirs_reply ops req base rel s)"
| "answer_request ops req (RkNewSessionInRoot root rel title) s =
     (case op_root_path ops s root of None \<Rightarrow> (s, [], OutcomeError NO_ROOT) | Some base \<Rightarrow> shell_in ops base rel title s)"
| "answer_request ops req (RkNewSessionIn title rel) s = shell_in ops (op_workspace_dir ops s) rel title s"
| "answer_request ops req (RkKillSession sid) s =
     (case op_kill ops sid s of
        (s', True) \<Rightarrow> (s', [], OutcomeOk (Some sid))
      | (s', False) \<Rightarrow> (s', [], OutcomeError ''could not close that session - it is gone or its terminal is not responding''))"
| "answer_request ops req (RkRenameSession sid title) s =
     (case op_rename ops sid title s of
        (s', True) \<Rightarrow> (s', [SessionList (op_list ops s')], OutcomeOk (Some sid))
      | (s', False) \<Rightarrow> (s', [], OutcomeError ''rename failed: that session no longer exists''))"
| "answer_request ops req (RkNewAgentSession provider title) s =
     (case op_spawn_agent ops provider title None s of (s', r) \<Rightarrow> (s', [], outcome_session ''could not start agent: '' r))"
| "answer_request ops req (RkListWorkspaceDirs rel) s = dirs_reply ops req (op_workspace_dir ops s) rel s"
| "answer_request ops req RkListAgentProviders s = (s, [AgentProviders req (op_providers ops s)], OutcomeOk None)"
| "answer_request ops req (RkListAgentSessions rel) s =
     (case op_resolve_within ops s (op_workspace_dir ops s) rel of
        Inl e \<Rightarrow> (s, [], OutcomeError (''could not list conversations: '' @ e))
      | Inr cwd \<Rightarrow> (s, [AgentSessions req rel (op_agent_sessions ops cwd s)], OutcomeOk None))"
| "answer_request ops req (RkResumeAgentSession rel acp_id) s =
     (case op_resolve_within ops s (op_workspace_dir ops s) rel of
        Inl e \<Rightarrow> (s, [], OutcomeError (''could not resume: '' @ e))
      | Inr cwd \<Rightarrow> (case op_resume_agent ops cwd acp_id s of (s', r) \<Rightarrow> (s', [], outcome_session ''could not resume: '' r)))"
| "answer_request ops req (RkNewAgentSessionIn provider title rel) s =
     (case op_resolve_within ops s (op_workspace_dir ops s) rel of
        Inl e \<Rightarrow> (s, [], OutcomeError (''could not start agent: '' @ e))
      | Inr cwd \<Rightarrow> (case op_spawn_agent ops provider title (Some cwd) s of (s', r) \<Rightarrow> (s', [], outcome_session ''could not start agent: '' r)))"
| "answer_request ops req (RkAgentPrompt sid t) s =
     (case agent_call ops ''could not send prompt: '' sid (op_prompt ops sid t) s of (s', r) \<Rightarrow> (s', [], r))"
| "answer_request ops req (RkAgentCancel sid) s =
     (case agent_call ops ''could not cancel turn: '' sid (op_cancel ops sid) s of (s', r) \<Rightarrow> (s', [], r))"
| "answer_request ops req (RkAgentAuthenticate sid meth) s =
     (case agent_call ops ''could not authenticate agent: '' sid (op_authenticate ops sid meth) s of (s', r) \<Rightarrow> (s', [], r))"
| "answer_request ops req _ s = (s, [], OutcomeError [])"

text \<open>A correlated request: the ones that wait for an agent go to a task, an attach streams before it answers, the rest is answered in place.\<close>

definition handle_request :: "('s, 'p) host_ops \<Rightarrow> u64 \<Rightarrow> request_kind \<Rightarrow> 's client_conn \<Rightarrow> 's client_conn" where
  "handle_request ops req kind c0 =
     (let c = c0\<lparr>cl_asked := cl_asked c0 @ [req]\<rparr> in
      case kind of
        RkListAgentSessionsFor rel provider \<Rightarrow> spawn_task (ListFor req rel provider) c
      | RkAgentSetMode sid mode \<Rightarrow> spawn_task (SetModeFor req sid mode) c
      | RkAgentSetConfigOption sid config v \<Rightarrow> spawn_task (SetConfigFor req sid config v) c
      | RkAttach sid \<Rightarrow>
          if \<not> op_listed ops (cl_host c) sid then emit [CommandResult req (OutcomeError ''that session is no longer available'')] c
          else emit [CommandResult req (OutcomeOk (Some sid))] (attach_client ops sid (view sid c))
      | _ \<Rightarrow>
          let c1 = (case kind of RkKillSession sid \<Rightarrow> unview_killed sid c | _ \<Rightarrow> c) in
          (case answer_request ops req kind (cl_host c1) of
             (s, fs, outcome) \<Rightarrow> emit [CommandResult req outcome] (emit fs (c1\<lparr>cl_host := s\<rparr>))))"

definition update_host :: "('s \<Rightarrow> 's) \<Rightarrow> 's client_conn \<Rightarrow> 's client_conn" where
  "update_host f c = c\<lparr>cl_host := f (cl_host c)\<rparr>"

definition unpair_self :: "('s, 'p) host_ops \<Rightarrow> u64 \<Rightarrow> bytes \<Rightarrow> 's client_conn \<Rightarrow> 's client_conn" where
  "unpair_self ops req claimed c =
     (if claimed \<noteq> cl_pair c then emit [UnpairResult req (cl_pair c) False (Some ''pair generation mismatch'')] c
      else (case op_revoke ops (cl_host c) of
        (s, Inr event) \<Rightarrow>
          leave_loop (emit [UnpairResult req (cl_pair c) True None] (c\<lparr>cl_host := if op_push_configured ops s then op_push_revoked ops s else s\<rparr>))
      | (s, Inl e) \<Rightarrow> emit [UnpairResult req (cl_pair c) False (Some e)] (c\<lparr>cl_host := s\<rparr>)))"

text \<open>The dispatch on a frame whose direction was checked; its last arm is the \<open>unreachable!\<close> of the code.\<close>

definition handle_frame :: "('s, 'p) host_ops \<Rightarrow> frame \<Rightarrow> 's client_conn \<Rightarrow> 's client_conn" where
  "handle_frame ops f c =
     (case f of
        NewSession cwd title \<Rightarrow>
          (case op_spawn_shell ops (map_option (op_path_of ops) cwd) title (cl_host c) of
             (s, Inr sid) \<Rightarrow> attach_client ops sid (view sid (c\<lparr>cl_host := s\<rparr>))
           | (s, Inl e) \<Rightarrow> emit [CommandError (''could not create session: '' @ e)] (c\<lparr>cl_host := s\<rparr>))
      | Attach sid \<Rightarrow>
          if \<not> op_listed ops (cl_host c) sid then emit [CommandError ''that session is no longer available''] c
          else attach_client ops sid (view sid c)
      | Detach \<Rightarrow> stop_forwarder (view 0 c)
      | Input sid bs \<Rightarrow> if op_listed ops (cl_host c) sid then update_host (op_write_input ops sid bs) c else c
      | Resize _ _ _ \<Rightarrow> c
      | KillSession sid \<Rightarrow> update_host (\<lambda>s. fst (op_kill ops sid s)) (unview_killed sid c)
      | RenameSession sid title \<Rightarrow>
          (case op_rename ops sid title (cl_host c) of
             (s, True) \<Rightarrow> emit [SessionList (op_list ops s)] (c\<lparr>cl_host := s\<rparr>)
           | (s, False) \<Rightarrow> emit [CommandError ''rename failed: that session no longer exists''] (c\<lparr>cl_host := s\<rparr>))
      | PermissionDecision tid opt \<Rightarrow> update_host (op_resolve ops tid opt) c
      | AgentPermissionDecision sid tid opt \<Rightarrow> if op_listed ops (cl_host c) sid then update_host (op_resolve_in ops sid tid opt) c else c
      | PauseStream \<Rightarrow> stop_forwarder c
      | ResumeStream \<Rightarrow> if cl_viewed c \<noteq> 0 then attach_client ops (cl_viewed c) c else c
      | OutputResume sid after_seq generation \<Rightarrow>
          if op_listed ops (cl_host c) sid
          then (case op_attach_resume ops sid after_seq generation (cl_host c) of
                  (s, fs, live) \<Rightarrow> emit fs (view sid (c\<lparr>cl_host := s, cl_forwarder := live\<rparr>)))
          else c
      | FileGetReq i p start allow \<Rightarrow> update_host (op_start_download ops i p start allow) c
      | FilePutReq i p n mode allow \<Rightarrow>
          (case op_start_upload ops i p n mode allow (cl_host c) of
             (s, Inl e) \<Rightarrow> emit [FileErr i e] (c\<lparr>cl_host := s\<rparr>)
           | (s, Inr _) \<Rightarrow> c\<lparr>cl_host := s\<rparr>)
      | FileChunk i q bs \<Rightarrow>
          (case op_upload_chunk ops i q bs (cl_host c) of
             (s, Inr (Some from_seq)) \<Rightarrow> emit [FileRetry i from_seq] (c\<lparr>cl_host := s\<rparr>)
           | (s, Inr None) \<Rightarrow> c\<lparr>cl_host := s\<rparr>
           | (s, Inl e) \<Rightarrow> emit [FileErr i e] (c\<lparr>cl_host := op_cancel_upload ops i s\<rparr>))
      | FileDone i n chk \<Rightarrow>
          (case op_finish_upload ops i n chk (cl_host c) of
             (s, Inr (n', chk')) \<Rightarrow> emit [FileDone i n' chk'] (c\<lparr>cl_host := s\<rparr>)
           | (s, Inl e) \<Rightarrow> emit [FileErr i e] (c\<lparr>cl_host := s\<rparr>))
      | FileRetry i from_seq \<Rightarrow> update_host (op_retry_download ops i from_seq) c
      | FileErr i reason \<Rightarrow> update_host (\<lambda>s. op_cancel_upload ops i (op_cancel_download ops i s)) c
      | PushRegister provider token blob \<Rightarrow>
          if op_push_configured ops (cl_host c) then spawn_task (RegisterPush provider token blob) c
          else emit [PushRegisterAck False (Some ''host has no push relay configured (set PORTTY_PUSH_RELAY_URL)'')] c
      | UnpairSelf req claimed \<Rightarrow> unpair_self ops req claimed c
      | Request req kind \<Rightarrow> handle_request ops req kind c
      | _ \<Rightarrow> c\<lparr>cl_status := Panicked\<rparr>)"

text \<open>What arrived is a frame the phone may send, and the pair is not revoked; otherwise the connection is closed.\<close>

definition inbound :: "('s, 'p) host_ops \<Rightarrow> frame option \<Rightarrow> 's client_conn \<Rightarrow> 's client_conn" where
  "inbound ops r c =
     (case r of
        None \<Rightarrow> close c
      | Some f \<Rightarrow>
          if \<not> allows_phone_to_host (direction f) then close c
          else if op_revoked ops (cl_host c) \<noteq> None then close c
          else handle_frame ops f c)"

section \<open>The loop and the tasks\<close>

text \<open>
  One step of the loop: the next write of the arm under way, or the end of the loop it asked for, or else one poll of the biased \<open>select!\<close>, whose arm starts then.
  When nothing is ready it waits.
\<close>

definition loop_round :: "('s, 'p) host_ops \<Rightarrow> 's client_conn \<Rightarrow> 's client_conn" where
  "loop_round ops c =
     (if cl_status c \<noteq> Serving then c
      else (case cl_arm c of
        f # fs \<Rightarrow> send_frame f (c\<lparr>cl_arm := fs\<rparr>)
      | [] \<Rightarrow>
          if cl_closing c then close c
          else (case cl_security c of
            Some (pair, event) # rest \<Rightarrow> leave_loop (emit [PairRevoked pair event] (c\<lparr>cl_security := rest\<rparr>))
          | None # rest \<Rightarrow> close (c\<lparr>cl_security := rest\<rparr>)
          | [] \<Rightarrow>
              (case cl_inbox c of
                 r # rest \<Rightarrow> inbound ops r (c\<lparr>cl_inbox := rest\<rparr>)
               | [] \<Rightarrow>
                   (case cl_initial c of
                      f # rest \<Rightarrow> emit [f] (c\<lparr>cl_initial := rest\<rparr>)
                    | [] \<Rightarrow>
                        (case cl_queue c of
                           f # rest \<Rightarrow> emit [f] (c\<lparr>cl_queue := rest\<rparr>)
                         | [] \<Rightarrow> c))))))"

text \<open>A task does its work against the host.\<close>

definition work :: "('s, 'p) host_ops \<Rightarrow> client_task \<Rightarrow> 's \<Rightarrow> 's \<times> frame list" where
  "work ops t s =
     (case t of
        ListFor req rel provider \<Rightarrow> list_agent_task ops req rel provider s
      | SetModeFor req sid mode \<Rightarrow>
          (case agent_call ops ''could not change mode: '' sid (op_set_mode ops sid mode) s of (s', r) \<Rightarrow> (s', [CommandResult req r]))
      | SetConfigFor req sid config v \<Rightarrow>
          (case agent_call ops ''could not change agent setting: '' sid (op_set_config ops sid config v) s of (s', r) \<Rightarrow> (s', [CommandResult req r]))
      | RegisterPush provider token blob \<Rightarrow>
          (case op_push_register ops provider token blob s of
             (s', Inr _) \<Rightarrow> (s', [PushRegisterAck True None])
           | (s', Inl e) \<Rightarrow> (s', [PushRegisterAck False (Some e)]))
      | Sending fs \<Rightarrow> (s, fs))"

definition run_task :: "('s, 'p) host_ops \<Rightarrow> nat \<Rightarrow> 's client_conn \<Rightarrow> 's client_conn" where
  "run_task ops i c =
     (if i < length (cl_tasks c)
      then (case work ops (cl_tasks c ! i) (cl_host c) of (s, fs) \<Rightarrow> c\<lparr>cl_host := s, cl_tasks := (cl_tasks c)[i := Sending fs]\<rparr>)
      else c)"

text \<open>A task puts its next frame on the queue, when there is room, or ends; with the loop gone its frames are lost.\<close>

definition send_task :: "nat \<Rightarrow> 's client_conn \<Rightarrow> 's client_conn" where
  "send_task i c =
     (if i < length (cl_tasks c)
      then (case cl_tasks c ! i of
              Sending [] \<Rightarrow> c\<lparr>cl_tasks := take i (cl_tasks c) @ drop (Suc i) (cl_tasks c)\<rparr>
            | Sending (f # fs) \<Rightarrow>
                if cl_status c \<noteq> Serving then c\<lparr>cl_tasks := (cl_tasks c)[i := Sending []]\<rparr>
                else if length (cl_queue c) < OUT_QUEUE then c\<lparr>cl_queue := cl_queue c @ [f], cl_tasks := (cl_tasks c)[i := Sending fs]\<rparr>
                else c
            | _ \<Rightarrow> c)
      else c)"

text \<open>
  The task that turns the manager's events into frames, one event after the other; a viewer that missed some is sent the list and the agent it views anew.
\<close>

datatype viewer_event =
    HeAdded session_info
  | HeRemoved session_id
  | HeActivity session_id
  | HePermission session_id tool_call_card "permission_option list" permission_category workspace_scope
  | HeTimeline session_id agent_timeline_event
  | HeResolved session_id string permission_resolution permission_resolver
  | HeResized session_id u16 u16
  | HeLagged

definition event_frames :: "('s, 'p) host_ops \<Rightarrow> viewer_event \<Rightarrow> session_id \<Rightarrow> 's \<Rightarrow> 's \<times> frame list" where
  "event_frames ops ev viewed s =
     (case ev of
        HeAdded info \<Rightarrow> (s, [SessionAdded info])
      | HeRemoved sid \<Rightarrow> (s, [SessionRemoved sid])
      | HeActivity sid \<Rightarrow> (s, if viewed \<noteq> sid then [ActivityBlip sid] else [])
      | HePermission sid tc opts cat scope \<Rightarrow> (s, [PolicyPermissionRequest sid tc opts cat scope])
      | HeTimeline sid e \<Rightarrow> (s, if viewed = sid then [AgentTimeline sid e] else [])
      | HeResolved sid tid res who \<Rightarrow> (s, [AgentPermissionResolvedInfo sid tid res who])
      | HeResized sid cols rows \<Rightarrow> (s, [SessionSize sid cols rows])
      | HeLagged \<Rightarrow>
          if viewed = 0 \<or> \<not> op_listed ops s viewed then (s, [SessionList (op_list ops s)])
          else (case op_snapshot ops viewed s of
                  (s', None) \<Rightarrow> (s', [SessionList (op_list ops s)])
                | (s', Some es) \<Rightarrow> (s', SessionList (op_list ops s) # AgentSnapshot viewed es # pending_frames ops s' viewed)))"

definition take_event :: "('s, 'p) host_ops \<Rightarrow> viewer_event \<Rightarrow> 's client_conn \<Rightarrow> 's client_conn" where
  "take_event ops ev c =
     (if cl_events c = []
      then (case event_frames ops ev (cl_viewed c) (cl_host c) of (s, fs) \<Rightarrow> c\<lparr>cl_host := s, cl_events := fs\<rparr>) else c)"

definition send_event :: "'s client_conn \<Rightarrow> 's client_conn" where
  "send_event c =
     (case cl_events c of
        [] \<Rightarrow> c
      | f # fs \<Rightarrow>
          if cl_status c \<noteq> Serving then c\<lparr>cl_events := []\<rparr>
          else if length (cl_queue c) < OUT_QUEUE then c\<lparr>cl_queue := cl_queue c @ [f], cl_events := fs\<rparr>
          else c)"

datatype 's loop_step =
    Arrives "frame option"
  | Control "(bytes \<times> bytes) option"
  | Round
  | RunTask nat
  | SendTask nat
  | HostEvent viewer_event
  | SendEvent
  | TransferFrame frame
  | HostMoves "'s \<Rightarrow> 's"

definition is_result :: "frame \<Rightarrow> bool" where
  "is_result f = (case f of CommandResult _ _ \<Rightarrow> True | _ \<Rightarrow> False)"

fun client_next :: "('s, 'p) host_ops \<Rightarrow> 's client_conn \<Rightarrow> 's loop_step \<Rightarrow> 's client_conn" where
  "client_next ops c (Arrives r) = c\<lparr>cl_inbox := cl_inbox c @ [r]\<rparr>"
| "client_next ops c (Control x) = c\<lparr>cl_security := cl_security c @ [x]\<rparr>"
| "client_next ops c Round = loop_round ops c"
| "client_next ops c (RunTask i) = run_task ops i c"
| "client_next ops c (SendTask i) = send_task i c"
| "client_next ops c (HostEvent ev) = take_event ops ev c"
| "client_next ops c SendEvent = send_event c"
| "client_next ops c (TransferFrame f) = (if is_result f then c else spawn_task (Sending [f]) c)"
| "client_next ops c (HostMoves f) = update_host f c"

section \<open>Answers\<close>

definition result_ids :: "frame list \<Rightarrow> u64 list" where
  "result_ids fs = concat (map (\<lambda>f. case f of CommandResult req _ \<Rightarrow> [req] | _ \<Rightarrow> []) fs)"

definition task_ids :: "client_task \<Rightarrow> u64 list" where
  "task_ids t = (case t of ListFor req _ _ \<Rightarrow> [req] | SetModeFor req _ _ \<Rightarrow> [req] | SetConfigFor req _ _ _ \<Rightarrow> [req] | RegisterPush _ _ _ \<Rightarrow> [] | Sending fs \<Rightarrow> result_ids fs)"

text \<open>The requests that were answered, or whose answer is on its way.\<close>

definition answered :: "'s client_conn \<Rightarrow> u64 list" where
  "answered c = result_ids (cl_wire c) @ result_ids (cl_arm c) @ result_ids (cl_queue c) @ concat (map task_ids (cl_tasks c))"

definition answers_inv :: "'s client_conn \<Rightarrow> bool" where
  "answers_inv c \<longleftrightarrow>
     result_ids (cl_initial c) = [] \<and> result_ids (cl_events c) = [] \<and> mset (answered c) \<subseteq># mset (cl_asked c) \<and>
     (cl_status c = Serving \<longrightarrow> mset (answered c) = mset (cl_asked c))"

lemma result_ids_simps [simp]:
  "result_ids [] = []" "result_ids (fs @ gs) = result_ids fs @ result_ids gs" "result_ids (CommandResult req oc # fs) = req # result_ids fs"
  "\<not> is_result f \<Longrightarrow> result_ids (f # fs) = result_ids fs"
  by (simp_all add: result_ids_def is_result_def split: frame.splits)

lemma is_result_simps [simp]:
  "\<not> is_result (SessionList x1)" "\<not> is_result (SessionAdded x2)" "\<not> is_result (SessionRemoved x3)" "\<not> is_result (ActivityBlip x3)" "\<not> is_result (CommandError t)"
  "\<not> is_result (SessionSize x3 x4 x5)" "\<not> is_result (AgentSnapshot x3 es)" "\<not> is_result (AgentTimeline x3 e)" "\<not> is_result (FileDone i n chk)" "\<not> is_result (FileErr i t)"
  "\<not> is_result (FileRetry i n)" "\<not> is_result (PolicyPermissionRequest x3 tc opts cat scope)" "\<not> is_result (PushRegisterAck b d)" "\<not> is_result (UnpairResult n p b d)"
  "\<not> is_result (PairRevoked p q)" "\<not> is_result (AgentPermissionResolvedInfo x3 tid res who)" "\<not> is_result (WorkspaceDirs n t ts)" "\<not> is_result (AgentSessions n t ss)"
  "\<not> is_result (AgentProviders n ps)" "\<not> is_result (TerminalRoots n rs)" "\<not> is_result (ScreenReset x3 n)" "\<not> is_result (Output x3 bs)" "\<not> is_result (SequencedOutput x3 n bs)"
  by (simp_all add: is_result_def)

lemma result_ids_pending [simp]: "result_ids (pending_frames ops s sid) = []"
  by (induction "op_pending ops s sid") (auto simp: pending_frames_def result_ids_def)

lemma result_ids_concat: "(\<And>x. x \<in> set xs \<Longrightarrow> result_ids (f x) = []) \<Longrightarrow> result_ids (concat (map f xs)) = []"
  by (induction xs) auto

lemma event_frames_ids: "event_frames ops ev viewed s = (s', fs) \<Longrightarrow> result_ids fs = []"
  by (cases ev) (auto simp: event_frames_def split: option.splits prod.splits if_splits)

lemma work_ids [simp]: "result_ids (snd (work ops t s)) = task_ids t"
  by (cases t) (auto simp: work_def task_ids_def list_agent_task_def split: sum.splits prod.splits)

lemma answer_request_ids [simp]: "result_ids (fst (snd (answer_request ops req kind s))) = []"
  by (cases kind) (auto simp: dirs_reply_def shell_in_def split: sum.splits prod.splits option.splits bool.splits)

text \<open>Sending and closing do not add to what the connection was asked.\<close>

lemma send_frame_fields [simp]:
  "cl_asked (send_frame f c) = cl_asked c" "cl_initial (send_frame f c) = cl_initial c" "cl_events (send_frame f c) = cl_events c"
  "cl_queue (send_frame f c) = cl_queue c" "cl_tasks (send_frame f c) = cl_tasks c" "cl_host (send_frame f c) = cl_host c" "cl_arm (send_frame f c) = cl_arm c" "cl_security (send_frame f c) = cl_security c"
  by (simp_all add: send_frame_def split: option.splits nat.splits)

lemma send_frame_answers:
  assumes "answers_inv c" "\<not> is_result f"
  shows "answers_inv (send_frame f c)"
  using assms by (auto simp: answers_inv_def answered_def send_frame_def split: option.splits nat.splits)

text \<open>With one request more than answers, the answer restores the balance.\<close>

definition owes :: "u64 \<Rightarrow> 's client_conn \<Rightarrow> bool" where
  "owes req c \<longleftrightarrow>
     result_ids (cl_initial c) = [] \<and> result_ids (cl_events c) = [] \<and> mset (req # answered c) \<subseteq># mset (cl_asked c) \<and>
     (cl_status c = Serving \<longrightarrow> mset (req # answered c) = mset (cl_asked c))"

lemma emit_owes: "owes req c \<Longrightarrow> result_ids fs = [] \<Longrightarrow> owes req (emit fs c)"
  by (simp add: owes_def answered_def emit_def)

lemma emit_answers: "answers_inv c \<Longrightarrow> result_ids fs = [] \<Longrightarrow> answers_inv (emit fs c)"
  by (simp add: answers_inv_def answered_def emit_def)

lemma emit_result_owes: "owes req c \<Longrightarrow> answers_inv (emit [CommandResult req oc] c)"
  by (simp add: owes_def answers_inv_def answered_def emit_def)

lemma answers_same:
  assumes "answers_inv c" "cl_asked c' = cl_asked c" "cl_initial c' = cl_initial c" "cl_events c' = cl_events c" "answered c' = answered c"
    "cl_status c' = Serving \<longrightarrow> cl_status c = Serving"
  shows "answers_inv c'"
  using assms by (simp add: answers_inv_def)

lemma close_answers [simp]: "answers_inv c \<Longrightarrow> answers_inv (close c)" "answers_inv c \<Longrightarrow> answers_inv (leave_loop c)"
  by (erule answers_same; simp add: close_def leave_loop_def answered_def)+

lemma owes_ask: "answers_inv c \<Longrightarrow> owes req (c\<lparr>cl_asked := cl_asked c @ [req]\<rparr>)"
  by (simp add: answers_inv_def owes_def answered_def)

lemma owes_same:
  assumes "owes req c" "cl_asked c' = cl_asked c" "cl_initial c' = cl_initial c" "cl_events c' = cl_events c" "answered c' = answered c"
    "cl_status c' = Serving \<longrightarrow> cl_status c = Serving"
  shows "owes req c'"
  using assms by (simp add: owes_def)

lemma spawn_owes: "owes req c \<Longrightarrow> task_ids t = [req] \<Longrightarrow> answers_inv (spawn_task t c)"
  by (simp add: owes_def answers_inv_def answered_def spawn_task_def)

section \<open>Interface: a host whose streams hold no answers\<close>

text \<open>What the loop needs of its host to answer every request once: attaching to a session sends no answers of its own.\<close>

locale client_host =
  fixes ops :: "('s, 'p) host_ops"
  assumes attach_ids: "op_attach ops sid s = (s', fs, live) \<Longrightarrow> result_ids fs = []"
    and resume_ids: "op_attach_resume ops sid after_seq generation s = (s', fs, live) \<Longrightarrow> result_ids fs = []"
begin

lemma attach_answers: "answers_inv c \<Longrightarrow> answers_inv (attach_client ops sid c)"
  by (auto simp: attach_client_def answered_def intro!: emit_answers intro: answers_same attach_ids split: prod.splits)

lemma attach_owes: "owes req c \<Longrightarrow> owes req (attach_client ops sid c)"
  by (auto simp: attach_client_def answered_def intro!: emit_owes intro: owes_same attach_ids split: prod.splits)

lemma request_answers:
  assumes "answers_inv c"
  shows "answers_inv (handle_request ops req kind c)"
proof -
  let ?c = "c\<lparr>cl_asked := cl_asked c @ [req]\<rparr>"
  have o: "owes req ?c" by (rule owes_ask [OF assms])
  have in_place: "answers_inv (case answer_request ops req k s0 of (s, fs, outcome) \<Rightarrow> emit [CommandResult req outcome] (emit fs (c1\<lparr>cl_host := s\<rparr>)))"
    if own: "owes req c1" for c1 k s0
  proof -
    obtain s fs oc where a: "answer_request ops req k s0 = (s, fs, oc)" using prod_cases3 by blast
    have "owes req (c1\<lparr>cl_host := s\<rparr>)" by (rule owes_same [OF own]) (simp_all add: answered_def)
    moreover have "result_ids fs = []" using answer_request_ids [of ops req k s0] a by simp
    ultimately show ?thesis using a by (simp add: emit_result_owes emit_owes)
  qed
  have view: "owes req (view sid ?c)" for sid by (rule owes_same [OF o]) (simp_all add: view_def answered_def)
  have kill: "owes req (unview_killed sid ?c)" for sid
    by (rule owes_same [OF o]) (simp_all add: unview_killed_def stop_forwarder_def view_def answered_def)
  show ?thesis
    unfolding handle_request_def Let_def
    using in_place [OF o] in_place [OF kill] by (cases kind) (simp_all add: spawn_owes [OF o] o task_ids_def emit_result_owes attach_owes view del: answer_request.simps)
qed

lemma frame_answers:
  assumes "answers_inv c"
  shows "answers_inv (handle_frame ops f c)"
proof -
  have set: "answers_inv (c\<lparr>cl_host := s\<rparr>)" for s by (rule answers_same [OF assms]) (simp_all add: answered_def)
  have view: "answers_inv d \<Longrightarrow> answers_inv (view sid d)" for sid and d :: "'s client_conn" by (erule answers_same) (simp_all add: view_def answered_def)
  have stop: "answers_inv d \<Longrightarrow> answers_inv (stop_forwarder d)" for d :: "'s client_conn" by (erule answers_same) (simp_all add: stop_forwarder_def answered_def)
  have upd: "answers_inv d \<Longrightarrow> answers_inv (update_host g d)" for g and d :: "'s client_conn" by (erule answers_same) (simp_all add: update_host_def answered_def)
  have push: "answers_inv (spawn_task (RegisterPush p t b) c)" for p t b by (rule answers_same [OF assms]) (simp_all add: spawn_task_def answered_def task_ids_def)
  have panic: "answers_inv (c\<lparr>cl_status := Panicked\<rparr>)" by (rule answers_same [OF assms]) (simp_all add: answered_def)
  have live: "answers_inv (c\<lparr>cl_host := s, cl_forwarder := l\<rparr>)" for s l by (rule answers_same [OF assms]) (simp_all add: answered_def)
  show ?thesis
  proof (cases f)
    case (OutputResume sid after_seq generation)
    then show ?thesis using assms by (auto simp: handle_frame_def intro!: emit_answers view live dest: resume_ids split: prod.splits)
  next
    case (Request req kind)
    then show ?thesis using assms by (simp add: handle_frame_def request_answers)
  qed (auto simp: handle_frame_def unpair_self_def unview_killed_def assms emit_answers set view stop upd push panic attach_answers
      split: prod.splits sum.splits bool.splits option.splits)
qed

lemma round_answers:
  assumes "answers_inv c"
  shows "answers_inv (loop_round ops c)"
proof -
  have sec: "answers_inv (c\<lparr>cl_security := rest\<rparr>)" for rest by (rule answers_same [OF assms]) (simp_all add: answered_def)
  have inb: "answers_inv (c\<lparr>cl_inbox := rest\<rparr>)" for rest by (rule answers_same [OF assms]) (simp_all add: answered_def)
  have arm: "answers_inv (send_frame f (c\<lparr>cl_arm := fs\<rparr>))" if "cl_arm c = f # fs" for f fs
    using assms that subset_mset.order_trans
    by (cases "is_result f") (auto simp: answers_inv_def answered_def send_frame_def is_result_def dest: mset_subset_eq_insertD split: option.splits nat.splits frame.splits)
  have ini: "answers_inv (emit [f] (c\<lparr>cl_initial := rest\<rparr>))" if "cl_initial c = f # rest" for f rest
    using assms that by (cases "is_result f") (auto simp: answers_inv_def answered_def emit_def is_result_def split: frame.splits)
  have queue: "answers_inv (emit [f] (c\<lparr>cl_queue := rest\<rparr>))" if "cl_queue c = f # rest" for f rest
    using assms that by (cases "is_result f") (auto simp: answers_inv_def answered_def emit_def is_result_def split: frame.splits)
  show ?thesis
    using assms by (auto simp: loop_round_def inbound_def arm sec inb ini queue emit_answers frame_answers split: list.splits option.splits)
qed

lemma task_answers:
  assumes "answers_inv c"
  shows "answers_inv (run_task ops i c)"
proof (cases "i < length (cl_tasks c)")
  case True
  obtain s fs where w: "work ops (cl_tasks c ! i) (cl_host c) = (s, fs)" by fastforce
  have "map task_ids ((cl_tasks c)[i := Sending fs]) = map task_ids (cl_tasks c)"
    using work_ids [of ops "cl_tasks c ! i" "cl_host c"] w True by (intro nth_equalityI) (auto simp: nth_list_update task_ids_def)
  then show ?thesis using True w by (intro answers_same [OF assms]) (simp_all add: run_task_def answered_def)
qed (simp add: run_task_def assms)

end

lemma mset_drop_nth:
  assumes "i < length xs"
  shows "mset (concat (map f xs)) = mset (f (xs ! i)) + mset (concat (map f (take i xs @ drop (Suc i) xs)))"
proof -
  have "concat (map f xs) = concat (map f (take i xs)) @ f (xs ! i) @ concat (map f (drop (Suc i) xs))"
    using arg_cong [OF id_take_nth_drop [OF assms], of "\<lambda>l. concat (map f l)"] by (simp only: map_append list.map concat_append concat.simps)
  then show ?thesis by simp
qed

lemma mset_update_nth:
  assumes "i < length xs"
  shows "mset (concat (map f (xs[i := y]))) + mset (f (xs ! i)) = mset (concat (map f xs)) + mset (f y)"
  using mset_drop_nth [OF assms, of f] mset_drop_nth [of i "xs[i := y]" f] assms by (simp add: take_update_cancel)

lemma send_task_answers:
  assumes "answers_inv c"
  shows "answers_inv (send_task i c)"
proof (cases "\<exists>fs. i < length (cl_tasks c) \<and> cl_tasks c ! i = Sending fs")
  case True
  then obtain fs where i: "i < length (cl_tasks c)" and t: "cl_tasks c ! i = Sending fs" by blast
  show ?thesis
  proof (cases fs)
    case Nil
    have "mset (concat (map task_ids (take i (cl_tasks c) @ drop (Suc i) (cl_tasks c)))) = mset (concat (map task_ids (cl_tasks c)))"
      using mset_drop_nth [OF i, of task_ids] t Nil by (simp add: task_ids_def)
    then show ?thesis using assms i t Nil by (simp add: answers_inv_def answered_def send_task_def)
  next
    case (Cons f rest)
    let ?ts = "\<lambda>gs. mset (concat (map task_ids ((cl_tasks c)[i := Sending gs])))"
    have upd: "?ts gs + mset (result_ids (f # rest)) = mset (concat (map task_ids (cl_tasks c))) + mset (result_ids gs)" for gs
      using mset_update_nth [OF i, of task_ids "Sending gs"] t Cons by (simp add: task_ids_def)
    have split: "mset (result_ids (f # rest)) = mset (result_ids [f]) + mset (result_ids rest)" by (simp add: result_ids_def)
    have "mset (result_ids (cl_queue c @ [f])) + ?ts rest = mset (result_ids (cl_queue c)) + mset (concat (map task_ids (cl_tasks c)))"
      using upd [of rest] unfolding split by (simp add: algebra_simps)
    moreover have "?ts [] \<subseteq># mset (concat (map task_ids (cl_tasks c)))" using upd [of "[]"] by (metis mset.simps(1) mset_subset_eq_add_left result_ids_simps(1) add.right_neutral)
    ultimately show ?thesis
      using assms i t Cons
      by (auto simp: answers_inv_def answered_def send_task_def union_assoc intro: subset_mset.order_trans [OF subset_mset.add_left_mono])
  qed
next
  case False
  then show ?thesis using assms by (auto simp: send_task_def split: client_task.splits)
qed

lemma send_event_answers: "answers_inv c \<Longrightarrow> answers_inv (send_event c)"
proof (cases "cl_events c")
  case (Cons f fs)
  assume inv: "answers_inv c"
  then have "\<not> is_result f" "result_ids fs = []" using Cons by (cases f; auto simp: answers_inv_def result_ids_def is_result_def)+
  then show ?thesis using inv Cons by (auto simp: send_event_def answers_inv_def answered_def)
qed (simp add: send_event_def)

context client_host
begin

lemma step_answers:
  assumes "answers_inv c"
  shows "answers_inv (client_next ops c e)"
proof -
  have inbox: "answers_inv (c\<lparr>cl_inbox := rs\<rparr>)" for rs by (rule answers_same [OF assms]) (simp_all add: answered_def)
  have control: "answers_inv (c\<lparr>cl_security := xs\<rparr>)" for xs by (rule answers_same [OF assms]) (simp_all add: answered_def)
  have host: "answers_inv (update_host f c)" for f by (rule answers_same [OF assms]) (simp_all add: update_host_def answered_def)
  have event: "answers_inv (take_event ops ev c)" for ev
    using assms by (auto simp: take_event_def answers_inv_def answered_def dest: event_frames_ids split: prod.splits)
  have transfer: "answers_inv (spawn_task (Sending [f]) c)" if "\<not> is_result f" for f
    using assms that by (simp add: spawn_task_def answers_inv_def answered_def task_ids_def)
  show ?thesis
    using assms by (cases e) (simp_all add: inbox control host event transfer round_answers task_answers send_task_answers send_event_answers)
qed

lemma run_answers: "answers_inv c \<Longrightarrow> answers_inv (foldl (client_next ops) c es)"
  by (induction es arbitrary: c) (simp_all add: step_answers del: client_next.simps)

lemma open_answers: "answers_inv (open_client ops pair room s)"
proof -
  have "answers_inv \<lparr>cl_host = s, cl_pair = pair, cl_status = Serving, cl_security = [], cl_inbox = [], cl_arm = [], cl_closing = False, cl_initial = fs, cl_queue = [], cl_wire = [], cl_room = room,
      cl_viewed = 0, cl_forwarder = False, cl_tasks = [], cl_events = [], cl_asked = []\<rparr>" if "result_ids fs = []" for fs
    using that by (simp add: answers_inv_def answered_def)
  then show ?thesis
    by (auto simp: open_client_def Let_def send_frame_answers result_ids_concat split: option.splits)
qed

end

section \<open>The last arm\<close>

lemma send_frame_status: "cl_status (send_frame f c) = Panicked \<Longrightarrow> cl_status c = Panicked"
  by (auto simp: send_frame_def split: option.splits nat.splits if_splits)

lemma emit_status [simp]: "cl_status (emit fs c) = cl_status c" "cl_status (leave_loop c) = cl_status c"
  by (simp_all add: emit_def leave_loop_def)

lemma attach_client_status [simp]: "cl_status (attach_client ops sid c) = cl_status c"
  by (simp add: attach_client_def split: prod.splits)

lemmas quiet_defs = view_def stop_forwarder_def unview_killed_def spawn_task_def update_host_def close_def

lemma handle_request_status: "cl_status (handle_request ops req kind c) = Panicked \<Longrightarrow> cl_status c = Panicked"
  by (cases kind) (auto simp: handle_request_def Let_def quiet_defs simp del: answer_request.simps split: prod.splits if_splits)

lemma handle_frame_status:
  "allows_phone_to_host (direction f) \<Longrightarrow> cl_status (handle_frame ops f c) = Panicked \<Longrightarrow> cl_status c = Panicked"
  by (cases f) (auto simp: allows_phone_to_host_def handle_frame_def unpair_self_def quiet_defs dest!: handle_request_status
      split: prod.splits sum.splits bool.splits option.splits if_splits)

lemma loop_round_status: "cl_status (loop_round ops c) = Panicked \<Longrightarrow> cl_status c = Panicked"
  by (auto simp: loop_round_def inbound_def close_def dest!: send_frame_status handle_frame_status [rotated] split: list.splits option.splits if_splits)

lemma client_next_status: "cl_status (client_next ops c e) = Panicked \<Longrightarrow> cl_status c = Panicked"
  by (cases e) (auto simp: run_task_def send_task_def take_event_def send_event_def quiet_defs dest: loop_round_status
      split: prod.splits client_task.splits list.splits if_splits)

text \<open>
  C31. The \<open>unreachable!\<close> that ends the dispatch of \<open>handle_client\<close> is unreachable: whatever the phone sends, and whatever the host does, the
  task never panics there, because the direction of a frame is checked first and every frame that passes has an arm of its own.
\<close>

theorem dispatch_total: "cl_status (foldl (client_next ops) (open_client ops pair room s) es) \<noteq> Panicked"
proof -
  have "cl_status (open_client ops pair room s) \<noteq> Panicked"
    by (auto simp: open_client_def Let_def close_def dest!: send_frame_status split: option.splits)
  then show ?thesis
    by (induction es rule: rev_induct) (auto dest: client_next_status simp del: client_next.simps)
qed

section \<open>Revocation\<close>

text \<open>
  A revocation waits in the control channel while the arm under way has still to send \<open>arm\<close>: some of it was sent and the loop has still to poll, or all of it, and
  the notice is what the next arm sends, or the loop has ended.
\<close>

definition preempted :: "frame list \<Rightarrow> frame list \<Rightarrow> u64 list \<Rightarrow> bytes \<Rightarrow> bytes \<Rightarrow> 's client_conn \<Rightarrow> bool" where
  "preempted wire arm asked pair event c \<longleftrightarrow>
     cl_asked c = asked \<and>
     (\<exists>sent. cl_wire c = wire @ sent \<and>
        (cl_status c = Serving \<and> sent @ cl_arm c = arm \<and> (\<exists>rest. cl_security c = Some (pair, event) # rest) \<or>
         cl_status c = Serving \<and> sent @ cl_arm c = arm @ [PairRevoked pair event] \<and> cl_closing c \<or>
         cl_status c \<noteq> Serving \<and> prefix sent (arm @ [PairRevoked pair event])))"

text \<open>How many steps of the loop are left.\<close>

definition rounds_left :: "'s client_conn \<Rightarrow> nat" where
  "rounds_left c = (if cl_status c \<noteq> Serving then 0 else length (cl_arm c) + (if cl_closing c then 1 else 3))"

lemma loop_round_preempted:
  assumes "preempted wire arm asked pair event c"
  shows "preempted wire arm asked pair event (loop_round ops c)"
proof (cases "cl_status c = Serving")
  case True
  then obtain sent where wire: "cl_wire c = wire @ sent" "cl_asked c = asked"
    and c: "sent @ cl_arm c = arm \<and> (\<exists>rest. cl_security c = Some (pair, event) # rest) \<or> sent @ cl_arm c = arm @ [PairRevoked pair event] \<and> cl_closing c"
    using assms by (auto simp: preempted_def)
  show ?thesis
  proof (cases "cl_arm c")
    case Nil
    then show ?thesis using True wire c
      by (auto simp: preempted_def loop_round_def close_def emit_def leave_loop_def prefix_def)
  next
    case (Cons f fs)
    have "cl_wire (loop_round ops c) = wire @ sent @ [f] \<or> cl_wire (loop_round ops c) = wire @ sent \<and> cl_status (loop_round ops c) = Closed"
      "cl_arm (loop_round ops c) = fs" "cl_security (loop_round ops c) = cl_security c" "cl_closing (loop_round ops c) = cl_closing c"
      "cl_asked (loop_round ops c) = asked"
      using True wire Cons by (auto simp: loop_round_def send_frame_def split: option.splits nat.splits)
    then show ?thesis using c Cons unfolding preempted_def by (cases "cl_status (loop_round ops c) = Serving") (auto simp: prefix_def, metis+)
  qed
qed (use assms in \<open>auto simp: preempted_def loop_round_def\<close>)

lemma client_next_quiet:
  "e \<noteq> Round \<Longrightarrow> cl_status (client_next ops c e) = cl_status c \<and> cl_wire (client_next ops c e) = cl_wire c \<and> cl_asked (client_next ops c e) = cl_asked c \<and>
     cl_arm (client_next ops c e) = cl_arm c \<and> cl_closing (client_next ops c e) = cl_closing c \<and> (\<exists>xs. cl_security (client_next ops c e) = cl_security c @ xs)"
  by (cases e) (auto simp: run_task_def send_task_def take_event_def send_event_def spawn_task_def update_host_def split: prod.splits client_task.splits list.splits)

lemma client_next_preempted:
  assumes "preempted wire arm asked pair event c"
  shows "preempted wire arm asked pair event (client_next ops c e)"
proof (cases "e = Round")
  case True
  then show ?thesis using loop_round_preempted [OF assms] by simp
next
  case False
  then show ?thesis using assms client_next_quiet [OF False, of ops c] unfolding preempted_def by auto
qed

lemma run_preempted: "preempted wire arm asked pair event c \<Longrightarrow> preempted wire arm asked pair event (foldl (client_next ops) c es)"
  by (induction es arbitrary: c) (simp_all add: client_next_preempted del: client_next.simps)

text \<open>Every step of the loop brings it closer to its end.\<close>

lemma loop_round_left:
  assumes "preempted wire arm asked pair event c"
  shows "rounds_left (loop_round ops c) \<le> rounds_left c - 1"
proof (cases "cl_status c = Serving \<and> cl_arm c = []")
  case True
  then have "cl_closing c \<or> (\<exists>rest. cl_security c = Some (pair, event) # rest)" using assms by (auto simp: preempted_def)
  then show ?thesis using True by (auto simp: rounds_left_def loop_round_def close_def emit_def leave_loop_def)
next
  case False
  then show ?thesis by (cases "cl_arm c") (auto simp: rounds_left_def loop_round_def send_frame_def split: option.splits nat.splits)
qed

lemma run_left:
  "preempted wire arm asked pair event c \<Longrightarrow> rounds_left (foldl (client_next ops) c es) \<le> rounds_left c - count_list es Round"
proof (induction es arbitrary: c)
  case (Cons e es)
  have "rounds_left (client_next ops c e) \<le> rounds_left c - count_list [e] Round"
    using loop_round_left [OF Cons.prems, of ops] client_next_quiet [of e ops c] by (cases "e = Round") (auto simp: rounds_left_def)
  then show ?case using Cons.IH [OF client_next_preempted [OF Cons.prems, of ops e]] by (auto simp del: client_next.simps)
qed simp

text \<open>A host that serves nothing, for the examples: only whether the pair is revoked is known of it.\<close>

definition offline_ops :: "('s \<Rightarrow> bool) \<Rightarrow> ('s, unit) host_ops" where
  "offline_ops gone =
     \<lparr>op_listed = \<lambda>s sid. False, op_list = \<lambda>s. [], op_spawn_shell = \<lambda>p t s. (s, Inl ''offline''), op_spawn_agent = \<lambda>pr t p s. (s, Inl ''offline''),
      op_resume_agent = \<lambda>p i s. (s, Inl ''offline''), op_kill = \<lambda>sid s. (s, False), op_rename = \<lambda>sid t s. (s, False), op_write_input = \<lambda>sid bs s. s,
      op_attach = \<lambda>sid s. (s, [], False), op_attach_resume = \<lambda>sid a g s. (s, [], False), op_resolve = \<lambda>t opt s. s, op_resolve_in = \<lambda>sid t opt s. s,
      op_pending = \<lambda>s sid. [], op_snapshot = \<lambda>sid s. (s, None), op_prompt = \<lambda>sid t s. (s, Inl ''offline''), op_cancel = \<lambda>sid s. (s, Inl ''offline''),
      op_authenticate = \<lambda>sid m s. (s, Inl ''offline''), op_set_mode = \<lambda>sid m s. (s, Inl ''offline''), op_set_config = \<lambda>sid i v s. (s, Inl ''offline''),
      op_roots = \<lambda>s. [], op_root_path = \<lambda>s r. None, op_workspace_dir = \<lambda>s. (), op_path_of = \<lambda>t. (), op_resolve_within = \<lambda>s p t. Inl ''offline'',
      op_list_dirs = \<lambda>s p t. Inl ''offline'', op_agent_sessions = \<lambda>p s. [], op_agent_sessions_for = \<lambda>pr p s. (s, []), op_providers = \<lambda>s. [],
      op_start_download = \<lambda>i p n a s. s, op_start_upload = \<lambda>i p n m a s. (s, Inl ''offline''), op_upload_chunk = \<lambda>i q bs s. (s, Inl ''offline''),
      op_finish_upload = \<lambda>i n chk s. (s, Inl ''offline''), op_retry_download = \<lambda>i q s. s, op_cancel_download = \<lambda>i s. s, op_cancel_upload = \<lambda>i s. s,
      op_push_configured = \<lambda>s. False, op_push_register = \<lambda>pr t b s. (s, Inl ''offline''), op_push_revoked = \<lambda>s. s,
      op_revoked = \<lambda>s. if gone s then Some (None, []) else None, op_revoke = \<lambda>s. (s, Inl ''offline'')\<rparr>"

text \<open>
  C6. Revocation preempts disclosure: from the moment the revocation of its pair waits in the control channel of a connection, and whatever frames,
  events and task results wait with it or arrive later, the phone is still sent at most what the arm of the loop then under way had left to send and after
  that the notice of the revocation, at most once; no further request of the phone is taken up; and the connection has ended after as many steps of the loop as the
  arm has frames left and three more.
\<close>

theorem revocation_preempts:
  assumes "cl_status c = Serving" and "cl_security c = Some (pair, event) # rest"
  shows "(\<exists>sent. cl_wire (foldl (client_next ops) c es) = cl_wire c @ sent \<and> prefix sent (cl_arm c @ [PairRevoked pair event])) \<and>
     cl_asked (foldl (client_next ops) c es) = cl_asked c \<and>
     (length (cl_arm c) + 3 \<le> count_list es Round \<longrightarrow> cl_status (foldl (client_next ops) c es) \<noteq> Serving)"
proof -
  have p: "preempted (cl_wire c) (cl_arm c) (cl_asked c) pair event c" using assms by (simp add: preempted_def)
  have "rounds_left (foldl (client_next ops) c es) = 0" if "length (cl_arm c) + 3 \<le> count_list es Round"
    using run_left [OF p, of ops es] that by (simp add: rounds_left_def split: if_splits)
  then have "length (cl_arm c) + 3 \<le> count_list es Round \<longrightarrow> cl_status (foldl (client_next ops) c es) \<noteq> Serving" by (auto simp: rounds_left_def split: if_splits)
  moreover have "prefix sent (cl_arm c @ [PairRevoked pair event])" if "sent @ xs = cl_arm c \<or> sent @ xs = cl_arm c @ [PairRevoked pair event]" for sent xs
    using that by (metis append_assoc prefixI)
  ultimately show ?thesis using run_preempted [OF p, of ops es] unfolding preempted_def by blast
qed

text \<open>A rename has still its list and its answer to send when the revocation comes; a request waits.\<close>

theorem revocation_preempts_witness:
  "let ops = (offline_ops (\<lambda>s. s))\<lparr>op_rename := \<lambda>sid t s. (s, True)\<rparr>;
       c = foldl (client_next ops) (open_client ops [1] None False)
         [Arrives (Some (Request 6 (RkRenameSession 1 ''t''))), Round, Round, Arrives (Some (Request 7 RkListTerminalRoots)), Control (Some ([1], [2]))];
       c' = foldl (client_next ops) c [Round, Round, Round, Round]
   in (\<exists>sent. cl_wire c' = cl_wire c @ sent \<and> prefix sent (cl_arm c @ [PairRevoked [1] [2]])) \<and> cl_asked c' = cl_asked c \<and> cl_wire c = [SessionList []] \<and>
      cl_arm c = [CommandResult 6 (OutcomeOk (Some 1))] \<and> cl_inbox c \<noteq> [] \<and> cl_status c' \<noteq> Serving"
proof -
  let ?ops = "(offline_ops (\<lambda>s. s))\<lparr>op_rename := \<lambda>sid t s. (s, True)\<rparr>"
  let ?c = "foldl (client_next ?ops) (open_client ?ops [1] None False)
         [Arrives (Some (Request 6 (RkRenameSession 1 ''t''))), Round, Round, Arrives (Some (Request 7 RkListTerminalRoots)), Control (Some ([1], [2]))]"
  have c: "cl_status ?c = Serving" "cl_security ?c = [Some ([1], [2])]" "cl_wire ?c = [SessionList []]" "cl_arm ?c = [CommandResult 6 (OutcomeOk (Some 1))]"
    "cl_inbox ?c = [Some (Request 7 RkListTerminalRoots)]"
    by (simp_all add: open_client_def offline_ops_def loop_round_def send_frame_def inbound_def allows_phone_to_host_def handle_frame_def handle_request_def emit_def)
  show ?thesis using revocation_preempts [OF c(1) c(2), of ?ops "[Round, Round, Round, Round]"] c by (simp only: Let_def) simp
qed

text \<open>The steps of the connection itself, as opposed to the work of a task already started, an event of the manager and what the rest of the host does.\<close>

definition own_step :: "'s loop_step \<Rightarrow> bool" where
  "own_step e = (case e of RunTask _ \<Rightarrow> False | HostEvent _ \<Rightarrow> False | HostMoves _ \<Rightarrow> False | _ \<Rightarrow> True)"

lemma own_step_revoked:
  assumes "op_revoked ops (cl_host c) \<noteq> None" and "own_step e"
  shows "cl_host (client_next ops c e) = cl_host c \<and> cl_asked (client_next ops c e) = cl_asked c"
  using assms by (cases e) (auto simp: own_step_def loop_round_def inbound_def close_def emit_def leave_loop_def send_task_def take_event_def send_event_def spawn_task_def
      split: list.splits option.splits client_task.splits)

text \<open>
  Revocation stops commands: once the peer store has the pair as revoked, the frames of the phone on a connection still open change nothing of the
  host and no request is taken up, whether or not the notice has already reached the loop.
\<close>

theorem revoked_pair_inert:
  assumes "op_revoked ops (cl_host c) \<noteq> None" and "list_all own_step es"
  shows "cl_host (foldl (client_next ops) c es) = cl_host c \<and> cl_asked (foldl (client_next ops) c es) = cl_asked c"
  using assms
proof (induction es arbitrary: c)
  case (Cons e es)
  then show ?case using own_step_revoked [of ops c e] by (simp del: client_next.simps)
qed simp

theorem revoked_pair_inert_witness:
  "let ops = offline_ops (\<lambda>s. s) :: (bool, unit) host_ops; c = (open_client ops [1] None False)\<lparr>cl_host := True\<rparr>;
       c' = foldl (client_next ops) c [Arrives (Some (Request 7 RkListTerminalRoots)), Round]
   in cl_host c' = cl_host c \<and> cl_asked c' = cl_asked c \<and> cl_asked c = [] \<and> cl_status c' = Closed"
proof -
  let ?ops = "offline_ops (\<lambda>s. s) :: (bool, unit) host_ops" let ?c = "(open_client ?ops [1] None False)\<lparr>cl_host := True\<rparr>"
  let ?es = "[Arrives (Some (Request 7 RkListTerminalRoots)), Round] :: bool loop_step list"
  have "op_revoked ?ops (cl_host ?c) \<noteq> None" "list_all own_step ?es" by (simp_all add: offline_ops_def own_step_def)
  from revoked_pair_inert [OF this] have "cl_host (foldl (client_next ?ops) ?c ?es) = cl_host ?c \<and> cl_asked (foldl (client_next ?ops) ?c ?es) = cl_asked ?c" .
  moreover have "cl_asked ?c = [] \<and> cl_status (foldl (client_next ?ops) ?c ?es) = Closed"
    by (simp add: open_client_def offline_ops_def loop_round_def inbound_def allows_phone_to_host_def close_def)
  ultimately show ?thesis by (simp only: Let_def)
qed

end
