(* ===== verification/Daemon.thy ===== *)
theory Daemon
  imports Client_Loop Streaming Session_Manager Agent_Permissions
begin

text \<open>
  The client loop over the host's own components: the sessions, their output and their agents are the models of \<open>Session_Manager\<close>, \<open>Streaming\<close> and
  \<open>Agent_Permissions\<close>, which give \<open>Client_Loop\<close> the operations it calls; the operations on files, processes, push and peers are those of an environment \<open>env\<close>.
\<close>

section \<open>Operations\<close>

text \<open>The shared state of the process: the manager, the agents, and what the environment keeps.\<close>

record 'e daemon =
  dm_manager :: manager
  dm_agents :: agent_world
  dm_rest :: 'e

definition agent_of :: "'e daemon \<Rightarrow> session_id \<Rightarrow> agent_session option" where
  "agent_of d sid = hm_get (aw_sessions (dm_agents d)) sid"

definition set_session_output :: "session_id \<Rightarrow> session_output \<Rightarrow> 'e daemon \<Rightarrow> 'e daemon" where
  "set_session_output sid so d = d\<lparr>dm_manager := update_session sid (\<lambda>s. s\<lparr>ss_output := so\<rparr>) (dm_manager d)\<rparr>"

definition fresh_link :: link where
  "fresh_link = \<lparr>lk_queue = [], lk_wire = [], lk_active = None\<rparr>"

definition daemon_pending ::
  "'e daemon \<Rightarrow> session_id \<Rightarrow> (tool_call_card \<times> permission_option list \<times> permission_category \<times> workspace_scope) list" where
  "daemon_pending d sid =
     (case agent_of d sid of
        None \<Rightarrow> []
      | Some a \<Rightarrow> map (\<lambda>(_, p). (pp_tool_call p, pp_options p, pp_category p, as_workspace_scope a)) (as_pending a))"

definition daemon_snapshot :: "session_id \<Rightarrow> 'e daemon \<Rightarrow> 'e daemon \<times> agent_timeline_event list option" where
  "daemon_snapshot sid d =
     (case agent_of d sid of
        None \<Rightarrow> (d, None)
      | Some a \<Rightarrow>
          (case agent_snapshot (as_feed a) of
             (feed, events) \<Rightarrow>
               (d\<lparr>dm_agents := (dm_agents d)\<lparr>aw_sessions := hm_insert sid (a\<lparr>as_feed := feed\<rparr>) (aw_sessions (dm_agents d))\<rparr>\<rparr>, Some events)))"

text \<open>\<open>attach\<close>: an agent is sent as its history and its open permissions, a terminal as its screen, followed by its output.\<close>

definition attach_terminal :: "session_id \<Rightarrow> (session_output \<Rightarrow> link \<Rightarrow> session_output \<times> link) \<Rightarrow> session \<Rightarrow> 'e daemon \<Rightarrow> 'e daemon \<times> frame list \<times> bool" where
  "attach_terminal sid f s d =
     (case f (ss_output s) fresh_link of (so, lk) \<Rightarrow> (set_session_output sid so d, lk_wire lk, lk_active lk \<noteq> None))"

definition daemon_attach :: "u64 \<Rightarrow> session_id \<Rightarrow> 'e daemon \<Rightarrow> 'e daemon \<times> frame list \<times> bool" where
  "daemon_attach generation sid d =
     (case hm_get (mg_sessions (dm_manager d)) sid of
        None \<Rightarrow> (d, [], False)
      | Some s \<Rightarrow>
          (case daemon_snapshot sid d of
             (d', Some events) \<Rightarrow>
               (d', AgentSnapshot sid events # map (\<lambda>(tc, opts, cat, scope). PolicyPermissionRequest sid tc opts cat scope) (daemon_pending d' sid), False)
           | (d', None) \<Rightarrow> attach_terminal sid (attach sid generation) s d'))"

definition daemon_attach_resume :: "u64 \<Rightarrow> session_id \<Rightarrow> u64 \<Rightarrow> u64 \<Rightarrow> 'e daemon \<Rightarrow> 'e daemon \<times> frame list \<times> bool" where
  "daemon_attach_resume generation sid after_seq client_generation d =
     (case hm_get (mg_sessions (dm_manager d)) sid of
        None \<Rightarrow> (d, [], False)
      | Some s \<Rightarrow>
          if client_generation \<noteq> generation \<or> agent_of d sid \<noteq> None then daemon_attach generation sid d
          else attach_terminal sid (attach_resume sid generation after_seq client_generation) s d)"

text \<open>\<open>kfault\<close> is the error of killing the child of a terminal, if any; it is ignored.\<close>

definition daemon_kill :: "(session_id \<Rightarrow> io_error option) \<Rightarrow> session_id \<Rightarrow> 'e daemon \<Rightarrow> 'e daemon \<times> bool" where
  "daemon_kill kfault sid d =
     (case kill_session (kfault sid) sid (dm_manager d) of
        (m, ok, _) \<Rightarrow> (d\<lparr>dm_manager := m, dm_agents := if ok then kill_agent sid (dm_agents d) else dm_agents d\<rparr>, ok))"

definition daemon_rename :: "session_id \<Rightarrow> string \<Rightarrow> 'e daemon \<Rightarrow> 'e daemon \<times> bool" where
  "daemon_rename sid title d = (case rename_session sid (map of_char title) (dm_manager d) of (m, ok) \<Rightarrow> (d\<lparr>dm_manager := m\<rparr>, ok))"

text \<open>The result of writing is ignored; \<open>fault\<close> is the error of the terminal, if any.\<close>

definition daemon_write_input :: "(session_id \<Rightarrow> io_error option) \<Rightarrow> session_id \<Rightarrow> bytes \<Rightarrow> 'e daemon \<Rightarrow> 'e daemon" where
  "daemon_write_input fault sid bs d = d\<lparr>dm_manager := fst (write_input sid bs (fault sid) (dm_manager d))\<rparr>"

definition daemon_ops :: "u64 \<Rightarrow> (session_id \<Rightarrow> io_error option) \<Rightarrow> (session_id \<Rightarrow> io_error option) \<Rightarrow> ('e daemon, 'p) host_ops \<Rightarrow> ('e daemon, 'p) host_ops" where
  "daemon_ops generation fault kfault env = env\<lparr>
     op_listed := \<lambda>d sid. hm_contains (mg_sessions (dm_manager d)) sid,
     op_list := \<lambda>d. list_sessions (dm_manager d),
     op_kill := daemon_kill kfault,
     op_rename := daemon_rename,
     op_write_input := daemon_write_input fault,
     op_attach := daemon_attach generation,
     op_attach_resume := daemon_attach_resume generation,
     op_resolve := \<lambda>tid opt d. d\<lparr>dm_agents := resolve_unscoped tid opt Phone (dm_agents d)\<rparr>,
     op_resolve_in := \<lambda>sid tid opt d. d\<lparr>dm_agents := resolve_permission sid tid opt Phone (dm_agents d)\<rparr>,
     op_pending := daemon_pending,
     op_snapshot := daemon_snapshot\<rparr>"

section \<open>Every request is answered once\<close>

lemma snapshot_frames_ids: "result_ids (snapshot_frames sid snap through) = []"
  by (induction "chunks_of SNAPSHOT_CHUNK_BYTES snap") (auto simp: snapshot_frames_def result_ids_def)

lemma replay_ids: "result_ids (replay sid merged merged_seq cs) = []"
  by (induction sid merged merged_seq cs rule: replay.induct) (simp_all add: Let_def)

lemma attach_ids: "attach sid generation so lk = (so', lk') \<Longrightarrow> result_ids (lk_wire lk') = result_ids (lk_wire lk)"
  by (auto simp: attach_def snapshot_frames_ids split: prod.splits)

lemma attach_resume_ids: "attach_resume sid generation after_seq g so lk = (so', lk') \<Longrightarrow> result_ids (lk_wire lk') = result_ids (lk_wire lk)"
  by (auto simp: attach_resume_def replay_ids dest: attach_ids split: prod.splits option.splits if_splits)

lemma policy_ids: "result_ids (map (\<lambda>(tc, opts, cat, scope). PolicyPermissionRequest sid tc opts cat scope) ps) = []"
  by (induction ps) (auto simp: result_ids_def)

lemma daemon_attach_ids: "daemon_attach generation sid d = (d', fs, live) \<Longrightarrow> result_ids fs = []"
  by (auto simp: daemon_attach_def attach_terminal_def fresh_link_def policy_ids dest!: attach_ids split: option.splits prod.splits)

interpretation daemon: client_host "daemon_ops generation fault kfault env"
  by unfold_locales
    (auto simp: daemon_ops_def daemon_attach_resume_def attach_terminal_def fresh_link_def dest: daemon_attach_ids dest!: attach_resume_ids split: option.splits prod.splits if_splits)

text \<open>
  C5. Every correlated request is answered exactly once: whatever requests a phone sends, however its connection, the tasks that wait for an agent, the
  manager's events and the rest of the host interleave, no request has more answers than it was made, and while the connection is served each
  has one answer that is sent, about to be sent, queued or still being worked on, so that none is left without once the arm of the loop under way has sent what it
  has to send and the queue and the tasks are empty.
\<close>

theorem requests_answered_once:
  fixes generation :: u64 and fault kfault :: "session_id \<Rightarrow> io_error option" and env :: "('e daemon, 'p) host_ops"
  defines "ops \<equiv> daemon_ops generation fault kfault env"
  shows "let c = foldl (client_next ops) (open_client ops pair writes d) es
     in mset (result_ids (cl_wire c)) \<subseteq># mset (cl_asked c) \<and>
        (cl_status c = Serving \<longrightarrow> mset (answered c) = mset (cl_asked c)) \<and>
        (cl_status c = Serving \<longrightarrow> cl_arm c = [] \<longrightarrow> cl_queue c = [] \<longrightarrow> cl_tasks c = [] \<longrightarrow> mset (result_ids (cl_wire c)) = mset (cl_asked c))"
proof -
  let ?c = "foldl (client_next ops) (open_client ops pair writes d) es"
  have inv: "answers_inv ?c" unfolding ops_def by (rule daemon.run_answers [OF daemon.open_answers])
  then have sub: "mset (answered ?c) \<subseteq># mset (cl_asked ?c)" and eq: "cl_status ?c = Serving \<longrightarrow> mset (answered ?c) = mset (cl_asked ?c)"
    by (simp_all add: answers_inv_def)
  have "mset (result_ids (cl_wire ?c)) \<subseteq># mset (answered ?c)" by (simp add: answered_def)
  then have "mset (result_ids (cl_wire ?c)) \<subseteq># mset (cl_asked ?c)" using sub by (rule subset_mset.order_trans)
  moreover have "cl_arm ?c = [] \<Longrightarrow> cl_queue ?c = [] \<Longrightarrow> cl_tasks ?c = [] \<Longrightarrow> answered ?c = result_ids (cl_wire ?c)" by (simp add: answered_def)
  ultimately show ?thesis using eq unfolding Let_def by metis
qed

definition two_requests :: "unit daemon loop_step list" where
  "two_requests = [Arrives (Some (Request 7 (RkKillSession 1))), Arrives (Some (Request 8 (RkAgentSetMode 1 ''plan''))), Round, Round, Round, RunTask 0, SendTask 0, SendTask 0, Round, Round, Round, Round]"

theorem requests_answered_once_witness:
  "let ops = daemon_ops 5 (\<lambda>sid. None) (\<lambda>sid. None) (offline_ops (\<lambda>d. False)); d = \<lparr>dm_manager = new_with_limits 64 4, dm_agents = no_agents, dm_rest = ()\<rparr>;
       c = foldl (client_next ops) (open_client ops [1] None d) two_requests
   in mset (result_ids (cl_wire c)) = mset (cl_asked c) \<and> cl_asked c = [7, 8] \<and> length (cl_wire c) = 3"
proof -
  let ?ops = "daemon_ops 5 (\<lambda>sid. None) (\<lambda>sid. None) (offline_ops (\<lambda>d. False))" let ?d = "\<lparr>dm_manager = new_with_limits 64 4, dm_agents = no_agents, dm_rest = ()\<rparr>"
  let ?c = "foldl (client_next ?ops) (open_client ?ops [1] None ?d) two_requests"
  note defs = two_requests_def open_client_def daemon_ops_def offline_ops_def loop_round_def inbound_def allows_phone_to_host_def handle_frame_def handle_request_def
    unview_killed_def daemon_kill_def kill_session_def list_sessions_def new_with_limits_def send_frame_def emit_def spawn_task_def run_task_def work_def
    agent_call_def send_task_def hm_contains_def OUT_QUEUE_def
  have "cl_status ?c = Serving" "cl_arm ?c = []" "cl_queue ?c = []" "cl_tasks ?c = []" "cl_asked ?c = [7, 8]" "length (cl_wire ?c) = 3"
    by (simp_all add: defs)
  with requests_answered_once [of 5 "\<lambda>sid. None" "\<lambda>sid. None" "offline_ops (\<lambda>d. False)" "[1]" None ?d two_requests] show ?thesis
    by (simp add: Let_def)
qed

end
