(* ===== verification/Spec2Isabelle.thy ===== *)
theory Spec2Isabelle
  imports Frame_Codec Envelope Enrollment Credential_Store Peer_Store Handshake Admission Accept Pair_Confirm Active
    Streaming Terminal_Text Workspace File_Transfer Local_Files Phone_Transfer Push_Relay
    Agent_Driver Relay_Pipe Daemon
begin

text \<open>
  Portty: pairing, secure transport, admission, sessions and agents, workspaces, file transfer, the local relay pipe and the push relay.

  Portty lets a phone drive terminal sessions on a computer. The host daemon
  (\<open>crates/host\<close>) and the app share a transport library (\<open>crates/transport\<close>) that pairs the two over an
  iroh QUIC stream, keeps the credentials of paired peers on disk, and seals every message. This
  development models that security core, in the order in which a connection meets it, and then what a
  paired phone uses the connection for: the sessions and agents of the host, their output, its directories and
  files; and the two other doors of the host, the local socket of its command line and the push relay.

  \<^bold>\<open>The parts and their theories.\<close>
  \<^item> \<open>Prelude\<close>: integers as bytes, checked arithmetic, hash maps as association lists, and the
    interfaces \<open>wire_codec\<close> (a self-delimiting codec), \<open>guarded_invariant\<close>, \<open>step_invariant\<close> and
    \<open>conditional_invariant\<close> (a state machine that keeps an invariant along every run, or along every run
    whose steps satisfy a condition).
  \<^item> \<open>Errors\<close>: the error enums of \<open>error.rs\<close> and \<open>PairingFailure\<close> of \<open>handshake.rs\<close>.
  \<^item> \<open>Frame_Codec\<close> (\<open>frame.rs\<close>): length-prefixed frames with a protocol version; a stream is the bytes
    that arrive and how it ends (end of file, error, silence).
  \<^item> \<open>Crypto\<close> (\<open>crypto/pairing.rs\<close>): ephemeral keys, proofs, sessions, subkeys, tokens and the six-digit
    comparison code, over a record \<open>crypto\<close> of primitives.
  \<^item> \<open>Envelope\<close> (\<open>crypto/envelope.rs\<close>, \<open>wire.rs\<close>): sealing with a sequence number in the nonce, and \<open>open\<close>
    as the two atomic accesses it makes, so that concurrent calls interleave between them.
  \<^item> \<open>Wordlist\<close>, \<open>Pairing_Secret\<close> (\<open>crypto/wordlist.rs\<close>, \<open>crypto/pairing.rs\<close>): the spoken phrase of a secret.
  \<^item> \<open>Enrollment\<close> (\<open>crypto/pairing.rs\<close>): per-source backoff, the enrollment window with its attempt cap
    and its one-time claim, and \<open>PairingState\<close> that keeps the window together with the secrets.
  \<^item> \<open>Credential_Store\<close> (\<open>credential_store.rs\<close>, \<open>secure.rs\<close>): the file store over a disk whose system
    calls fail by script. Directory entries and the data of files reach the medium apart: an entry not synchronised may or may
    not survive a power loss, and one whose file was not flushed may hold anything after it.
  \<^item> \<open>Peer_Store\<close> (\<open>peers.rs\<close>): tokens, pair generations, previous tokens and revocation tombstones, with
    every rollback and every write in the order the code has it.
  \<^item> \<open>Handshake\<close> (\<open>handshake.rs\<close>, the runners in \<open>iroh.rs\<close>): the client and the server state machine.
  \<^item> \<open>Admission\<close> (\<open>iroh_serve.rs\<close>): the per-source gate, the staging pools and the serving pool.
  \<^item> \<open>Accept\<close> (\<open>iroh_serve.rs\<close>): a connection from the reload of the store to the acknowledgement, as a
    task that shares the store, the pairing state and the limiter with all others.
  \<^item> \<open>Pair_Confirm\<close> (\<open>pair_confirm.rs\<close>): the broker that asks a human at the host.
  \<^item> \<open>Active\<close> (\<open>active.rs\<close>, the watcher of \<open>iroh_serve.rs\<close>): live sessions and cutting off a revoked phone.
  \<^item> \<open>Protocol\<close> (\<open>crates/protocol/src/lib.rs\<close>): every message type and the direction of every frame.
  \<^item> \<open>Scrollback\<close> (\<open>session.rs\<close>): the ring of output chunks, its snapshot and its deltas, refining the plain
    sequence of bytes the program wrote.
  \<^item> \<open>Streaming\<close> (\<open>iroh_serve.rs\<close>, \<open>app/src-tauri/src/lib.rs\<close>): attach, resume, the forwarder task with lags and
    resynchronisation, the queue and the socket of the connection, and the phone's cursor.
  \<^item> \<open>Terminal_Text\<close> (\<open>session.rs\<close>): decoding and bounding the output of agent terminals, titles and texts.
  \<^item> \<open>Session_Manager\<close> (\<open>session.rs\<close>): the registry of sessions with its slots and ids, the creation of shells, adopted
    terminals and agents, killing, renaming, input and sizes, and which child processes and drivers run.
  \<^item> \<open>Agent_History\<close> (\<open>session.rs\<close>): the bounded history of an agent session and its sticky events.
  \<^item> \<open>Agent_Permissions\<close> (\<open>session.rs\<close>): permission requests of agents from the handler that waits to the decision of
    a viewer, an expiry, a cancellation or a kill.
  \<^item> \<open>Agent_Driver\<close> (\<open>session.rs\<close>): what a typed text means, the queues of commands, turns, logins, and the loop that
    reconnects the adapter.
  \<^item> \<open>Client_Loop\<close> (\<open>handle_client\<close> in \<open>iroh_serve.rs\<close>): the task of one connected phone: the order in which it polls, each awaited write of
    an arm as a step of its own, the dispatch of every frame and request, its tasks and events, over a record \<open>host_ops\<close> of what it calls; \<open>Daemon\<close>
    gives it the models of the sessions, their output and their agents.
  \<^item> \<open>Relay_Protocol\<close>, \<open>Relay_Pipe\<close> (\<open>protocol/src/relay.rs\<close>, \<open>relay_pipe.rs\<close>): the local socket: its directory, its frames,
    and every connection: shared terminals, reopening of the pairing and its console, revocation, agent chats.
  \<^item> \<open>Unix_Files\<close>: \<open>std::path\<close> and \<open>std::fs\<close> as the code uses them, over a graph of inodes with symbolic
    links.
  \<^item> \<open>Workspace\<close> (\<open>workspace.rs\<close>, the file requests of agents in \<open>session.rs\<close>): resolution of paths inside a
    root, listings, the plain spelling of verbatim paths.
  \<^item> \<open>File_Transfer\<close> (\<open>file_transfer.rs\<close>, its arms in \<open>handle_client\<close>): uploads, downloads and the registry of
    temporary files, for all connections together.
  \<^item> \<open>Utf8\<close>: encoding and decoding of Unicode scalar values, as \<open>std::str\<close> does it.
  \<^item> \<open>Local_Files\<close> (\<open>app/src-tauri/src/local_files.rs\<close>): what a file picker handed over, URLs and document
    providers, suggested names, the copy of a finished download into a document.
  \<^item> \<open>Phone_Transfer\<close> (\<open>app/src-tauri/src/lib.rs\<close>, \<open>download_probe.rs\<close>): the app's side of uploads and downloads:
    budgets, restarts, retries, owners of transfers, and the two sides of a download together.
  \<^item> \<open>Push_Relay\<close> (\<open>crates/push-relay/src/main.rs\<close>): the public relay's endpoints, their credentials, budgets,
    reclaiming and provider slots, with the awaits of a wake as separate steps.

  \<^bold>\<open>How code becomes definitions.\<close> A struct is a record, an enum a datatype, a fallible function returns
  \<open>error + 'a\<close>, a method that changes its object returns the changed record. Fixed-width counters are
  words and wrap. Clocks, random bytes and the outcome of I/O are arguments. What sits behind a lock is
  changed by one atomic step; what crosses an await or two atomic accesses is several steps, and the
  theorems quantify over all sequences of steps. Fields that record history (\<open>hi_\<close> in \<open>Accept\<close>,
  \<open>bk_verdicts\<close> and \<open>bk_answers\<close> in \<open>Pair_Confirm\<close>) exist for statements only: no guard reads them. There is
  no fuel: every loop is structural recursion over its input or a list of events, or has a
  termination proof; the reconnect loop of \<open>Agent_Driver\<close>, which a healthy adapter keeps running, is a partial
  function, and that it returns is a theorem.

  \<^bold>\<open>Parameters.\<close> Third-party code is an argument: the record \<open>crypto\<close> (X25519, HKDF, HMAC, XChaCha20-Poly1305)
  and the record \<open>postcard\<close> (serialisation). What the theorems need of it is named: \<open>aead_correct\<close> and
  \<open>aead_binds_aad\<close> (decryption inverts encryption, and succeeds only under the same associated data),
  \<open>x25519_agrees\<close>, \<open>hkdf_total\<close>, \<open>hmac_separates\<close> (tags of different keys or messages differ),
  \<open>postcard_roundtrip\<close>. The hash of file transfers is any function \<open>blake3\<close>, that of the push relay a record \<open>hash_lib\<close>. The length of the debug text of an
  event (\<open>dbg\<close>), decimal numerals (\<open>dec\<close>), the text of an error (\<open>disp\<close>) and the decoding of messages are functions passed in; of \<open>dbg\<close> the
  theorems assume that no text is longer than half the address space. The witnesses instantiate each with a concrete function. How hard the
  primitives are to break is outside the model.

  \<^bold>\<open>What is shown.\<close>
  \<^item> Bytes: frames and sealed envelopes round-trip, also as streams; everything accepted is canonical
    and within bounds; each malformed input has its error; associated data is unambiguous; a
    reflected, replayed or reordered envelope never opens, also under concurrent calls.
  \<^item> Secrets: phrases round-trip and exactly the listed texts parse; backoff, attempt cap and single
    use of an enrollment hold under every interleaving; secrets from before a reopening never enrol.
  \<^item> Storage: a required write that succeeded survives power loss; secrets go only into a private
    directory; a commit changes everything or nothing; a revocation is final through faults and
    crashes; a re-pairing never revives a revoked token; a missed rotation heals exactly once.
  \<^item> Handshake: which hello is challenged, honest parties agree and finish, a finished server has
    verified a proof under a credential held for that device, relayed proofs fail, one guess per
    connection.
  \<^item> Host: admission stays within its pools and keeps room for paired phones; no more devices enrol
    than the window was opened; a phone is told it is paired only after its token is stored and a
    human approved its code; the human's yes is for exactly that request; a device has one session,
    and a revoked one has none after the next round of the watcher.
  \<^item> Streaming: a phone that is not in the middle of a snapshot shows a contiguous stretch of the output
    that ends where its cursor says, and once it has received everything it shows all that the host
    retains; three interleavings outside the conditions of this theorem, in which it does not.
  \<^item> Sessions and agents: the number of sessions stays within its limit and no slot is lost; ids are not reused; what runs belongs to a listed session and a kill says what it
    did, except for an agent killed while it is being started and for a child that cannot be killed; one conversation has one driver; late viewers of an agent see the retained end of what others were sent; an agent
    is granted only what a viewer chose among the options shown to it, and is told that choice; messages to an agent
    are sent in order or accounted for, once each, and again only after a login; an adapter that keeps crashing is given up.
  \<^item> Connections of phones: every request is answered exactly once; no frame reaches the arm the code calls unreachable; once
    a revocation is pending nothing is sent but the rest of the arm under way and the notice, and once it is stored no command is carried out.
  \<^item> Local socket: its directory is private; a process that shares a terminal can touch nothing but its own session; a
    pairing is approved only by the answer to a code shown on that connection; the reply to a revocation is true.
  \<^item> Text: decoding in pieces equals decoding at once; buffers stay within their limit and valid.
  \<^item> Files of the host: no path a phone names, and no path of a file request of an agent, leaves its root through dots or links; an
    upload is acknowledged only when its target holds the verified bytes, with a name that must be
    excluded for this; a download sends the same chunks however the file is read.
  \<^item> Files of the phone, as long as the truncation and the seek of a restart succeed: what hosts send takes bounded room in the temporary files; a file at a
    path changes only by a download that was verified against the frame of the pairing asked. Host and phone together complete a download, fresh
    or resumed at the end of a whole chunk, and one resumed after a last chunk that is not whole is refused; which picked documents are accepted.
  \<^item> Relay: its table and its calls stay bounded under every sequence of requests; registrations come, change
    and go only with the secret of their pseudonym, by age or for want of room; room is always made, at
    the cost of the least recently refreshed; budgets hold in every span up to a factor of two.

  \<^bold>\<open>Steps coarser than the code.\<close> These make one step of what the code does in several, and the theorems do not speak about what happens in between: the
  reload of the store and the snapshot of the pairing state of a new connection (\<open>connect\<close> in \<open>Accept\<close>); spawning, registering and starting a session task (\<open>start_session\<close> in
  \<open>Active\<close>); entering a permission request and announcing it (\<open>request_permission\<close>), and entering an event into the history of an agent and announcing it
  (\<open>publish_event\<close>); removing a killed session, stopping its backend and announcing it (\<open>kill_session\<close>), where a driver killed before its abort handle was stored makes no requests any
  more in \<open>Agent_Permissions\<close>; the frames of an attach, which are all computed when its arm starts, where the code reads the pending approvals of an agent after it has written the
  snapshot (\<open>attach_client\<close>); the verification, the rename and the reading back of an upload (\<open>finish_upload\<close>); the two locked sections of
  a removal at the relay (\<open>revoke_registration\<close>). The temporary files of the phone's downloads have names apart from the paths the user chooses (\<open>install_download\<close>).

  \<^bold>\<open>Not modelled.\<close> QUIC and relay networking, tickets, Windows and Apple file protection, named pipes, PTYs and child
  processes, the messages of the agent protocol and the caches of past conversations (\<open>session.rs\<close>), the host's push client, the
  HTTP requests to push providers, the command line and the start of the daemon, and of the app all but streaming, file transfer and the file
  picker: most of it calls the operating system or a library, or prints. A path check and the file access it guards are separate
  system calls; each is one step here and no other process changes the tree between them. Poisoned
  locks are modelled where the code has a branch for them in the handshake (\<open>hs_pairing\<close>,
  \<open>hs_rate_limiter\<close> may be \<open>None\<close>) and otherwise not.
\<close>

end
